(* ===== verification/Go_Prelude.thy ===== *)
theory Go_Prelude
  imports Main "HOL-Library.Monad_Syntax"
begin

section \<open>Shared vocabulary: Go slices, run-time panics, majorities\<close>

text \<open>
  Go code panics where HOL functions are silently total. Every operation of the development
  that can panic returns an \<open>option\<close>: \<open>None\<close> is the run-time panic, \<open>Some r\<close>
  a normal return of \<open>r\<close>. The partial slice operations are defined here once:
  \<open>go_index\<close> is \<open>xs[i]\<close>, \<open>go_update\<close> is \<open>xs[i] = v\<close>, \<open>go_from\<close> is
  \<open>xs[i:]\<close> and \<open>go_upto\<close> is \<open>xs[:i]\<close>. Go's \<open>int\<close> is modelled by the
  unbounded \<open>int\<close>; where the wrap-around of a fixed-width counter matters the components
  use \<open>'w word\<close>.
  The last section is the abstract interface of quorums, instantiated by the strict
  majorities that the Raft code counts.
\<close>

named_theorems go_simps \<open>rewrite rules for the partial slice operations\<close>
named_theorems frame_simps \<open>which fields an operation leaves unchanged\<close>

abbreviation len :: "'a list \<Rightarrow> int" where
  "len xs \<equiv> int (length xs)"

subsection \<open>Slices\<close>

definition go_index :: "'a list \<Rightarrow> int \<Rightarrow> 'a option" where
  "go_index xs i = (if 0 \<le> i \<and> i < len xs then Some (xs ! nat i) else None)"

definition go_update :: "'a list \<Rightarrow> int \<Rightarrow> 'a \<Rightarrow> 'a list option" where
  "go_update xs i v = (if 0 \<le> i \<and> i < len xs then Some (xs[nat i := v]) else None)"

definition go_from :: "'a list \<Rightarrow> int \<Rightarrow> 'a list option" where
  "go_from xs i = (if 0 \<le> i \<and> i \<le> len xs then Some (drop (nat i) xs) else None)"

definition go_upto :: "'a list \<Rightarrow> int \<Rightarrow> 'a list option" where
  "go_upto xs i = (if 0 \<le> i \<and> i \<le> len xs then Some (take (nat i) xs) else None)"

text \<open>\<open>copy(dst, src)\<close> overwrites the common prefix of \<open>dst\<close>.\<close>

definition go_copy :: "'a list \<Rightarrow> 'a list \<Rightarrow> 'a list" where
  "go_copy dst src = take (length dst) src @ drop (length src) dst"

lemma go_index_in [go_simps]: "0 \<le> i \<Longrightarrow> i < len xs \<Longrightarrow> go_index xs i = Some (xs ! nat i)"
  by (simp add: go_index_def)

lemma go_index_Some_iff: "go_index xs i = Some x \<longleftrightarrow> 0 \<le> i \<and> i < len xs \<and> x = xs ! nat i"
  by (auto simp: go_index_def)

lemma go_index_nat [go_simps]: "k < length xs \<Longrightarrow> go_index xs (int k) = Some (xs ! k)"
  by (simp add: go_index_def)

lemma go_update_in [go_simps]: "0 \<le> i \<Longrightarrow> i < len xs \<Longrightarrow> go_update xs i v = Some (xs[nat i := v])"
  by (simp add: go_update_def)

lemma go_update_Some_iff:
  "go_update xs i v = Some ys \<longleftrightarrow> 0 \<le> i \<and> i < len xs \<and> ys = xs[nat i := v]"
  by (auto simp: go_update_def)

lemma go_from_in [go_simps]: "0 \<le> i \<Longrightarrow> i \<le> len xs \<Longrightarrow> go_from xs i = Some (drop (nat i) xs)"
  by (simp add: go_from_def)

lemma go_from_Some_iff: "go_from xs i = Some ys \<longleftrightarrow> 0 \<le> i \<and> i \<le> len xs \<and> ys = drop (nat i) xs"
  by (auto simp: go_from_def)

lemma go_upto_in [go_simps]: "0 \<le> i \<Longrightarrow> i \<le> len xs \<Longrightarrow> go_upto xs i = Some (take (nat i) xs)"
  by (simp add: go_upto_def)

lemma go_upto_Some_iff: "go_upto xs i = Some ys \<longleftrightarrow> 0 \<le> i \<and> i \<le> len xs \<and> ys = take (nat i) xs"
  by (auto simp: go_upto_def)

lemma go_copy_same_length [simp]: "length dst = length src \<Longrightarrow> go_copy dst src = src"
  by (simp add: go_copy_def)

lemma length_go_copy [simp]: "length (go_copy dst src) = length dst"
  by (auto simp: go_copy_def)

subsection \<open>Prefixes of lists\<close>

lemma take_eq_imp_take_le: "take m xs = take m ys \<Longrightarrow> k \<le> m \<Longrightarrow> take k xs = take k ys"
  by (metis min.absorb1 take_take)

lemma take_eq_imp_nth: "take m xs = take m ys \<Longrightarrow> k < m \<Longrightarrow> xs ! k = ys ! k"
  by (metis nth_take)

lemma take_eq_length:
  "take m xs = take m ys \<Longrightarrow> m \<le> length ys \<Longrightarrow> m \<le> length xs"
  by (metis length_take linorder_le_cases min_def take_all_iff)

lemma take_Suc_eq_iff:
  "k < length xs \<Longrightarrow> k < length ys \<Longrightarrow>
   take (Suc k) xs = take (Suc k) ys \<longleftrightarrow> take k xs = take k ys \<and> xs ! k = ys ! k"
  by (simp add: take_Suc_conv_app_nth)

subsection \<open>Quorums\<close>

text \<open>
  The interface the consensus proofs need of a quorum system: two quorums always share a member.
\<close>

locale quorum_system =
  fixes quorum :: "'a set \<Rightarrow> bool"
  assumes quorum_intersect: "quorum Q \<Longrightarrow> quorum Q' \<Longrightarrow> \<exists>x. x \<in> Q \<and> x \<in> Q'"
begin

lemma quorum_nonempty: "quorum Q \<Longrightarrow> Q \<noteq> {}"
  using quorum_intersect by blast

text \<open>Two decisions that are each backed by a quorum of voters agree when no voter of the
  first quorum ever backs two values.\<close>

lemma decisions_agree:
  assumes "quorum Q" and "\<forall>x \<in> Q. vote x a \<and> (\<forall>b. vote x b \<longrightarrow> b = a)"
    and "quorum Q'" and "\<forall>x \<in> Q'. vote x c"
  shows "c = a"
  using quorum_intersect [OF assms(1,3)] assms(2,4) by blast

end

text \<open>The members of a cluster of \<open>n\<close> servers, and its strict majorities.\<close>

definition members :: "int \<Rightarrow> int set" where
  "members n = {0..<n}"

definition majority :: "int \<Rightarrow> int set \<Rightarrow> bool" where
  "majority n Q \<longleftrightarrow> Q \<subseteq> members n \<and> Q \<noteq> {} \<and> n < 2 * int (card Q)"

lemma finite_members [simp]: "finite (members n)"
  by (simp add: members_def)

lemma card_members [simp]: "card (members n) = nat n"
  by (simp add: members_def)

lemma in_members [simp]: "i \<in> members n \<longleftrightarrow> 0 \<le> i \<and> i < n"
  by (simp add: members_def)

lemma majority_intersect:
  assumes "majority n Q" and "majority n Q'"
  shows "\<exists>x. x \<in> Q \<and> x \<in> Q'"
proof (rule ccontr)
  assume "\<nexists>x. x \<in> Q \<and> x \<in> Q'"
  then have disj: "Q \<inter> Q' = {}" by blast
  from assms have sub: "Q \<subseteq> members n" "Q' \<subseteq> members n" by (auto simp: majority_def)
  then have fin: "finite Q" "finite Q'" by (auto intro: finite_subset [OF _ finite_members])
  have "card Q + card Q' = card (Q \<union> Q')"
    using card_Un_disjoint [OF fin disj] by simp
  also have "\<dots> \<le> card (members n)"
    using sub by (intro card_mono) auto
  finally have le: "card Q + card Q' \<le> nat n" by simp
  from assms sub have "0 \<le> n" by (force simp: majority_def)
  with le have "int (card Q) + int (card Q') \<le> n" by linarith
  with assms show False by (auto simp: majority_def)
qed

interpretation maj: quorum_system "majority n" for n :: int
  by unfold_locales (rule majority_intersect)

end
