(* ===== verification/Raft_State.thy ===== *)
theory Raft_State
  imports Go_Prelude
begin

section \<open>The Raft peer: data, stable storage, role conversions\<close>

text \<open>
  The data of \<open>lab3/raft/raft.go\<close> (the log entry, \<open>ApplyMsg\<close>, the peer itself), the
  persister of \<open>lab3/raft/persister.go\<close>, and the operations of a peer that only touch its
  own state: \<open>GetState\<close>, \<open>persist\<close>, \<open>readPersist\<close>, the three role conversions,
  \<open>Start\<close>, \<open>Kill\<close>, \<open>killed\<close>, \<open>generateElectionTimeout\<close>,
  \<open>resetElectionTimer\<close> and \<open>Make\<close>.

  A client command is a value of the type parameter \<open>'c\<close> (Go's \<open>interface{}\<close>). The byte
  buffer that labgob fills is modelled at the level of the values encoded into it: a list of
  items, one per \<open>Encode\<close>; \<open>Decode\<close> takes the first item and fails when the buffer is
  empty or the item has another type. Log positions in the code are 1-based and the slice is
  0-based; the model keeps both as the code has them. A channel send from a fresh goroutine
  (\<open>resetTimerCh\<close>, \<open>voteSuccessCh\<close>) is a count of sends that wait for a receiver;
  \<open>applyCh\<close> is the list of messages sent so far. The clock and the random generator are
  arguments (\<open>now\<close>, \<open>r\<close>), in milliseconds.
\<close>

subsection \<open>Data\<close>

record 'c Log =
  Command :: 'c
  Term :: int

record 'c ApplyMsg =
  CommandValid :: bool
  msg_Command :: 'c
  CommandIndex :: int

datatype role = Leader | Follower | Candidate

datatype 'c gob_item = GobInt int | GobLog "'c Log list"

type_synonym 'c buffer = "'c gob_item list"

record 'c Persister =
  raftstate :: "'c buffer"
  snapshot :: "'c buffer"

record 'c raft =
  npeers :: int
  persister :: "'c Persister"
  me :: int
  dead :: int
  electionTimeout :: int
  lastHeartbeat :: int
  currentTerm :: int
  votedFor :: int
  log :: "'c Log list"
  commitIndex :: int
  lastApplied :: int
  myRole :: role
  nextIndex :: "int list"
  matchIndex :: "int list"
  applyCh :: "'c ApplyMsg list"
  resetTimerCh :: nat
  voteSuccessCh :: nat

subsection \<open>Stable storage\<close>

definition MakePersister :: "'c Persister" where
  "MakePersister = \<lparr>raftstate = [], snapshot = []\<rparr>"

text \<open>\<open>clone\<close> allocates a zeroed slice of the same length and copies into it.\<close>

definition clone :: "'c buffer \<Rightarrow> 'c buffer" where
  "clone orig = (let x = replicate (length orig) (GobInt 0) in go_copy x orig)"

definition Copy :: "'c Persister \<Rightarrow> 'c Persister" where
  "Copy ps = (let np = MakePersister in
     np\<lparr>raftstate := raftstate ps, snapshot := snapshot ps\<rparr>)"

definition SaveRaftState :: "'c Persister \<Rightarrow> 'c buffer \<Rightarrow> 'c Persister" where
  "SaveRaftState ps state = ps\<lparr>raftstate := clone state\<rparr>"

definition ReadRaftState :: "'c Persister \<Rightarrow> 'c buffer" where
  "ReadRaftState ps = clone (raftstate ps)"

definition RaftStateSize :: "'c Persister \<Rightarrow> int" where
  "RaftStateSize ps = len (raftstate ps)"

definition SaveStateAndSnapshot :: "'c Persister \<Rightarrow> 'c buffer \<Rightarrow> 'c buffer \<Rightarrow> 'c Persister" where
  "SaveStateAndSnapshot ps state snap = ps\<lparr>raftstate := clone state, snapshot := clone snap\<rparr>"

definition ReadSnapshot :: "'c Persister \<Rightarrow> 'c buffer" where
  "ReadSnapshot ps = clone (snapshot ps)"

definition SnapshotSize :: "'c Persister \<Rightarrow> int" where
  "SnapshotSize ps = len (snapshot ps)"

text \<open>
  The interface the Raft code relies on: what was saved last is read back, and saving the Raft
  state leaves the snapshot alone.
\<close>

locale stable_store =
  fixes save_state :: "'s \<Rightarrow> 'd \<Rightarrow> 's"
    and read_state :: "'s \<Rightarrow> 'd"
    and read_snap :: "'s \<Rightarrow> 'd"
    and save_both :: "'s \<Rightarrow> 'd \<Rightarrow> 'd \<Rightarrow> 's"
  assumes read_save_state: "read_state (save_state s d) = d"
    and snap_save_state: "read_snap (save_state s d) = read_snap s"
    and read_save_both: "read_state (save_both s d e) = d"
    and snap_save_both: "read_snap (save_both s d e) = e"
begin

text \<open>Re-creating a store from what another one holds, as a restart does, loses nothing.\<close>

lemma restart_transfers:
  "read_state (save_both t (read_state s) (read_snap s)) = read_state s \<and>
   read_snap (save_both t (read_state s) (read_snap s)) = read_snap s"
  by (simp add: read_save_both snap_save_both)

lemma last_save_wins:
  "read_state (save_state (save_state s d) d') = d'"
  by (rule read_save_state)

end

lemma clone_id [simp]: "clone orig = orig"
  by (simp add: clone_def)

interpretation ps: stable_store SaveRaftState ReadRaftState ReadSnapshot SaveStateAndSnapshot
  by unfold_locales
    (simp_all add: SaveRaftState_def ReadRaftState_def ReadSnapshot_def SaveStateAndSnapshot_def)

subsection \<open>Encoding\<close>

definition Encode :: "'c buffer \<Rightarrow> 'c gob_item \<Rightarrow> 'c buffer" where
  "Encode w v = w @ [v]"

fun DecodeInt :: "'c buffer \<Rightarrow> (int \<times> 'c buffer) option" where
  "DecodeInt (GobInt i # r) = Some (i, r)"
| "DecodeInt _ = None"

fun DecodeLog :: "'c buffer \<Rightarrow> ('c Log list \<times> 'c buffer) option" where
  "DecodeLog (GobLog l # r) = Some (l, r)"
| "DecodeLog _ = None"

fun_cases DecodeInt_SomeE: "DecodeInt b = Some p"
fun_cases DecodeLog_SomeE: "DecodeLog b = Some p"

subsection \<open>Persisting and restoring\<close>

definition persist :: "'c raft \<Rightarrow> 'c raft" where
  "persist rf =
     (let w = [];
          w = Encode w (GobInt (currentTerm rf));
          w = Encode w (GobInt (votedFor rf));
          w = Encode w (GobLog (log rf))
      in rf\<lparr>persister := SaveRaftState (persister rf) w\<rparr>)"

definition readPersist :: "'c buffer \<Rightarrow> 'c raft \<Rightarrow> 'c raft" where
  "readPersist data rf =
     (if length data < 1 then rf
      else case DecodeInt data of
          None \<Rightarrow> rf
        | Some (t, d1) \<Rightarrow>
            (case DecodeInt d1 of
              None \<Rightarrow> rf
            | Some (v, d2) \<Rightarrow>
                (case DecodeLog d2 of
                  None \<Rightarrow> rf
                | Some (l, d3) \<Rightarrow> rf\<lparr>currentTerm := t, votedFor := v, log := l\<rparr>)))"

subsection \<open>Reading the state, killing, the election timer\<close>

definition GetState :: "'c raft \<Rightarrow> int \<times> bool" where
  "GetState rf = (currentTerm rf, if myRole rf = Leader then True else False)"

definition Kill :: "'c raft \<Rightarrow> 'c raft" where
  "Kill rf = rf\<lparr>dead := 1\<rparr>"

definition killed :: "'c raft \<Rightarrow> bool" where
  "killed rf \<longleftrightarrow> dead rf = 1"

text \<open>\<open>r\<close> is the result of \<open>rand.Intn(200)\<close>, a number in \<open>[0, 200)\<close>.\<close>

definition generateElectionTimeout :: "int \<Rightarrow> int" where
  "generateElectionTimeout r = r + 200"

definition resetElectionTimer :: "int \<Rightarrow> 'c raft \<Rightarrow> 'c raft" where
  "resetElectionTimer now rf =
     rf\<lparr>lastHeartbeat := now, resetTimerCh := Suc (resetTimerCh rf)\<rparr>"

subsection \<open>Role conversions\<close>

definition convertToFollower :: "int \<Rightarrow> int \<Rightarrow> 'c raft \<Rightarrow> 'c raft" where
  "convertToFollower trm vf rf =
     persist (rf\<lparr>myRole := Follower, currentTerm := trm, votedFor := vf\<rparr>)"

definition convertToLeader :: "'c raft \<Rightarrow> 'c raft option" where
  "convertToLeader rf =
     (let rf = rf\<lparr>myRole := Leader\<rparr>;
          rf = rf\<lparr>nextIndex := map (\<lambda>_. len (log rf) + 1) [0..<nat (npeers rf)],
                  matchIndex := map (\<lambda>_. 0) [0..<nat (npeers rf)]\<rparr>
      in do {
        mi \<leftarrow> go_update (matchIndex rf) (me rf) (len (log rf));
        Some (persist (rf\<lparr>matchIndex := mi\<rparr>))
      })"

definition convertToCandidate :: "int \<Rightarrow> int \<Rightarrow> 'c raft \<Rightarrow> 'c raft" where
  "convertToCandidate now r rf =
     (let rf = rf\<lparr>myRole := Candidate\<rparr>;
          rf = rf\<lparr>currentTerm := currentTerm rf + 1\<rparr>;
          rf = rf\<lparr>votedFor := me rf\<rparr>;
          rf = rf\<lparr>lastHeartbeat := now\<rparr>;
          rf = rf\<lparr>electionTimeout := generateElectionTimeout r\<rparr>
      in persist rf)"

subsection \<open>Proposing a command\<close>

text \<open>
  \<open>Start\<close> also forks \<open>sendAppendEntriesToAllPeers\<close>; its calls are steps of the cluster
  model (\<open>Raft_Cluster\<close>). A peer that is not the leader answers \<open>(-1, -1, False)\<close>.
\<close>

definition Start :: "'c \<Rightarrow> 'c raft \<Rightarrow> (int \<times> int \<times> bool) \<times> 'c raft" where
  "Start command rf =
     (if myRole rf \<noteq> Leader then ((-1, -1, False), rf)
      else
        let rf = rf\<lparr>log := log rf @ [\<lparr>Command = command, Term = currentTerm rf\<rparr>]\<rparr>;
            rf = persist rf
        in ((len (log rf), currentTerm rf, True), rf))"

subsection \<open>Creating a peer\<close>

definition Make :: "int \<Rightarrow> int \<Rightarrow> 'c Persister \<Rightarrow> int \<Rightarrow> int \<Rightarrow> 'c raft" where
  "Make n i ps now r =
     (let rf = \<lparr>npeers = n, persister = ps, me = i, dead = 0,
                electionTimeout = generateElectionTimeout r, lastHeartbeat = now,
                currentTerm = 0, votedFor = -1, log = [],
                commitIndex = 0, lastApplied = 0, myRole = Follower,
                nextIndex = [], matchIndex = [],
                applyCh = [], resetTimerCh = 0, voteSuccessCh = 0\<rparr>
      in readPersist (ReadRaftState ps) rf)"

subsection \<open>What persisting buys\<close>

text \<open>The bytes a peer's current state encodes to.\<close>

definition encoded_state :: "'c raft \<Rightarrow> 'c buffer" where
  "encoded_state rf = [GobInt (currentTerm rf), GobInt (votedFor rf), GobLog (log rf)]"

text \<open>
  The durability invariant: what a restart would recover is the state the peer is in. A peer that
  has never persisted has an empty buffer and still holds its initial term, vote and log.
\<close>

definition in_sync :: "'c raft \<Rightarrow> bool" where
  "in_sync rf \<longleftrightarrow>
     raftstate (persister rf) = encoded_state rf \<or>
     raftstate (persister rf) = [] \<and> currentTerm rf = 0 \<and> votedFor rf = -1 \<and> log rf = []"

lemma persist_eq: "persist rf = rf\<lparr>persister := (persister rf)\<lparr>raftstate := encoded_state rf\<rparr>\<rparr>"
  by (simp add: persist_def Encode_def SaveRaftState_def encoded_state_def)

lemma persist_frame [simp, frame_simps]:
  "npeers (persist rf) = npeers rf" "me (persist rf) = me rf" "dead (persist rf) = dead rf"
  "electionTimeout (persist rf) = electionTimeout rf" "lastHeartbeat (persist rf) = lastHeartbeat rf"
  "currentTerm (persist rf) = currentTerm rf" "votedFor (persist rf) = votedFor rf"
  "log (persist rf) = log rf" "commitIndex (persist rf) = commitIndex rf"
  "lastApplied (persist rf) = lastApplied rf" "myRole (persist rf) = myRole rf"
  "nextIndex (persist rf) = nextIndex rf" "matchIndex (persist rf) = matchIndex rf"
  "applyCh (persist rf) = applyCh rf" "resetTimerCh (persist rf) = resetTimerCh rf"
  "voteSuccessCh (persist rf) = voteSuccessCh rf"
  "raftstate (persister (persist rf)) = encoded_state rf"
  by (simp_all add: persist_eq)

lemma in_sync_persist [simp]: "in_sync (persist rf)"
  by (simp add: in_sync_def encoded_state_def)

lemma in_sync_cong:
  "in_sync rf \<Longrightarrow> persister rf' = persister rf \<Longrightarrow> currentTerm rf' = currentTerm rf \<Longrightarrow>
   votedFor rf' = votedFor rf \<Longrightarrow> log rf' = log rf \<Longrightarrow> in_sync rf'"
  by (simp add: in_sync_def encoded_state_def)

lemma readPersist_empty [simp]: "readPersist [] rf = rf"
  by (simp add: readPersist_def)

lemma readPersist_encoded [simp]:
  "readPersist (encoded_state rf) rf0 =
     rf0\<lparr>currentTerm := currentTerm rf, votedFor := votedFor rf, log := log rf\<rparr>"
  by (simp add: readPersist_def encoded_state_def)

lemma resetElectionTimer_frame [simp, frame_simps]:
  "npeers (resetElectionTimer now rf) = npeers rf" "me (resetElectionTimer now rf) = me rf"
  "persister (resetElectionTimer now rf) = persister rf" "dead (resetElectionTimer now rf) = dead rf"
  "currentTerm (resetElectionTimer now rf) = currentTerm rf"
  "votedFor (resetElectionTimer now rf) = votedFor rf"
  "log (resetElectionTimer now rf) = log rf"
  "commitIndex (resetElectionTimer now rf) = commitIndex rf"
  "lastApplied (resetElectionTimer now rf) = lastApplied rf"
  "myRole (resetElectionTimer now rf) = myRole rf"
  "nextIndex (resetElectionTimer now rf) = nextIndex rf"
  "matchIndex (resetElectionTimer now rf) = matchIndex rf"
  "applyCh (resetElectionTimer now rf) = applyCh rf"
  by (simp_all add: resetElectionTimer_def)

lemma in_sync_resetElectionTimer [simp]:
  "in_sync (resetElectionTimer now rf) = in_sync rf"
  by (simp add: in_sync_def encoded_state_def)

lemma convertToFollower_frame [simp, frame_simps]:
  "npeers (convertToFollower t v rf) = npeers rf" "me (convertToFollower t v rf) = me rf"
  "dead (convertToFollower t v rf) = dead rf"
  "currentTerm (convertToFollower t v rf) = t" "votedFor (convertToFollower t v rf) = v"
  "log (convertToFollower t v rf) = log rf" "myRole (convertToFollower t v rf) = Follower"
  "commitIndex (convertToFollower t v rf) = commitIndex rf"
  "lastApplied (convertToFollower t v rf) = lastApplied rf"
  "nextIndex (convertToFollower t v rf) = nextIndex rf"
  "matchIndex (convertToFollower t v rf) = matchIndex rf"
  "applyCh (convertToFollower t v rf) = applyCh rf"
  "in_sync (convertToFollower t v rf)"
  by (simp_all add: convertToFollower_def)

lemma convertToCandidate_frame [simp, frame_simps]:
  "npeers (convertToCandidate now r rf) = npeers rf" "me (convertToCandidate now r rf) = me rf"
  "dead (convertToCandidate now r rf) = dead rf"
  "currentTerm (convertToCandidate now r rf) = currentTerm rf + 1"
  "votedFor (convertToCandidate now r rf) = me rf"
  "log (convertToCandidate now r rf) = log rf" "myRole (convertToCandidate now r rf) = Candidate"
  "commitIndex (convertToCandidate now r rf) = commitIndex rf"
  "lastApplied (convertToCandidate now r rf) = lastApplied rf"
  "nextIndex (convertToCandidate now r rf) = nextIndex rf"
  "matchIndex (convertToCandidate now r rf) = matchIndex rf"
  "applyCh (convertToCandidate now r rf) = applyCh rf"
  "in_sync (convertToCandidate now r rf)"
  by (simp_all add: convertToCandidate_def Let_def)

lemma convertToLeader_eq:
  "convertToLeader rf =
     (if 0 \<le> me rf \<and> me rf < npeers rf
      then Some (persist (rf\<lparr>myRole := Leader,
             nextIndex := replicate (nat (npeers rf)) (len (log rf) + 1),
             matchIndex := (replicate (nat (npeers rf)) 0)[nat (me rf) := len (log rf)]\<rparr>))
      else None)"
  by (auto simp: convertToLeader_def Let_def go_update_def map_replicate_const)

lemma convertToLeader_SomeE:
  assumes "convertToLeader rf = Some rf'"
  obtains "0 \<le> me rf" "me rf < npeers rf"
    "rf' = persist (rf\<lparr>myRole := Leader,
             nextIndex := replicate (nat (npeers rf)) (len (log rf) + 1),
             matchIndex := (replicate (nat (npeers rf)) 0)[nat (me rf) := len (log rf)]\<rparr>)"
  using assms by (auto simp: convertToLeader_eq split: if_splits)

lemma Start_frame [simp, frame_simps]:
  "npeers (snd (Start c rf)) = npeers rf" "me (snd (Start c rf)) = me rf"
  "currentTerm (snd (Start c rf)) = currentTerm rf" "votedFor (snd (Start c rf)) = votedFor rf"
  "myRole (snd (Start c rf)) = myRole rf" "commitIndex (snd (Start c rf)) = commitIndex rf"
  "lastApplied (snd (Start c rf)) = lastApplied rf" "nextIndex (snd (Start c rf)) = nextIndex rf"
  "matchIndex (snd (Start c rf)) = matchIndex rf" "applyCh (snd (Start c rf)) = applyCh rf"
  "dead (snd (Start c rf)) = dead rf"
  by (simp_all add: Start_def Let_def)

lemma Start_log:
  "log (snd (Start c rf)) =
     (if myRole rf = Leader then log rf @ [\<lparr>Command = c, Term = currentTerm rf\<rparr>] else log rf)"
  by (simp add: Start_def Let_def)

lemma Start_in_sync: "in_sync rf \<Longrightarrow> in_sync (snd (Start c rf))"
  by (simp add: Start_def Let_def)

lemma readPersist_frame [simp, frame_simps]:
  "npeers (readPersist d rf) = npeers rf" "me (readPersist d rf) = me rf"
  "persister (readPersist d rf) = persister rf" "dead (readPersist d rf) = dead rf"
  "commitIndex (readPersist d rf) = commitIndex rf" "lastApplied (readPersist d rf) = lastApplied rf"
  "myRole (readPersist d rf) = myRole rf" "applyCh (readPersist d rf) = applyCh rf"
  "nextIndex (readPersist d rf) = nextIndex rf" "matchIndex (readPersist d rf) = matchIndex rf"
  by (simp_all add: readPersist_def split: option.splits)

lemma Make_frame [simp, frame_simps]:
  "npeers (Make n i ps now r) = n" "me (Make n i ps now r) = i"
  "persister (Make n i ps now r) = ps" "dead (Make n i ps now r) = 0"
  "commitIndex (Make n i ps now r) = 0" "lastApplied (Make n i ps now r) = 0"
  "myRole (Make n i ps now r) = Follower" "applyCh (Make n i ps now r) = []"
  "nextIndex (Make n i ps now r) = []" "matchIndex (Make n i ps now r) = []"
  by (simp_all add: Make_def)

lemma Make_recovers:
  assumes "in_sync rf" and "raftstate ps = raftstate (persister rf)"
  shows "currentTerm (Make n i ps now r) = currentTerm rf"
    and "votedFor (Make n i ps now r) = votedFor rf"
    and "log (Make n i ps now r) = log rf"
    and "in_sync (Make n i ps now r)"
  using assms by (auto simp: in_sync_def Make_def ReadRaftState_def encoded_state_def readPersist_def)

end
