(* ===== verification/Raft_Rpc.thy ===== *)
theory Raft_Rpc
  imports Raft_State
begin

section \<open>The RPC handlers of a Raft peer\<close>

text \<open>
  \<open>AppendEntries\<close> and \<open>RequestVote\<close> of \<open>lab3/raft/raft.go\<close>, each one critical
  section under \<open>rf.mu\<close>, with the loops they contain. A handler gets a zeroed reply, fills
  it in and returns it with the new state; \<open>None\<close> is a run-time panic (an index out of
  range). The lemmas give each loop a closed form: the conflict scan plus append is the
  reference function \<open>merge_entries\<close>, the apply loop sends exactly the newly committed
  entries in order.
\<close>

record 'c AppendEntriesArgs =
  aea_Term :: int
  aea_LeaderId :: int
  aea_PrevLogIndex :: int
  aea_PrevLogTerm :: int
  aea_Entries :: "'c Log list"
  aea_LeaderCommit :: int

record AppendEntriesReply =
  aer_Term :: int
  aer_Success :: bool
  aer_ConflictTerm :: int
  aer_ConflictIndex :: int

record RequestVoteArgs =
  rva_Term :: int
  rva_CandidateId :: int
  rva_LastLogIndex :: int
  rva_LastLogTerm :: int

record RequestVoteReply =
  rvr_Term :: int
  rvr_VoteGranted :: bool

definition zero_AppendEntriesReply :: AppendEntriesReply where
  "zero_AppendEntriesReply =
     \<lparr>aer_Term = 0, aer_Success = False, aer_ConflictTerm = 0, aer_ConflictIndex = 0\<rparr>"

definition zero_RequestVoteReply :: RequestVoteReply where
  "zero_RequestVoteReply = \<lparr>rvr_Term = 0, rvr_VoteGranted = False\<rparr>"

definition getMin :: "int \<Rightarrow> int \<Rightarrow> int" where
  "getMin a b = (if a > b then b else a)"

subsection \<open>Loops\<close>

text \<open>The search for the first entry of the conflicting term; \<open>0\<close> is the reply's zero value,
  which stays when there is none. \<open>i\<close> is the 1-based position of the head of the list.\<close>

fun find_conflict_index :: "int \<Rightarrow> int \<Rightarrow> 'c Log list \<Rightarrow> int" where
  "find_conflict_index ct i [] = 0"
| "find_conflict_index ct i (e # es) =
     (if Term e = ct then i else find_conflict_index ct (i + 1) es)"

text \<open>The scan of step (6): compare, truncate at the first conflict, return the log and the
  position of the first entry that still has to be appended.\<close>

function scan_entries ::
  "'c Log list \<Rightarrow> 'c Log list \<Rightarrow> int \<Rightarrow> int \<Rightarrow> ('c Log list \<times> int) option" where
  "scan_entries lg es insertIndex newEntriesIndex =
     (if insertIndex < len lg \<and> newEntriesIndex < len es then do {
        e \<leftarrow> go_index es newEntriesIndex;
        l \<leftarrow> go_index lg insertIndex;
        if Term e \<noteq> Term l then do {
          lg' \<leftarrow> go_upto lg insertIndex;
          Some (lg', newEntriesIndex)
        } else scan_entries lg es (insertIndex + 1) (newEntriesIndex + 1)
      } else Some (lg, newEntriesIndex))"
  by pat_completeness auto
termination
  by (relation "measure (\<lambda>(lg, es, i, j). nat (len lg - i))") auto

declare scan_entries.simps [simp del]

text \<open>The apply loop: deliver the entries between \<open>lastApplied\<close> and \<open>commitIndex\<close>.\<close>

function apply_committed :: "'c raft \<Rightarrow> 'c raft option" where
  "apply_committed rf =
     (if lastApplied rf < commitIndex rf then
        let rf = rf\<lparr>lastApplied := lastApplied rf + 1\<rparr> in
        (case go_index (log rf) (lastApplied rf - 1) of
          None \<Rightarrow> None
        | Some e \<Rightarrow>
            apply_committed (rf\<lparr>applyCh := applyCh rf @
              [\<lparr>CommandValid = True, msg_Command = Command e, CommandIndex = lastApplied rf\<rparr>]\<rparr>))
      else Some rf)"
  by pat_completeness auto
termination
  by (relation "measure (\<lambda>rf. nat (commitIndex rf - lastApplied rf))") auto

declare apply_committed.simps [simp del]

subsection \<open>AppendEntries\<close>

text \<open>Steps (2) to (4): reset the timer, adopt a newer term, step down for a legitimate leader.\<close>

definition recognise_leader :: "int \<Rightarrow> 'c AppendEntriesArgs \<Rightarrow> 'c raft \<Rightarrow> 'c raft" where
  "recognise_leader now args rf =
     (let rf = resetElectionTimer now rf;
          rf = (if aea_Term args > currentTerm rf
                then convertToFollower (aea_Term args) (aea_LeaderId args) rf else rf);
          rf = (if myRole rf = Candidate \<and> aea_Term args \<ge> currentTerm rf
                then convertToFollower (aea_Term args) (aea_LeaderId args) rf else rf)
      in rf)"

text \<open>Steps (6) to (8): install the entries, persist, advance the commit index, apply.\<close>

definition install_entries :: "'c AppendEntriesArgs \<Rightarrow> 'c raft \<Rightarrow> 'c raft option" where
  "install_entries args rf = do {
     (lg, newEntriesIndex) \<leftarrow>
        scan_entries (log rf) (aea_Entries args) (aea_PrevLogIndex args) 0;
     new \<leftarrow> go_from (aea_Entries args) newEntriesIndex;
     let rf = persist (rf\<lparr>log := lg @ new\<rparr>);
     if aea_LeaderCommit args > commitIndex rf
     then apply_committed (rf\<lparr>commitIndex := getMin (aea_LeaderCommit args) (len (log rf))\<rparr>)
     else Some rf
   }"

definition AppendEntries ::
  "int \<Rightarrow> 'c AppendEntriesArgs \<Rightarrow> 'c raft \<Rightarrow> (AppendEntriesReply \<times> 'c raft) option" where
  "AppendEntries now args rf =
     (let reply = zero_AppendEntriesReply in
      if aea_Term args < currentTerm rf then
        Some (reply\<lparr>aer_Success := False, aer_Term := currentTerm rf\<rparr>, rf)
      else
        let rf = recognise_leader now args rf in
        if aea_PrevLogIndex args > len (log rf) then
          Some (reply\<lparr>aer_Success := False, aer_Term := currentTerm rf,
                      aer_ConflictIndex := len (log rf) + 1, aer_ConflictTerm := -1\<rparr>, rf)
        else do {
          mismatch \<leftarrow>
            (if aea_PrevLogIndex args > 0 then do {
               e \<leftarrow> go_index (log rf) (aea_PrevLogIndex args - 1);
               Some (Term e \<noteq> aea_PrevLogTerm args)
             } else Some False);
          if mismatch then do {
            e \<leftarrow> go_index (log rf) (aea_PrevLogIndex args - 1);
            Some (reply\<lparr>aer_Success := False, aer_Term := currentTerm rf,
                        aer_ConflictTerm := Term e,
                        aer_ConflictIndex := find_conflict_index (Term e) 1 (log rf)\<rparr>, rf)
          } else do {
            rf' \<leftarrow> install_entries args rf;
            Some (reply\<lparr>aer_Term := currentTerm rf', aer_Success := True\<rparr>, rf')
          }
        })"

subsection \<open>RequestVote\<close>

definition RequestVote :: "int \<Rightarrow> RequestVoteArgs \<Rightarrow> 'c raft \<Rightarrow> RequestVoteReply \<times> 'c raft" where
  "RequestVote now args rf =
     (let reply = zero_RequestVoteReply in
      if rva_Term args < currentTerm rf then
        (reply\<lparr>rvr_VoteGranted := False, rvr_Term := currentTerm rf\<rparr>, rf)
      else
        let rf = (if rva_Term args > currentTerm rf
                  then convertToFollower (rva_Term args) (-1) rf else rf);
            reply = reply\<lparr>rvr_Term := currentTerm rf\<rparr>;
            reply =
              (if votedFor rf = -1 \<or> votedFor rf = rva_CandidateId args then
                 let candidateLogTerm = rva_LastLogTerm args;
                     receiverLogTerm = (if length (log rf) > 0 then Term (last (log rf)) else -1)
                 in if candidateLogTerm \<noteq> receiverLogTerm then
                      (if candidateLogTerm < receiverLogTerm
                       then reply\<lparr>rvr_VoteGranted := False\<rparr>
                       else reply\<lparr>rvr_VoteGranted := True\<rparr>)
                    else
                      (if rva_LastLogIndex args < len (log rf)
                       then reply\<lparr>rvr_VoteGranted := False\<rparr>
                       else reply\<lparr>rvr_VoteGranted := True\<rparr>)
               else reply\<lparr>rvr_VoteGranted := False\<rparr>);
            rf = (if rvr_VoteGranted reply
                  then persist ((resetElectionTimer now rf)\<lparr>votedFor := rva_CandidateId args\<rparr>)
                  else rf)
        in (reply, rf))"

subsection \<open>The conflict scan is a merge\<close>

text \<open>The reference: walk both lists while the terms agree; from the first disagreement, or
  once the log is exhausted, the new entries replace the rest.\<close>

fun merge_entries :: "'c Log list \<Rightarrow> 'c Log list \<Rightarrow> 'c Log list" where
  "merge_entries ls [] = ls"
| "merge_entries [] es = es"
| "merge_entries (l # ls) (e # es) =
     (if Term e \<noteq> Term l then e # es else l # merge_entries ls es)"

lemma scan_entries_merge:
  assumes "0 \<le> i" and "i \<le> len lg" and "0 \<le> j" and "j \<le> len es"
  shows "\<exists>lg' k. scan_entries lg es i j = Some (lg', k) \<and> 0 \<le> k \<and> k \<le> len es \<and>
     lg' @ drop (nat k) es = take (nat i) lg @ merge_entries (drop (nat i) lg) (drop (nat j) es)"
  using assms
proof (induction lg es i j rule: scan_entries.induct)
  case (1 lg es i j)
  show ?case
  proof (cases "i < len lg \<and> j < len es")
    case False
    then have "drop (nat i) lg = [] \<or> drop (nat j) es = []"
      using "1.prems" by auto
    then have "merge_entries (drop (nat i) lg) (drop (nat j) es) = drop (nat i) lg @ drop (nat j) es"
      by (cases "drop (nat j) es") auto
    moreover have "scan_entries lg es i j = Some (lg, j)"
      by (simp only: scan_entries.simps [of lg es i j] False if_False)
    ultimately show ?thesis using "1.prems" by (simp flip: append_assoc)
  next
    case True
    let ?l = "lg ! nat i" and ?e = "es ! nat j"
    from True "1.prems" have drops:
      "drop (nat i) lg = ?l # drop (nat (i + 1)) lg" "drop (nat j) es = ?e # drop (nat (j + 1)) es"
      by (auto simp: nat_add_distrib intro!: Cons_nth_drop_Suc [symmetric])
    have tk: "take (nat (i + 1)) lg = take (nat i) lg @ [?l]"
      using True "1.prems" by (auto simp: nat_add_distrib take_Suc_conv_app_nth)
    show ?thesis
    proof (cases "Term ?e = Term ?l")
      case same: True
      have eq: "scan_entries lg es i j = scan_entries lg es (i + 1) (j + 1)"
        using True same "1.prems" by (simp add: scan_entries.simps [of lg es i j] go_simps)
      have "\<exists>lg' k. scan_entries lg es (i + 1) (j + 1) = Some (lg', k) \<and> 0 \<le> k \<and> k \<le> len es \<and>
         lg' @ drop (nat k) es =
         take (nat (i + 1)) lg @ merge_entries (drop (nat (i + 1)) lg) (drop (nat (j + 1)) es)"
        using "1.prems" True same
        by (intro "1.IH" [of ?e ?l]) (auto simp: go_simps)
      then show ?thesis unfolding eq tk by (simp add: drops same)
    next
      case False
      with True "1.prems" show ?thesis
        by (simp add: scan_entries.simps [of lg es i j] go_simps drops)
    qed
  qed
qed

lemma length_merge_entries: "length es \<le> length (merge_entries ls es)"
  by (induction ls es rule: merge_entries.induct) auto

lemma set_merge_entries: "set (merge_entries ls es) \<subseteq> set ls \<union> set es"
  by (induction ls es rule: merge_entries.induct) auto

text \<open>What the merge leaves in the log agrees in terms with the new entries, position by
  position: nothing the leader sent is missing.\<close>

lemma merge_entries_terms: "map Term (take (length es) (merge_entries ls es)) = map Term es"
  by (induction ls es rule: merge_entries.induct) auto

lemma merge_entries_cases:
  "merge_entries ls es = ls \<and> length es \<le> length ls \<or>
   (\<exists>k < length es. k \<le> length ls \<and> merge_entries ls es = take k ls @ drop k es \<and>
      (\<forall>i<k. Term (ls ! i) = Term (es ! i)) \<and>
      (k = length ls \<or> Term (ls ! k) \<noteq> Term (es ! k)))"
proof (induction ls es rule: merge_entries.induct)
  case (3 l ls e es)
  show ?case
  proof (cases "Term e = Term l")
    case False
    then show ?thesis by (auto intro!: exI [of _ "0::nat"])
  next
    case True
    with 3 consider "merge_entries ls es = ls" "length es \<le> length ls"
      | k where "k < length es" "k \<le> length ls" "merge_entries ls es = take k ls @ drop k es"
        "\<forall>i<k. Term (ls ! i) = Term (es ! i)" "k = length ls \<or> Term (ls ! k) \<noteq> Term (es ! k)"
      by auto
    then show ?thesis
    proof cases
      case 1
      with True show ?thesis by auto
    next
      case 2
      with True show ?thesis
        by (intro disjI2 exI [of _ "Suc k"]) (auto simp: nth_Cons split: nat.split)
    qed
  qed
qed auto

subsection \<open>The apply loop delivers the committed entries in order\<close>

definition entry_msg :: "'c Log list \<Rightarrow> int \<Rightarrow> 'c ApplyMsg" where
  "entry_msg lg k =
     \<lparr>CommandValid = True, msg_Command = Command (lg ! nat (k - 1)), CommandIndex = k\<rparr>"

lemma CommandIndex_entry_msg [simp]: "CommandIndex (entry_msg lg k) = k"
  by (simp add: entry_msg_def)

lemma apply_committed_done: "commitIndex rf \<le> lastApplied rf \<Longrightarrow> apply_committed rf = Some rf"
  by (simp add: apply_committed.simps [of rf])

lemma apply_committed_eq:
  assumes "0 \<le> lastApplied rf" and "lastApplied rf \<le> commitIndex rf"
    and "commitIndex rf \<le> len (log rf)"
  shows "apply_committed rf = Some (rf\<lparr>lastApplied := commitIndex rf,
     applyCh := applyCh rf @ map (entry_msg (log rf)) [lastApplied rf + 1..commitIndex rf]\<rparr>)"
  using assms
proof (induction rf rule: apply_committed.induct)
  case (1 rf)
  show ?case
  proof (cases "lastApplied rf < commitIndex rf")
    case False
    with "1.prems" have "commitIndex rf = lastApplied rf" by simp
    then show ?thesis by (simp add: apply_committed_done)
  next
    case True
    with "1.prems" have step: "apply_committed rf = apply_committed (rf\<lparr>lastApplied := lastApplied rf + 1,
        applyCh := applyCh rf @ [entry_msg (log rf) (lastApplied rf + 1)]\<rparr>)"
      by (simp add: apply_committed.simps [of rf] go_simps entry_msg_def)
    have range: "map (entry_msg (log rf)) [lastApplied rf + 1..commitIndex rf] =
        entry_msg (log rf) (lastApplied rf + 1) # map (entry_msg (log rf)) [lastApplied rf + 1 + 1..commitIndex rf]"
      using True by (subst upto_rec1) simp_all
    define rf' where "rf' = rf\<lparr>lastApplied := lastApplied rf + 1,
        applyCh := applyCh rf @ [entry_msg (log rf) (lastApplied rf + 1)]\<rparr>"
    have "apply_committed rf' = Some (rf'\<lparr>lastApplied := commitIndex rf',
        applyCh := applyCh rf' @ map (entry_msg (log rf')) [lastApplied rf' + 1..commitIndex rf']\<rparr>)"
      using "1.IH" [OF True refl, of "log rf ! nat (lastApplied rf)"] True "1.prems"
      by (simp add: go_simps entry_msg_def rf'_def)
    then show ?thesis
      unfolding step range by (simp add: rf'_def)
  qed
qed

subsection \<open>What the handlers do\<close>

lemma recognise_leader_frame [simp, frame_simps]:
  "npeers (recognise_leader now args rf) = npeers rf" "me (recognise_leader now args rf) = me rf"
  "dead (recognise_leader now args rf) = dead rf"
  "log (recognise_leader now args rf) = log rf"
  "commitIndex (recognise_leader now args rf) = commitIndex rf"
  "lastApplied (recognise_leader now args rf) = lastApplied rf"
  "nextIndex (recognise_leader now args rf) = nextIndex rf"
  "matchIndex (recognise_leader now args rf) = matchIndex rf"
  "applyCh (recognise_leader now args rf) = applyCh rf"
  by (simp_all add: recognise_leader_def Let_def)

lemma recognise_leader_in_sync: "in_sync rf \<Longrightarrow> in_sync (recognise_leader now args rf)"
  by (simp add: recognise_leader_def Let_def)

lemma recognise_leader_state:
  assumes "currentTerm rf \<le> aea_Term args"
  shows "currentTerm (recognise_leader now args rf) = aea_Term args"
    and "myRole (recognise_leader now args rf) =
      (if currentTerm rf < aea_Term args \<or> myRole rf = Candidate then Follower else myRole rf)"
    and "votedFor (recognise_leader now args rf) =
      (if currentTerm rf < aea_Term args \<or> myRole rf = Candidate then aea_LeaderId args
       else votedFor rf)"
  using assms by (auto simp: recognise_leader_def Let_def)

text \<open>The log after step (7), and the commit index of step (8).\<close>

definition merged_log :: "'c AppendEntriesArgs \<Rightarrow> 'c Log list \<Rightarrow> 'c Log list" where
  "merged_log args lg = take (nat (aea_PrevLogIndex args)) lg @
     merge_entries (drop (nat (aea_PrevLogIndex args)) lg) (aea_Entries args)"

lemma set_merged_log: "set (merged_log args lg) \<subseteq> set lg \<union> set (aea_Entries args)"
  using set_merge_entries [of "drop (nat (aea_PrevLogIndex args)) lg" "aea_Entries args"]
  by (auto simp: merged_log_def dest: in_set_takeD in_set_dropD)

definition follower_commit :: "'c AppendEntriesArgs \<Rightarrow> 'c Log list \<Rightarrow> int \<Rightarrow> int" where
  "follower_commit args lg c =
     (if aea_LeaderCommit args > c then min (aea_LeaderCommit args) (len lg) else c)"

lemma getMin_eq [simp]: "getMin a b = min a b"
  by (simp add: getMin_def min_def)

lemma scan_append:
  assumes "0 \<le> aea_PrevLogIndex args" and "aea_PrevLogIndex args \<le> len lg"
  shows "\<exists>lg' k. scan_entries lg (aea_Entries args) (aea_PrevLogIndex args) 0 = Some (lg', k) \<and>
    go_from (aea_Entries args) k = Some (drop (nat k) (aea_Entries args)) \<and>
    lg' @ drop (nat k) (aea_Entries args) = merged_log args lg"
  using scan_entries_merge [of "aea_PrevLogIndex args" lg 0 "aea_Entries args"] assms
  by (auto simp: merged_log_def go_simps)

text \<open>The state after steps (6) to (8), in closed form.\<close>

definition after_install :: "'c AppendEntriesArgs \<Rightarrow> 'c raft \<Rightarrow> 'c raft" where
  "after_install args rf =
     (let lg = merged_log args (log rf);
          c = follower_commit args lg (commitIndex rf)
      in (persist (rf\<lparr>log := lg\<rparr>))\<lparr>
           commitIndex := c,
           lastApplied := (if aea_LeaderCommit args > commitIndex rf then max (lastApplied rf) c
                           else lastApplied rf),
           applyCh := applyCh rf @
             (if aea_LeaderCommit args > commitIndex rf
              then map (entry_msg lg) [lastApplied rf + 1..c] else [])\<rparr>)"

lemma after_install_frame [simp, frame_simps]:
  "npeers (after_install args rf) = npeers rf" "me (after_install args rf) = me rf"
  "dead (after_install args rf) = dead rf"
  "currentTerm (after_install args rf) = currentTerm rf"
  "votedFor (after_install args rf) = votedFor rf" "myRole (after_install args rf) = myRole rf"
  "nextIndex (after_install args rf) = nextIndex rf"
  "matchIndex (after_install args rf) = matchIndex rf"
  "log (after_install args rf) = merged_log args (log rf)"
  "commitIndex (after_install args rf) =
     follower_commit args (merged_log args (log rf)) (commitIndex rf)"
  by (simp_all add: after_install_def Let_def)

lemma after_install_in_sync [simp]: "in_sync (after_install args rf)"
  using in_sync_persist [of "rf\<lparr>log := merged_log args (log rf)\<rparr>"]
  by (simp add: after_install_def Let_def in_sync_def encoded_state_def)

lemma install_entries_eq:
  assumes "0 \<le> aea_PrevLogIndex args" and "aea_PrevLogIndex args \<le> len (log rf)"
    and "0 \<le> lastApplied rf"
  shows "install_entries args rf = Some (after_install args rf)"
proof -
  define lg where "lg = merged_log args (log rf)"
  define c where "c = follower_commit args lg (commitIndex rf)"
  define rf1 where "rf1 = (persist (rf\<lparr>log := lg\<rparr>))\<lparr>commitIndex := c\<rparr>"
  obtain lg' k where scan: "scan_entries (log rf) (aea_Entries args) (aea_PrevLogIndex args) 0 = Some (lg', k)"
    and from_k: "go_from (aea_Entries args) k = Some (drop (nat k) (aea_Entries args))"
    and lg: "lg' @ drop (nat k) (aea_Entries args) = lg"
    using scan_append [OF assms(1,2)] lg_def by auto
  have unfold: "install_entries args rf =
      (if aea_LeaderCommit args > commitIndex rf
       then apply_committed rf1 else Some (persist (rf\<lparr>log := lg\<rparr>)))"
    by (simp add: install_entries_def scan from_k lg c_def rf1_def follower_commit_def)
  have rf1: "lastApplied rf1 = lastApplied rf" "commitIndex rf1 = c" "log rf1 = lg"
    "applyCh rf1 = applyCh rf"
    by (simp_all add: rf1_def)
  show ?thesis
  proof (cases "aea_LeaderCommit args > commitIndex rf")
    case False
    then show ?thesis
      by (simp add: unfold after_install_def Let_def lg_def follower_commit_def persist_eq)
  next
    case True
    then have "c \<le> len lg" by (simp add: c_def follower_commit_def)
    show ?thesis
    proof (cases "lastApplied rf \<le> c")
      case le: True
      have "apply_committed rf1 = Some (rf1\<lparr>lastApplied := c,
          applyCh := applyCh rf @ map (entry_msg lg) [lastApplied rf + 1..c]\<rparr>)"
        using apply_committed_eq [of rf1] rf1 le \<open>c \<le> len lg\<close> assms(3) by simp
      with True le show ?thesis
        by (simp add: unfold after_install_def Let_def rf1_def flip: lg_def c_def)
    next
      case gt: False
      then have "apply_committed rf1 = Some rf1" by (simp add: apply_committed_done rf1)
      with True gt show ?thesis
        by (simp add: unfold after_install_def Let_def rf1_def persist_eq flip: lg_def c_def)
    qed
  qed
qed

definition prev_matches :: "'c AppendEntriesArgs \<Rightarrow> 'c Log list \<Rightarrow> bool" where
  "prev_matches args lg \<longleftrightarrow>
     aea_PrevLogIndex args \<le> len lg \<and>
     (0 < aea_PrevLogIndex args \<longrightarrow>
        Term (lg ! nat (aea_PrevLogIndex args - 1)) = aea_PrevLogTerm args)"

text \<open>The three ways through the handler.\<close>

lemma AppendEntries_stale:
  "aea_Term args < currentTerm rf \<Longrightarrow> AppendEntries now args rf =
     Some (\<lparr>aer_Term = currentTerm rf, aer_Success = False,
            aer_ConflictTerm = 0, aer_ConflictIndex = 0\<rparr>, rf)"
  by (simp add: AppendEntries_def zero_AppendEntriesReply_def)

definition conflict_reply :: "'c AppendEntriesArgs \<Rightarrow> 'c Log list \<Rightarrow> AppendEntriesReply" where
  "conflict_reply args lg =
     (let p = aea_PrevLogIndex args in
      if len lg < p
      then \<lparr>aer_Term = aea_Term args, aer_Success = False,
            aer_ConflictTerm = -1, aer_ConflictIndex = len lg + 1\<rparr>
      else let ct = Term (lg ! nat (p - 1)) in
           \<lparr>aer_Term = aea_Term args, aer_Success = False,
            aer_ConflictTerm = ct, aer_ConflictIndex = find_conflict_index ct 1 lg\<rparr>)"

lemma AppendEntries_reject:
  assumes "currentTerm rf \<le> aea_Term args" and "\<not> prev_matches args (log rf)"
    and "0 \<le> aea_PrevLogIndex args"
  shows "AppendEntries now args rf =
     Some (conflict_reply args (log rf), recognise_leader now args rf)"
  using assms recognise_leader_state [OF assms(1), of now]
  by (auto simp: AppendEntries_def zero_AppendEntriesReply_def prev_matches_def conflict_reply_def
      Let_def go_simps)

lemma AppendEntries_accept:
  assumes "currentTerm rf \<le> aea_Term args" and "prev_matches args (log rf)"
    and "0 \<le> aea_PrevLogIndex args"
  shows "AppendEntries now args rf =
     (case install_entries args (recognise_leader now args rf) of
        None \<Rightarrow> None
      | Some rf' \<Rightarrow> Some (\<lparr>aer_Term = currentTerm rf', aer_Success = True,
                          aer_ConflictTerm = 0, aer_ConflictIndex = 0\<rparr>, rf'))"
  using assms
  by (auto simp: AppendEntries_def zero_AppendEntriesReply_def prev_matches_def Let_def go_simps
      split: option.splits)

lemma AppendEntries_total:
  assumes "0 \<le> aea_PrevLogIndex args" and "0 \<le> lastApplied rf"
  shows "\<exists>reply rf'. AppendEntries now args rf = Some (reply, rf')"
proof (cases "aea_Term args < currentTerm rf \<or> \<not> prev_matches args (log rf)")
  case True
  then show ?thesis
    using assms AppendEntries_stale [of args rf now] AppendEntries_reject [of rf args now]
    by (cases "aea_Term args < currentTerm rf") auto
next
  case False
  then have "install_entries args (recognise_leader now args rf) =
      Some (after_install args (recognise_leader now args rf))"
    using assms by (intro install_entries_eq) (auto simp: prev_matches_def)
  with False show ?thesis
    using assms by (simp add: AppendEntries_accept)
qed

text \<open>Case analysis of a call that returned.\<close>

lemma AppendEntries_cases:
  assumes "AppendEntries now args rf = Some (reply, rf')"
    and "0 \<le> aea_PrevLogIndex args" and "0 \<le> lastApplied rf"
  obtains (stale) "aea_Term args < currentTerm rf" "rf' = rf"
      "\<not> aer_Success reply" "aer_Term reply = currentTerm rf"
  | (reject) "currentTerm rf \<le> aea_Term args" "\<not> prev_matches args (log rf)"
      "rf' = recognise_leader now args rf" "reply = conflict_reply args (log rf)"
  | (accept) "currentTerm rf \<le> aea_Term args" "prev_matches args (log rf)"
      "rf' = after_install args (recognise_leader now args rf)"
      "aer_Success reply" "aer_Term reply = aea_Term args"
proof (cases "aea_Term args < currentTerm rf")
  case True
  with assms(1) have "rf' = rf" "\<not> aer_Success reply" "aer_Term reply = currentTerm rf"
    by (auto simp: AppendEntries_stale)
  with True show ?thesis by (rule stale)
next
  case False
  then have le: "currentTerm rf \<le> aea_Term args" by simp
  show ?thesis
  proof (cases "prev_matches args (log rf)")
    case False
    have "rf' = recognise_leader now args rf" "reply = conflict_reply args (log rf)"
      using assms(1) AppendEntries_reject [OF le False assms(2), of now] by auto
    with le False show ?thesis by (rule reject)
  next
    case True
    then have inst: "install_entries args (recognise_leader now args rf) =
        Some (after_install args (recognise_leader now args rf))"
      using assms(2,3) by (intro install_entries_eq) (auto simp: prev_matches_def)
    have rf': "rf' = after_install args (recognise_leader now args rf)"
      and reply: "reply = \<lparr>aer_Term = aea_Term args, aer_Success = True,
                aer_ConflictTerm = 0, aer_ConflictIndex = 0\<rparr>"
      using assms(1) AppendEntries_accept [OF le True assms(2), of now]
        recognise_leader_state(1) [OF le, of now]
      by (auto simp: inst)
    show ?thesis by (rule accept [OF le True rf']) (simp_all add: reply)
  qed
qed

subsection \<open>RequestVote, case by case\<close>

definition up_to_date :: "RequestVoteArgs \<Rightarrow> 'c Log list \<Rightarrow> bool" where
  "up_to_date args lg \<longleftrightarrow>
     (let t = (if lg = [] then -1 else Term (last lg)) in
      t < rva_LastLogTerm args \<or> t = rva_LastLogTerm args \<and> len lg \<le> rva_LastLogIndex args)"

definition vote_granted :: "RequestVoteArgs \<Rightarrow> 'c raft \<Rightarrow> bool" where
  "vote_granted args rf \<longleftrightarrow>
     currentTerm rf \<le> rva_Term args \<and>
     (currentTerm rf < rva_Term args \<or> votedFor rf = -1 \<or> votedFor rf = rva_CandidateId args) \<and>
     up_to_date args (log rf)"

lemma RequestVote_reply:
  "fst (RequestVote now args rf) =
     \<lparr>rvr_Term = max (currentTerm rf) (rva_Term args), rvr_VoteGranted = vote_granted args rf\<rparr>"
  by (auto simp: RequestVote_def Let_def zero_RequestVoteReply_def vote_granted_def up_to_date_def
      max_def)

lemma RequestVote_frame [simp, frame_simps]:
  "npeers (snd (RequestVote now args rf)) = npeers rf"
  "me (snd (RequestVote now args rf)) = me rf"
  "log (snd (RequestVote now args rf)) = log rf"
  "commitIndex (snd (RequestVote now args rf)) = commitIndex rf"
  "lastApplied (snd (RequestVote now args rf)) = lastApplied rf"
  "nextIndex (snd (RequestVote now args rf)) = nextIndex rf"
  "matchIndex (snd (RequestVote now args rf)) = matchIndex rf"
  "applyCh (snd (RequestVote now args rf)) = applyCh rf"
  "dead (snd (RequestVote now args rf)) = dead rf"
  by (simp_all add: RequestVote_def Let_def)

lemma RequestVote_state:
  "currentTerm (snd (RequestVote now args rf)) = max (currentTerm rf) (rva_Term args)"
  "myRole (snd (RequestVote now args rf)) =
     (if currentTerm rf < rva_Term args then Follower else myRole rf)"
  "votedFor (snd (RequestVote now args rf)) =
     (if vote_granted args rf then rva_CandidateId args
      else if currentTerm rf < rva_Term args then -1 else votedFor rf)"
  by (auto simp: RequestVote_def Let_def vote_granted_def up_to_date_def zero_RequestVoteReply_def)

lemma RequestVote_in_sync: "in_sync rf \<Longrightarrow> in_sync (snd (RequestVote now args rf))"
  by (simp add: RequestVote_def Let_def)

end
