(* ===== verification/Raft_Leader.thy ===== *)
theory Raft_Leader
  imports Raft_Rpc
begin

section \<open>The client side of the RPCs: replication, commitment, elections\<close>

text \<open>
  The goroutines of \<open>lab3/raft/raft.go\<close> that send RPCs. Each releases \<open>rf.mu\<close> around
  the call, so each is cut at the call into two critical sections: what is computed before it
  (\<open>sendAppend\<close>, \<open>startVoting\<close>) and what is done with the reply (\<open>handleAppendReply\<close>,
  \<open>handleVoteReply\<close>). \<open>handleAppendReply\<close> also says whether the retry loop of
  \<open>sendAppendEntriesToOnePeer\<close> goes on.
\<close>

subsection \<open>Replicating the log to one peer\<close>

text \<open>\<open>Some None\<close>: the goroutine returns without sending (killed, or no longer leader).\<close>

definition sendAppend :: "int \<Rightarrow> 'c raft \<Rightarrow> 'c AppendEntriesArgs option option" where
  "sendAppend peerId rf =
     (if killed rf \<or> myRole rf \<noteq> Leader then Some None
      else do {
        ni \<leftarrow> go_index (nextIndex rf) peerId;
        let prevLogIndex = ni - 1;
        prevLogTerm \<leftarrow>
          (if prevLogIndex > 0 then do {
             e \<leftarrow> go_index (log rf) (prevLogIndex - 1);
             Some (Term e)
           } else Some 0);
        entries \<leftarrow> go_from (log rf) (ni - 1);
        Some (Some \<lparr>aea_Term = currentTerm rf, aea_LeaderId = me rf,
                    aea_PrevLogIndex = prevLogIndex, aea_PrevLogTerm = prevLogTerm,
                    aea_Entries = entries, aea_LeaderCommit = commitIndex rf\<rparr>)
      })"

text \<open>The inner loop over the peers: how many positions of \<open>matchIndex\<close> have reached \<open>n\<close>.\<close>

fun count_matches :: "int list \<Rightarrow> int \<Rightarrow> int list \<Rightarrow> int \<Rightarrow> int option" where
  "count_matches mi n [] c = Some c"
| "count_matches mi n (i # is) c = do {
     m \<leftarrow> go_index mi i;
     count_matches mi n is (if m \<ge> n then c + 1 else c)
   }"

text \<open>The loop over the positions above the commit index; \<open>ci\<close> is \<open>rf.commitIndex\<close>, the
  only field it writes.\<close>

function advance_commit :: "'c raft \<Rightarrow> int \<Rightarrow> int \<Rightarrow> int option" where
  "advance_commit rf n ci =
     (if n \<le> len (log rf) then do {
        e \<leftarrow> go_index (log rf) (n - 1);
        ci' \<leftarrow> (if Term e = currentTerm rf then do {
                  matchIndexCount \<leftarrow> count_matches (matchIndex rf) n [0..npeers rf - 1] 1;
                  Some (if matchIndexCount * 2 > npeers rf then n else ci)
                } else Some ci);
        advance_commit rf (n + 1) ci'
      } else Some ci)"
  by pat_completeness auto
termination
  by (relation "measure (\<lambda>(rf, n, ci). nat (len (log rf) + 1 - n))") auto

declare advance_commit.simps [simp del]

text \<open>The fast back-off: scan the leader's log for the first entry of a later term than the
  conflicting one. \<open>None\<close>: the loop ran off the log and wrote nothing.\<close>

fun find_next_index :: "int \<Rightarrow> int \<Rightarrow> int \<Rightarrow> bool \<Rightarrow> 'c Log list \<Rightarrow> int option" where
  "find_next_index ct ci i found [] = None"
| "find_next_index ct ci i found (e # es) =
     (let found = (if Term e = ct then True else found) in
      if Term e > ct then Some (if found then i else ci)
      else find_next_index ct ci (i + 1) found es)"

definition handleAppendReply ::
  "int \<Rightarrow> 'c AppendEntriesArgs \<Rightarrow> AppendEntriesReply \<Rightarrow> 'c raft \<Rightarrow> ('c raft \<times> bool) option" where
  "handleAppendReply peerId args reply rf =
     (if aer_Term reply > currentTerm rf then
        Some (convertToFollower (aer_Term reply) (-1) rf, False)
      else if currentTerm rf \<noteq> aea_Term args \<or> myRole rf \<noteq> Leader then Some (rf, False)
      else if aer_Success reply then do {
        let m = aea_PrevLogIndex args + len (aea_Entries args);
        mi \<leftarrow> go_update (matchIndex rf) peerId m;
        ni \<leftarrow> go_update (nextIndex rf) peerId (m + 1);
        let rf = rf\<lparr>matchIndex := mi, nextIndex := ni\<rparr>;
        c \<leftarrow> advance_commit rf (commitIndex rf + 1) (commitIndex rf);
        rf \<leftarrow> apply_committed (rf\<lparr>commitIndex := c\<rparr>);
        Some (rf, False)
      }
      else if aer_ConflictTerm reply \<le> 0 then do {
        ni \<leftarrow> go_update (nextIndex rf) peerId (aer_ConflictIndex reply);
        Some (rf\<lparr>nextIndex := ni\<rparr>, True)
      }
      else case find_next_index (aer_ConflictTerm reply) (aer_ConflictIndex reply) 1 False (log rf) of
          None \<Rightarrow> Some (rf, True)
        | Some i \<Rightarrow> do {
            ni \<leftarrow> go_update (nextIndex rf) peerId i;
            Some (rf\<lparr>nextIndex := ni\<rparr>, True)
          })"

text \<open>The peers a leader sends to, and a candidate asks: everyone else.\<close>

definition other_peers :: "'c raft \<Rightarrow> int list" where
  "other_peers rf = filter (\<lambda>peerId. peerId \<noteq> me rf) [0..npeers rf - 1]"

subsection \<open>Collecting votes\<close>

text \<open>One round of \<open>startVoting\<close>: the arguments and the peers asked; \<open>None\<close> when the
  peer is no candidate any more. The round's counter starts at 1, the candidate's own vote.\<close>

definition startVoting :: "'c raft \<Rightarrow> (RequestVoteArgs \<times> int list) option" where
  "startVoting rf =
     (if myRole rf \<noteq> Candidate then None
      else
        let lastLogTerm = (if length (log rf) > 0 then Term (last (log rf)) else -1)
        in Some (\<lparr>rva_Term = currentTerm rf, rva_CandidateId = me rf,
                  rva_LastLogIndex = len (log rf), rva_LastLogTerm = lastLogTerm\<rparr>,
                 other_peers rf))"

definition handleVoteReply ::
  "RequestVoteArgs \<Rightarrow> RequestVoteReply \<Rightarrow> int \<Rightarrow> 'c raft \<Rightarrow> ('c raft \<times> int) option" where
  "handleVoteReply args reply votesGranted rf =
     (if rvr_Term reply > currentTerm rf then
        Some (convertToFollower (rvr_Term reply) (-1) rf, votesGranted)
      else if currentTerm rf \<noteq> rva_Term args \<or> myRole rf \<noteq> Candidate then Some (rf, votesGranted)
      else
        let votesGranted = (if rvr_VoteGranted reply then votesGranted + 1 else votesGranted) in
        if myRole rf = Candidate \<and> votesGranted * 2 > npeers rf then do {
          rf \<leftarrow> convertToLeader rf;
          Some (rf\<lparr>voteSuccessCh := Suc (voteSuccessCh rf)\<rparr>, votesGranted)
        } else Some (rf, votesGranted))"

subsection \<open>What is sent\<close>

definition append_args :: "'c raft \<Rightarrow> int \<Rightarrow> 'c AppendEntriesArgs" where
  "append_args rf ni =
     \<lparr>aea_Term = currentTerm rf, aea_LeaderId = me rf, aea_PrevLogIndex = ni - 1,
      aea_PrevLogTerm = (if 1 < ni then Term (log rf ! nat (ni - 2)) else 0),
      aea_Entries = drop (nat (ni - 1)) (log rf), aea_LeaderCommit = commitIndex rf\<rparr>"

lemma sendAppend_leader:
  assumes "myRole rf = Leader" and "\<not> killed rf"
    and "0 \<le> peerId" and "peerId < len (nextIndex rf)"
    and "1 \<le> nextIndex rf ! nat peerId" and "nextIndex rf ! nat peerId \<le> len (log rf) + 1"
  shows "sendAppend peerId rf = Some (Some (append_args rf (nextIndex rf ! nat peerId)))"
  using assms by (auto simp: sendAppend_def append_args_def Let_def go_simps)

lemma sendAppend_SomeE:
  assumes "sendAppend peerId rf = Some (Some args)"
  obtains ni where "myRole rf = Leader" "\<not> killed rf" "go_index (nextIndex rf) peerId = Some ni"
    "1 \<le> ni" "ni \<le> len (log rf) + 1" "args = append_args rf ni"
  using assms
  by (auto simp: sendAppend_def append_args_def Let_def go_from_Some_iff go_index_Some_iff
      split: if_splits bind_splits)

text \<open>The entries sent reach to the end of the leader's log.\<close>

lemma append_args_reach:
  "1 \<le> ni \<Longrightarrow> ni \<le> len (log rf) + 1 \<Longrightarrow>
   aea_PrevLogIndex (append_args rf ni) + len (aea_Entries (append_args rf ni)) = len (log rf)"
  by (simp add: append_args_def)

subsection \<open>When the leader commits\<close>

lemma count_matches_eq:
  "(\<forall>i \<in> set is. 0 \<le> i \<and> i < len mi) \<Longrightarrow>
   count_matches mi n is c = Some (c + len (filter (\<lambda>i. n \<le> mi ! nat i) is))"
  by (induction mi n "is" c rule: count_matches.induct) (auto simp: go_simps)

definition replicated :: "'c raft \<Rightarrow> int \<Rightarrow> int set" where
  "replicated rf n = {i \<in> members (npeers rf). n \<le> matchIndex rf ! nat i}"

definition may_commit :: "'c raft \<Rightarrow> int \<Rightarrow> bool" where
  "may_commit rf n \<longleftrightarrow> Term (log rf ! nat (n - 1)) = currentTerm rf \<and>
     npeers rf < 2 * (1 + int (card (replicated rf n)))"

lemma count_matches_replicated:
  assumes "len (matchIndex rf) = npeers rf"
  shows "count_matches (matchIndex rf) n [0..npeers rf - 1] 1 =
     Some (1 + int (card (replicated rf n)))"
proof -
  have "set (filter (\<lambda>i. n \<le> matchIndex rf ! nat i) [0..npeers rf - 1]) = replicated rf n"
    by (auto simp: replicated_def)
  moreover have "distinct (filter (\<lambda>i. n \<le> matchIndex rf ! nat i) [0..npeers rf - 1])"
    by simp
  ultimately have "length (filter (\<lambda>i. n \<le> matchIndex rf ! nat i) [0..npeers rf - 1]) =
      card (replicated rf n)"
    by (metis distinct_card)
  then show ?thesis
    using assms by (subst count_matches_eq) auto
qed

lemma advance_commit_spec:
  assumes "1 \<le> n" and "len (matchIndex rf) = npeers rf"
  shows "\<exists>c. advance_commit rf n ci = Some c \<and>
     (c = ci \<or> n \<le> c \<and> c \<le> len (log rf) \<and> may_commit rf c) \<and>
     (\<forall>k. n \<le> k \<and> k \<le> len (log rf) \<and> may_commit rf k \<longrightarrow> k \<le> c)"
  using assms
proof (induction rf n ci rule: advance_commit.induct)
  case (1 rf n ci)
  show ?case
  proof (cases "n \<le> len (log rf)")
    case False
    then show ?thesis by (simp add: advance_commit.simps [of rf n ci])
  next
    case True
    define ci' where "ci' = (if may_commit rf n then n else ci)"
    let ?body = "if Term (log rf ! nat (n - 1)) = currentTerm rf
      then count_matches (matchIndex rf) n [0..npeers rf - 1] 1 \<bind>
           (\<lambda>m. Some (if m * 2 > npeers rf then n else ci))
      else Some ci"
    have e: "go_index (log rf) (n - 1) = Some (log rf ! nat (n - 1))"
      using True "1.prems" by (simp add: go_simps)
    have body: "?body = Some ci'"
      using "1.prems"(2) by (simp add: ci'_def may_commit_def count_matches_replicated)
    have step: "advance_commit rf n ci = advance_commit rf (n + 1) ci'"
      using True e body by (subst advance_commit.simps) simp
    obtain c where c: "advance_commit rf (n + 1) ci' = Some c"
      "c = ci' \<or> n + 1 \<le> c \<and> c \<le> len (log rf) \<and> may_commit rf c"
      "\<forall>k. n + 1 \<le> k \<and> k \<le> len (log rf) \<and> may_commit rf k \<longrightarrow> k \<le> c"
      using "1.IH" [OF True e body] "1.prems" by auto
    have low: "c = ci \<or> n \<le> c \<and> c \<le> len (log rf) \<and> may_commit rf c"
      using c(2) True by (auto simp: ci'_def split: if_splits)
    have high: "k \<le> c" if "n \<le> k" "k \<le> len (log rf)" "may_commit rf k" for k
    proof (cases "k = n")
      case True
      with that c(2) show ?thesis by (auto simp: ci'_def)
    next
      case False
      with that c(3) show ?thesis by auto
    qed
    show ?thesis using c(1) low high by (auto simp: step)
  qed
qed

subsection \<open>The back-off scan\<close>

lemma find_next_index_None_iff:
  "find_next_index ct ci i found lg = None \<longleftrightarrow> (\<forall>e \<in> set lg. Term e \<le> ct)"
  by (induction ct ci i found lg rule: find_next_index.induct) (auto simp: Let_def)

lemma find_next_index_Some:
  assumes "find_next_index ct ci i found lg = Some k"
  shows "\<exists>p < length lg. Term (lg ! p) > ct \<and> (\<forall>q < p. Term (lg ! q) \<le> ct) \<and>
    k = (if found \<or> (\<exists>q < p. Term (lg ! q) = ct) then i + int p else ci)"
  using assms
proof (induction ct ci i found lg rule: find_next_index.induct)
  case (2 ct ci i found e es)
  show ?case
  proof (cases "Term e > ct")
    case True
    with 2(2) show ?thesis by (intro exI [of _ 0]) (auto simp: Let_def)
  next
    case False
    define found' where "found' = (if Term e = ct then True else found)"
    have "find_next_index ct ci (i + 1) found' es = Some k"
      using False 2(2) by (auto simp: Let_def found'_def)
    from 2(1) [OF found'_def False this] obtain p where p: "p < length es" "Term (es ! p) > ct"
      "\<forall>q < p. Term (es ! q) \<le> ct"
      "k = (if found' \<or> (\<exists>q < p. Term (es ! q) = ct) then i + 1 + int p else ci)"
      by auto
    have ex: "(found \<or> (\<exists>q < Suc p. Term ((e # es) ! q) = ct)) =
        (found' \<or> (\<exists>q < p. Term (es ! q) = ct))"
      by (auto simp: found'_def less_Suc_eq_0_disj)
    show ?thesis
    proof (intro exI [of _ "Suc p"] conjI)
      show "\<forall>q<Suc p. Term ((e # es) ! q) \<le> ct"
        using False p(3) by (auto simp: less_Suc_eq_0_disj)
      show "k = (if found \<or> (\<exists>q<Suc p. Term ((e # es) ! q) = ct) then i + int (Suc p) else ci)"
        unfolding ex using p(4) by auto
    qed (use p in auto)
  qed
qed simp

lemma find_conflict_index_bounds:
  "find_conflict_index ct i lg = 0 \<and> (\<forall>e \<in> set lg. Term e \<noteq> ct) \<or>
   (\<exists>q < length lg. find_conflict_index ct i lg = i + int q \<and> Term (lg ! q) = ct \<and>
      (\<forall>r < q. Term (lg ! r) \<noteq> ct))"
proof (induction ct i lg rule: find_conflict_index.induct)
  case (2 ct i e es)
  show ?case
  proof (cases "Term e = ct")
    case True
    then show ?thesis by (intro disjI2 exI [of _ 0]) auto
  next
    case False
    with 2 consider "find_conflict_index ct (i + 1) es = 0" "\<forall>e \<in> set es. Term e \<noteq> ct"
      | q where "q < length es" "find_conflict_index ct (i + 1) es = i + 1 + int q"
        "Term (es ! q) = ct" "\<forall>r < q. Term (es ! r) \<noteq> ct"
      by auto
    then show ?thesis
    proof cases
      case 1
      with False show ?thesis by auto
    next
      case 2
      with False show ?thesis
        by (intro disjI2 exI [of _ "Suc q"]) (auto simp: less_Suc_eq_0_disj)
    qed
  qed
qed simp

subsection \<open>Handling a reply, case by case\<close>

lemma apply_committed_after:
  assumes "0 \<le> lastApplied rf" and "lastApplied rf < commitIndex rf \<longrightarrow> commitIndex rf \<le> len (log rf)"
  shows "apply_committed rf = Some (rf\<lparr>lastApplied := max (lastApplied rf) (commitIndex rf),
     applyCh := applyCh rf @ map (entry_msg (log rf)) [lastApplied rf + 1..commitIndex rf]\<rparr>)"
proof (cases "lastApplied rf < commitIndex rf")
  case True
  with assms show ?thesis by (simp add: apply_committed_eq max_def)
next
  case False
  then show ?thesis by (simp add: apply_committed_done max_def)
qed

definition after_ack :: "int \<Rightarrow> int \<Rightarrow> int \<Rightarrow> 'c raft \<Rightarrow> 'c raft" where
  "after_ack peerId m c rf =
     rf\<lparr>matchIndex := (matchIndex rf)[nat peerId := m],
        nextIndex := (nextIndex rf)[nat peerId := m + 1],
        commitIndex := c,
        lastApplied := max (lastApplied rf) c,
        applyCh := applyCh rf @ map (entry_msg (log rf)) [lastApplied rf + 1..c]\<rparr>"

lemma after_ack_frame [simp, frame_simps]:
  "npeers (after_ack p m c rf) = npeers rf" "me (after_ack p m c rf) = me rf"
  "dead (after_ack p m c rf) = dead rf" "persister (after_ack p m c rf) = persister rf"
  "currentTerm (after_ack p m c rf) = currentTerm rf" "votedFor (after_ack p m c rf) = votedFor rf"
  "log (after_ack p m c rf) = log rf" "myRole (after_ack p m c rf) = myRole rf"
  "commitIndex (after_ack p m c rf) = c"
  "matchIndex (after_ack p m c rf) = (matchIndex rf)[nat p := m]"
  "nextIndex (after_ack p m c rf) = (nextIndex rf)[nat p := m + 1]"
  by (simp_all add: after_ack_def)

text \<open>The shape of the leader's bookkeeping that keeps it from panicking.\<close>

definition tables_ok :: "'c raft \<Rightarrow> bool" where
  "tables_ok rf \<longleftrightarrow> len (nextIndex rf) = npeers rf \<and> len (matchIndex rf) = npeers rf"

definition backoff_index :: "AppendEntriesReply \<Rightarrow> 'c Log list \<Rightarrow> int option" where
  "backoff_index reply lg =
     (if aer_ConflictTerm reply \<le> 0 then Some (aer_ConflictIndex reply)
      else find_next_index (aer_ConflictTerm reply) (aer_ConflictIndex reply) 1 False lg)"

definition after_backoff :: "int \<Rightarrow> AppendEntriesReply \<Rightarrow> 'c raft \<Rightarrow> 'c raft" where
  "after_backoff peerId reply rf =
     (case backoff_index reply (log rf) of None \<Rightarrow> rf
      | Some i \<Rightarrow> rf\<lparr>nextIndex := (nextIndex rf)[nat peerId := i]\<rparr>)"

lemma handleAppendReply_success:
  assumes "aer_Term reply \<le> currentTerm rf" and "currentTerm rf = aea_Term args"
    and "myRole rf = Leader" and "aer_Success reply" and "tables_ok rf"
    and "0 \<le> peerId" and "peerId < npeers rf"
    and "0 \<le> commitIndex rf" and "commitIndex rf \<le> lastApplied rf"
  defines "m \<equiv> aea_PrevLogIndex args + len (aea_Entries args)"
  defines "rf1 \<equiv> rf\<lparr>matchIndex := (matchIndex rf)[nat peerId := m],
                  nextIndex := (nextIndex rf)[nat peerId := m + 1]\<rparr>"
  shows "\<exists>c. handleAppendReply peerId args reply rf = Some (after_ack peerId m c rf, False) \<and>
     (c = commitIndex rf \<or> commitIndex rf < c \<and> c \<le> len (log rf) \<and> may_commit rf1 c) \<and>
     (\<forall>k. commitIndex rf < k \<and> k \<le> len (log rf) \<and> may_commit rf1 k \<longrightarrow> k \<le> c)"
proof -
  have "len (matchIndex rf1) = npeers rf1"
    using assms(5) by (simp add: rf1_def tables_ok_def)
  then obtain c where c: "advance_commit rf1 (commitIndex rf + 1) (commitIndex rf) = Some c"
    "c = commitIndex rf \<or> commitIndex rf + 1 \<le> c \<and> c \<le> len (log rf1) \<and> may_commit rf1 c"
    "\<forall>k. commitIndex rf + 1 \<le> k \<and> k \<le> len (log rf1) \<and> may_commit rf1 k \<longrightarrow> k \<le> c"
    using advance_commit_spec [of "commitIndex rf + 1" rf1 "commitIndex rf"] assms(8) by auto
  have "apply_committed (rf1\<lparr>commitIndex := c\<rparr>) = Some (after_ack peerId m c rf)"
    using c(2) assms(8,9) by (subst apply_committed_after) (auto simp: rf1_def after_ack_def)
  with c(1) have "handleAppendReply peerId args reply rf = Some (after_ack peerId m c rf, False)"
    using assms(1-7) by (simp add: handleAppendReply_def Let_def m_def rf1_def go_simps tables_ok_def)
  with c(2,3) show ?thesis by (auto simp: rf1_def)
qed

lemma handleAppendReply_backoff:
  assumes "aer_Term reply \<le> currentTerm rf" and "currentTerm rf = aea_Term args"
    and "myRole rf = Leader" and "\<not> aer_Success reply" and "tables_ok rf"
    and "0 \<le> peerId" and "peerId < npeers rf"
  shows "handleAppendReply peerId args reply rf = Some (after_backoff peerId reply rf, True)"
  using assms
  by (auto simp: handleAppendReply_def after_backoff_def backoff_index_def tables_ok_def go_simps
      split: option.splits)

lemma handleAppendReply_cases:
  assumes "handleAppendReply peerId args reply rf = Some (rf', again)"
    and "myRole rf = Leader \<longrightarrow> tables_ok rf" and "0 \<le> peerId" and "peerId < npeers rf"
    and "0 \<le> commitIndex rf" and "commitIndex rf \<le> lastApplied rf"
  obtains (newer) "currentTerm rf < aer_Term reply"
      "rf' = convertToFollower (aer_Term reply) (-1) rf" "\<not> again"
  | (ignored) "aer_Term reply \<le> currentTerm rf"
      "currentTerm rf \<noteq> aea_Term args \<or> myRole rf \<noteq> Leader" "rf' = rf" "\<not> again"
  | (success) c where "aer_Term reply \<le> currentTerm rf" "currentTerm rf = aea_Term args"
      "myRole rf = Leader" "aer_Success reply" "\<not> again"
      "rf' = after_ack peerId (aea_PrevLogIndex args + len (aea_Entries args)) c rf"
      "c = commitIndex rf \<or> commitIndex rf < c \<and> c \<le> len (log rf) \<and>
         may_commit (rf\<lparr>matchIndex := matchIndex rf'\<rparr>) c"
  | (backoff) "aer_Term reply \<le> currentTerm rf" "currentTerm rf = aea_Term args"
      "myRole rf = Leader" "\<not> aer_Success reply" "again" "rf' = after_backoff peerId reply rf"
proof (cases "currentTerm rf < aer_Term reply")
  case True
  with assms(1) show ?thesis by (intro newer) (auto simp: handleAppendReply_def)
next
  case False
  then have le: "aer_Term reply \<le> currentTerm rf" by simp
  show ?thesis
  proof (cases "currentTerm rf \<noteq> aea_Term args \<or> myRole rf \<noteq> Leader")
    case True
    with le assms(1) show ?thesis by (intro ignored) (auto simp: handleAppendReply_def)
  next
    case False
    then have own: "currentTerm rf = aea_Term args" "myRole rf = Leader" by auto
    with assms(2) have tab: "tables_ok rf" by simp
    show ?thesis
    proof (cases "aer_Success reply")
      case True
      obtain c where "handleAppendReply peerId args reply rf =
          Some (after_ack peerId (aea_PrevLogIndex args + len (aea_Entries args)) c rf, False)"
        and "c = commitIndex rf \<or> commitIndex rf < c \<and> c \<le> len (log rf) \<and>
          may_commit (rf\<lparr>matchIndex := (matchIndex rf)[nat peerId := aea_PrevLogIndex args + len (aea_Entries args)],
             nextIndex := (nextIndex rf)[nat peerId := aea_PrevLogIndex args + len (aea_Entries args) + 1]\<rparr>) c"
        using handleAppendReply_success [OF le own True tab assms(3-6)] by blast
      with assms(1) le own True show ?thesis
        by (intro success [of c]) (auto simp: may_commit_def replicated_def)
    next
      case False
      with assms(1) le own show ?thesis
        using handleAppendReply_backoff [OF le own False tab assms(3,4)]
        by (intro backoff) auto
    qed
  qed
qed

lemma handleVoteReply_cases:
  assumes "handleVoteReply args reply v rf = Some (rf', v')"
  obtains (newer) "currentTerm rf < rvr_Term reply"
      "rf' = convertToFollower (rvr_Term reply) (-1) rf" "v' = v"
  | (ignored) "rvr_Term reply \<le> currentTerm rf"
      "currentTerm rf \<noteq> rva_Term args \<or> myRole rf \<noteq> Candidate" "rf' = rf" "v' = v"
  | (counted) "currentTerm rf = rva_Term args" "myRole rf = Candidate"
      "v' = (if rvr_VoteGranted reply then v + 1 else v)" "v' * 2 \<le> npeers rf" "rf' = rf"
  | (elected) rf0 where "currentTerm rf = rva_Term args" "myRole rf = Candidate"
      "v' = (if rvr_VoteGranted reply then v + 1 else v)" "npeers rf < v' * 2"
      "convertToLeader rf = Some rf0" "rf' = rf0\<lparr>voteSuccessCh := Suc (voteSuccessCh rf0)\<rparr>"
proof -
  define w where "w = (if rvr_VoteGranted reply then v + 1 else v)"
  consider "currentTerm rf < rvr_Term reply"
    | "\<not> currentTerm rf < rvr_Term reply" "currentTerm rf \<noteq> rva_Term args \<or> myRole rf \<noteq> Candidate"
    | "\<not> currentTerm rf < rvr_Term reply" "currentTerm rf = rva_Term args" "myRole rf = Candidate"
        "w * 2 \<le> npeers rf"
    | "\<not> currentTerm rf < rvr_Term reply" "currentTerm rf = rva_Term args" "myRole rf = Candidate"
        "npeers rf < w * 2"
    by linarith
  then show ?thesis
  proof cases
    case 1
    with assms show ?thesis by (intro newer) (auto simp: handleVoteReply_def)
  next
    case 2
    with assms show ?thesis by (intro ignored) (auto simp: handleVoteReply_def)
  next
    case 3
    with assms have "rf' = rf \<and> v' = w"
      by (auto simp: handleVoteReply_def Let_def simp flip: w_def)
    with 3 show ?thesis by (intro counted) (auto simp: w_def)
  next
    case 4
    with assms obtain rf0 where "convertToLeader rf = Some rf0"
      "rf' = rf0\<lparr>voteSuccessCh := Suc (voteSuccessCh rf0)\<rparr>" "v' = w"
      by (auto simp: handleVoteReply_def Let_def simp flip: w_def split: bind_splits)
    with 4 show ?thesis by (intro elected [of rf0]) (auto simp: w_def)
  qed
qed

end
