(* ===== verification/Raft_Peer_Inv.thy ===== *)
theory Raft_Peer_Inv
  imports Raft_Leader
begin

section \<open>The invariant of one peer\<close>

text \<open>
  What every operation of a peer keeps, whatever the other peers send: the persisted state is the
  state in memory, the commit index never overtakes the entries applied, the messages sent on
  \<open>applyCh\<close> carry the indices \<open>1, 2, \<dots>, lastApplied\<close> in this order, and a leader's
  tables have one slot per peer. From it follows that no handler panics.
\<close>

definition peer_ok :: "'c raft \<Rightarrow> bool" where
  "peer_ok rf \<longleftrightarrow> in_sync rf \<and> 0 \<le> commitIndex rf \<and> commitIndex rf \<le> lastApplied rf \<and>
     map CommandIndex (applyCh rf) = [1..lastApplied rf] \<and>
     (myRole rf = Leader \<longrightarrow> tables_ok rf)"

lemma peer_okD:
  assumes "peer_ok rf"
  shows "in_sync rf" "0 \<le> commitIndex rf" "commitIndex rf \<le> lastApplied rf"
    "0 \<le> lastApplied rf" "map CommandIndex (applyCh rf) = [1..lastApplied rf]"
    "myRole rf = Leader \<longrightarrow> tables_ok rf"
  using assms by (auto simp: peer_ok_def)

lemma tables_ok_cong:
  "tables_ok rf \<Longrightarrow> npeers rf' = npeers rf \<Longrightarrow> length (nextIndex rf') = length (nextIndex rf) \<Longrightarrow>
   length (matchIndex rf') = length (matchIndex rf) \<Longrightarrow> tables_ok rf'"
  by (simp add: tables_ok_def)

lemma upto_append: "a \<le> b + 1 \<Longrightarrow> b \<le> c \<Longrightarrow> [a..b] @ [b + 1..c] = [a..c::int]"
  using upto_split1 [of a "b + 1" c] by (cases "b = c") auto

text \<open>Appending the messages of the newly committed entries keeps the order.\<close>

lemma apply_order_extend:
  assumes "map CommandIndex ms = [1..a]" and "0 \<le> a"
  shows "map CommandIndex (ms @ map (entry_msg lg) [a + 1..c]) = [1..max a c]"
proof (cases "a \<le> c")
  case True
  then show ?thesis
    using assms by (simp add: o_def upto_append max_def)
next
  case False
  then show ?thesis using assms by (simp add: max_def)
qed

lemma peer_ok_persist:
  assumes "peer_ok rf" and "rf' = persist rf2"
    and "commitIndex rf2 = commitIndex rf" "lastApplied rf2 = lastApplied rf"
    "applyCh rf2 = applyCh rf" "myRole rf2 = Leader \<Longrightarrow> tables_ok rf2"
  shows "peer_ok rf'"
  using assms by (simp add: peer_ok_def tables_ok_def)

lemma peer_ok_convertToFollower: "peer_ok rf \<Longrightarrow> peer_ok (convertToFollower t v rf)"
  by (simp add: peer_ok_def)

lemma peer_ok_convertToCandidate: "peer_ok rf \<Longrightarrow> peer_ok (convertToCandidate now r rf)"
  by (simp add: peer_ok_def)

lemma peer_ok_convertToLeader:
  assumes "peer_ok rf" and "convertToLeader rf = Some rf'"
  shows "peer_ok rf'"
  using assms(2)
proof (rule convertToLeader_SomeE)
  assume "0 \<le> me rf" "me rf < npeers rf"
    "rf' = persist (rf\<lparr>myRole := Leader,
      nextIndex := replicate (nat (npeers rf)) (len (log rf) + 1),
      matchIndex := (replicate (nat (npeers rf)) 0)[nat (me rf) := len (log rf)]\<rparr>)"
  with assms(1) show ?thesis by (simp add: peer_ok_def tables_ok_def)
qed

lemma peer_ok_Start: "peer_ok rf \<Longrightarrow> peer_ok (snd (Start cmd rf))"
  by (simp add: peer_ok_def Start_in_sync tables_ok_def)

lemma peer_ok_Kill: "peer_ok rf \<Longrightarrow> peer_ok (Kill rf)"
  by (simp add: peer_ok_def Kill_def tables_ok_def in_sync_def encoded_state_def)

lemma peer_ok_RequestVote: "peer_ok rf \<Longrightarrow> peer_ok (snd (RequestVote now args rf))"
  by (auto simp: peer_ok_def RequestVote_in_sync RequestVote_state tables_ok_def split: if_splits)

lemma peer_ok_recognise_leader:
  assumes "peer_ok rf" and "currentTerm rf \<le> aea_Term args"
  shows "peer_ok (recognise_leader now args rf)"
  using assms recognise_leader_state [OF assms(2), of now]
  by (auto simp: peer_ok_def recognise_leader_in_sync tables_ok_def split: if_splits)

lemma lastApplied_after_install:
  "lastApplied (after_install args rf) =
     (if aea_LeaderCommit args > commitIndex rf
      then max (lastApplied rf) (follower_commit args (merged_log args (log rf)) (commitIndex rf))
      else lastApplied rf)"
  "applyCh (after_install args rf) = applyCh rf @
     (if aea_LeaderCommit args > commitIndex rf
      then map (entry_msg (merged_log args (log rf))) [lastApplied rf + 1..
        follower_commit args (merged_log args (log rf)) (commitIndex rf)] else [])"
  by (simp_all add: after_install_def Let_def)

lemma peer_ok_after_install:
  assumes "peer_ok rf"
  shows "peer_ok (after_install args rf)"
proof (cases "aea_LeaderCommit args > commitIndex rf")
  case True
  have "map CommandIndex (applyCh (after_install args rf)) = [1..lastApplied (after_install args rf)]"
    using True apply_order_extend [OF peer_okD(5) [OF assms] peer_okD(4) [OF assms]]
    by (simp add: lastApplied_after_install)
  with True assms show ?thesis
    by (auto simp: peer_ok_def tables_ok_def lastApplied_after_install(1) follower_commit_def)
next
  case False
  with assms show ?thesis
    by (auto simp: peer_ok_def tables_ok_def lastApplied_after_install follower_commit_def)
qed

lemma peer_ok_AppendEntries:
  assumes "peer_ok rf" and "AppendEntries now args rf = Some (reply, rf')"
    and "0 \<le> aea_PrevLogIndex args"
  shows "peer_ok rf'"
  using assms(2,3) peer_okD(4) [OF assms(1)]
proof (cases rule: AppendEntries_cases)
  case stale
  with assms(1) show ?thesis by simp
next
  case reject
  with assms(1) show ?thesis by (simp add: peer_ok_recognise_leader)
next
  case accept
  with assms(1) show ?thesis by (simp add: peer_ok_recognise_leader peer_ok_after_install)
qed

lemma peer_ok_after_ack:
  assumes "peer_ok rf" and "commitIndex rf \<le> c"
  shows "peer_ok (after_ack p m c rf)"
  using assms apply_order_extend [OF peer_okD(5) [OF assms(1)] peer_okD(4) [OF assms(1)], of "log rf" c]
  by (auto simp: peer_ok_def tables_ok_def after_ack_def in_sync_def encoded_state_def)

lemma after_backoff_frame [simp, frame_simps]:
  "npeers (after_backoff p reply rf) = npeers rf" "me (after_backoff p reply rf) = me rf"
  "dead (after_backoff p reply rf) = dead rf"
  "persister (after_backoff p reply rf) = persister rf"
  "currentTerm (after_backoff p reply rf) = currentTerm rf"
  "votedFor (after_backoff p reply rf) = votedFor rf"
  "log (after_backoff p reply rf) = log rf" "myRole (after_backoff p reply rf) = myRole rf"
  "commitIndex (after_backoff p reply rf) = commitIndex rf"
  "lastApplied (after_backoff p reply rf) = lastApplied rf"
  "matchIndex (after_backoff p reply rf) = matchIndex rf"
  "applyCh (after_backoff p reply rf) = applyCh rf"
  "length (nextIndex (after_backoff p reply rf)) = length (nextIndex rf)"
  by (simp_all add: after_backoff_def split: option.splits)

lemma peer_ok_after_backoff: "peer_ok rf \<Longrightarrow> peer_ok (after_backoff p reply rf)"
  by (simp add: peer_ok_def tables_ok_def in_sync_def encoded_state_def)

lemma peer_ok_handleAppendReply:
  assumes "peer_ok rf" and "handleAppendReply p args reply rf = Some (rf', again)"
    and "0 \<le> p" and "p < npeers rf"
  shows "peer_ok rf'"
  using assms(2) peer_okD(6) [OF assms(1)] assms(3,4) peer_okD(2,3) [OF assms(1)]
proof (cases rule: handleAppendReply_cases)
  case newer
  with assms(1) show ?thesis by (simp add: peer_ok_convertToFollower)
next
  case ignored
  with assms(1) show ?thesis by simp
next
  case (success c)
  then have "commitIndex rf \<le> c" by auto
  with success(6) assms(1) show ?thesis by (simp add: peer_ok_after_ack)
next
  case backoff
  with assms(1) show ?thesis by (simp add: peer_ok_after_backoff)
qed

lemma peer_ok_voteSuccessCh [simp]: "peer_ok (rf\<lparr>voteSuccessCh := x\<rparr>) = peer_ok rf"
  by (simp add: peer_ok_def tables_ok_def in_sync_def encoded_state_def)

lemma peer_ok_handleVoteReply:
  assumes "peer_ok rf" and "handleVoteReply args reply v rf = Some (rf', v')"
  shows "peer_ok rf'"
  using assms(2)
proof (cases rule: handleVoteReply_cases)
  case newer
  with assms(1) show ?thesis by (simp add: peer_ok_convertToFollower)
next
  case (elected rf0)
  with assms(1) peer_ok_convertToLeader [of rf rf0] show ?thesis by simp
qed (use assms(1) in simp_all)

lemma peer_ok_Make:
  assumes "in_sync rf" and "raftstate ps = raftstate (persister rf)"
  shows "peer_ok (Make n i ps now r)"
  using Make_recovers(4) [OF assms] by (simp add: peer_ok_def)

end
