(* ===== verification/Raft_Cluster.thy ===== *)
theory Raft_Cluster
  imports Raft_Peer_Inv
begin

section \<open>A cluster of Raft peers on the simulated network\<close>

text \<open>
  The whole system as a step relation: the peers of \<open>lab3/raft/raft.go\<close>, the RPCs in flight
  between them with the delivery guarantees of \<open>lab3/labrpc/labrpc.go\<close> (a request is executed
  at most once, by the server currently registered; requests and replies can be lost, delayed and
  reordered without bound), and the crash and restart of \<open>lab3/raft/config.go\<close>.

  One step is one critical section under \<open>rf.mu\<close>, so interleavings of goroutines are
  interleavings of steps. An election round is one call of \<open>startVoting\<close> with its shared vote
  counter and one outstanding call per peer; a replication call is one iteration of
  \<open>sendAppendEntriesToOnePeer\<close>. Losing a message needs no step: it is never delivered. The
  election timer may fire at any moment, in any role: a leader whose timer fired just before its
  election still runs \<open>convertToCandidate\<close>, as the \<open>select\<close> in \<open>startCandidate\<close> allows.
  A restart gives the peer a new incarnation; a reply to an earlier incarnation is never handled,
  since the goroutine waiting for it belongs to the abandoned \<open>Raft\<close> object.
\<close>

subsection \<open>Calls in flight\<close>

datatype rv_call = RV_None | RV_Sent | RV_Replied RequestVoteReply | RV_Done

record round =
  rd_inc :: nat
  rd_args :: RequestVoteArgs
  rd_votes :: int
  rd_calls :: "int \<Rightarrow> rv_call"

datatype ae_status = AE_Sent | AE_Replied AppendEntriesReply | AE_Done

record 'c ae_call =
  ac_src :: int
  ac_dst :: int
  ac_inc :: nat
  ac_args :: "'c AppendEntriesArgs"
  ac_status :: ae_status

record 'c cluster =
  csize :: int
  nodes :: "int \<Rightarrow> 'c raft"
  incs :: "int \<Rightarrow> nat"
  rounds :: "round list"
  calls :: "'c ae_call list"

abbreviation candidate_of :: "round \<Rightarrow> int" where
  "candidate_of rd \<equiv> rva_CandidateId (rd_args rd)"

definition set_node :: "int \<Rightarrow> 'c raft \<Rightarrow> 'c cluster \<Rightarrow> 'c cluster" where
  "set_node i rf s = s\<lparr>nodes := (nodes s)(i := rf)\<rparr>"

definition set_round :: "nat \<Rightarrow> round \<Rightarrow> 'c cluster \<Rightarrow> 'c cluster" where
  "set_round k rd s = s\<lparr>rounds := (rounds s)[k := rd]\<rparr>"

definition set_call :: "nat \<Rightarrow> 'c ae_call \<Rightarrow> 'c cluster \<Rightarrow> 'c cluster" where
  "set_call k c s = s\<lparr>calls := (calls s)[k := c]\<rparr>"

definition answer :: "int \<Rightarrow> rv_call \<Rightarrow> round \<Rightarrow> round" where
  "answer j st rd = rd\<lparr>rd_calls := (rd_calls rd)(j := st)\<rparr>"

definition new_round :: "nat \<Rightarrow> RequestVoteArgs \<Rightarrow> int list \<Rightarrow> round" where
  "new_round inc args ps = \<lparr>rd_inc = inc, rd_args = args, rd_votes = 1,
     rd_calls = (\<lambda>j. if j \<in> set ps then RV_Sent else RV_None)\<rparr>"

subsection \<open>Crash and restart\<close>

text \<open>\<open>crash1\<close> copies the persister twice, the second time into a fresh object;
  \<open>start1\<close> copies it once more and passes it to \<open>Make\<close>.\<close>

definition crash_store :: "'c Persister \<Rightarrow> 'c Persister" where
  "crash_store saved =
     (let saved = Copy saved;
          raftlog = ReadRaftState saved;
          snap = ReadSnapshot saved
      in SaveStateAndSnapshot MakePersister raftlog snap)"

definition restart_peer :: "int \<Rightarrow> int \<Rightarrow> 'c raft \<Rightarrow> 'c raft" where
  "restart_peer now r rf =
     (let saved = crash_store (persister rf);
          saved = Copy saved
      in Make (npeers rf) (me rf) saved now r)"

definition cluster_init :: "int \<Rightarrow> (int \<Rightarrow> int) \<Rightarrow> 'c cluster" where
  "cluster_init n r =
     \<lparr>csize = n, nodes = (\<lambda>i. Make n i MakePersister 0 (r i)), incs = (\<lambda>_. 0),
      rounds = [], calls = []\<rparr>"

subsection \<open>Steps\<close>

inductive cluster_step :: "'c cluster \<Rightarrow> 'c cluster \<Rightarrow> bool" where
  timeout: "i \<in> members (csize s) \<Longrightarrow>
     cluster_step s (set_node i (convertToCandidate now r (nodes s i)) s)"
| voting: "i \<in> members (csize s) \<Longrightarrow> startVoting (nodes s i) = Some (args, ps) \<Longrightarrow>
     cluster_step s (s\<lparr>rounds := rounds s @ [new_round (incs s i) args ps]\<rparr>)"
| vote_request: "k < length (rounds s) \<Longrightarrow> rd = rounds s ! k \<Longrightarrow> rd_calls rd j = RV_Sent \<Longrightarrow>
     RequestVote now (rd_args rd) (nodes s j) = (reply, rf') \<Longrightarrow>
     cluster_step s (set_round k (answer j (RV_Replied reply) rd) (set_node j rf' s))"
| vote_reply: "k < length (rounds s) \<Longrightarrow> rd = rounds s ! k \<Longrightarrow>
     rd_calls rd j = RV_Replied reply \<Longrightarrow> rd_inc rd = incs s (candidate_of rd) \<Longrightarrow>
     handleVoteReply (rd_args rd) reply (rd_votes rd) (nodes s (candidate_of rd)) = Some (rf', v) \<Longrightarrow>
     cluster_step s (set_round k (answer j RV_Done (rd\<lparr>rd_votes := v\<rparr>))
       (set_node (candidate_of rd) rf' s))"
| append_send: "i \<in> members (csize s) \<Longrightarrow> j \<in> set (other_peers (nodes s i)) \<Longrightarrow>
     sendAppend j (nodes s i) = Some (Some args) \<Longrightarrow>
     cluster_step s (s\<lparr>calls := calls s @
       [\<lparr>ac_src = i, ac_dst = j, ac_inc = incs s i, ac_args = args, ac_status = AE_Sent\<rparr>]\<rparr>)"
| append_request: "k < length (calls s) \<Longrightarrow> c = calls s ! k \<Longrightarrow> ac_status c = AE_Sent \<Longrightarrow>
     AppendEntries now (ac_args c) (nodes s (ac_dst c)) = Some (reply, rf') \<Longrightarrow>
     cluster_step s (set_call k (c\<lparr>ac_status := AE_Replied reply\<rparr>) (set_node (ac_dst c) rf' s))"
| append_reply: "k < length (calls s) \<Longrightarrow> c = calls s ! k \<Longrightarrow> ac_status c = AE_Replied reply \<Longrightarrow>
     ac_inc c = incs s (ac_src c) \<Longrightarrow>
     handleAppendReply (ac_dst c) (ac_args c) reply (nodes s (ac_src c)) = Some (rf', again) \<Longrightarrow>
     cluster_step s (set_call k (c\<lparr>ac_status := AE_Done\<rparr>) (set_node (ac_src c) rf' s))"
| client: "i \<in> members (csize s) \<Longrightarrow> Start cmd (nodes s i) = (res, rf') \<Longrightarrow>
     cluster_step s (set_node i rf' s)"
| kill: "i \<in> members (csize s) \<Longrightarrow> cluster_step s (set_node i (Kill (nodes s i)) s)"
| restart: "i \<in> members (csize s) \<Longrightarrow>
     cluster_step s ((set_node i (restart_peer now r (nodes s i)) s)
       \<lparr>incs := (incs s)(i := Suc (incs s i))\<rparr>)"

inductive reachable :: "int \<Rightarrow> 'c cluster \<Rightarrow> bool" for n where
  start: "reachable n (cluster_init n r)"
| step: "reachable n s \<Longrightarrow> cluster_step s s' \<Longrightarrow> reachable n s'"

lemma set_node_simps [simp, frame_simps]:
  "csize (set_node i rf s) = csize s" "nodes (set_node i rf s) = (nodes s)(i := rf)"
  "incs (set_node i rf s) = incs s" "rounds (set_node i rf s) = rounds s"
  "calls (set_node i rf s) = calls s"
  by (simp_all add: set_node_def)

lemma set_round_simps [simp, frame_simps]:
  "csize (set_round k rd s) = csize s" "nodes (set_round k rd s) = nodes s"
  "incs (set_round k rd s) = incs s" "rounds (set_round k rd s) = (rounds s)[k := rd]"
  "calls (set_round k rd s) = calls s"
  by (simp_all add: set_round_def)

lemma set_call_simps [simp, frame_simps]:
  "csize (set_call k c s) = csize s" "nodes (set_call k c s) = nodes s"
  "incs (set_call k c s) = incs s" "rounds (set_call k c s) = rounds s"
  "calls (set_call k c s) = (calls s)[k := c]"
  by (simp_all add: set_call_def)

lemma answer_simps [simp]:
  "rd_inc (answer j st rd) = rd_inc rd" "rd_args (answer j st rd) = rd_args rd"
  "rd_votes (answer j st rd) = rd_votes rd" "rd_calls (answer j st rd) = (rd_calls rd)(j := st)"
  by (simp_all add: answer_def)

subsection \<open>Running the cluster\<close>

text \<open>The same steps as an executable function of the event that the scheduler, the network or
  a client chooses. \<open>None\<close>: the event is not enabled, or its handler panics.\<close>

datatype 'c event =
    Timeout int int int | Voting int | Vote_Request nat int int | Vote_Reply nat int
  | Append_Send int int | Append_Request nat int | Append_Reply nat
  | Client int 'c | Kill_Peer int | Restart int int int

fun exec :: "'c event \<Rightarrow> 'c cluster \<Rightarrow> 'c cluster option" where
  "exec (Timeout i now r) s =
     (if i \<in> members (csize s) then Some (set_node i (convertToCandidate now r (nodes s i)) s)
      else None)"
| "exec (Voting i) s =
     (if i \<in> members (csize s) then
        (case startVoting (nodes s i) of None \<Rightarrow> None
         | Some (args, ps) \<Rightarrow> Some (s\<lparr>rounds := rounds s @ [new_round (incs s i) args ps]\<rparr>))
      else None)"
| "exec (Vote_Request k j now) s =
     (if k < length (rounds s) then
        let rd = rounds s ! k in
        (if rd_calls rd j = RV_Sent then
           let (reply, rf') = RequestVote now (rd_args rd) (nodes s j)
           in Some (set_round k (answer j (RV_Replied reply) rd) (set_node j rf' s))
         else None)
      else None)"
| "exec (Vote_Reply k j) s =
     (if k < length (rounds s) then
        let rd = rounds s ! k in
        (case rd_calls rd j of
           RV_Replied reply \<Rightarrow>
             (if rd_inc rd = incs s (candidate_of rd) then
                (case handleVoteReply (rd_args rd) reply (rd_votes rd) (nodes s (candidate_of rd)) of
                   None \<Rightarrow> None
                 | Some (rf', v) \<Rightarrow> Some (set_round k (answer j RV_Done (rd\<lparr>rd_votes := v\<rparr>))
                                       (set_node (candidate_of rd) rf' s)))
              else None)
         | _ \<Rightarrow> None)
      else None)"
| "exec (Append_Send i j) s =
     (if i \<in> members (csize s) \<and> j \<in> set (other_peers (nodes s i)) then
        (case sendAppend j (nodes s i) of
           Some (Some args) \<Rightarrow> Some (s\<lparr>calls := calls s @
             [\<lparr>ac_src = i, ac_dst = j, ac_inc = incs s i, ac_args = args, ac_status = AE_Sent\<rparr>]\<rparr>)
         | _ \<Rightarrow> None)
      else None)"
| "exec (Append_Request k now) s =
     (if k < length (calls s) \<and> ac_status (calls s ! k) = AE_Sent then
        let c = calls s ! k in
        (case AppendEntries now (ac_args c) (nodes s (ac_dst c)) of
           None \<Rightarrow> None
         | Some (reply, rf') \<Rightarrow>
             Some (set_call k (c\<lparr>ac_status := AE_Replied reply\<rparr>) (set_node (ac_dst c) rf' s)))
      else None)"
| "exec (Append_Reply k) s =
     (if k < length (calls s) then
        let c = calls s ! k in
        (case ac_status c of
           AE_Replied reply \<Rightarrow>
             (if ac_inc c = incs s (ac_src c) then
                (case handleAppendReply (ac_dst c) (ac_args c) reply (nodes s (ac_src c)) of
                   None \<Rightarrow> None
                 | Some (rf', again) \<Rightarrow>
                     Some (set_call k (c\<lparr>ac_status := AE_Done\<rparr>) (set_node (ac_src c) rf' s)))
              else None)
         | _ \<Rightarrow> None)
      else None)"
| "exec (Client i cmd) s =
     (if i \<in> members (csize s) then Some (set_node i (snd (Start cmd (nodes s i))) s) else None)"
| "exec (Kill_Peer i) s =
     (if i \<in> members (csize s) then Some (set_node i (Kill (nodes s i)) s) else None)"
| "exec (Restart i now r) s =
     (if i \<in> members (csize s) then
        Some ((set_node i (restart_peer now r (nodes s i)) s)\<lparr>incs := (incs s)(i := Suc (incs s i))\<rparr>)
      else None)"

fun run :: "'c event list \<Rightarrow> 'c cluster \<Rightarrow> 'c cluster option" where
  "run [] s = Some s"
| "run (e # es) s = (case exec e s of None \<Rightarrow> None | Some s' \<Rightarrow> run es s')"

lemma exec_cluster_step: "exec e s = Some s' \<Longrightarrow> cluster_step s s'"
  by (cases e)
    (auto simp: Let_def intro: cluster_step.intros cluster_step.client [OF _ prod.collapse [symmetric]]
      split: if_splits option.splits prod.splits rv_call.splits ae_status.splits)

lemma cluster_step_exec: "cluster_step s s' \<Longrightarrow> \<exists>e. exec e s = Some s'"
proof (induction rule: cluster_step.induct)
  case (timeout i s now r)
  then show ?case by (intro exI [of _ "Timeout i now r"]) simp
next
  case (voting i s args ps)
  then show ?case by (intro exI [of _ "Voting i"]) simp
next
  case (vote_request k s rd j now reply rf')
  then show ?case by (intro exI [of _ "Vote_Request k j now"]) simp
next
  case (vote_reply k s rd j reply rf' v)
  then show ?case by (intro exI [of _ "Vote_Reply k j"]) (simp add: Let_def)
next
  case (append_send i s j args)
  then show ?case by (intro exI [of _ "Append_Send i j"]) simp
next
  case (append_request k s c now reply rf')
  then show ?case by (intro exI [of _ "Append_Request k now"]) (simp add: Let_def)
next
  case (append_reply k s c reply rf' again)
  then show ?case by (intro exI [of _ "Append_Reply k"]) (simp add: Let_def)
next
  case (client i s cmd res rf')
  then show ?case by (intro exI [of _ "Client i cmd"]) simp
next
  case (kill i s)
  then show ?case by (intro exI [of _ "Kill_Peer i"]) simp
next
  case (restart i s now r)
  then show ?case by (intro exI [of _ "Restart i now r"]) simp
qed

lemma run_reachable: "run es s = Some s' \<Longrightarrow> reachable n s \<Longrightarrow> reachable n s'"
  by (induction es arbitrary: s) (auto split: option.splits dest: reachable.step [OF _ exec_cluster_step])

subsection \<open>What every step keeps\<close>

definition round_ok :: "int \<Rightarrow> round \<Rightarrow> bool" where
  "round_ok n rd \<longleftrightarrow> candidate_of rd \<in> members n \<and>
     (\<forall>j. rd_calls rd j \<noteq> RV_None \<longrightarrow> j \<in> members n \<and> j \<noteq> candidate_of rd)"

definition call_ok :: "int \<Rightarrow> 'c ae_call \<Rightarrow> bool" where
  "call_ok n c \<longleftrightarrow> ac_src c \<in> members n \<and> ac_dst c \<in> members n \<and> ac_src c \<noteq> ac_dst c \<and>
     aea_LeaderId (ac_args c) = ac_src c \<and> 0 \<le> aea_PrevLogIndex (ac_args c)"

definition static_inv :: "'c cluster \<Rightarrow> bool" where
  "static_inv s \<longleftrightarrow>
     (\<forall>i \<in> members (csize s). npeers (nodes s i) = csize s \<and> me (nodes s i) = i \<and> peer_ok (nodes s i)) \<and>
     (\<forall>rd \<in> set (rounds s). round_ok (csize s) rd) \<and>
     (\<forall>c \<in> set (calls s). call_ok (csize s) c)"

lemma static_invD:
  assumes "static_inv s"
  shows "i \<in> members (csize s) \<Longrightarrow> npeers (nodes s i) = csize s"
    and "i \<in> members (csize s) \<Longrightarrow> me (nodes s i) = i"
    and "i \<in> members (csize s) \<Longrightarrow> peer_ok (nodes s i)"
    and "k < length (rounds s) \<Longrightarrow> round_ok (csize s) (rounds s ! k)"
    and "k < length (calls s) \<Longrightarrow> call_ok (csize s) (calls s ! k)"
  using assms by (auto simp: static_inv_def)

lemma static_inv_set_node:
  assumes "static_inv s" and "npeers rf = csize s" "me rf = i" "peer_ok rf"
  shows "static_inv (set_node i rf s)"
  using assms by (simp add: static_inv_def)

lemma static_inv_set_round:
  assumes "static_inv s" and "round_ok (csize s) rd"
  shows "static_inv (set_round k rd s)"
  using assms set_update_subset_insert [of "rounds s" k rd] by (auto simp: static_inv_def)

lemma static_inv_set_call:
  assumes "static_inv s" and "call_ok (csize s) c"
  shows "static_inv (set_call k c s)"
  using assms set_update_subset_insert [of "calls s" k c] by (auto simp: static_inv_def)

lemma other_peers_iff [simp]: "j \<in> set (other_peers rf) \<longleftrightarrow> 0 \<le> j \<and> j < npeers rf \<and> j \<noteq> me rf"
  by (auto simp: other_peers_def)

lemma restart_store_same [simp]: "raftstate (Copy (crash_store ps)) = raftstate ps"
  by (simp add: Copy_def crash_store_def SaveStateAndSnapshot_def ReadRaftState_def)

lemma restart_peer_state:
  assumes "in_sync rf"
  shows "currentTerm (restart_peer now r rf) = currentTerm rf"
    and "votedFor (restart_peer now r rf) = votedFor rf"
    and "log (restart_peer now r rf) = log rf"
    and "npeers (restart_peer now r rf) = npeers rf" "me (restart_peer now r rf) = me rf"
    and "myRole (restart_peer now r rf) = Follower"
    and "commitIndex (restart_peer now r rf) = 0" "lastApplied (restart_peer now r rf) = 0"
    and "applyCh (restart_peer now r rf) = []"
    and "peer_ok (restart_peer now r rf)"
  using assms Make_recovers [OF assms restart_store_same] peer_ok_Make [OF assms restart_store_same]
  by (simp_all add: restart_peer_def)

lemma AppendEntries_ids:
  assumes "AppendEntries now args rf = Some (reply, rf')"
    and "0 \<le> aea_PrevLogIndex args" and "0 \<le> lastApplied rf"
  shows "npeers rf' = npeers rf" "me rf' = me rf"
  using assms by (cases rule: AppendEntries_cases; simp)+

lemma handleAppendReply_ids:
  assumes "handleAppendReply p args reply rf = Some (rf', again)"
    and "myRole rf = Leader \<longrightarrow> tables_ok rf" and "0 \<le> p" and "p < npeers rf"
    and "0 \<le> commitIndex rf" and "commitIndex rf \<le> lastApplied rf"
  shows "npeers rf' = npeers rf" "me rf' = me rf"
  using assms by (cases rule: handleAppendReply_cases; simp)+

lemma handleVoteReply_ids:
  assumes "handleVoteReply args reply v rf = Some (rf', v')"
  shows "npeers rf' = npeers rf" "me rf' = me rf"
  using assms by (cases rule: handleVoteReply_cases; auto elim: convertToLeader_SomeE)+

lemma static_inv_init: "static_inv (cluster_init n r)"
  by (auto simp: static_inv_def cluster_init_def peer_ok_def in_sync_def Make_def
      ReadRaftState_def MakePersister_def)

lemma cluster_step_static: "cluster_step s s' \<Longrightarrow> static_inv s \<Longrightarrow> static_inv s'"
proof (induction rule: cluster_step.induct)
  case (timeout i s now r)
  then show ?case
    by (intro static_inv_set_node) (auto simp: static_invD peer_ok_convertToCandidate)
next
  case (voting i s args ps)
  then have "round_ok (csize s) (new_round (incs s i) args ps)"
    by (auto simp: round_ok_def new_round_def startVoting_def Let_def static_invD
        split: if_splits)
  with voting.prems show ?case by (auto simp: static_inv_def)
next
  case (vote_request k s rd j now reply rf')
  then have rd: "round_ok (csize s) rd" by (simp add: static_invD)
  then have j: "j \<in> members (csize s)" using vote_request.hyps(3) by (auto simp: round_ok_def)
  have rf': "rf' = snd (RequestVote now (rd_args rd) (nodes s j))"
    using vote_request.hyps(4) by simp
  have "static_inv (set_node j rf' s)"
    using vote_request.prems j
    by (intro static_inv_set_node) (auto simp: rf' static_invD peer_ok_RequestVote)
  then show ?case
    using rd j vote_request.hyps(3)
    by (intro static_inv_set_round) (auto simp: round_ok_def)
next
  case (vote_reply k s rd j reply rf' v)
  then have rd: "round_ok (csize s) rd" by (simp add: static_invD)
  then have cand: "candidate_of rd \<in> members (csize s)" by (simp add: round_ok_def)
  have "static_inv (set_node (candidate_of rd) rf' s)"
    using vote_reply.prems cand vote_reply.hyps(5)
      peer_ok_handleVoteReply [OF _ vote_reply.hyps(5)]
    by (intro static_inv_set_node) (auto simp: handleVoteReply_ids static_invD)
  then show ?case
    using rd vote_reply.hyps(3)
    by (intro static_inv_set_round) (auto simp: round_ok_def)
next
  case (append_send i s j args)
  then have "call_ok (csize s) \<lparr>ac_src = i, ac_dst = j, ac_inc = incs s i, ac_args = args, ac_status = AE_Sent\<rparr>"
    by (auto simp: call_ok_def append_args_def static_invD elim!: sendAppend_SomeE)
  with append_send.prems show ?case by (auto simp: static_inv_def)
next
  case (append_request k s c now reply rf')
  then have c: "call_ok (csize s) c" by (simp add: static_invD)
  then have "static_inv (set_node (ac_dst c) rf' s)"
    using append_request.prems append_request.hyps(4)
      peer_ok_AppendEntries [OF _ append_request.hyps(4)]
    by (intro static_inv_set_node) (auto simp: AppendEntries_ids call_ok_def static_invD peer_okD)
  with c show ?case by (intro static_inv_set_call) (auto simp: call_ok_def)
next
  case (append_reply k s c reply rf' again)
  then have c: "call_ok (csize s) c" by (simp add: static_invD)
  then have ok: "peer_ok (nodes s (ac_src c))" "npeers (nodes s (ac_src c)) = csize s"
    "me (nodes s (ac_src c)) = ac_src c" "0 \<le> ac_dst c" "ac_dst c < csize s"
    using append_reply.prems by (auto simp: call_ok_def static_invD)
  have "static_inv (set_node (ac_src c) rf' s)"
    using append_reply.prems append_reply.hyps(5) ok
    by (intro static_inv_set_node)
      (simp_all add: handleAppendReply_ids peer_okD peer_ok_handleAppendReply)
  with c show ?case by (intro static_inv_set_call) (auto simp: call_ok_def)
next
  case (client i s cmd res rf')
  then have rf': "rf' = snd (Start cmd (nodes s i))" by simp
  show ?case
    using client.prems client.hyps(1)
    by (intro static_inv_set_node) (auto simp: rf' static_invD peer_ok_Start)
next
  case (kill i s)
  then show ?case
    by (intro static_inv_set_node) (auto simp: static_invD peer_ok_Kill, simp_all add: Kill_def static_invD)
next
  case (restart i s now r)
  then have "static_inv (set_node i (restart_peer now r (nodes s i)) s)"
    by (intro static_inv_set_node)
      (auto simp: restart_peer_state peer_okD static_invD)
  then show ?case by (simp add: static_inv_def)
qed

lemma reachable_static: "reachable n s \<Longrightarrow> static_inv s \<and> csize s = n"
proof (induction rule: reachable.induct)
  case (start r)
  show ?case using static_inv_init [of n r] by (simp add: cluster_init_def)
next
  case (step s s')
  then have "csize s' = csize s" by (auto elim!: cluster_step.cases)
  with step cluster_step_static show ?case by auto
qed

end
