(* ===== verification/Election_Spec.thy ===== *)
theory Election_Spec
  imports Go_Prelude
begin

section \<open>The abstract election protocol\<close>

text \<open>
  What the election half of Raft promises, without logs, messages or RPCs: every member has a
  term, the candidate it supports (\<open>-1\<close> for none) and a flag saying that it is campaigning.
  \<open>ballots\<close> records every vote ever cast as (voter, term, candidate) and \<open>winner\<close> the
  leader of each term. A member may change its support to a candidate that has already won the
  term (\<open>follow\<close>), which is what \<open>convertToFollower(args.Term, args.LeaderId)\<close> does; one
  ballot per member and term is therefore not an invariant, and the proof has to show that the
  late ballots this allows can never elect anyone else.
\<close>

record election =
  e_term :: "int \<Rightarrow> int"
  e_vote :: "int \<Rightarrow> int"
  e_cand :: "int \<Rightarrow> bool"
  ballots :: "(int \<times> int \<times> int) set"
  winner :: "int \<Rightarrow> int option"

inductive estep :: "int \<Rightarrow> election \<Rightarrow> election \<Rightarrow> bool" for n where
  campaign: "i \<in> members n \<Longrightarrow> estep n e (e\<lparr>
     e_term := (e_term e)(i := e_term e i + 1), e_vote := (e_vote e)(i := i),
     e_cand := (e_cand e)(i := True), ballots := insert (i, e_term e i + 1, i) (ballots e)\<rparr>)"
| observe: "j \<in> members n \<Longrightarrow> e_term e j < T \<Longrightarrow> estep n e (e\<lparr>
     e_term := (e_term e)(j := T), e_vote := (e_vote e)(j := -1),
     e_cand := (e_cand e)(j := False)\<rparr>)"
| follow: "j \<in> members n \<Longrightarrow> winner e T = Some c \<Longrightarrow>
     e_term e j < T \<or> e_term e j = T \<and> e_cand e j \<Longrightarrow> estep n e (e\<lparr>
     e_term := (e_term e)(j := T), e_vote := (e_vote e)(j := c),
     e_cand := (e_cand e)(j := False)\<rparr>)"
| grant: "j \<in> members n \<Longrightarrow> e_vote e j = -1 \<or> e_vote e j = c \<Longrightarrow> c \<in> members n \<Longrightarrow> estep n e (e\<lparr>
     e_vote := (e_vote e)(j := c), ballots := insert (j, e_term e j, c) (ballots e)\<rparr>)"
| elect: "i \<in> members n \<Longrightarrow> e_cand e i \<Longrightarrow> majority n Q \<Longrightarrow>
     \<forall>j \<in> Q. (j, e_term e i, i) \<in> ballots e \<Longrightarrow> estep n e (e\<lparr>
     e_cand := (e_cand e)(i := False), winner := (winner e)(e_term e i \<mapsto> i)\<rparr>)"
| retire: "i \<in> members n \<Longrightarrow> estep n e (e\<lparr>e_cand := (e_cand e)(i := False)\<rparr>)"

definition election_init :: election where
  "election_init = \<lparr>e_term = (\<lambda>_. 0), e_vote = (\<lambda>_. -1), e_cand = (\<lambda>_. False),
     ballots = {}, winner = Map.empty\<rparr>"

subsection \<open>The invariant\<close>

definition backed :: "int \<Rightarrow> election \<Rightarrow> int \<Rightarrow> int \<Rightarrow> bool" where
  "backed n e T c \<longleftrightarrow> (\<exists>Q. majority n Q \<and>
     (\<forall>j \<in> Q. (j, T, c) \<in> ballots e \<and> (\<forall>c'. (j, T, c') \<in> ballots e \<longrightarrow> c' = c)))"

definition ballots_past :: "int \<Rightarrow> election \<Rightarrow> bool" where
  "ballots_past n e \<longleftrightarrow> (\<forall>j T c. (j, T, c) \<in> ballots e \<longrightarrow> j \<in> members n \<and> T \<le> e_term e j)"

definition ballots_supported :: "int \<Rightarrow> election \<Rightarrow> bool" where
  "ballots_supported n e \<longleftrightarrow> (\<forall>j c. (j, e_term e j, c) \<in> ballots e \<longrightarrow>
     e_vote e j \<noteq> -1 \<and> (c = e_vote e j \<or> winner e (e_term e j) = Some (e_vote e j)))"

definition winners_backed :: "int \<Rightarrow> election \<Rightarrow> bool" where
  "winners_backed n e \<longleftrightarrow> (\<forall>T c. winner e T = Some c \<longrightarrow>
     c \<in> members n \<and> T \<le> e_term e c \<and> backed n e T c)"

definition open_terms_unique :: "election \<Rightarrow> bool" where
  "open_terms_unique e \<longleftrightarrow> (\<forall>j T c c'. winner e T = None \<longrightarrow>
     (j, T, c) \<in> ballots e \<longrightarrow> (j, T, c') \<in> ballots e \<longrightarrow> c = c')"

definition candidates_open :: "int \<Rightarrow> election \<Rightarrow> bool" where
  "candidates_open n e \<longleftrightarrow> (\<forall>i \<in> members n. e_cand e i \<longrightarrow> winner e (e_term e i) \<noteq> Some i)"

definition election_inv :: "int \<Rightarrow> election \<Rightarrow> bool" where
  "election_inv n e \<longleftrightarrow> ballots_past n e \<and> ballots_supported n e \<and> winners_backed n e \<and>
     open_terms_unique e \<and> candidates_open n e"

lemmas election_inv_defs = election_inv_def ballots_past_def ballots_supported_def
  winners_backed_def open_terms_unique_def candidates_open_def

lemma election_inv_init: "election_inv n election_init"
  by (simp add: election_inv_defs election_init_def)

text \<open>A campaign can only be won in a term that has no winner yet.\<close>

lemma elect_fresh:
  assumes "election_inv n e" and "i \<in> members n" and "e_cand e i" and "majority n Q"
    and "\<forall>j \<in> Q. (j, e_term e i, i) \<in> ballots e"
  shows "winner e (e_term e i) = None"
proof (rule ccontr)
  assume "winner e (e_term e i) \<noteq> None"
  then obtain c where c: "winner e (e_term e i) = Some c" by auto
  with assms(1) have "backed n e (e_term e i) c"
    by (simp add: election_inv_def winners_backed_def)
  then obtain Q' where Q': "majority n Q'"
    "\<forall>j \<in> Q'. (j, e_term e i, c) \<in> ballots e \<and> (\<forall>c'. (j, e_term e i, c') \<in> ballots e \<longrightarrow> c' = c)"
    by (auto simp: backed_def)
  from maj.decisions_agree [OF Q' assms(4,5)] have "i = c" .
  with c assms(1-3) show False by (simp add: election_inv_def candidates_open_def)
qed

lemma backed_mono:
  assumes "backed n e T c" and "\<And>j c'. (j, T, c') \<in> ballots e \<Longrightarrow> (j, T, c') \<in> ballots e'"
    and "\<And>j c'. (j, T, c') \<in> ballots e' \<Longrightarrow> (j, T, c) \<in> ballots e \<Longrightarrow>
           \<forall>c''. (j, T, c'') \<in> ballots e \<longrightarrow> c'' = c \<Longrightarrow> c' = c"
  shows "backed n e' T c"
  using assms unfolding backed_def by blast

lemma winner_stable:
  assumes "estep n e e'" and "election_inv n e" and "winner e T = Some c"
  shows "winner e' T = Some c"
  using assms by (cases rule: estep.cases) (auto dest: elect_fresh)

subsection \<open>Every step keeps the invariant\<close>

lemma ballots_past_step:
  assumes "estep n e e'" and "election_inv n e"
  shows "ballots_past n e'"
  using assms(1)
proof (cases rule: estep.cases)
  case (campaign i)
  with assms(2) show ?thesis by (fastforce simp: election_inv_def ballots_past_def)
next
  case (observe j T)
  with assms(2) show ?thesis by (fastforce simp: election_inv_def ballots_past_def)
next
  case (follow j T c)
  with assms(2) show ?thesis by (fastforce simp: election_inv_def ballots_past_def)
qed (use assms(2) in \<open>auto simp: election_inv_def ballots_past_def\<close>)

lemma ballots_supported_step:
  assumes "estep n e e'" and "election_inv n e"
  shows "ballots_supported n e'"
  using assms(1)
proof (cases rule: estep.cases)
  case (campaign i)
  have "(i, e_term e i + 1, c) \<notin> ballots e" for c
    using assms(2) by (fastforce simp: election_inv_def ballots_past_def)
  with campaign assms(2) show ?thesis
    by (auto simp: election_inv_def ballots_supported_def)
next
  case (observe j T)
  have "(j, T, c) \<notin> ballots e" for c
    using assms(2) observe(3) by (fastforce simp: election_inv_def ballots_past_def)
  with observe assms(2) show ?thesis
    by (auto simp: election_inv_def ballots_supported_def)
next
  case (follow j T c)
  have "c \<noteq> -1"
    using assms(2) follow(3) by (fastforce simp: election_inv_def winners_backed_def)
  with follow assms(2) show ?thesis
    by (auto simp: election_inv_def ballots_supported_def)
next
  case (grant j c)
  with assms(2) show ?thesis
    by (auto simp: election_inv_def ballots_supported_def)
next
  case (elect i Q)
  have none: "winner e (e_term e i) = None"
    by (rule elect_fresh [OF assms(2) elect(2-5)])
  have sup: "e_vote e j \<noteq> -1 \<and> (c = e_vote e j \<or> winner e (e_term e j) = Some (e_vote e j))"
    if "(j, e_term e j, c) \<in> ballots e" for j c
    using assms(2) that by (simp add: election_inv_def ballots_supported_def)
  have "e_vote e' j \<noteq> -1 \<and> (c = e_vote e' j \<or> winner e' (e_term e' j) = Some (e_vote e' j))"
    if "(j, e_term e' j, c) \<in> ballots e'" for j c
    using that sup [of j c] none by (auto simp: elect(1))
  then show ?thesis by (simp add: ballots_supported_def)
next
  case (retire i)
  with assms(2) show ?thesis by (auto simp: election_inv_def ballots_supported_def)
qed

lemma winners_backed_frame:
  assumes "winners_backed n e" and "\<And>T c. winner e' T = Some c \<Longrightarrow> winner e T = Some c"
    and "\<And>j. e_term e j \<le> e_term e' j"
    and "\<And>T c. winner e T = Some c \<Longrightarrow> backed n e' T c"
  shows "winners_backed n e'"
  using assms unfolding winners_backed_def by (meson order_trans)

lemma winners_backed_step:
  assumes "estep n e e'" and "election_inv n e"
  shows "winners_backed n e'"
proof -
  from assms(2) have wb: "winners_backed n e"
    and past: "(j, T, c) \<in> ballots e \<Longrightarrow> T \<le> e_term e j" for j T c
    by (auto simp: election_inv_def ballots_past_def)
  from wb have old: "winner e T = Some c \<Longrightarrow> backed n e T c" for T c
    by (simp add: winners_backed_def)
  from assms(1) show ?thesis
proof (cases rule: estep.cases)
  case (campaign i)
  have fresh: "(j, T, c') \<in> ballots e" if "(j, T, c') \<in> ballots e'" "(j, T, c) \<in> ballots e" for j T c c'
    using that past [OF that(2)] by (auto simp: campaign(1))
  have "backed n e' T c" if "backed n e T c" for T c
    using that
  proof (rule backed_mono)
    show "(j, T, c') \<in> ballots e'" if "(j, T, c') \<in> ballots e" for j c'
      using that by (simp add: campaign(1))
  qed (blast dest: fresh)
  then show ?thesis using old by (intro winners_backed_frame [OF wb]) (auto simp: campaign(1))
next
  case (observe j T)
  have "backed n e' T c" if "backed n e T c" for T c
    using that observe(1) by (simp add: backed_def)
  then show ?thesis
    using old observe(3) by (intro winners_backed_frame [OF wb]) (auto simp: observe(1))
next
  case (follow j T c)
  have "backed n e' T c" if "backed n e T c" for T c
    using that follow(1) by (simp add: backed_def)
  then show ?thesis
    using old follow(4) by (intro winners_backed_frame [OF wb]) (auto simp: follow(1))
next
  case (grant j c)
  have "backed n e' T c0" if T: "winner e T = Some c0" for T c0
  proof (rule backed_mono)
    show "backed n e T c0" using assms(2) T by (simp add: election_inv_def winners_backed_def)
  next
    fix k c'
    assume k: "(k, T, c') \<in> ballots e'" "(k, T, c0) \<in> ballots e"
      and u: "\<forall>c''. (k, T, c'') \<in> ballots e \<longrightarrow> c'' = c0"
    show "c' = c0"
    proof (cases "(k, T, c') \<in> ballots e")
      case True
      with u show ?thesis by blast
    next
      case False
      with k grant have [simp]: "k = j" "T = e_term e j" "c' = c" by auto
      have "e_vote e j \<noteq> -1 \<and> (c0 = e_vote e j \<or> winner e (e_term e j) = Some (e_vote e j))"
        using assms(2) k(2) by (simp add: election_inv_def ballots_supported_def)
      with grant(3) T show ?thesis by auto
    qed
  qed (use grant in auto)
  then show ?thesis by (intro winners_backed_frame [OF wb]) (auto simp: grant(1))
next
  case (elect i Q)
  have none: "winner e (e_term e i) = None"
    by (rule elect_fresh [OF assms(2) elect(2-5)])
  have "\<forall>j \<in> Q. \<forall>c'. (j, e_term e i, c') \<in> ballots e \<longrightarrow> c' = i"
    using none elect(5) assms(2) unfolding election_inv_def open_terms_unique_def by blast
  with elect(4,5) have "backed n e (e_term e i) i" unfolding backed_def by blast
  then have "backed n e' (e_term e i) i" using elect(1) by (simp add: backed_def)
  moreover have "backed n e' T c" if "backed n e T c" for T c
    using that elect(1) by (simp add: backed_def)
  ultimately show ?thesis
    using elect wb by (auto simp: winners_backed_def)
next
  case (retire i)
  then show ?thesis using wb by (simp add: winners_backed_def backed_def)
qed
qed

lemma open_terms_unique_step:
  assumes "estep n e e'" and "election_inv n e"
  shows "open_terms_unique e'"
  using assms(1)
proof (cases rule: estep.cases)
  case (campaign i)
  have "(i, e_term e i + 1, c) \<notin> ballots e" for c
    using assms(2) by (fastforce simp: election_inv_def ballots_past_def)
  with campaign assms(2) show ?thesis by (auto simp: election_inv_def open_terms_unique_def)
next
  case (grant j c)
  have "c' = c" if "(j, e_term e j, c') \<in> ballots e" "winner e (e_term e j) = None" for c'
    using assms(2) grant(3) that by (fastforce simp: election_inv_def ballots_supported_def)
  with grant assms(2) show ?thesis
    unfolding election_inv_def open_terms_unique_def by auto
next
  case (elect i Q)
  with assms(2) show ?thesis by (auto simp: election_inv_def open_terms_unique_def split: if_splits)
qed (use assms(2) in \<open>auto simp: election_inv_def open_terms_unique_def\<close>)

lemma candidates_open_step:
  assumes "estep n e e'" and "election_inv n e"
  shows "candidates_open n e'"
  using assms(1)
proof (cases rule: estep.cases)
  case (campaign i)
  have "winner e (e_term e i + 1) \<noteq> Some i"
    using assms(2) by (fastforce simp: election_inv_def winners_backed_def)
  with campaign assms(2) show ?thesis by (auto simp: election_inv_def candidates_open_def)
qed (use assms(2) in \<open>auto simp: election_inv_def candidates_open_def\<close>)

lemma election_inv_step: "estep n e e' \<Longrightarrow> election_inv n e \<Longrightarrow> election_inv n e'"
  using ballots_past_step ballots_supported_step winners_backed_step open_terms_unique_step
    candidates_open_step
  unfolding election_inv_def [of n e'] by blast

lemma election_inv_steps: "rtranclp (estep n) e e' \<Longrightarrow> election_inv n e \<Longrightarrow> election_inv n e'"
  by (induction rule: rtranclp_induct) (auto intro: election_inv_step)

lemma winner_stable_steps:
  "rtranclp (estep n) e e' \<Longrightarrow> election_inv n e \<Longrightarrow> winner e T = Some c \<Longrightarrow> winner e' T = Some c"
  by (induction rule: rtranclp_induct) (auto intro: winner_stable election_inv_steps)

end
