(* ===== verification/Raft_Election.thy ===== *)
theory Raft_Election
  imports Raft_Cluster Election_Spec
begin

section \<open>The cluster implements the election protocol\<close>

text \<open>
  A forward simulation from the steps of the cluster (\<open>Raft_Cluster\<close>) to the abstract election
  protocol (\<open>Election_Spec\<close>): a peer's term, vote and candidacy are the abstract ones, a
  granted reply in flight and every vote counted by a round are ballots, and every
  \<open>AppendEntries\<close> call in flight comes from the winner of its term. Each cluster step is
  matched by zero or more abstract steps; election safety follows.
\<close>

subsection \<open>The simulation relation\<close>

definition node_sim :: "election \<Rightarrow> int \<Rightarrow> 'c raft \<Rightarrow> bool" where
  "node_sim e i rf \<longleftrightarrow>
     e_term e i = currentTerm rf \<and> e_vote e i = votedFor rf \<and>
     e_cand e i = (myRole rf = Candidate) \<and>
     (myRole rf = Leader \<longrightarrow> winner e (currentTerm rf) = Some i) \<and>
     (myRole rf = Candidate \<longrightarrow> (i, currentTerm rf, i) \<in> ballots e)"

definition round_sim :: "election \<Rightarrow> round \<Rightarrow> bool" where
  "round_sim e rd \<longleftrightarrow>
     (let T = rva_Term (rd_args rd); c = candidate_of rd in
      (c, T, c) \<in> ballots e \<and>
      (\<forall>j reply. rd_calls rd j = RV_Replied reply \<longrightarrow> rvr_VoteGranted reply \<longrightarrow> (j, T, c) \<in> ballots e) \<and>
      (\<exists>S. finite S \<and> (\<forall>j \<in> S. rd_calls rd j = RV_Done \<and> (j, T, c) \<in> ballots e) \<and>
         rd_votes rd = 1 + int (card S)))"

definition call_sim :: "election \<Rightarrow> 'c ae_call \<Rightarrow> bool" where
  "call_sim e c \<longleftrightarrow> winner e (aea_Term (ac_args c)) = Some (ac_src c)"

definition election_sim :: "int \<Rightarrow> 'c cluster \<Rightarrow> election \<Rightarrow> bool" where
  "election_sim n s e \<longleftrightarrow>
     (\<forall>i \<in> members n. node_sim e i (nodes s i)) \<and>
     (\<forall>rd \<in> set (rounds s). round_sim e rd) \<and>
     (\<forall>c \<in> set (calls s). call_sim e c)"

text \<open>An abstract step of member \<open>i\<close>: the others are untouched, history only grows.\<close>

definition grows :: "int \<Rightarrow> election \<Rightarrow> election \<Rightarrow> bool" where
  "grows i e e' \<longleftrightarrow>
     (\<forall>j. j \<noteq> i \<longrightarrow> e_term e' j = e_term e j \<and> e_vote e' j = e_vote e j \<and> e_cand e' j = e_cand e j) \<and>
     ballots e \<subseteq> ballots e' \<and> (\<forall>T c. winner e T = Some c \<longrightarrow> winner e' T = Some c)"

lemma grows_refl [simp]: "grows i e e"
  by (simp add: grows_def)

lemma grows_trans: "grows i e e' \<Longrightarrow> grows i e' e'' \<Longrightarrow> grows i e e''"
  by (auto simp: grows_def)

lemma node_sim_grows: "node_sim e j rf \<Longrightarrow> grows i e e' \<Longrightarrow> j \<noteq> i \<Longrightarrow> node_sim e' j rf"
  by (auto simp: node_sim_def grows_def)

lemma round_sim_grows: "round_sim e rd \<Longrightarrow> grows i e e' \<Longrightarrow> round_sim e' rd"
proof -
  assume sim: "round_sim e rd" and "grows i e e'"
  then have sub: "\<And>x. x \<in> ballots e \<Longrightarrow> x \<in> ballots e'" by (auto simp: grows_def)
  from sim obtain S where "finite S" "rd_votes rd = 1 + int (card S)"
    "\<forall>j \<in> S. rd_calls rd j = RV_Done \<and> (j, rva_Term (rd_args rd), candidate_of rd) \<in> ballots e"
    by (auto simp: round_sim_def Let_def)
  then have "\<exists>S. finite S \<and> (\<forall>j \<in> S. rd_calls rd j = RV_Done \<and>
      (j, rva_Term (rd_args rd), candidate_of rd) \<in> ballots e') \<and> rd_votes rd = 1 + int (card S)"
    using sub by blast
  with sim sub show "round_sim e' rd" by (simp add: round_sim_def Let_def)
qed

lemma call_sim_grows: "call_sim e c \<Longrightarrow> grows i e e' \<Longrightarrow> call_sim e' c"
  by (auto simp: call_sim_def grows_def)

lemma election_sim_set_node:
  assumes "election_sim n s e" and "grows i e e'" and "node_sim e' i rf"
  shows "election_sim n (set_node i rf s) e'"
proof -
  have "node_sim e' j (if j = i then rf else nodes s j)" if "j \<in> members n" for j
    using assms that node_sim_grows [OF _ assms(2), of j "nodes s j"]
    by (auto simp: election_sim_def simp del: in_members)
  moreover have "\<forall>rd \<in> set (rounds s). round_sim e' rd" "\<forall>c \<in> set (calls s). call_sim e' c"
    using assms(1)
    by (auto simp: election_sim_def simp del: in_members
        intro: round_sim_grows [OF _ assms(2)] call_sim_grows [OF _ assms(2)])
  ultimately show ?thesis by (simp add: election_sim_def)
qed

lemma election_sim_set_round:
  assumes "election_sim n s e" and "round_sim e rd"
  shows "election_sim n (set_round k rd s) e"
  using assms set_update_subset_insert [of "rounds s" k rd] by (auto simp: election_sim_def)

lemma election_sim_set_call:
  assumes "election_sim n s e" and "call_sim e c"
  shows "election_sim n (set_call k c s) e"
  using assms set_update_subset_insert [of "calls s" k c] by (auto simp: election_sim_def)

lemma election_simD:
  assumes "election_sim n s e"
  shows "i \<in> members n \<Longrightarrow> node_sim e i (nodes s i)"
    and "k < length (rounds s) \<Longrightarrow> round_sim e (rounds s ! k)"
    and "k < length (calls s) \<Longrightarrow> call_sim e (calls s ! k)"
  using assms by (auto simp: election_sim_def)

subsection \<open>Each operation of a peer is matched\<close>

text \<open>\<open>moves n e i rf'\<close>: the abstract protocol can follow member \<open>i\<close> to the state \<open>rf'\<close>.\<close>

definition moves :: "int \<Rightarrow> election \<Rightarrow> int \<Rightarrow> 'c raft \<Rightarrow> election \<Rightarrow> bool" where
  "moves n e i rf' e' \<longleftrightarrow> rtranclp (estep n) e e' \<and> grows i e e' \<and> node_sim e' i rf' \<and>
     ballots e' = ballots e"

text \<open>\<open>casts n e i rf' b e'\<close>: the same, and member \<open>i\<close> casts the ballot \<open>b\<close> on the way.\<close>

definition casts ::
  "int \<Rightarrow> election \<Rightarrow> int \<Rightarrow> 'c raft \<Rightarrow> int \<times> int \<times> int \<Rightarrow> election \<Rightarrow> bool" where
  "casts n e i rf' b e' \<longleftrightarrow> rtranclp (estep n) e e' \<and> grows i e e' \<and> node_sim e' i rf' \<and>
     ballots e' = insert b (ballots e)"

lemma moves_step:
  "estep n e e' \<Longrightarrow> grows i e e' \<Longrightarrow> node_sim e' i rf' \<Longrightarrow> ballots e' = ballots e \<Longrightarrow>
   moves n e i rf' e'"
  by (simp add: moves_def r_into_rtranclp)

lemma casts_step:
  "estep n e e' \<Longrightarrow> grows i e e' \<Longrightarrow> node_sim e' i rf' \<Longrightarrow> ballots e' = insert b (ballots e) \<Longrightarrow>
   casts n e i rf' b e'"
  by (simp add: casts_def r_into_rtranclp)

lemma moves_casts_trans:
  "moves n e i rf e' \<Longrightarrow> casts n e' i rf' b e'' \<Longrightarrow> casts n e i rf' b e''"
  by (auto simp: moves_def casts_def intro: grows_trans)

lemma moves_stay:
  assumes "node_sim e i rf" and "currentTerm rf' = currentTerm rf" "votedFor rf' = votedFor rf"
    "myRole rf' = myRole rf"
  shows "moves n e i rf' e"
  using assms by (simp add: moves_def node_sim_def)

lemma moves_same_election_state:
  assumes "moves n e i rf e'" and "currentTerm rf' = currentTerm rf" "votedFor rf' = votedFor rf"
    "myRole rf' = myRole rf"
  shows "moves n e i rf' e'"
  using assms by (auto simp: moves_def node_sim_def)

lemma moves_trans:
  "moves n e i rf e' \<Longrightarrow> moves n e' i rf' e'' \<Longrightarrow> moves n e i rf' e''"
  by (auto simp: moves_def intro: grows_trans)

lemma moves_observe:
  assumes "i \<in> members n" and "node_sim e i rf" and "currentTerm rf < T"
  shows "\<exists>e'. moves n e i (convertToFollower T (-1) rf) e'"
proof -
  have "e_term e i < T" using assms by (simp add: node_sim_def)
  from observe [OF assms(1) this] show ?thesis
    by - (rule exI, erule moves_step, auto simp: grows_def node_sim_def)
qed

lemma moves_recognise_leader:
  assumes "i \<in> members n" and "node_sim e i rf" and "currentTerm rf \<le> aea_Term args"
    and "winner e (aea_Term args) = Some (aea_LeaderId args)"
  shows "\<exists>e'. moves n e i (recognise_leader now args rf) e'"
proof (cases "currentTerm rf < aea_Term args \<or> myRole rf = Candidate")
  case True
  then have "e_term e i < aea_Term args \<or> e_term e i = aea_Term args \<and> e_cand e i"
    using assms(2,3) by (auto simp: node_sim_def)
  from follow [OF assms(1,4) this] show ?thesis
    using True
    by - (rule exI, erule moves_step, auto simp: grows_def node_sim_def recognise_leader_state [OF assms(3)])
next
  case False
  then show ?thesis
    using moves_stay [OF assms(2), of "recognise_leader now args rf" n] assms(3)
    by (auto simp: recognise_leader_state)
qed

lemma moves_AppendEntries:
  assumes "i \<in> members n" and "node_sim e i rf" and "peer_ok rf"
    and "AppendEntries now args rf = Some (reply, rf')" and "0 \<le> aea_PrevLogIndex args"
    and "winner e (aea_Term args) = Some (aea_LeaderId args)"
  shows "\<exists>e'. moves n e i rf' e'"
  using assms(4,5) peer_okD(4) [OF assms(3)]
proof (cases rule: AppendEntries_cases)
  case stale
  with moves_stay [OF assms(2), of rf'] show ?thesis by auto
next
  case reject
  with assms moves_recognise_leader show ?thesis by blast
next
  case accept
  obtain e' where "moves n e i (recognise_leader now args rf) e'"
    using moves_recognise_leader [OF assms(1,2) accept(1) assms(6)] by blast
  from moves_same_election_state [OF this, of rf'] show ?thesis by (auto simp: accept(3))
qed

lemma moves_grant:
  assumes "i \<in> members n" and "node_sim e i rf" and "c \<in> members n"
    and "votedFor rf = -1 \<or> votedFor rf = c"
    and "currentTerm rf' = currentTerm rf" "votedFor rf' = c" "myRole rf' = myRole rf"
  shows "\<exists>e'. casts n e i rf' (i, currentTerm rf, c) e'"
proof -
  have "e_vote e i = -1 \<or> e_vote e i = c" using assms(2,4) by (simp add: node_sim_def)
  from grant [OF assms(1) this assms(3)] show ?thesis
    using assms(2,5-7)
    by - (rule exI, erule casts_step, auto simp: grows_def node_sim_def)
qed

lemma moves_RequestVote:
  assumes "i \<in> members n" and "node_sim e i rf" and "rva_CandidateId args \<in> members n"
    and "RequestVote now args rf = (reply, rf')"
  shows "\<exists>e'. rvr_VoteGranted reply = vote_granted args rf \<and>
    (if vote_granted args rf then casts n e i rf' (i, rva_Term args, rva_CandidateId args) e'
     else moves n e i rf' e')"
proof -
  have rf': "rf' = snd (RequestVote now args rf)" and "reply = fst (RequestVote now args rf)"
    using assms(4) by simp_all
  then have granted: "rvr_VoteGranted reply = vote_granted args rf"
    by (simp add: RequestVote_reply)
  define rf1 where "rf1 = (if currentTerm rf < rva_Term args
     then convertToFollower (rva_Term args) (-1) rf else rf)"
  have "\<exists>e1. moves n e i rf1 e1"
    using moves_observe [OF assms(1,2)] moves_stay [OF assms(2) refl refl refl]
    by (auto simp: rf1_def)
  then obtain e1 where e1: "moves n e i rf1 e1" by blast
  then have sim1: "node_sim e1 i rf1" by (simp add: moves_def)
  show ?thesis
  proof (cases "vote_granted args rf")
    case False
    have "moves n e i rf' e1"
      using e1 by (rule moves_same_election_state) (use False in \<open>auto simp: rf' RequestVote_state rf1_def\<close>)
    with False granted show ?thesis by auto
  next
    case True
    then have T: "currentTerm rf \<le> rva_Term args" by (simp add: vote_granted_def)
    have "\<exists>e'. casts n e1 i rf' (i, currentTerm rf1, rva_CandidateId args) e'"
    proof (rule moves_grant [OF assms(1) sim1 assms(3)])
      show "votedFor rf1 = -1 \<or> votedFor rf1 = rva_CandidateId args"
        using True by (auto simp: rf1_def vote_granted_def)
    qed (use True T in \<open>auto simp: rf' RequestVote_state rf1_def\<close>)
    moreover have "currentTerm rf1 = rva_Term args" using T by (auto simp: rf1_def)
    ultimately show ?thesis using moves_casts_trans [OF e1] True granted by fastforce
  qed
qed

lemma moves_convertToCandidate:
  assumes "i \<in> members n" and "node_sim e i rf" and "me rf = i"
  shows "\<exists>e'. casts n e i (convertToCandidate now r rf) (i, currentTerm rf + 1, i) e'"
  using campaign [OF assms(1), of e] assms(2,3)
  by - (rule exI, erule casts_step, auto simp: grows_def node_sim_def)

lemma moves_retire:
  assumes "i \<in> members n" and "node_sim e i rf"
    and "currentTerm rf' = currentTerm rf" "votedFor rf' = votedFor rf" "myRole rf' = Follower"
  shows "\<exists>e'. moves n e i rf' e'"
  using retire [OF assms(1), of e] assms(2-)
  by - (rule exI, erule moves_step, auto simp: grows_def node_sim_def)

lemma moves_elected:
  assumes "election_inv n e" and "i \<in> members n" and "node_sim e i rf" and "myRole rf = Candidate"
    and "majority n Q" and "\<forall>j \<in> Q. (j, currentTerm rf, i) \<in> ballots e"
    and "currentTerm rf' = currentTerm rf" "votedFor rf' = votedFor rf" "myRole rf' = Leader"
  shows "\<exists>e'. moves n e i rf' e'"
proof -
  from assms(3,4,6) have cand: "e_cand e i" and votes: "\<forall>j \<in> Q. (j, e_term e i, i) \<in> ballots e"
    by (auto simp: node_sim_def)
  have "winner e (e_term e i) = None"
    by (rule elect_fresh [OF assms(1,2) cand assms(5) votes])
  with elect [OF assms(2) cand assms(5) votes] assms(3,7-9) show ?thesis
    by - (rule exI, erule moves_step, auto simp: grows_def node_sim_def)
qed

subsection \<open>Each step of the cluster is matched\<close>

text \<open>Counting one more reply keeps the round's counter within the ballots it stands for.\<close>

lemma round_sim_count:
  assumes "round_sim e rd" and "rd_calls rd j = RV_Replied reply"
    and "v = (if rvr_VoteGranted reply then rd_votes rd + 1 else rd_votes rd)"
  shows "round_sim e (answer j RV_Done (rd\<lparr>rd_votes := v\<rparr>))"
proof -
  let ?T = "rva_Term (rd_args rd)" and ?c = "candidate_of rd"
  obtain S where S: "finite S" "\<forall>i \<in> S. rd_calls rd i = RV_Done \<and> (i, ?T, ?c) \<in> ballots e"
    "rd_votes rd = 1 + int (card S)"
    using assms(1) by (auto simp: round_sim_def Let_def)
  from S(2) assms(2) have "j \<notin> S" by auto
  define S' where "S' = (if rvr_VoteGranted reply then insert j S else S)"
  have "finite S'" "v = 1 + int (card S')"
    using S(1,3) \<open>j \<notin> S\<close> assms(3) by (auto simp: S'_def)
  moreover have "\<forall>i \<in> S'. (if i = j then RV_Done else rd_calls rd i) = RV_Done \<and> (i, ?T, ?c) \<in> ballots e"
    using S(2) assms(1,2) by (auto simp: S'_def round_sim_def Let_def)
  ultimately have "\<exists>S. finite S \<and>
      (\<forall>i \<in> S. (if i = j then RV_Done else rd_calls rd i) = RV_Done \<and> (i, ?T, ?c) \<in> ballots e) \<and>
      v = 1 + int (card S)"
    by blast
  then show ?thesis using assms(1) by (auto simp: round_sim_def Let_def)
qed

lemma round_sim_drop:
  assumes "round_sim e rd" and "rd_calls rd j = RV_Replied reply"
  shows "round_sim e (answer j RV_Done (rd\<lparr>rd_votes := rd_votes rd\<rparr>))"
proof -
  have "rd_calls rd i = RV_Done \<Longrightarrow> i \<noteq> j" for i using assms(2) by auto
  with assms(1) show ?thesis
    unfolding round_sim_def Let_def by (auto 0 4)
qed

lemma new_round_sim:
  assumes "node_sim e i rf" and "me rf = i" and "startVoting rf = Some (args, ps)"
  shows "round_sim e (new_round inc args ps)"
  using assms
  by (auto simp: round_sim_def new_round_def startVoting_def Let_def node_sim_def
      intro!: exI [of _ "{}"] split: if_splits)

text \<open>A counter above half of the cluster is a majority of ballots.\<close>

lemma counted_majority:
  assumes "round_sim e rd" and "ballots_past n e" and "n < 2 * rd_votes rd"
    and "round_ok n rd" and "rd_calls rd (candidate_of rd) = RV_None"
  shows "\<exists>Q. majority n Q \<and> (\<forall>j \<in> Q. (j, rva_Term (rd_args rd), candidate_of rd) \<in> ballots e)"
proof -
  let ?T = "rva_Term (rd_args rd)" and ?c = "candidate_of rd"
  obtain S where S: "finite S" "\<forall>i \<in> S. rd_calls rd i = RV_Done \<and> (i, ?T, ?c) \<in> ballots e"
    "rd_votes rd = 1 + int (card S)"
    using assms(1) by (auto simp: round_sim_def Let_def)
  then have "?c \<notin> S" using assms(5) by auto
  have own: "(?c, ?T, ?c) \<in> ballots e" using assms(1) by (simp add: round_sim_def Let_def)
  have "x \<in> members n" if "x \<in> insert ?c S" for x
    using that S(2) own assms(2) unfolding ballots_past_def by blast
  then have "insert ?c S \<subseteq> members n" by blast
  then have "majority n (insert ?c S)"
    using S(1,3) \<open>?c \<notin> S\<close> assms(3) by (auto simp: majority_def)
  moreover have "\<forall>j \<in> insert ?c S. (j, ?T, ?c) \<in> ballots e" using S(2) own by simp
  ultimately show ?thesis by blast
qed

lemma own_call_none: "round_ok n rd \<Longrightarrow> rd_calls rd (candidate_of rd) = RV_None"
  by (auto simp: round_ok_def)

lemma moves_handleVoteReply:
  assumes inv: "election_inv n e" and sim: "node_sim e (candidate_of rd) rf"
    and rsim: "round_sim e rd" and rok: "round_ok n rd"
    and reply: "rd_calls rd j = RV_Replied reply"
    and h: "handleVoteReply (rd_args rd) reply (rd_votes rd) rf = Some (rf', v)"
    and np: "npeers rf = n"
  shows "\<exists>e'. moves n e (candidate_of rd) rf' e' \<and>
    round_sim e' (answer j RV_Done (rd\<lparr>rd_votes := v\<rparr>))"
proof -
  let ?c = "candidate_of rd" and ?rd = "answer j RV_Done (rd\<lparr>rd_votes := v\<rparr>)"
  have mem: "?c \<in> members n" using rok by (simp add: round_ok_def)
  have keep: "moves n e ?c rf' e' \<Longrightarrow> round_sim e ?rd \<Longrightarrow> round_sim e' ?rd" for e'
    by (auto simp: moves_def intro: round_sim_grows)
  from h show ?thesis
  proof (cases rule: handleVoteReply_cases)
    case newer
    with moves_observe [OF mem sim newer(1)] keep round_sim_drop [OF rsim reply]
    show ?thesis by auto
  next
    case ignored
    with moves_stay [OF sim, of rf' n] keep round_sim_drop [OF rsim reply] show ?thesis by auto
  next
    case counted
    with moves_stay [OF sim, of rf' n] keep round_sim_count [OF rsim reply counted(3)]
    show ?thesis by auto
  next
    case (elected rf0)
    have rd': "round_sim e ?rd" by (rule round_sim_count [OF rsim reply elected(3)])
    have "round_ok n ?rd" using rok reply by (auto simp: round_ok_def)
    then obtain Q where Q: "majority n Q" "\<forall>i \<in> Q. (i, rva_Term (rd_args rd), ?c) \<in> ballots e"
      using counted_majority [OF rd' _ _ _ own_call_none, of n] inv elected(4) np
      by (auto simp: election_inv_def)
    have "\<exists>e'. moves n e ?c rf' e'"
    proof (rule moves_elected [OF inv mem sim elected(2) Q(1)])
      show "\<forall>i\<in>Q. (i, currentTerm rf, ?c) \<in> ballots e" using Q(2) elected(1) by simp
    qed (use elected(5,6) in \<open>auto elim: convertToLeader_SomeE\<close>)
    with keep rd' show ?thesis by blast
  qed
qed

lemma moves_handleAppendReply:
  assumes "i \<in> members n" and "node_sim e i rf" and "peer_ok rf"
    and "handleAppendReply p args reply rf = Some (rf', again)"
    and "0 \<le> p" and "p < npeers rf"
  shows "\<exists>e'. moves n e i rf' e'"
  using assms(4) peer_okD(6) [OF assms(3)] assms(5,6) peer_okD(2,3) [OF assms(3)]
proof (cases rule: handleAppendReply_cases)
  case newer
  with moves_observe [OF assms(1,2)] show ?thesis by auto
next
  case ignored
  with moves_stay [OF assms(2), of rf'] show ?thesis by auto
next
  case (success c)
  with moves_stay [OF assms(2), of rf'] show ?thesis by auto
next
  case backoff
  with moves_stay [OF assms(2), of rf'] show ?thesis by auto
qed

text \<open>Where a ballot that a step adds comes from: a peer that starts a campaign, or one that
  grants its vote to the round of another.\<close>

definition ballot_cast :: "'c cluster \<Rightarrow> 'c cluster \<Rightarrow> int \<Rightarrow> int \<Rightarrow> int \<Rightarrow> bool" where
  "ballot_cast s s' j T c \<longleftrightarrow>
     currentTerm (nodes s' j) = T \<and> log (nodes s' j) = log (nodes s j) \<and>
     (c = j \<and> T = currentTerm (nodes s j) + 1 \<or>
      currentTerm (nodes s j) \<le> T \<and> c \<noteq> j \<and> nodes s' c = nodes s c \<and>
      (\<exists>rd \<in> set (rounds s). candidate_of rd = c \<and> rva_Term (rd_args rd) = T \<and>
         up_to_date (rd_args rd) (log (nodes s j))))"

definition new_ballots :: "'c cluster \<Rightarrow> 'c cluster \<Rightarrow> election \<Rightarrow> election \<Rightarrow> bool" where
  "new_ballots s s' e e' \<longleftrightarrow>
     (\<forall>j T c. (j, T, c) \<in> ballots e' \<longrightarrow> (j, T, c) \<in> ballots e \<or> ballot_cast s s' j T c)"

lemma new_ballots_refl [simp]: "new_ballots s s' e e"
  by (simp add: new_ballots_def)

text \<open>Putting a move of one peer into the cluster.\<close>

lemma election_sim_move:
  assumes "election_sim n s e" and "moves n e i rf e'"
  shows "election_sim n (set_node i rf s) e'" and "rtranclp (estep n) e e'"
    and "new_ballots s s' e e'"
  using assms election_sim_set_node [OF assms(1)] by (auto simp: moves_def new_ballots_def)

lemma election_sim_cast:
  assumes "election_sim n s e" and "casts n e i rf b e'"
  shows "election_sim n (set_node i rf s) e'" and "rtranclp (estep n) e e'"
    and "ballots e' = insert b (ballots e)"
  using assms election_sim_set_node [OF assms(1)] by (auto simp: casts_def)

lemma cluster_step_election:
  assumes "cluster_step s s'" and "static_inv s" and "csize s = n"
    and "election_inv n e" and "election_sim n s e"
  shows "\<exists>e'. rtranclp (estep n) e e' \<and> election_sim n s' e' \<and> new_ballots s s' e e'"
  using assms(1)
proof (cases rule: cluster_step.cases)
  case (timeout i now r)
  have i: "i \<in> members n" "me (nodes s i) = i"
    using timeout(2) assms by (auto simp: static_invD simp del: in_members)
  let ?rf = "convertToCandidate now r (nodes s i)"
  obtain e' where e': "casts n e i ?rf (i, currentTerm (nodes s i) + 1, i) e'"
    using moves_convertToCandidate [OF i(1) election_simD(1) [OF assms(5) i(1)] i(2)] by blast
  have "new_ballots s s' e e'"
    using election_sim_cast(3) [OF assms(5) e'] timeout(1)
    by (auto simp: new_ballots_def ballot_cast_def)
  with election_sim_cast [OF assms(5) e'] timeout(1) show ?thesis by blast
next
  case (voting i args ps)
  then have "round_sim e (new_round (incs s i) args ps)"
    using assms by (intro new_round_sim) (auto simp: static_invD election_simD simp del: in_members)
  with voting(1) assms(5) show ?thesis by (intro exI [of _ e]) (simp add: election_sim_def)
next
  case (vote_request k rd j now reply rf')
  have rd: "round_ok n rd" "round_sim e rd"
    using vote_request assms by (auto simp: static_invD election_simD)
  then have j: "j \<in> members n" and c: "candidate_of rd \<in> members n"
    using vote_request(4) by (auto simp: round_ok_def)
  let ?b = "(j, rva_Term (rd_args rd), candidate_of rd)"
  obtain e' where reply: "rvr_VoteGranted reply = vote_granted (rd_args rd) (nodes s j)"
    and e': "if vote_granted (rd_args rd) (nodes s j) then casts n e j rf' ?b e' else moves n e j rf' e'"
    using moves_RequestVote [OF j election_simD(1) [OF assms(5) j] c vote_request(5)] by blast
  then have "rtranclp (estep n) e e' \<and> grows j e e' \<and> node_sim e' j rf' \<and>
      (vote_granted (rd_args rd) (nodes s j) \<longrightarrow> ?b \<in> ballots e')"
    by (cases "vote_granted (rd_args rd) (nodes s j)") (simp_all add: moves_def casts_def)
  then have sim: "election_sim n (set_node j rf' s) e'" "rtranclp (estep n) e e'"
    "grows j e e'" "vote_granted (rd_args rd) (nodes s j) \<longrightarrow> ?b \<in> ballots e'"
    using election_sim_set_node [OF assms(5)] by blast+
  then have "round_sim e' rd" using rd(2) by (auto intro: round_sim_grows)
  then have "round_sim e' (answer j (RV_Replied reply) rd)"
    using sim(4) reply vote_request(4) unfolding round_sim_def Let_def by (auto 0 4)
  with sim(1) have sim': "election_sim n s' e'"
    using vote_request(1) by (auto intro: election_sim_set_round)
  have rf': "rf' = snd (RequestVote now (rd_args rd) (nodes s j))" using vote_request(5) by simp
  have mem: "rd \<in> set (rounds s)" using vote_request(2,3) by simp
  have "j \<noteq> candidate_of rd" using rd(1) vote_request(4) by (auto simp: round_ok_def)
  then have "ballot_cast s s' j (rva_Term (rd_args rd)) (candidate_of rd)"
    if "vote_granted (rd_args rd) (nodes s j)"
    using that mem vote_request(1) by (auto simp: ballot_cast_def rf' RequestVote_state vote_granted_def)
  then have "new_ballots s s' e e'"
    using e' by (auto simp: new_ballots_def moves_def casts_def split: if_splits)
  with sim(2) sim' show ?thesis by blast
next
  case (vote_reply k rd j reply rf' v)
  have rd: "round_ok n rd" "round_sim e rd"
    using vote_reply assms by (auto simp: static_invD election_simD)
  then have c: "candidate_of rd \<in> members n" by (simp add: round_ok_def)
  obtain e' where "moves n e (candidate_of rd) rf' e'"
    "round_sim e' (answer j RV_Done (rd\<lparr>rd_votes := v\<rparr>))"
    using moves_handleVoteReply [OF assms(4) election_simD(1) [OF assms(5) c] rd(2,1) vote_reply(4,6)]
      static_invD(1) [OF assms(2)] c assms(3) by auto
  with election_sim_move [OF assms(5), of "candidate_of rd" rf' e'] vote_reply(1) show ?thesis
    by (auto intro: election_sim_set_round)
next
  case (append_send i j args)
  have "node_sim e i (nodes s i)" "me (nodes s i) = i"
    using append_send(2) assms by (auto simp: static_invD election_simD simp del: in_members)
  with append_send(4) have "winner e (aea_Term args) = Some i"
    by (auto elim!: sendAppend_SomeE simp: append_args_def node_sim_def)
  with append_send(1) assms(5) show ?thesis
    by (intro exI [of _ e]) (simp add: election_sim_def call_sim_def)
next
  case (append_request k c now reply rf')
  have c: "call_ok n c" "call_sim e c"
    using append_request assms by (auto simp: static_invD election_simD)
  then have dst: "ac_dst c \<in> members n" by (simp add: call_ok_def)
  obtain e' where e': "moves n e (ac_dst c) rf' e'"
    using moves_AppendEntries [OF dst election_simD(1) [OF assms(5) dst] _ append_request(5)]
      c dst static_invD(3) [OF assms(2)] assms(3)
    by (auto simp: call_ok_def call_sim_def)
  then have "call_sim e' c" using c(2) by (auto simp: moves_def intro: call_sim_grows)
  then have "call_sim e' (c\<lparr>ac_status := AE_Replied reply\<rparr>)" by (simp add: call_sim_def)
  with election_sim_move [OF assms(5) e'] append_request(1) show ?thesis
    by (auto intro: election_sim_set_call)
next
  case (append_reply k c reply rf' again)
  have c: "call_ok n c" "call_sim e c"
    using append_reply assms by (auto simp: static_invD election_simD)
  then have src: "ac_src c \<in> members n" by (simp add: call_ok_def)
  obtain e' where e': "moves n e (ac_src c) rf' e'"
    using moves_handleAppendReply [OF src election_simD(1) [OF assms(5) src] _ append_reply(6)]
      c src static_invD(1,3) [OF assms(2)] assms(3)
    by (auto simp: call_ok_def)
  then have "call_sim e' c" using c(2) by (auto simp: moves_def intro: call_sim_grows)
  then have "call_sim e' (c\<lparr>ac_status := AE_Done\<rparr>)" by (simp add: call_sim_def)
  with election_sim_move [OF assms(5) e'] append_reply(1) show ?thesis
    by (auto intro: election_sim_set_call)
next
  case (client i cmd res rf')
  then have "rf' = snd (Start cmd (nodes s i))" by simp
  then have "moves n e i rf' e"
    using client(2) assms by (intro moves_stay [of e i "nodes s i"]) (auto simp: election_simD)
  with election_sim_move [OF assms(5) this] client(1) show ?thesis by blast
next
  case (kill i)
  then have "moves n e i (Kill (nodes s i)) e"
    using assms by (intro moves_stay [of e i "nodes s i"]) (auto simp: election_simD Kill_def)
  with election_sim_move [OF assms(5) this] kill(1) show ?thesis by blast
next
  case (restart i now r)
  have mem: "i \<in> members n" and sync: "in_sync (nodes s i)"
    using restart(2) assms by (auto simp: static_invD peer_okD)
  obtain e' where e': "moves n e i (restart_peer now r (nodes s i)) e'"
    using moves_retire [OF mem election_simD(1) [OF assms(5) mem],
        of "restart_peer now r (nodes s i)"] restart_peer_state [OF sync]
    by auto
  have "election_sim n s' e' = election_sim n (set_node i (restart_peer now r (nodes s i)) s) e'"
    by (simp add: election_sim_def restart(1))
  with election_sim_move [OF assms(5) e'] show ?thesis by blast
qed

subsection \<open>Reachable states\<close>

lemma election_sim_init: "election_sim n (cluster_init n r) election_init"
  by (simp add: election_sim_def cluster_init_def election_init_def node_sim_def Make_def
      ReadRaftState_def MakePersister_def)

lemma reachable_election:
  "reachable n s \<Longrightarrow> \<exists>e. election_inv n e \<and> election_sim n s e"
proof (induction rule: reachable.induct)
  case (start r)
  show ?case using election_inv_init election_sim_init by blast
next
  case (step s s')
  then obtain e where e: "election_inv n e" "election_sim n s e" by blast
  from reachable_static [OF step.hyps(1)] cluster_step_election [OF step.hyps(2) _ _ e]
  obtain e' where "rtranclp (estep n) e e'" "election_sim n s' e'" by blast
  with e(1) show ?case by (blast intro: election_inv_steps)
qed

subsection \<open>A run that elects a leader\<close>

text \<open>Three peers; the timer of peer 0 fires, it opens a round, peer 1 grants its vote.\<close>

definition election_run :: "nat event list" where
  "election_run = [Timeout 0 300 10, Voting 0, Vote_Request 0 1 301, Vote_Reply 0 1]"

definition three_peers :: "nat cluster" where
  "three_peers = cluster_init 3 (\<lambda>i. 10 * i)"

definition elected :: "nat cluster" where
  "elected = the (run election_run three_peers)"

lemmas run_eval = three_peers_def cluster_init_def Make_def readPersist_def ReadRaftState_def
  MakePersister_def convertToCandidate_def Let_def set_node_def set_round_def set_call_def
  generateElectionTimeout_def persist_eq encoded_state_def startVoting_def other_peers_def
  new_round_def answer_def RequestVote_def zero_RequestVoteReply_def resetElectionTimer_def
  convertToFollower_def handleVoteReply_def convertToLeader_eq

lemma elected_run: "run election_run three_peers = Some elected"
proof -
  have "run election_run three_peers \<noteq> None"
    by (simp add: election_run_def run_eval upto.simps upt_rec)
  then show ?thesis by (auto simp: elected_def)
qed

lemma elected_leader: "myRole (nodes elected 0) = Leader" "currentTerm (nodes elected 0) = 1"
  by (simp_all add: elected_def election_run_def run_eval upto.simps upt_rec)

end
