(* ===== verification/Raft_Log.thy ===== *)
theory Raft_Log
  imports Raft_Election
begin

section \<open>Log matching\<close>

text \<open>
  The leader of a term is the only source of entries of that term. The proof keeps, beside the
  abstract election, the log each elected leader has built so far (\<open>leader_logs\<close>, one list
  per term that has had a leader, which only ever grows). Every log in the cluster is woven from
  them: at a position that holds an entry of term \<open>T\<close>, the log up to there is the log of the
  leader of \<open>T\<close> up to there (\<open>log_ok\<close>). Log matching is a direct consequence.
\<close>

type_synonym 'c leader_logs = "int \<Rightarrow> 'c Log list option"

definition log_ok :: "'c leader_logs \<Rightarrow> 'c Log list \<Rightarrow> bool" where
  "log_ok L l \<longleftrightarrow> (\<forall>k < length l. \<exists>m. L (Term (l ! k)) = Some m \<and> k < length m \<and>
     take (Suc k) l = take (Suc k) m)"

definition args_ok :: "'c leader_logs \<Rightarrow> 'c AppendEntriesArgs \<Rightarrow> bool" where
  "args_ok L a \<longleftrightarrow> (\<exists>m. L (aea_Term a) = Some m \<and> 0 \<le> aea_PrevLogIndex a \<and>
     aea_PrevLogIndex a + len (aea_Entries a) \<le> len m \<and>
     aea_Entries a = take (length (aea_Entries a)) (drop (nat (aea_PrevLogIndex a)) m) \<and>
     (0 < aea_PrevLogIndex a \<longrightarrow> aea_PrevLogTerm a = Term (m ! nat (aea_PrevLogIndex a - 1))))"

definition logs_ok :: "election \<Rightarrow> 'c leader_logs \<Rightarrow> bool" where
  "logs_ok e L \<longleftrightarrow> (\<forall>T m. L T = Some m \<longrightarrow>
     winner e T \<noteq> None \<and> log_ok L m \<and> (\<forall>x \<in> set m. Term x \<le> T))"

definition node_log_ok :: "'c leader_logs \<Rightarrow> 'c raft \<Rightarrow> bool" where
  "node_log_ok L rf \<longleftrightarrow> log_ok L (log rf) \<and> (\<forall>x \<in> set (log rf). Term x \<le> currentTerm rf) \<and>
     (myRole rf = Leader \<longrightarrow> L (currentTerm rf) = Some (log rf)) \<and>
     (myRole rf = Candidate \<longrightarrow> (\<forall>x \<in> set (log rf). Term x < currentTerm rf))"

definition log_inv :: "int \<Rightarrow> 'c cluster \<Rightarrow> election \<Rightarrow> 'c leader_logs \<Rightarrow> bool" where
  "log_inv n s e L \<longleftrightarrow> logs_ok e L \<and>
     (\<forall>i \<in> members n. node_log_ok L (nodes s i)) \<and>
     (\<forall>c \<in> set (calls s). args_ok L (ac_args c))"

definition extends :: "'c leader_logs \<Rightarrow> 'c leader_logs \<Rightarrow> bool" where
  "extends L L' \<longleftrightarrow> (\<forall>T m. L T = Some m \<longrightarrow>
     (\<exists>ys. L' T = Some (m @ ys) \<and> (\<forall>y \<in> set ys. Term y = T)))"

text \<open>A log that is new in the ghost state is the log of the candidate that just won its term.\<close>

definition born :: "int \<Rightarrow> 'c cluster \<Rightarrow> 'c cluster \<Rightarrow> 'c leader_logs \<Rightarrow> 'c leader_logs \<Rightarrow> bool" where
  "born n s s' L L' \<longleftrightarrow> (\<forall>T m. L T = None \<longrightarrow> L' T = Some m \<longrightarrow>
     (\<exists>i \<in> members n. myRole (nodes s i) = Candidate \<and> currentTerm (nodes s i) = T \<and>
        log (nodes s i) = m \<and> myRole (nodes s' i) = Leader \<and> currentTerm (nodes s' i) = T))"

lemma born_refl [simp]: "born n s s' L L"
  by (simp add: born_def)

lemma log_invD:
  assumes "log_inv n s e L"
  shows "logs_ok e L" "i \<in> members n \<Longrightarrow> node_log_ok L (nodes s i)"
    "k < length (calls s) \<Longrightarrow> args_ok L (ac_args (calls s ! k))"
  using assms by (auto simp: log_inv_def)

subsection \<open>Logs that match\<close>

lemma log_ok_Nil [simp]: "log_ok L []"
  by (simp add: log_ok_def)

lemma log_ok_take: "log_ok L l \<Longrightarrow> log_ok L (take j l)"
  by (auto simp: log_ok_def min_def)

lemma log_ok_matching:
  assumes "log_ok L a" and "log_ok L b" and "k < length a" and "k < length b"
    and "Term (a ! k) = Term (b ! k)"
  shows "take (Suc k) a = take (Suc k) b"
  using assms unfolding log_ok_def by (metis option.inject)

lemma log_ok_extends:
  assumes "log_ok L l" and "extends L L'"
  shows "log_ok L' l"
  unfolding log_ok_def
proof (intro allI impI)
  fix k assume k: "k < length l"
  then obtain m where m: "L (Term (l ! k)) = Some m" "k < length m" "take (Suc k) l = take (Suc k) m"
    using assms(1) by (auto simp: log_ok_def)
  then obtain ys where "L' (Term (l ! k)) = Some (m @ ys)"
    using assms(2) unfolding extends_def by blast
  with m show "\<exists>m. L' (Term (l ! k)) = Some m \<and> k < length m \<and> take (Suc k) l = take (Suc k) m"
    by auto
qed

lemma args_ok_extends:
  assumes "args_ok L a" and "extends L L'"
  shows "args_ok L' a"
proof -
  obtain m where m: "L (aea_Term a) = Some m" "0 \<le> aea_PrevLogIndex a"
    "aea_PrevLogIndex a + len (aea_Entries a) \<le> len m"
    "aea_Entries a = take (length (aea_Entries a)) (drop (nat (aea_PrevLogIndex a)) m)"
    "0 < aea_PrevLogIndex a \<longrightarrow> aea_PrevLogTerm a = Term (m ! nat (aea_PrevLogIndex a - 1))"
    using assms(1) by (auto simp: args_ok_def)
  then obtain ys where "L' (aea_Term a) = Some (m @ ys)"
    using assms(2) unfolding extends_def by blast
  moreover have "aea_Entries a = take (length (aea_Entries a)) (drop (nat (aea_PrevLogIndex a)) (m @ ys))"
    using m(2-4) by auto
  ultimately show ?thesis using m by (auto simp: args_ok_def nth_append)
qed

lemma extends_refl [simp]: "extends L L"
  by (simp add: extends_def)

lemma log_ok_append_entry:
  assumes "log_ok L l" and "L (Term x) = Some (l @ [x])"
  shows "log_ok L (l @ [x])"
  unfolding log_ok_def
proof (intro allI impI)
  fix k assume k: "k < length (l @ [x])"
  show "\<exists>m. L (Term ((l @ [x]) ! k)) = Some m \<and> k < length m \<and>
      take (Suc k) (l @ [x]) = take (Suc k) m"
  proof (cases "k < length l")
    case True
    with assms(1) show ?thesis by (simp add: log_ok_def nth_append)
  next
    case False
    with k have "k = length l" by simp
    with assms(2) show ?thesis by simp
  qed
qed

subsection \<open>Installing entries\<close>

text \<open>A log that passes the consistency check agrees with the sender's up to \<open>prevLogIndex\<close>.\<close>

lemma prev_matches_prefix:
  assumes "log_ok L l" and "log_ok L m" and "L (aea_Term a) = Some m" and "args_ok L a"
    and "prev_matches a l"
  shows "take (nat (aea_PrevLogIndex a)) l = take (nat (aea_PrevLogIndex a)) m"
proof (cases "nat (aea_PrevLogIndex a)")
  case 0
  then show ?thesis by simp
next
  case (Suc k)
  then have p: "nat (aea_PrevLogIndex a - 1) = k" "0 < aea_PrevLogIndex a" by auto
  have "k < length l" "k < length m" "Term (l ! k) = Term (m ! k)"
    using assms(3-5) p Suc by (auto simp: args_ok_def prev_matches_def)
  from log_ok_matching [OF assms(1,2) this] show ?thesis by (simp add: Suc)
qed

lemma merged_log_matches:
  assumes "log_ok L l" and "log_ok L m" and "L (aea_Term a) = Some m" and "args_ok L a"
    and "prev_matches a l"
  defines "p \<equiv> nat (aea_PrevLogIndex a)" and "es \<equiv> aea_Entries a"
  shows "take (p + length es) (merged_log a l) = take (p + length es) m"
    and "merged_log a l = l \<or> merged_log a l = take (p + length es) m \<and>
      take (p + length es) l \<noteq> take (p + length es) m"
    and "p + length es \<le> length m"
proof -
  have pl: "p \<le> length l" and pm: "p + length es \<le> length m" and es: "es = take (length es) (drop p m)"
    using assms(3-5) by (auto simp: args_ok_def prev_matches_def p_def es_def)
  have prefix: "take p l = take p m"
    using prev_matches_prefix [OF assms(1-5)] by (simp add: p_def)
  have nth_es: "es ! i = m ! (p + i)" if "i < length es" for i
    using that pm arg_cong [OF es, of "\<lambda>x. x ! i"] by simp
  have agree: "take (p + k) l = take (p + k) m"
    if "k \<le> length es" "p + k \<le> length l" "\<forall>i<k. Term (drop p l ! i) = Term (es ! i)" for k
  proof (cases k)
    case 0
    with prefix show ?thesis by simp
  next
    case (Suc j)
    with that nth_es [of j] have "Term (l ! (p + j)) = Term (m ! (p + j))" by simp
    with Suc that pm show ?thesis
      using log_ok_matching [OF assms(1,2), of "p + j"] by simp
  qed
  have "merged_log a l = l \<and> take (p + length es) l = take (p + length es) m \<or>
      merged_log a l = take (p + length es) m \<and> take (p + length es) l \<noteq> take (p + length es) m"
    using merge_entries_cases [of "drop p l" es]
  proof
    assume *: "merge_entries (drop p l) es = drop p l \<and> length es \<le> length (drop p l)"
    then have "Term (drop p l ! i) = Term (es ! i)" if "i < length es" for i
      using that arg_cong [OF merge_entries_terms [of es "drop p l"], of "\<lambda>x. x ! i"] by simp
    moreover have "p + length es \<le> length l" using * pl by auto
    ultimately show ?thesis using agree [of "length es"] * pl
      by (auto simp: merged_log_def simp flip: p_def es_def)
  next
    assume "\<exists>k<length es. k \<le> length (drop p l) \<and>
      merge_entries (drop p l) es = take k (drop p l) @ drop k es \<and>
      (\<forall>i<k. Term (drop p l ! i) = Term (es ! i)) \<and>
      (k = length (drop p l) \<or> Term (drop p l ! k) \<noteq> Term (es ! k))"
    then obtain k where k: "k < length es" "k \<le> length (drop p l)"
      "merge_entries (drop p l) es = take k (drop p l) @ drop k es"
      "\<forall>i<k. Term (drop p l ! i) = Term (es ! i)"
      "k = length (drop p l) \<or> Term (drop p l ! k) \<noteq> Term (es ! k)"
      by blast
    have differ: "take (p + length es) l \<noteq> take (p + length es) m"
    proof
      assume eq: "take (p + length es) l = take (p + length es) m"
      have "p + length es \<le> length l" using take_eq_length [OF eq pm] .
      then have "Term (drop p l ! k) = Term (es ! k)"
        using take_eq_imp_nth [OF eq, of "p + k"] k(1) nth_es [of k] by simp
      with k(1,5) \<open>p + length es \<le> length l\<close> show False by auto
    qed
    have "merged_log a l = take (p + k) l @ drop k es"
      using k(3) by (simp add: merged_log_def take_add flip: p_def es_def)
    also have "take (p + k) l = take (p + k) m" using agree [of k] k pl by simp
    also have "drop k es = take (length es - k) (drop (p + k) m)"
      by (subst es) (simp add: drop_take add.commute)
    also have "take (p + k) m @ take (length es - k) (drop (p + k) m) = take (p + length es) m"
      using k(1) by (simp flip: take_add)
    finally show ?thesis using differ by simp
  qed
  then show "take (p + length es) (merged_log a l) = take (p + length es) m"
    and "merged_log a l = l \<or> merged_log a l = take (p + length es) m \<and>
      take (p + length es) l \<noteq> take (p + length es) m"
    by auto
  show "p + length es \<le> length m" by (rule pm)
qed

subsection \<open>Every step keeps the logs woven\<close>

lemma node_log_ok_extends:
  assumes "node_log_ok L rf" and "extends L L'"
    and "myRole rf = Leader \<Longrightarrow> L' (currentTerm rf) = L (currentTerm rf)"
  shows "node_log_ok L' rf"
  using assms log_ok_extends [of L "log rf" L'] by (simp add: node_log_ok_def)

lemma log_inv_set_node:
  assumes "log_inv n s e L" and "extends L L'" and "logs_ok e' L'" and "node_log_ok L' rf"
    and "\<And>j. j \<in> members n \<Longrightarrow> j \<noteq> i \<Longrightarrow> myRole (nodes s j) = Leader \<Longrightarrow>
           L' (currentTerm (nodes s j)) = L (currentTerm (nodes s j))"
  shows "log_inv n (set_node i rf s) e' L'"
proof -
  have "node_log_ok L' (if j = i then rf else nodes s j)" if "j \<in> members n" for j
    using assms(1,4) that node_log_ok_extends [OF _ assms(2), of "nodes s j"] assms(5) [OF that]
    by (auto simp: log_inv_def simp del: in_members)
  moreover have "\<forall>c \<in> set (calls s). args_ok L' (ac_args c)"
    using assms(1) args_ok_extends [OF _ assms(2)] by (auto simp: log_inv_def)
  ultimately show ?thesis using assms(3) by (simp add: log_inv_def)
qed

lemma log_inv_set_round [simp]: "log_inv n (set_round k rd s) e L = log_inv n s e L"
  by (simp add: log_inv_def)

lemma log_inv_incs [simp]: "log_inv n (s\<lparr>incs := x\<rparr>) e L = log_inv n s e L"
  by (simp add: log_inv_def)

lemma log_inv_set_call:
  assumes "log_inv n s e L" and "args_ok L (ac_args c)"
  shows "log_inv n (set_call k c s) e L"
  using assms set_update_subset_insert [of "calls s" k c] by (auto simp: log_inv_def)

lemma logs_ok_election:
  assumes "logs_ok e L" and "\<And>T c. winner e T = Some c \<Longrightarrow> winner e' T = Some c"
  shows "logs_ok e' L"
  using assms unfolding logs_ok_def by fastforce

text \<open>A step that changes neither the log nor makes a leader.\<close>

lemma log_inv_same_log:
  assumes "log_inv n s e L" and "logs_ok e' L" and "i \<in> members n"
    and "log rf = log (nodes s i)" and "currentTerm (nodes s i) \<le> currentTerm rf"
    and "myRole rf = Leader \<Longrightarrow> myRole (nodes s i) = Leader \<and> currentTerm rf = currentTerm (nodes s i)"
    and "myRole rf = Candidate \<Longrightarrow> myRole (nodes s i) = Candidate \<or> currentTerm (nodes s i) < currentTerm rf"
  shows "log_inv n (set_node i rf s) e' L"
  using assms(1) extends_refl assms(2)
proof (rule log_inv_set_node)
  have "node_log_ok L (nodes s i)" using assms(1,3) by (rule log_invD(2))
  then show "node_log_ok L rf" using assms(4-7) by (fastforce simp: node_log_ok_def)
qed simp

lemma winner_of_leader:
  "election_sim n s e \<Longrightarrow> i \<in> members n \<Longrightarrow> myRole (nodes s i) = Leader \<Longrightarrow>
   winner e (currentTerm (nodes s i)) = Some i"
  using election_simD(1) [of n s e i] by (simp add: node_sim_def)

lemma log_inv_elected:
  assumes inv: "log_inv n s e L" and sim: "election_sim n s e" and einv: "election_inv n e"
    and mem: "i \<in> members n" and cand: "myRole (nodes s i) = Candidate"
    and log: "log rf = log (nodes s i)" and ct: "currentTerm rf = currentTerm (nodes s i)"
    and role: "myRole rf = Leader"
    and mono: "\<And>T c. winner e T = Some c \<Longrightarrow> winner e' T = Some c"
    and won: "winner e' (currentTerm rf) = Some i"
  shows "\<exists>L'. log_inv n (set_node i rf s) e' L' \<and> extends L L' \<and> born n s (set_node i rf s) L L'"
proof -
  let ?T = "currentTerm (nodes s i)" and ?l = "log (nodes s i)"
  have node: "node_log_ok L (nodes s i)" using inv mem by (rule log_invD(2))
  have "winner e ?T \<noteq> Some i"
    using einv mem cand election_simD(1) [OF sim mem]
    by (auto simp: election_inv_def candidates_open_def node_sim_def simp del: in_members)
  then have "winner e ?T = None" using mono won ct by (cases "winner e ?T") force+
  then have fresh: "L ?T = None"
    using log_invD(1) [OF inv] unfolding logs_ok_def by (metis not_None_eq)
  let ?L' = "L(?T \<mapsto> ?l)"
  have ext: "extends L ?L'" using fresh by (auto simp: extends_def)
  have ok: "log_ok ?L' ?l" using node log_ok_extends [OF _ ext] by (simp add: node_log_ok_def)
  have "logs_ok e' L" using log_invD(1) [OF inv] mono by (rule logs_ok_election)
  then have "logs_ok e' ?L'"
    using ok won ct node log_ok_extends [OF _ ext] by (auto simp: logs_ok_def node_log_ok_def)
  then have "log_inv n (set_node i rf s) e' ?L'"
  proof (rule log_inv_set_node [OF inv ext])
    show "node_log_ok ?L' rf" using node ok by (auto simp: node_log_ok_def log ct role)
    fix j assume "j \<in> members n" "myRole (nodes s j) = Leader"
    from winner_of_leader [OF sim this] \<open>winner e ?T = None\<close>
    show "?L' (currentTerm (nodes s j)) = L (currentTerm (nodes s j))" by auto
  qed
  moreover have "born n s (set_node i rf s) L ?L'"
    using mem cand role ct by (auto simp: born_def simp del: in_members)
  ultimately show ?thesis using ext by blast
qed

lemma log_inv_Start:
  assumes inv: "log_inv n s e L" and sim: "election_sim n s e" and mem: "i \<in> members n"
    and e': "logs_ok e' L" and won: "winner e' (currentTerm (nodes s i)) \<noteq> None"
    and rf: "rf = snd (Start cmd (nodes s i))" and lead: "myRole (nodes s i) = Leader"
  shows "\<exists>L'. log_inv n (set_node i rf s) e' L' \<and> extends L L' \<and> born n s (set_node i rf s) L L'"
proof -
  let ?T = "currentTerm (nodes s i)" and ?l = "log (nodes s i)"
  let ?x = "\<lparr>Command = cmd, Term = ?T\<rparr>"
  have node: "node_log_ok L (nodes s i)" using inv mem by (rule log_invD(2))
  with lead have own: "L ?T = Some ?l" and ok: "log_ok L ?l" and le: "\<forall>x \<in> set ?l. Term x \<le> ?T"
    by (auto simp: node_log_ok_def)
  let ?L' = "L(?T \<mapsto> ?l @ [?x])"
  have ext: "extends L ?L'" using own by (auto simp: extends_def)
  have ok': "log_ok ?L' (?l @ [?x])"
    using log_ok_extends [OF ok ext] by (rule log_ok_append_entry) simp
  have "logs_ok e' ?L'"
    using e' won ok' le log_ok_extends [OF _ ext] by (auto simp: logs_ok_def)
  then have "log_inv n (set_node i rf s) e' ?L'"
  proof (rule log_inv_set_node [OF inv ext])
    show "node_log_ok ?L' rf"
      using ok' le lead by (auto simp: node_log_ok_def rf Start_log)
    fix j assume j: "j \<in> members n" "j \<noteq> i" "myRole (nodes s j) = Leader"
    with winner_of_leader [OF sim j(1,3)] winner_of_leader [OF sim mem lead]
    show "?L' (currentTerm (nodes s j)) = L (currentTerm (nodes s j))" by auto
  qed
  moreover have "born n s (set_node i rf s) L ?L'" using own by (auto simp: born_def)
  ultimately show ?thesis using ext by blast
qed

text \<open>An accepted \<open>AppendEntries\<close>: the receiver is no leader and its new log is woven again.\<close>

lemma accepting_follower:
  assumes "election_sim n s e" and "k < length (calls s)" and "call_ok n (calls s ! k)"
    and "c = calls s ! k" and "currentTerm (nodes s (ac_dst c)) \<le> aea_Term (ac_args c)"
  shows "myRole (recognise_leader now (ac_args c) (nodes s (ac_dst c))) = Follower"
proof -
  have dst: "ac_dst c \<in> members n" "ac_src c \<noteq> ac_dst c"
    using assms(3,4) by (auto simp: call_ok_def)
  have "winner e (aea_Term (ac_args c)) = Some (ac_src c)"
    using election_simD(3) [OF assms(1,2)] assms(4) by (simp add: call_sim_def)
  then have "currentTerm (nodes s (ac_dst c)) = aea_Term (ac_args c) \<Longrightarrow>
      myRole (nodes s (ac_dst c)) \<noteq> Leader"
    using winner_of_leader [OF assms(1) dst(1)] dst(2) by auto
  with assms(5) show ?thesis
    by (cases "myRole (nodes s (ac_dst c))") (auto simp: recognise_leader_state)
qed

lemma log_ok_merged_log:
  assumes "log_ok L l" and "logs_ok e L" and "args_ok L a" and "prev_matches a l"
    and "\<forall>x \<in> set l. Term x \<le> aea_Term a"
  shows "log_ok L (merged_log a l)" and "\<forall>x \<in> set (merged_log a l). Term x \<le> aea_Term a"
proof -
  obtain m where m: "L (aea_Term a) = Some m" using assms(3) by (auto simp: args_ok_def)
  with assms(2) have okm: "log_ok L m" "\<forall>x \<in> set m. Term x \<le> aea_Term a"
    by (auto simp: logs_ok_def)
  from merged_log_matches(2) [OF assms(1) okm(1) m assms(3,4)]
  show "log_ok L (merged_log a l)" and "\<forall>x \<in> set (merged_log a l). Term x \<le> aea_Term a"
    using assms(1,5) okm by (metis log_ok_take, metis in_set_takeD)
qed

lemma node_log_ok_accept:
  assumes "node_log_ok L rf" and "logs_ok e L" and "args_ok L a" and "prev_matches a (log rf)"
    and "currentTerm rf \<le> aea_Term a"
    and "myRole (recognise_leader now a rf) = Follower"
  shows "node_log_ok L (after_install a (recognise_leader now a rf))"
proof -
  from assms(1) have ok: "log_ok L (log rf)" and le: "\<forall>x \<in> set (log rf). Term x \<le> aea_Term a"
    using assms(5) by (force simp: node_log_ok_def)+
  from log_ok_merged_log [OF ok assms(2-4) le] assms(6) recognise_leader_state(1) [OF assms(5), of now]
  show ?thesis by (simp add: node_log_ok_def)
qed

lemma cluster_step_log:
  assumes "cluster_step s s'" and st: "static_inv s" and n: "csize s = n"
    and einv: "election_inv n e" and sim: "election_sim n s e"
    and steps: "rtranclp (estep n) e e'" and sim': "election_sim n s' e'"
    and inv: "log_inv n s e L"
  shows "\<exists>L'. log_inv n s' e' L' \<and> extends L L' \<and> born n s s' L L'"
proof -
  have mono: "winner e T = Some c \<Longrightarrow> winner e' T = Some c" for T c
    using winner_stable_steps [OF steps einv] .
  have lo: "logs_ok e' L" using log_invD(1) [OF inv] mono by (rule logs_ok_election)
  have same: ?thesis if "s' = set_node i rf s" "i \<in> members n" "log rf = log (nodes s i)"
    "currentTerm (nodes s i) \<le> currentTerm rf"
    "myRole rf = Leader \<longrightarrow> myRole (nodes s i) = Leader \<and> currentTerm rf = currentTerm (nodes s i)"
    "myRole rf = Candidate \<longrightarrow> myRole (nodes s i) = Candidate \<or> currentTerm (nodes s i) < currentTerm rf"
    for i rf
    using log_inv_same_log [OF inv lo that(2-4)] that(1,5,6) extends_refl [of L] born_refl by blast
  note mem_del = in_members [simp del]
  from assms(1) show ?thesis
  proof (cases rule: cluster_step.cases)
    case (timeout i now r)
    with n show ?thesis by (intro same [OF timeout(1)]) auto
  next
    case (voting i args ps)
    with inv lo show ?thesis by (auto simp: log_inv_def)
  next
    case (vote_request k rd j now reply rf')
    have j: "j \<in> members n"
      using static_invD(4) [OF st vote_request(2)] vote_request(3,4) n by (auto simp: round_ok_def)
    have rf': "rf' = snd (RequestVote now (rd_args rd) (nodes s j))"
      using vote_request(5) by simp
    have "log_inv n (set_node j rf' s) e' L"
      using inv lo j
      by (rule log_inv_same_log) (auto simp: rf' RequestVote_state split: if_splits)
    with vote_request(1) show ?thesis by auto
  next
    case (vote_reply k rd j reply rf' v)
    let ?c = "candidate_of rd"
    have c: "?c \<in> members n"
      using static_invD(4) [OF st vote_reply(2)] vote_reply(3) n by (auto simp: round_ok_def)
    have unchanged: "\<exists>L'. log_inv n (set_node ?c rf' s) e' L' \<and> extends L L' \<and>
        born n s (set_node ?c rf' s) L L'"
      if "log rf' = log (nodes s ?c)" "currentTerm (nodes s ?c) \<le> currentTerm rf'"
        "myRole rf' = Leader \<longrightarrow> myRole (nodes s ?c) = Leader \<and> currentTerm rf' = currentTerm (nodes s ?c)"
        "myRole rf' = Candidate \<longrightarrow> myRole (nodes s ?c) = Candidate"
      using log_inv_same_log [OF inv lo c that(1,2)] that(3,4) extends_refl [of L] born_refl by blast
    have "\<exists>L'. log_inv n (set_node ?c rf' s) e' L' \<and> extends L L' \<and> born n s (set_node ?c rf' s) L L'"
      using vote_reply(6)
    proof (cases rule: handleVoteReply_cases)
      case (elected rf0)
      then have rf': "log rf' = log (nodes s ?c)" "currentTerm rf' = currentTerm (nodes s ?c)"
        "myRole rf' = Leader"
        by (auto elim: convertToLeader_SomeE)
      have "winner e' (currentTerm rf') = Some ?c"
        using winner_of_leader [OF sim' c] vote_reply(1) rf'(3) by simp
      from log_inv_elected [OF inv sim einv c elected(2) rf' mono this] show ?thesis .
    qed (rule unchanged; simp)+
    with vote_reply(1) show ?thesis by (simp add: born_def)
  next
    case (append_send i j args)
    have i: "i \<in> members n" using append_send(2) n by simp
    from append_send(4) obtain ni where lead: "myRole (nodes s i) = Leader"
      and ni: "1 \<le> ni" "ni \<le> len (log (nodes s i)) + 1" and args: "args = append_args (nodes s i) ni"
      by (rule sendAppend_SomeE)
    have "L (currentTerm (nodes s i)) = Some (log (nodes s i))"
      using log_invD(2) [OF inv i] lead by (simp add: node_log_ok_def)
    with ni have "args_ok L args"
      by (auto simp: args_ok_def args append_args_def diff_diff_eq)
    with inv lo append_send(1) have "log_inv n s' e' L" by (auto simp: log_inv_def)
    then show ?thesis by auto
  next
    case (append_request k c now reply rf')
    let ?d = "ac_dst c" and ?a = "ac_args c"
    have c: "call_ok n c" using static_invD(5) [OF st append_request(2)] append_request(3) n by simp
    then have d: "?d \<in> members n" "0 \<le> aea_PrevLogIndex ?a" by (auto simp: call_ok_def)
    have a: "args_ok L ?a" using log_invD(3) [OF inv append_request(2)] append_request(3) by simp
    have la: "0 \<le> lastApplied (nodes s ?d)" using static_invD(3) [OF st] d n by (auto simp: peer_okD)
    have node: "node_log_ok L (nodes s ?d)" using inv d(1) by (rule log_invD(2))
    have "log_inv n (set_node ?d rf' s) e' L"
      using append_request(5) d(2) la
    proof (cases rule: AppendEntries_cases)
      case stale
      then show ?thesis using inv lo d(1) by (intro log_inv_same_log) auto
    next
      case reject
      then show ?thesis
        using inv lo d(1)
        by (intro log_inv_same_log) (auto simp: recognise_leader_state split: if_splits)
    next
      case accept
      have "myRole (recognise_leader now ?a (nodes s ?d)) = Follower"
        using accepting_follower [OF sim append_request(2)] c append_request(3) accept(1) by simp
      with node_log_ok_accept [OF node log_invD(1) [OF inv] a accept(2,1)]
      have "node_log_ok L rf'" by (simp add: accept(3))
      with inv extends_refl lo show ?thesis by (rule log_inv_set_node) simp
    qed
    with append_request(1) a show ?thesis
      using log_inv_set_call [of n "set_node ?d rf' s" e' L "c\<lparr>ac_status := AE_Replied reply\<rparr>" k]
        extends_refl [of L] by auto
  next
    case (append_reply k c reply rf' again)
    let ?i = "ac_src c"
    have c: "call_ok n c" using static_invD(5) [OF st append_reply(2)] append_reply(3) n by simp
    then have i: "?i \<in> members n" "0 \<le> ac_dst c" "ac_dst c < n" by (auto simp: call_ok_def in_members)
    have a: "args_ok L (ac_args c)" using log_invD(3) [OF inv append_reply(2)] append_reply(3) by simp
    have ok: "peer_ok (nodes s ?i)" "npeers (nodes s ?i) = n" using static_invD(1,3) [OF st] i n by auto
    have "log rf' = log (nodes s ?i) \<and> currentTerm (nodes s ?i) \<le> currentTerm rf' \<and>
        (myRole rf' = Leader \<longrightarrow> myRole (nodes s ?i) = Leader \<and> currentTerm rf' = currentTerm (nodes s ?i)) \<and>
        (myRole rf' = Candidate \<longrightarrow> myRole (nodes s ?i) = Candidate)"
      using append_reply(6) peer_okD(6) [OF ok(1)] i(2) i(3) [folded ok(2)] peer_okD(2,3) [OF ok(1)]
      by (cases rule: handleAppendReply_cases) auto
    then have "log_inv n (set_node ?i rf' s) e' L"
      using log_inv_same_log [OF inv lo i(1), of rf'] by blast
    with append_reply(1) a show ?thesis
      using log_inv_set_call [of n "set_node ?i rf' s" e' L "c\<lparr>ac_status := AE_Done\<rparr>" k]
        extends_refl [of L] by auto
  next
    case (client i cmd res rf')
    then have i: "i \<in> members n" and rf': "rf' = snd (Start cmd (nodes s i))" using n by auto
    show ?thesis
    proof (cases "myRole (nodes s i) = Leader")
      case True
      have "winner e' (currentTerm (nodes s i)) \<noteq> None"
        using mono [OF winner_of_leader [OF sim i True]] by simp
      from log_inv_Start [OF inv sim i lo this rf' True] client(1) show ?thesis by simp
    next
      case False
      then show ?thesis by (intro same [OF client(1) i]) (auto simp: rf' Start_log)
    qed
  next
    case (kill i)
    with n show ?thesis by (intro same [OF kill(1)]) (auto simp: Kill_def)
  next
    case (restart i now r)
    have i: "i \<in> members n" using restart(2) n by simp
    have sync: "in_sync (nodes s i)" using static_invD(3) [OF st] i n by (auto simp: peer_okD)
    have "log_inv n (set_node i (restart_peer now r (nodes s i)) s) e' L"
      using inv lo i by (rule log_inv_same_log) (auto simp: restart_peer_state [OF sync])
    with restart(1) extends_refl [of L] show ?thesis by (intro exI [of _ L]) simp
  qed
qed

lemma log_inv_init: "log_inv n (cluster_init n r) election_init Map.empty"
  by (simp add: log_inv_def logs_ok_def cluster_init_def node_log_ok_def Make_def
      ReadRaftState_def MakePersister_def)

lemma reachable_logs:
  "reachable n s \<Longrightarrow> \<exists>e L. election_inv n e \<and> election_sim n s e \<and> log_inv n s e L"
proof (induction rule: reachable.induct)
  case (start r)
  show ?case using election_inv_init election_sim_init log_inv_init by blast
next
  case (step s s')
  then obtain e L where e: "election_inv n e" "election_sim n s e" and L: "log_inv n s e L" by blast
  have st: "static_inv s" "csize s = n" using reachable_static [OF step.hyps(1)] by auto
  obtain e' where e': "rtranclp (estep n) e e'" "election_sim n s' e'"
    using cluster_step_election [OF step.hyps(2) st e] by blast
  obtain L' where "log_inv n s' e' L'"
    using cluster_step_log [OF step.hyps(2) st e e' L] by blast
  with e' election_inv_steps [OF e'(1) e(1)] show ?case by blast
qed

end
