(* ===== verification/Raft_Commit.thy ===== *)
theory Raft_Commit
  imports Raft_Log
begin

section \<open>Acknowledgements, commitment, leader completeness\<close>

text \<open>
  The ghost state of the commitment proof: \<open>acks\<close> holds a triple \<open>(j, T, k)\<close> whenever
  member \<open>j\<close>, in term \<open>T\<close>, had the first \<open>k\<close> entries of the log of the leader of
  \<open>T\<close>. A position is committed when a majority has acknowledged it and its entry is of the
  acknowledged term (\<open>committed\<close>). An acknowledged entry can only disappear from a peer's log
  because of a later leader that lacks it (\<open>safe_at\<close>); votes carry this to the next leader, so
  by induction on terms no leader lacks a committed entry (leader completeness).
\<close>

type_synonym acks = "(int \<times> int \<times> nat) set"

definition acked :: "acks \<Rightarrow> int \<Rightarrow> int \<Rightarrow> nat \<Rightarrow> bool" where
  "acked A j T k \<longleftrightarrow> (\<exists>k' \<ge> k. (j, T, k') \<in> A)"

text \<open>Position \<open>k\<close> (1-based) of the log of the leader of \<open>T\<close> is an entry of term \<open>T\<close>.\<close>

definition owned :: "'c leader_logs \<Rightarrow> int \<Rightarrow> nat \<Rightarrow> bool" where
  "owned L T k \<longleftrightarrow> (\<exists>m. L T = Some m \<and> 0 < k \<and> k \<le> length m \<and> Term (m ! (k - 1)) = T)"

text \<open>The log \<open>l\<close> holds the first \<open>k\<close> entries of the leader of \<open>T\<close>.\<close>

definition carries :: "'c leader_logs \<Rightarrow> int \<Rightarrow> nat \<Rightarrow> 'c Log list \<Rightarrow> bool" where
  "carries L T k l \<longleftrightarrow> (\<exists>m. L T = Some m \<and> k \<le> length m \<and> k \<le> length l \<and> take k l = take k m)"

definition lost_by :: "'c leader_logs \<Rightarrow> int \<Rightarrow> nat \<Rightarrow> int \<Rightarrow> bool" where
  "lost_by L T k T' \<longleftrightarrow> (\<exists>m. L T' = Some m \<and> \<not> carries L T k m)"

definition safe_at :: "'c leader_logs \<Rightarrow> int \<Rightarrow> nat \<Rightarrow> 'c Log list \<Rightarrow> int \<Rightarrow> bool" where
  "safe_at L T k l b \<longleftrightarrow> carries L T k l \<or> (\<exists>T'. T < T' \<and> T' \<le> b \<and> lost_by L T k T')"

text \<open>Everything member \<open>j\<close> acknowledged before term \<open>b + 1\<close> is safe in the log \<open>l\<close>.\<close>

definition heeds :: "acks \<Rightarrow> 'c leader_logs \<Rightarrow> int \<Rightarrow> 'c Log list \<Rightarrow> int \<Rightarrow> bool" where
  "heeds A L j l b \<longleftrightarrow>
     (\<forall>T k. T \<le> b \<longrightarrow> acked A j T k \<longrightarrow> owned L T k \<longrightarrow> safe_at L T k l b)"

definition committed :: "int \<Rightarrow> acks \<Rightarrow> 'c leader_logs \<Rightarrow> int \<Rightarrow> nat \<Rightarrow> bool" where
  "committed n A L T k \<longleftrightarrow> owned L T k \<and> (\<exists>Q. majority n Q \<and> (\<forall>j \<in> Q. acked A j T k))"

text \<open>The first \<open>c\<close> entries of \<open>l\<close> are covered by a committed position of a term up to
  \<open>b\<close>.\<close>

definition commit_ok :: "int \<Rightarrow> acks \<Rightarrow> 'c leader_logs \<Rightarrow> int \<Rightarrow> 'c Log list \<Rightarrow> int \<Rightarrow> bool" where
  "commit_ok n A L c l b \<longleftrightarrow> 0 \<le> c \<and> c \<le> len l \<and>
     (0 < c \<longrightarrow> (\<exists>T k. committed n A L T k \<and> T \<le> b \<and> nat c \<le> k \<and> carries L T (nat c) l))"

subsection \<open>Terms along a log never decrease\<close>

lemma log_ok_terms_mono:
  assumes "log_ok L l" and "logs_ok e L" and "i \<le> k" and "k < length l"
  shows "Term (l ! i) \<le> Term (l ! k)"
proof -
  obtain m where m: "L (Term (l ! k)) = Some m" "k < length m" "take (Suc k) l = take (Suc k) m"
    using assms(1,4) by (auto simp: log_ok_def)
  have "l ! i = m ! i" using take_eq_imp_nth [OF m(3)] assms(3) by simp
  moreover have "\<forall>x \<in> set m. Term x \<le> Term (l ! k)" using assms(2) m(1) by (simp add: logs_ok_def)
  ultimately show ?thesis using m(2) assms(3) by simp
qed

text \<open>The leader log of the term of a log's entry starts with the log up to it.\<close>

lemma log_ok_at:
  assumes "log_ok L l" and "k < length l"
  obtains m where "L (Term (l ! k)) = Some m" "k < length m" "take (Suc k) l = take (Suc k) m"
  using assms by (auto simp: log_ok_def)

lemma carries_self: "L T = Some m \<Longrightarrow> k \<le> length m \<Longrightarrow> carries L T k m"
  by (simp add: carries_def)

lemma carries_le: "carries L T k l \<Longrightarrow> k' \<le> k \<Longrightarrow> carries L T k' l"
  unfolding carries_def by (auto intro: take_eq_imp_take_le)

lemma carries_prefix:
  assumes "carries L T k l" and "take k l = take k l'" and "k \<le> length l'"
  shows "carries L T k l'"
  using assms by (auto simp: carries_def)

lemma carries_append: "carries L T k l \<Longrightarrow> carries L T k (l @ ys)"
  by (auto simp: carries_def)

lemma carries_nth:
  assumes "carries L T k l" and "owned L T k"
  shows "Term (l ! (k - 1)) = T"
  using assms take_eq_imp_nth [of k l _ "k - 1"] by (auto simp: carries_def owned_def)

subsection \<open>Growth of the ghost state\<close>

lemma acked_mono: "acked A j T k \<Longrightarrow> A \<subseteq> A' \<Longrightarrow> acked A' j T k"
  by (auto simp: acked_def)

lemma acked_le: "acked A j T k \<Longrightarrow> k' \<le> k \<Longrightarrow> acked A j T k'"
  unfolding acked_def by (meson order_trans)

lemma acked_insert:
  "acked (insert (i, T', k') A) j T k \<longleftrightarrow> acked A j T k \<or> j = i \<and> T = T' \<and> k \<le> k'"
  by (auto simp: acked_def)

lemma extends_SomeE:
  assumes "extends L L'" and "L T = Some m"
  obtains ys where "L' T = Some (m @ ys)" "\<forall>y \<in> set ys. Term y = T"
  using assms unfolding extends_def by blast

lemma owned_extends:
  assumes "owned L T k" and "extends L L'"
  shows "owned L' T k"
proof -
  obtain m where m: "L T = Some m" "0 < k" "k \<le> length m" "Term (m ! (k - 1)) = T"
    using assms(1) by (auto simp: owned_def)
  obtain ys where "L' T = Some (m @ ys)" using assms(2) m(1) by (rule extends_SomeE)
  moreover have "k - 1 < length m" using m by linarith
  ultimately show ?thesis using m by (simp add: owned_def nth_append)
qed

lemma owned_back:
  assumes "owned L' T k" and "extends L L'" and "L T = Some m" and "k \<le> length m"
  shows "owned L T k"
proof -
  obtain ys where "L' T = Some (m @ ys)" using assms(2,3) by (rule extends_SomeE)
  with assms(1,3,4) show ?thesis by (auto simp: owned_def nth_append split: if_splits)
qed

lemma carries_extends:
  assumes "carries L T k l" and "extends L L'"
  shows "carries L' T k l"
proof -
  obtain m where m: "L T = Some m" "k \<le> length m" "k \<le> length l" "take k l = take k m"
    using assms(1) by (auto simp: carries_def)
  obtain ys where "L' T = Some (m @ ys)" using assms(2) m(1) by (rule extends_SomeE)
  with m show ?thesis by (simp add: carries_def)
qed

lemma carries_back:
  assumes "carries L' T k l" and "extends L L'" and "owned L T k"
  shows "carries L T k l"
proof -
  obtain m where m: "L T = Some m" "k \<le> length m" using assms(3) by (auto simp: owned_def)
  obtain ys where "L' T = Some (m @ ys)" using assms(2) m(1) by (rule extends_SomeE)
  with m assms(1) show ?thesis by (auto simp: carries_def)
qed

lemma lost_by_extends:
  assumes "lost_by L T k T'" and "extends L L'" and "owned L T k" and "T \<noteq> T'"
  shows "lost_by L' T k T'"
proof -
  obtain m' where m': "L T' = Some m'" "\<not> carries L T k m'" using assms(1) by (auto simp: lost_by_def)
  obtain ys where ys: "L' T' = Some (m' @ ys)" "\<forall>y \<in> set ys. Term y = T'"
    using assms(2) m'(1) by (rule extends_SomeE)
  have "\<not> carries L' T k (m' @ ys)"
  proof
    assume car: "carries L' T k (m' @ ys)"
    then have "Term ((m' @ ys) ! (k - 1)) = T"
      using carries_nth owned_extends [OF assms(3,2)] by blast
    moreover have "k \<le> length (m' @ ys)" "0 < k"
      using car assms(3) by (auto simp: carries_def owned_def)
    ultimately have "k \<le> length m'" using ys(2) assms(4) by (auto simp: nth_append split: if_splits)
    then have "carries L' T k m'" using carries_prefix [OF car, of m'] by simp
    with carries_back [OF _ assms(2,3)] m'(2) show False by blast
  qed
  with ys(1) show ?thesis by (auto simp: lost_by_def)
qed

lemma safe_at_extends:
  "safe_at L T k l b \<Longrightarrow> extends L L' \<Longrightarrow> owned L T k \<Longrightarrow> safe_at L' T k l b"
  unfolding safe_at_def by (metis carries_extends lost_by_extends order_less_irrefl)

lemma safe_at_mono: "safe_at L T k l b \<Longrightarrow> b \<le> b' \<Longrightarrow> safe_at L T k l b'"
  unfolding safe_at_def by force

lemma committed_mono:
  "committed n A L T k \<Longrightarrow> A \<subseteq> A' \<Longrightarrow> extends L L' \<Longrightarrow> committed n A' L' T k"
  unfolding committed_def by (metis owned_extends acked_mono)

lemma commit_ok_mono:
  assumes "commit_ok n A L c l b" and "A \<subseteq> A'" and "extends L L'" and "b \<le> b'"
  shows "commit_ok n A' L' c l b'"
  using assms committed_mono carries_extends unfolding commit_ok_def by (meson order_trans)

lemma commit_ok_insert: "commit_ok n A L c l b \<Longrightarrow> commit_ok n (insert x A) L c l b"
  by (rule commit_ok_mono [OF _ subset_insertI extends_refl order_refl])

lemma commit_ok_append:
  assumes "commit_ok n A L c l b"
  shows "commit_ok n A L c (l @ ys) b"
proof (cases "0 < c")
  case True
  with assms obtain T k where "committed n A L T k" "T \<le> b" "nat c \<le> k" "carries L T (nat c) l"
    by (auto simp: commit_ok_def)
  with carries_append [of L T "nat c" l ys] assms show ?thesis
    unfolding commit_ok_def by auto
qed (use assms in \<open>auto simp: commit_ok_def\<close>)

lemma commit_ok_0 [simp]: "commit_ok n A L 0 l b"
  by (simp add: commit_ok_def)

text \<open>Acknowledgements refer to leader logs that exist, of terms the acknowledging peer has
  reached.\<close>

definition acks_ok :: "int \<Rightarrow> acks \<Rightarrow> 'c leader_logs \<Rightarrow> (int \<Rightarrow> int) \<Rightarrow> bool" where
  "acks_ok n A L ct \<longleftrightarrow> (\<forall>j T k. (j, T, k) \<in> A \<longrightarrow>
     j \<in> members n \<and> T \<le> ct j \<and> (\<exists>m. L T = Some m \<and> k \<le> length m))"

lemma acks_ok_acked:
  assumes "acks_ok n A L ct" and "acked A j T k"
  obtains m where "j \<in> members n" "T \<le> ct j" "L T = Some m" "k \<le> length m"
  using assms unfolding acks_ok_def acked_def by (metis order_trans)

lemma heeds_extends:
  assumes "heeds A L j l b" and "extends L L'" and "acks_ok n A L ct"
  shows "heeds A L' j l b"
  unfolding heeds_def
proof (intro allI impI)
  fix T k assume *: "T \<le> b" "acked A j T k" "owned L' T k"
  obtain m where "L T = Some m" "k \<le> length m" using acks_ok_acked [OF assms(3) *(2)] .
  then have own: "owned L T k" using owned_back [OF *(3) assms(2)] by blast
  with assms(1) * have "safe_at L T k l b" by (simp add: heeds_def)
  then show "safe_at L' T k l b" using assms(2) own by (rule safe_at_extends)
qed

text \<open>New acknowledgements of a term above \<open>b\<close>, or of somebody else, do not matter.\<close>

lemma heeds_more_acks:
  assumes "heeds A L j l b" and "\<And>T k. T \<le> b \<Longrightarrow> acked A' j T k \<Longrightarrow> acked A j T k"
  shows "heeds A' L j l b"
  using assms by (auto simp: heeds_def)

lemma heeds_append: "heeds A L j l b \<Longrightarrow> heeds A L j (l @ ys) b"
  unfolding heeds_def safe_at_def using carries_append by blast

lemma heeds_mono:
  assumes "heeds A L j l b" and "b \<le> b'" and "\<And>T k. acked A j T k \<Longrightarrow> T \<le> b"
  shows "heeds A L j l b'"
  using assms by (auto simp: heeds_def intro: safe_at_mono)

subsection \<open>A vote hands over what the voter acknowledged\<close>

definition last_term :: "'c Log list \<Rightarrow> int" where
  "last_term l = (if l = [] then -1 else Term (last l))"

lemma up_to_date_iff:
  "up_to_date a l \<longleftrightarrow> last_term l < rva_LastLogTerm a \<or>
     last_term l = rva_LastLogTerm a \<and> len l \<le> rva_LastLogIndex a"
  by (simp add: up_to_date_def last_term_def Let_def)

text \<open>A log whose last term is later than \<open>T\<close>'s, or that is longer than the voter's with the
  same last term, carries what the voter's log carries, or witnesses a leader that lacks it.\<close>

lemma up_to_date_safe:
  assumes lo: "logs_ok e L" and okv: "log_ok L v" and okl: "log_ok L l"
    and car: "carries L T k v" and own: "owned L T k" and pos: "0 \<le> T"
    and upd: "last_term v < last_term l \<or> last_term v = last_term l \<and> length v \<le> length l"
    and low: "\<forall>x \<in> set l. Term x \<le> b"
  shows "safe_at L T k l b"
proof -
  have kv: "0 < k" "k \<le> length v" using car own by (auto simp: carries_def owned_def)
  then have ne: "v \<noteq> []" by auto
  have "T = Term (v ! (k - 1))" using carries_nth [OF car own] by simp
  also have "\<dots> \<le> Term (v ! (length v - 1))"
    using log_ok_terms_mono [OF okv lo, of "k - 1" "length v - 1"] kv by simp
  finally have T_le: "T \<le> last_term v" using ne by (simp add: last_term_def last_conv_nth)
  then have l: "l \<noteq> []" using upd pos by (auto simp: last_term_def split: if_splits)
  define t where "t = Term (last l)"
  have t: "last_term l = t" "Term (l ! (length l - 1)) = t"
    using l by (simp_all add: last_term_def t_def last_conv_nth)
  have "length l - 1 < length l" "Suc (length l - 1) = length l" using l by simp_all
  with log_ok_at [OF okl, of "length l - 1"] t(2)
  obtain m where m: "L t = Some m" "length l \<le> length m" "take (length l) l = take (length l) m"
    by (metis Suc_leI)
  show ?thesis
  proof (cases "last_term v = t")
    case True
    then have "Term (v ! (length v - 1)) = t" using ne by (simp add: last_term_def last_conv_nth)
    moreover have "length v - 1 < length v" "Suc (length v - 1) = length v" using ne by simp_all
    ultimately obtain m' where m': "L t = Some m'" "take (length v) v = take (length v) m'"
      using log_ok_at [OF okv, of "length v - 1"] by metis
    have "length v \<le> length l" using True upd t(1) by simp
    moreover have "m' = m" using m(1) m'(1) by simp
    ultimately have "take (length v) l = take (length v) v"
      using m(3) m'(2) by (metis take_eq_imp_take_le)
    then have "take k l = take k v" using kv(2) by (rule take_eq_imp_take_le)
    with car kv \<open>length v \<le> length l\<close> have "carries L T k l"
      by (auto simp: carries_def)
    then show ?thesis by (simp add: safe_at_def)
  next
    case False
    with upd t have "last_term v < t" by simp
    with T_le have Tt: "T < t" by simp
    have tb: "t \<le> b" using low l t_def by simp
    show ?thesis
    proof (cases "carries L T k m")
      case False
      with m(1) Tt tb show ?thesis by (auto simp: safe_at_def lost_by_def)
    next
      case True
      have okm: "log_ok L m" using lo m(1) by (simp add: logs_ok_def)
      have "k \<le> length l"
      proof (rule ccontr)
        assume "\<not> k \<le> length l"
        then have "Term (m ! (length l - 1)) \<le> Term (m ! (k - 1))"
          using True by (intro log_ok_terms_mono [OF okm lo]) (auto simp: carries_def)
        moreover have "Term (m ! (k - 1)) = T" using True own by (rule carries_nth)
        moreover have "m ! (length l - 1) = l ! (length l - 1)"
          using take_eq_imp_nth [OF m(3), of "length l - 1"] l by simp
        ultimately show False using Tt t(2) by simp
      qed
      then have "take k l = take k m" using m(3) by (metis take_eq_imp_take_le)
      with True \<open>k \<le> length l\<close> have "carries L T k l" by (auto simp: carries_def)
      then show ?thesis by (simp add: safe_at_def)
    qed
  qed
qed

subsection \<open>The invariant\<close>

definition delivered :: "'c raft \<Rightarrow> bool" where
  "delivered rf \<longleftrightarrow> lastApplied rf = commitIndex rf \<and>
     applyCh rf = map (entry_msg (log rf)) [1..commitIndex rf]"

text \<open>A leader's tables: what \<open>matchIndex\<close> says of another peer was acknowledged by it; its own
  slot only reaches over entries of earlier terms; \<open>nextIndex\<close> stays within the log.\<close>

definition leader_ok :: "acks \<Rightarrow> int \<Rightarrow> 'c raft \<Rightarrow> bool" where
  "leader_ok A i rf \<longleftrightarrow>
     acked A i (currentTerm rf) (length (log rf)) \<and>
     (\<forall>p \<in> members (npeers rf). p \<noteq> i \<longrightarrow> 0 < matchIndex rf ! nat p \<longrightarrow>
        acked A p (currentTerm rf) (nat (matchIndex rf ! nat p))) \<and>
     matchIndex rf ! nat i \<le> len (log rf) \<and>
     (\<forall>k. int k < matchIndex rf ! nat i \<longrightarrow> Term (log rf ! k) < currentTerm rf) \<and>
     (\<forall>p \<in> members (npeers rf). 1 \<le> nextIndex rf ! nat p \<and> nextIndex rf ! nat p \<le> len (log rf) + 1)"

definition node_commit :: "int \<Rightarrow> acks \<Rightarrow> 'c leader_logs \<Rightarrow> int \<Rightarrow> 'c raft \<Rightarrow> bool" where
  "node_commit n A L i rf \<longleftrightarrow> 0 \<le> currentTerm rf \<and>
     heeds A L i (log rf) (currentTerm rf) \<and>
     commit_ok n A L (commitIndex rf) (log rf) (currentTerm rf) \<and> delivered rf \<and>
     (myRole rf = Leader \<longrightarrow> leader_ok A i rf)"

text \<open>A candidate of a term that has no leader yet holds what its voters acknowledged.\<close>

definition cand_ok :: "election \<Rightarrow> acks \<Rightarrow> 'c leader_logs \<Rightarrow> int \<Rightarrow> 'c raft \<Rightarrow> bool" where
  "cand_ok e A L i rf \<longleftrightarrow> (myRole rf = Candidate \<longrightarrow> L (currentTerm rf) = None \<longrightarrow>
     (\<forall>j. (j, currentTerm rf, i) \<in> ballots e \<longrightarrow> heeds A L j (log rf) (currentTerm rf - 1)))"

text \<open>The log of an elected leader holds what a majority acknowledged before its term.\<close>

definition led :: "int \<Rightarrow> acks \<Rightarrow> 'c leader_logs \<Rightarrow> (int \<Rightarrow> int) \<Rightarrow> int \<Rightarrow> 'c Log list \<Rightarrow> bool" where
  "led n A L ct T m \<longleftrightarrow> (\<exists>Q. majority n Q \<and> (\<forall>j \<in> Q. T \<le> ct j \<and> heeds A L j m (T - 1)))"

definition leads_ok :: "int \<Rightarrow> acks \<Rightarrow> 'c leader_logs \<Rightarrow> (int \<Rightarrow> int) \<Rightarrow> bool" where
  "leads_ok n A L ct \<longleftrightarrow> (\<forall>T m. L T = Some m \<longrightarrow> 0 \<le> T \<and> led n A L ct T m)"

definition round_match :: "'c cluster \<Rightarrow> round \<Rightarrow> bool" where
  "round_match s rd \<longleftrightarrow>
     (let rf = nodes s (candidate_of rd) in
      myRole rf = Candidate \<longrightarrow> currentTerm rf = rva_Term (rd_args rd) \<longrightarrow>
      rva_LastLogIndex (rd_args rd) = len (log rf) \<and> rva_LastLogTerm (rd_args rd) = last_term (log rf))"

definition ballot_terms :: "int \<Rightarrow> 'c cluster \<Rightarrow> election \<Rightarrow> bool" where
  "ballot_terms n s e \<longleftrightarrow> (\<forall>j T c. (j, T, c) \<in> ballots e \<longrightarrow>
     c \<in> members n \<and> T \<le> currentTerm (nodes s c))"

abbreviation reach :: "'c AppendEntriesArgs \<Rightarrow> nat" where
  "reach a \<equiv> nat (aea_PrevLogIndex a) + length (aea_Entries a)"

text \<open>A call in flight carries a commit index that its own entries cover, a positive answer is an
  acknowledgement, and a negative one names a position the leader can back off to.\<close>

definition call_commit :: "int \<Rightarrow> acks \<Rightarrow> 'c leader_logs \<Rightarrow> 'c ae_call \<Rightarrow> bool" where
  "call_commit n A L c \<longleftrightarrow>
     (let a = ac_args c in
      (\<exists>m. L (aea_Term a) = Some m \<and> reach a \<le> length m \<and>
         commit_ok n A L (aea_LeaderCommit a) (take (reach a) m) (aea_Term a)) \<and>
      (\<forall>reply. ac_status c = AE_Replied reply \<longrightarrow>
         (if aer_Success reply then acked A (ac_dst c) (aea_Term a) (reach a)
          else aea_Term a < aer_Term reply \<or>
               1 \<le> aer_ConflictIndex reply \<and> aer_ConflictIndex reply \<le> aea_PrevLogIndex a)))"

definition commit_inv :: "int \<Rightarrow> 'c cluster \<Rightarrow> election \<Rightarrow> 'c leader_logs \<Rightarrow> acks \<Rightarrow> bool" where
  "commit_inv n s e L A \<longleftrightarrow>
     acks_ok n A L (\<lambda>j. currentTerm (nodes s j)) \<and> leads_ok n A L (\<lambda>j. currentTerm (nodes s j)) \<and>
     ballot_terms n s e \<and>
     (\<forall>i \<in> members n. node_commit n A L i (nodes s i) \<and> cand_ok e A L i (nodes s i)) \<and>
     (\<forall>rd \<in> set (rounds s). round_match s rd) \<and> (\<forall>c \<in> set (calls s). call_commit n A L c)"

lemma commit_invD:
  assumes "commit_inv n s e L A"
  shows "acks_ok n A L (\<lambda>j. currentTerm (nodes s j))" "leads_ok n A L (\<lambda>j. currentTerm (nodes s j))"
    "ballot_terms n s e" "i \<in> members n \<Longrightarrow> node_commit n A L i (nodes s i)"
    "i \<in> members n \<Longrightarrow> cand_ok e A L i (nodes s i)"
    "rd \<in> set (rounds s) \<Longrightarrow> round_match s rd" "c \<in> set (calls s) \<Longrightarrow> call_commit n A L c"
  using assms by (auto simp: commit_inv_def)

subsection \<open>Leader completeness\<close>

lemma committed_carried:
  assumes ac: "acks_ok n A L ct" and le: "leads_ok n A L ct" and com: "committed n A L T k"
  shows "L T' = Some m \<Longrightarrow> T < T' \<Longrightarrow> carries L T k m"
proof (induction "nat (T' - T)" arbitrary: T' m rule: less_induct)
  case less
  obtain Q where Q: "majority n Q" "\<forall>j \<in> Q. acked A j T k" and own: "owned L T k"
    using com by (auto simp: committed_def)
  obtain Q' where Q': "majority n Q'" "\<forall>j \<in> Q'. heeds A L j m (T' - 1)"
    using le less.prems(1) unfolding leads_ok_def led_def by blast
  obtain j where "j \<in> Q" "j \<in> Q'" using maj.quorum_intersect [OF Q(1) Q'(1)] by blast
  with Q(2) Q'(2) own less.prems(2) have "safe_at L T k m (T' - 1)" by (simp add: heeds_def)
  then show ?case
  proof (unfold safe_at_def, elim disjE exE conjE)
    fix T'' assume "T < T''" "T'' \<le> T' - 1" "lost_by L T k T''"
    then obtain m'' where m'': "L T'' = Some m''" "\<not> carries L T k m''" by (auto simp: lost_by_def)
    have "carries L T k m''"
      using \<open>T < T''\<close> \<open>T'' \<le> T' - 1\<close> by (intro less.hyps [OF _ m''(1)]) auto
    with m''(2) show ?thesis by simp
  qed
qed

text \<open>A committed prefix is the same in every leader log that reaches it.\<close>

lemma committed_carried_le:
  assumes "acks_ok n A L ct" and "leads_ok n A L ct" and "committed n A L T k"
    and "L T' = Some m" and "T \<le> T'"
  shows "carries L T k m"
proof (cases "T = T'")
  case True
  with assms(3,4) show ?thesis by (auto simp: committed_def owned_def carries_def)
next
  case False
  with committed_carried [OF assms(1-4)] assms(5) show ?thesis by simp
qed

lemma carries_agree:
  assumes "carries L T c a" and "carries L T k b" and "c \<le> k"
  shows "take c a = take c b"
proof -
  have "carries L T c b" using assms(2,3) by (rule carries_le)
  with assms(1) show ?thesis by (auto simp: carries_def)
qed

text \<open>Two committed prefixes agree.\<close>

lemma commit_ok_agree:
  assumes ac: "acks_ok n A L ct" and le: "leads_ok n A L ct"
    and a: "commit_ok n A L c l b" and b: "commit_ok n A L c' l' b'" and cc: "c \<le> c'"
  shows "take (nat c) l = take (nat c) l'"
proof (cases "0 < c")
  case False
  then show ?thesis by simp
next
  case True
  then obtain T k where T: "committed n A L T k" "nat c \<le> k" "carries L T (nat c) l"
    using a by (auto simp: commit_ok_def)
  from True cc b obtain T' k' where T': "committed n A L T' k'" "nat c' \<le> k'" "carries L T' (nat c') l'"
    by (auto simp: commit_ok_def)
  have nc: "nat c \<le> nat c'" using cc by simp
  obtain m m' where m: "L T = Some m" "L T' = Some m'"
    using T(3) T'(3) by (auto simp: carries_def)
  consider "T \<le> T'" | "T' \<le> T" by linarith
  then show ?thesis
  proof cases
    case 1
    have "carries L T k m'" using committed_carried_le [OF ac le T(1) m(2) 1] .
    then have "take (nat c) l = take (nat c) m'" using T(2,3) carries_agree by blast
    moreover have "take (nat c') l' = take (nat c') m'" using T'(3) m(2) by (auto simp: carries_def)
    ultimately show ?thesis using nc by (metis take_eq_imp_take_le)
  next
    case 2
    have "carries L T' k' m" using committed_carried_le [OF ac le T'(1) m(1) 2] .
    then have "take (nat c') l' = take (nat c') m" using T'(2,3) carries_agree by blast
    moreover have "take (nat c) l = take (nat c) m" using T(3) m(1) by (auto simp: carries_def)
    ultimately show ?thesis using nc by (metis take_eq_imp_take_le)
  qed
qed

end
