(* ===== verification/Raft_Safety.thy ===== *)
theory Raft_Safety
  imports Raft_Commit
begin

section \<open>Every step keeps the commitment invariant\<close>

text \<open>
  \<open>commit_inv\<close> of \<open>Raft_Commit\<close> holds in every reachable state. A step changes at most one
  peer; \<open>commit_inv_step\<close> reduces its preservation to facts about that peer, and one lemma per
  operation supplies them.
\<close>

subsection \<open>Frames\<close>

lemma leader_ok_frame: "leader_ok A i rf \<Longrightarrow> A \<subseteq> A' \<Longrightarrow> leader_ok A' i rf"
  unfolding leader_ok_def by (meson acked_mono)

lemma node_commit_frame:
  assumes "node_commit n A L i rf" and "A \<subseteq> A'" and "extends L L'" and "acks_ok n A L ct"
    and "\<And>T k. acked A' i T k \<Longrightarrow> acked A i T k"
  shows "node_commit n A' L' i rf"
proof -
  have "heeds A L i (log rf) (currentTerm rf)" using assms(1) by (simp add: node_commit_def)
  then have "heeds A L' i (log rf) (currentTerm rf)" using assms(3,4) by (rule heeds_extends)
  then have heeds: "heeds A' L' i (log rf) (currentTerm rf)"
    by (rule heeds_more_acks) (rule assms(5))
  have "commit_ok n A L (commitIndex rf) (log rf) (currentTerm rf)"
    using assms(1) by (simp add: node_commit_def)
  then have "commit_ok n A' L' (commitIndex rf) (log rf) (currentTerm rf)"
    using assms(2,3) order_refl by (rule commit_ok_mono)
  with heeds show ?thesis
    using assms(1) leader_ok_frame [OF _ assms(2), of i rf] by (auto simp: node_commit_def)
qed

lemma call_commit_frame:
  assumes "call_commit n A L c" and "A \<subseteq> A'" and "extends L L'"
  shows "call_commit n A' L' c"
proof -
  let ?a = "ac_args c"
  obtain m where m: "L (aea_Term ?a) = Some m" "reach ?a \<le> length m"
    "commit_ok n A L (aea_LeaderCommit ?a) (take (reach ?a) m) (aea_Term ?a)"
    using assms(1) by (auto simp: call_commit_def Let_def)
  obtain ys where "L' (aea_Term ?a) = Some (m @ ys)" using assms(3) m(1) by (rule extends_SomeE)
  moreover have "commit_ok n A' L' (aea_LeaderCommit ?a) (take (reach ?a) (m @ ys)) (aea_Term ?a)"
    using commit_ok_mono [OF m(3) assms(2,3) order_refl] m(2) by simp
  moreover have "reach ?a \<le> length (m @ ys)" using m(2) by simp
  ultimately have "\<exists>m. L' (aea_Term ?a) = Some m \<and> reach ?a \<le> length m \<and>
      commit_ok n A' L' (aea_LeaderCommit ?a) (take (reach ?a) m) (aea_Term ?a)"
    by blast
  then show ?thesis
    using assms(1) acked_mono [OF _ assms(2)] by (simp add: call_commit_def Let_def)
qed

lemma led_frame:
  assumes "led n A L ct T m" and "extends L L'" and "acks_ok n A L ct"
    and "\<And>j. ct j \<le> ct' j"
    and "\<And>j T' k. acked A' j T' k \<Longrightarrow> acked A j T' k \<or> ct j \<le> T'"
  shows "led n A' L' ct' T (m @ ys)"
proof -
  obtain Q where Q: "majority n Q" "\<forall>j \<in> Q. T \<le> ct j \<and> heeds A L j m (T - 1)"
    using assms(1) by (auto simp: led_def)
  have "T \<le> ct' j \<and> heeds A' L' j (m @ ys) (T - 1)" if "j \<in> Q" for j
  proof
    show "T \<le> ct' j" using Q(2) that assms(4) [of j] by auto
    have "heeds A L' j m (T - 1)" using Q(2) that assms(2,3) by (auto intro: heeds_extends)
    then have "heeds A' L' j m (T - 1)"
    proof (rule heeds_more_acks)
      fix T' k assume "T' \<le> T - 1" "acked A' j T' k"
      then show "acked A j T' k" using assms(5) [of j T' k] Q(2) that by force
    qed
    then show "heeds A' L' j (m @ ys) (T - 1)" by (rule heeds_append)
  qed
  with Q(1) show ?thesis by (auto simp: led_def)
qed

lemma acks_ok_extend:
  assumes "acks_ok n A L ct" and "extends L L'" and "\<And>j. ct j \<le> ct' j"
    and "\<And>j T k. (j, T, k) \<in> A' \<Longrightarrow> (j, T, k) \<in> A \<or>
      j \<in> members n \<and> T \<le> ct' j \<and> (\<exists>m. L' T = Some m \<and> k \<le> length m)"
  shows "acks_ok n A' L' ct'"
  unfolding acks_ok_def
proof (intro allI impI)
  fix j T k assume in_A': "(j, T, k) \<in> A'"
  show "j \<in> members n \<and> T \<le> ct' j \<and> (\<exists>m. L' T = Some m \<and> k \<le> length m)"
  proof (cases "(j, T, k) \<in> A")
    case True
    then obtain m where m: "j \<in> members n" "T \<le> ct j" "L T = Some m" "k \<le> length m"
      using assms(1) unfolding acks_ok_def by blast
    obtain ys where "L' T = Some (m @ ys)" using assms(2) m(3) by (rule extends_SomeE)
    with m assms(3) [of j] show ?thesis by auto
  next
    case False
    with assms(4) [OF in_A'] show ?thesis by blast
  qed
qed

subsection \<open>A step of one peer\<close>

text \<open>What a step may do to the vote-relevant part of the peer it runs on.\<close>

definition candidacy_kept :: "'c raft \<Rightarrow> 'c raft \<Rightarrow> bool" where
  "candidacy_kept rf rf' \<longleftrightarrow> (myRole rf' = Candidate \<longrightarrow> log rf' = log rf \<and>
     (myRole rf = Candidate \<and> currentTerm rf' = currentTerm rf \<or> currentTerm rf' = currentTerm rf + 1))"

definition acks_by :: "int \<Rightarrow> 'c raft \<Rightarrow> 'c leader_logs \<Rightarrow> acks \<Rightarrow> acks \<Rightarrow> bool" where
  "acks_by i rf L A A' \<longleftrightarrow> A \<subseteq> A' \<and> (\<forall>j T k. (j, T, k) \<in> A' \<longrightarrow> (j, T, k) \<in> A \<or>
     j = i \<and> T = currentTerm rf \<and> (\<exists>m. L T = Some m \<and> k \<le> length m))"

lemma acks_by_refl [simp]: "acks_by i rf L A A"
  by (simp add: acks_by_def)

lemma acks_by_acked:
  assumes "acks_by i rf L A A'" and "acked A' j T k"
  shows "acked A j T k \<or> j = i \<and> T = currentTerm rf"
  using assms unfolding acks_by_def acked_def by blast

lemma round_match_step:
  assumes "round_match s rd" and "nodes s' = (nodes s)(i := rf)" and "candidacy_kept (nodes s i) rf"
    and "rva_Term (rd_args rd) \<le> currentTerm (nodes s (candidate_of rd))"
    and "rd_args rd' = rd_args rd"
  shows "round_match s' rd'"
  using assms by (auto simp: round_match_def candidacy_kept_def Let_def)


lemma cand_ok_step:
  assumes st: "static_inv s" "csize s = n"
    and inv: "commit_inv n s e L A" and linv: "log_inv n s e L"
    and esim: "election_sim n s e" and einv': "election_inv n e'" and esim': "election_sim n s' e'"
    and upd: "nodes s' = (nodes s)(i := rf)" and mem: "i \<in> members n"
    and ct: "currentTerm (nodes s i) \<le> currentTerm rf" and kept: "candidacy_kept (nodes s i) rf"
    and nb: "new_ballots s s' e e'" and ext: "extends L L'" and by_i: "acks_by i rf L' A A'"
    and c: "c \<in> members n"
  shows "cand_ok e' A' L' c (nodes s' c)"
  unfolding cand_ok_def
proof (intro impI allI)
  let ?rf = "nodes s' c" and ?old = "nodes s c"
  let ?T = "currentTerm ?rf"
  fix j assume role: "myRole ?rf = Candidate" and none: "L' ?T = None"
    and b: "(j, ?T, c) \<in> ballots e'"
  have ac: "acks_ok n A L (\<lambda>j. currentTerm (nodes s j))" using inv by (rule commit_invD(1))
  have none0: "L ?T = None" using none ext by (metis extends_SomeE not_None_eq)
  have log_c: "log ?rf = log ?old"
    and same_or_next: "myRole ?old = Candidate \<and> ?T = currentTerm ?old \<or> ?T = currentTerm ?old + 1"
    using role kept upd by (auto simp: candidacy_kept_def)
  have past: "j \<in> members n \<and> ?T \<le> e_term e' j"
    using einv' b unfolding election_inv_def ballots_past_def by blast
  with election_simD(1) [OF esim', of j] have jm: "j \<in> members n" "?T \<le> currentTerm (nodes s' j)"
    by (simp_all add: node_sim_def)
  have old_acks: "acked A j T k" if "T \<le> ?T - 1" "acked A' j T k" for T k
    using acks_by_acked [OF by_i that(2)] that(1) jm(2) upd by (auto split: if_splits)
  have lift: "heeds A' L' j (log ?rf) (?T - 1)" if "heeds A L j (log ?rf) (?T - 1)"
    using heeds_extends [OF that ext ac] old_acks by (rule heeds_more_acks)
  show "heeds A' L' j (log ?rf) (?T - 1)"
  proof (cases "(j, ?T, c) \<in> ballots e")
    case True
    then have "?T \<le> currentTerm ?old" using commit_invD(3) [OF inv] by (auto simp: ballot_terms_def)
    with same_or_next have "myRole ?old = Candidate" "?T = currentTerm ?old" by auto
    with commit_invD(5) [OF inv c] none0 True log_c show ?thesis
      by (intro lift) (simp add: cand_ok_def)
  next
    case False
    with nb b have cast: "ballot_cast s s' j ?T c" by (auto simp: new_ballots_def)
    have kept_j: "heeds A L j (log (nodes s j)) (currentTerm (nodes s j))"
      using commit_invD(4) [OF inv jm(1)] by (simp add: node_commit_def)
    show ?thesis
    proof (cases "c = j")
      case True
      with cast have "?T - 1 = currentTerm (nodes s j)" by (auto simp: ballot_cast_def)
      with kept_j True log_c show ?thesis by (intro lift) simp
    next
      case False
      with cast obtain rd where rd: "rd \<in> set (rounds s)" "candidate_of rd = c"
        "rva_Term (rd_args rd) = ?T" "up_to_date (rd_args rd) (log (nodes s j))"
        and ct_j: "currentTerm (nodes s j) \<le> ?T"
        by (auto simp: ballot_cast_def)
      have "round_sim e rd" using esim rd(1) by (simp add: election_sim_def)
      then have "(c, ?T, c) \<in> ballots e" using rd(2,3) by (simp add: round_sim_def Let_def)
      then have "?T \<le> currentTerm ?old" using commit_invD(3) [OF inv] by (auto simp: ballot_terms_def)
      with same_or_next have cand0: "myRole ?old = Candidate" "?T = currentTerm ?old" by auto
      have "round_match s rd" using commit_invD(6) [OF inv rd(1)] .
      then have "rva_LastLogIndex (rd_args rd) = len (log ?rf)"
        "rva_LastLogTerm (rd_args rd) = last_term (log ?rf)"
        using rd(2,3) cand0 log_c by (auto simp: round_match_def Let_def)
      with rd(4) have upd': "last_term (log (nodes s j)) < last_term (log ?rf) \<or>
          last_term (log (nodes s j)) = last_term (log ?rf) \<and> length (log (nodes s j)) \<le> length (log ?rf)"
        by (simp add: up_to_date_iff)
      have lc: "node_log_ok L ?old" "node_log_ok L (nodes s j)"
        using log_invD(2) [OF linv] c jm(1) by blast+
      have "heeds A L j (log ?rf) (?T - 1)"
        unfolding heeds_def
      proof (intro allI impI)
        fix T k assume *: "T \<le> ?T - 1" "acked A j T k" "owned L T k"
        have "T \<le> currentTerm (nodes s j)" using acks_ok_acked [OF ac *(2)] by blast
        with kept_j * have "safe_at L T k (log (nodes s j)) (currentTerm (nodes s j))"
          by (simp add: heeds_def)
        then consider "carries L T k (log (nodes s j))"
          | T' where "T < T'" "T' \<le> currentTerm (nodes s j)" "lost_by L T k T'"
          by (auto simp: safe_at_def)
        then show "safe_at L T k (log ?rf) (?T - 1)"
        proof cases
          case 1
          have pos: "0 \<le> T"
            using commit_invD(2) [OF inv] *(3) by (auto simp: leads_ok_def owned_def)
          have low: "\<forall>x \<in> set (log ?rf). Term x \<le> ?T - 1"
            using lc(1) cand0 log_c by (auto simp: node_log_ok_def)
          show ?thesis
            using up_to_date_safe [OF log_invD(1) [OF linv] _ _ 1 *(3) pos upd' low] lc log_c
            by (simp add: node_log_ok_def)
        next
          case 2
          then have "T' \<noteq> ?T" using none0 by (auto simp: lost_by_def)
          with 2 ct_j show ?thesis by (auto simp: safe_at_def)
        qed
      qed
      then show ?thesis by (rule lift)
    qed
  qed
qed


text \<open>Everything but the peer that moved is a frame.\<close>

lemma commit_inv_step:
  assumes st: "static_inv s" "csize s = n"
    and inv: "commit_inv n s e L A" and linv: "log_inv n s e L"
    and esim: "election_sim n s e" and einv': "election_inv n e'" and esim': "election_sim n s' e'"
    and upd: "nodes s' = (nodes s)(i := rf)" and mem: "i \<in> members n"
    and ct: "currentTerm (nodes s i) \<le> currentTerm rf" and kept: "candidacy_kept (nodes s i) rf"
    and nb: "new_ballots s s' e e'" and ext: "extends L L'" and brn: "born n s s' L L'"
    and by_i: "acks_by i rf L' A A'"
    and node: "node_commit n A' L' i rf"
    and rounds: "\<And>rd. rd \<in> set (rounds s') \<Longrightarrow> round_match s' rd"
    and calls: "\<And>c. c \<in> set (calls s') \<Longrightarrow> call_commit n A' L' c"
  shows "commit_inv n s' e' L' A'"
proof -
  let ?ct = "\<lambda>j. currentTerm (nodes s j)" and ?ct' = "\<lambda>j. currentTerm (nodes s' j)"
  have ac: "acks_ok n A L ?ct" using inv by (rule commit_invD(1))
  have ct_le: "?ct j \<le> ?ct' j" for j using ct upd by simp
  have sub: "A \<subseteq> A'" using by_i by (simp add: acks_by_def)
  have "acks_ok n A' L' ?ct'"
    using ac ext ct_le
  proof (rule acks_ok_extend)
    fix j T k assume "(j, T, k) \<in> A'"
    with by_i mem upd show "(j, T, k) \<in> A \<or>
        j \<in> members n \<and> T \<le> ?ct' j \<and> (\<exists>m. L' T = Some m \<and> k \<le> length m)"
      unfolding acks_by_def by (metis fun_upd_same order_refl)
  qed
  moreover have "leads_ok n A' L' ?ct'"
    unfolding leads_ok_def
  proof (intro allI impI)
    fix T m' assume m': "L' T = Some m'"
    show "0 \<le> T \<and> led n A' L' ?ct' T m'"
    proof (cases "L T")
      case (Some m)
      then obtain ys where "m' = m @ ys" using ext m' by (metis extends_SomeE option.inject)
      moreover have "0 \<le> T" "led n A L ?ct T m"
        using commit_invD(2) [OF inv] Some by (simp_all add: leads_ok_def)
      moreover have "acked A j T' k \<or> ?ct j \<le> T'" if "acked A' j T' k" for j T' k
        using acks_by_acked [OF by_i that] ct by auto
      ultimately show ?thesis using led_frame [OF _ ext ac ct_le, of T m A' ys] by simp
    next
      case None
      with brn m' obtain c where c: "c \<in> members n" "myRole (nodes s c) = Candidate"
        "?ct c = T" "log (nodes s c) = m'" "myRole (nodes s' c) = Leader" "?ct' c = T"
        unfolding born_def by blast
      have "winner e' T = Some c" using winner_of_leader [OF esim' c(1,5)] c(6) by simp
      then have "backed n e' T c" using einv' by (simp add: election_inv_def winners_backed_def)
      then obtain Q where Q: "majority n Q" "\<forall>j \<in> Q. (j, T, c) \<in> ballots e'"
        unfolding backed_def by blast
      have c_i: "c = i" using c(2,5) upd by (auto split: if_splits)
      have "heeds A' L' j m' (T - 1) \<and> T \<le> ?ct' j" if "j \<in> Q" for j
      proof -
        have j: "j \<in> members n" "T \<le> ?ct' j"
        proof -
          have past: "j \<in> members n \<and> T \<le> e_term e' j"
            using einv' Q(2) that unfolding election_inv_def ballots_past_def by blast
          with election_simD(1) [OF esim', of j] show "j \<in> members n" "T \<le> ?ct' j"
            by (simp_all add: node_sim_def)
        qed
        have "\<not> ballot_cast s s' j T c"
          using c(2,3,5) by (auto simp: ballot_cast_def)
        with nb Q(2) that have "(j, T, c) \<in> ballots e" by (auto simp: new_ballots_def)
        moreover have "cand_ok e A L c (nodes s c)" using inv c(1) by (rule commit_invD(5))
        ultimately have "heeds A L j m' (T - 1)" using c(2-4) None by (simp add: cand_ok_def)
        then have "heeds A L' j m' (T - 1)" using ext ac by (rule heeds_extends)
        then have "heeds A' L' j m' (T - 1)"
        proof (rule heeds_more_acks)
          fix T' k assume "T' \<le> T - 1" "acked A' j T' k"
          then show "acked A j T' k"
            using acks_by_acked [OF by_i, of j T' k] j(2) upd by auto
        qed
        with j show ?thesis by simp
      qed
      moreover have "0 \<le> T"
        using commit_invD(4) [OF inv c(1)] c(3) by (simp add: node_commit_def)
      ultimately show ?thesis using Q(1) unfolding led_def by blast
    qed
  qed
  moreover have "ballot_terms n s' e'"
    unfolding ballot_terms_def
  proof (intro allI impI)
    fix j T c assume b: "(j, T, c) \<in> ballots e'"
    show "c \<in> members n \<and> T \<le> ?ct' c"
    proof (cases "(j, T, c) \<in> ballots e")
      case True
      then have "c \<in> members n \<and> T \<le> ?ct c"
        using commit_invD(3) [OF inv] unfolding ballot_terms_def by blast
      with ct_le [of c] show ?thesis by auto
    next
      case False
      with nb b have cast: "ballot_cast s s' j T c" by (auto simp: new_ballots_def)
      show ?thesis
      proof (cases "c = j")
        case True
        have "j \<in> members n" using einv' b unfolding election_inv_def ballots_past_def by blast
        with cast True show ?thesis by (auto simp: ballot_cast_def)
      next
        case False
        with cast obtain rd where rd: "rd \<in> set (rounds s)" "candidate_of rd = c"
          "rva_Term (rd_args rd) = T"
          by (auto simp: ballot_cast_def)
        have "round_sim e rd" using esim rd(1) by (simp add: election_sim_def)
        then have "(c, T, c) \<in> ballots e" using rd(2,3) by (simp add: round_sim_def Let_def)
        then have "c \<in> members n \<and> T \<le> ?ct c"
          using commit_invD(3) [OF inv] unfolding ballot_terms_def by blast
        with ct_le [of c] show ?thesis by auto
      qed
    qed
  qed
  moreover have "node_commit n A' L' j (nodes s' j)" if "j \<in> members n" for j
  proof (cases "j = i")
    case True
    with node upd show ?thesis by simp
  next
    case False
    have "node_commit n A' L' j (nodes s j)"
      using commit_invD(4) [OF inv that] sub ext ac
    proof (rule node_commit_frame)
      show "acked A j T k" if "acked A' j T k" for T k
        using acks_by_acked [OF by_i that] False by simp
    qed
    with False upd show ?thesis by simp
  qed
  moreover have "cand_ok e' A' L' j (nodes s' j)" if "j \<in> members n" for j
    using cand_ok_step [OF st inv linv esim einv' esim' upd mem ct kept nb ext by_i that] .
  ultimately show ?thesis using rounds calls by (simp add: commit_inv_def del: in_members)
qed

subsection \<open>The operations of a peer\<close>

lemma node_commit_quiet:
  assumes "node_commit n A L i rf" and "\<And>T k. acked A i T k \<Longrightarrow> T \<le> currentTerm rf"
    and "log rf' = log rf" "currentTerm rf \<le> currentTerm rf'" "commitIndex rf' = commitIndex rf"
    and "lastApplied rf' = lastApplied rf" "applyCh rf' = applyCh rf"
    and "myRole rf' = Leader \<Longrightarrow> myRole rf = Leader \<and> currentTerm rf' = currentTerm rf \<and>
      npeers rf' = npeers rf \<and> matchIndex rf' = matchIndex rf \<and> nextIndex rf' = nextIndex rf"
  shows "node_commit n A L i rf'"
proof -
  have "heeds A L i (log rf') (currentTerm rf')"
    using assms(1-4) heeds_mono [of A L i "log rf" "currentTerm rf" "currentTerm rf'"]
    by (simp add: node_commit_def)
  moreover have "commit_ok n A L (commitIndex rf') (log rf') (currentTerm rf')"
  proof -
    have "commit_ok n A L (commitIndex rf) (log rf) (currentTerm rf)"
      using assms(1) by (simp add: node_commit_def)
    then have "commit_ok n A L (commitIndex rf) (log rf) (currentTerm rf')"
      using order_refl extends_refl assms(4) by (rule commit_ok_mono)
    then show ?thesis by (simp add: assms(3,5))
  qed
  moreover have "leader_ok A i rf'" if "myRole rf' = Leader"
    using assms(1,3,8) that by (auto simp: node_commit_def leader_ok_def)
  ultimately show ?thesis
    using assms(1,3-7) by (auto simp: node_commit_def delivered_def)
qed

lemma node_commit_reset:
  assumes "node_commit n A L i rf" and "log rf' = log rf" "currentTerm rf' = currentTerm rf"
    and "commitIndex rf' = 0" "lastApplied rf' = 0" "applyCh rf' = []" "myRole rf' = Follower"
  shows "node_commit n A L i rf'"
  using assms by (simp add: node_commit_def delivered_def)

lemma entry_msgs_prefix:
  assumes "take (nat c) l = take (nat c) l'"
  shows "map (entry_msg l) [1..c] = map (entry_msg l') [1..c]"
proof (rule map_cong [OF refl])
  fix k assume "k \<in> set [1..c]"
  then have "nat (k - 1) < nat c" by auto
  then have "l ! nat (k - 1) = l' ! nat (k - 1)" using assms by (rule take_eq_imp_nth [rotated])
  then show "entry_msg l k = entry_msg l' k" by (simp add: entry_msg_def)
qed

text \<open>Accepting entries.\<close>

lemma merged_carries:
  assumes "log_ok L l" and "log_ok L m" and "L (aea_Term a) = Some m" and "args_ok L a"
    and "prev_matches a l" and "carries L T k l" and "carries L T k m"
  shows "carries L T k (merged_log a l)"
proof -
  have eq: "take k l = take k m" using assms(6,7) by (auto simp: carries_def)
  from merged_log_matches(2) [OF assms(1-5)] show ?thesis
  proof
    assume "merged_log a l = l"
    with assms(6) show ?thesis by simp
  next
    assume *: "merged_log a l = take (reach a) m \<and> take (reach a) l \<noteq> take (reach a) m"
    then have "k \<le> reach a" using take_eq_imp_take_le [OF eq] by (meson nat_le_linear)
    with * assms(7) show ?thesis by (auto simp: carries_def)
  qed
qed

lemma heeds_merged:
  assumes "log_ok L l" and "log_ok L m" and "L (aea_Term a) = Some m" and "args_ok L a"
    and "prev_matches a l" and "heeds A L i l ct" and "ct \<le> aea_Term a"
    and "\<And>T k. acked A i T k \<Longrightarrow> T \<le> ct"
  shows "heeds (insert (i, aea_Term a, reach a) A) L i (merged_log a l) (aea_Term a)"
  unfolding heeds_def
proof (intro allI impI)
  let ?l = "merged_log a l"
  fix T k assume *: "T \<le> aea_Term a" "acked (insert (i, aea_Term a, reach a) A) i T k" "owned L T k"
  have merged: "take (reach a) ?l = take (reach a) m" "reach a \<le> length m"
    using merged_log_matches(1,3) [OF assms(1-5)] by simp_all
  from *(2) consider "T = aea_Term a" "k \<le> reach a" | "acked A i T k" by (auto simp: acked_insert)
  then show "safe_at L T k ?l (aea_Term a)"
  proof cases
    case 1
    have "carries L T k m" using 1 assms(3) merged(2) by (auto simp: carries_def)
    moreover have "take k m = take k ?l" using take_eq_imp_take_le [OF merged(1) 1(2)] by simp
    moreover have "k \<le> length ?l"
      using take_eq_length [OF merged(1)] merged(2) 1(2) by linarith
    ultimately show ?thesis unfolding safe_at_def using carries_prefix by blast
  next
    case 2
    then have "T \<le> ct" by (rule assms(8))
    with assms(6) 2 *(3) have "safe_at L T k l ct" by (simp add: heeds_def)
    then consider "carries L T k l" | T' where "T < T'" "T' \<le> ct" "lost_by L T k T'"
      by (auto simp: safe_at_def)
    then show ?thesis
    proof cases
      case 1
      show ?thesis
      proof (cases "carries L T k m")
        case True
        with merged_carries [OF assms(1-5) 1] show ?thesis by (simp add: safe_at_def)
      next
        case False
        then have "T \<noteq> aea_Term a" using assms(3) *(3) by (auto simp: carries_def owned_def)
        then have "T < aea_Term a" using *(1) by simp
        with False assms(3) show ?thesis unfolding safe_at_def lost_by_def by blast
      qed
    next
      case 2
      with assms(7) show ?thesis by (auto simp: safe_at_def)
    qed
  qed
qed

lemma commit_ok_merged:
  assumes "log_ok L l" and "log_ok L m" and "L (aea_Term a) = Some m" and "args_ok L a"
    and "prev_matches a l" and "acks_ok n A L ct" and "leads_ok n A L ct"
    and "commit_ok n A L c l b" and "b \<le> aea_Term a"
  shows "commit_ok n A L c (merged_log a l) (aea_Term a)"
    and "take (nat c) (merged_log a l) = take (nat c) l"
proof -
  show ok: "commit_ok n A L c (merged_log a l) (aea_Term a)"
  proof (cases "0 < c")
    case False
    with assms(8) show ?thesis by (auto simp: commit_ok_def)
  next
    case True
    with assms(8) obtain T k where T: "committed n A L T k" "T \<le> b" "nat c \<le> k" "carries L T (nat c) l"
      by (auto simp: commit_ok_def)
    have "carries L T k m"
      using committed_carried_le [OF assms(6,7) T(1) assms(3)] T(2) assms(9) by simp
    then have "carries L T (nat c) m" using T(3) by (rule carries_le)
    with merged_carries [OF assms(1-5) T(4)] have car: "carries L T (nat c) (merged_log a l)" .
    then have "c \<le> len (merged_log a l)" using True by (auto simp: carries_def)
    moreover have "T \<le> aea_Term a" using T(2) assms(9) by simp
    ultimately show ?thesis using T(1,3) car True unfolding commit_ok_def by auto
  qed
  show "take (nat c) (merged_log a l) = take (nat c) l"
    using commit_ok_agree [OF assms(6,7) ok assms(8) order_refl] .
qed

lemma node_commit_accept:
  assumes node: "node_commit n A L i rf" and ac: "acks_ok n A L ct" and le: "leads_ok n A L ct"
    and lo: "logs_ok e L" and nlo: "node_log_ok L rf" and a: "args_ok L a"
    and prev: "prev_matches a (log rf)" and Ta: "currentTerm rf \<le> aea_Term a"
    and role: "myRole (recognise_leader now a rf) = Follower"
    and i_ct: "ct i = currentTerm rf"
    and m: "L (aea_Term a) = Some m"
    and lc: "commit_ok n A L (aea_LeaderCommit a) (take (reach a) m) (aea_Term a)"
  shows "node_commit n (insert (i, aea_Term a, reach a) A) L i (after_install a (recognise_leader now a rf))"
proof -
  let ?A = "insert (i, aea_Term a, reach a) A" and ?rf = "after_install a (recognise_leader now a rf)"
  let ?l = "merged_log a (log rf)" and ?c = "commitIndex rf"
  have okl: "log_ok L (log rf)" using nlo by (simp add: node_log_ok_def)
  have okm: "log_ok L m" using lo m by (simp add: logs_ok_def)
  have term_i: "T \<le> currentTerm rf" if "acked A i T k" for T k
    using acks_ok_acked [OF ac that] i_ct by metis
  from node have heeds: "heeds A L i (log rf) (currentTerm rf)"
    and com: "commit_ok n A L ?c (log rf) (currentTerm rf)" and del: "delivered rf"
    and nonneg: "0 \<le> currentTerm rf"
    by (simp_all add: node_commit_def)
  have ct': "currentTerm ?rf = aea_Term a" using recognise_leader_state(1) [OF Ta] by simp
  have "heeds ?A L i ?l (aea_Term a)"
    using heeds_merged [OF okl okm m a prev heeds Ta term_i] .
  moreover
  have old: "commit_ok n A L ?c ?l (aea_Term a)" and same: "take (nat ?c) ?l = take (nat ?c) (log rf)"
    using commit_ok_merged [OF okl okm m a prev ac le com Ta] .
  have reach_l: "take (reach a) ?l = take (reach a) m" "reach a \<le> length ?l"
    using merged_log_matches(1,3) [OF okl okm m a prev]
      take_eq_length [OF merged_log_matches(1) [OF okl okm m a prev]] by auto
  have lc_l: "aea_LeaderCommit a \<le> len ?l" and new: "commit_ok n A L (aea_LeaderCommit a) ?l (aea_Term a)"
  proof -
    have lc_le: "aea_LeaderCommit a \<le> int (reach a)" using lc by (auto simp: commit_ok_def)
    then show "aea_LeaderCommit a \<le> len ?l" using reach_l(2) by linarith
    moreover have "carries L T (nat (aea_LeaderCommit a)) ?l"
      if "carries L T (nat (aea_LeaderCommit a)) (take (reach a) m)" for T
    proof (rule carries_prefix [OF that])
      show "take (nat (aea_LeaderCommit a)) (take (reach a) m) = take (nat (aea_LeaderCommit a)) ?l"
        using lc_le reach_l(1) by (metis take_eq_imp_take_le nat_le_iff take_take min.idem)
      show "nat (aea_LeaderCommit a) \<le> length ?l" using lc_le reach_l(2) by linarith
    qed
    ultimately show "commit_ok n A L (aea_LeaderCommit a) ?l (aea_Term a)"
      using lc unfolding commit_ok_def by blast
  qed
  have ci: "commitIndex ?rf = (if aea_LeaderCommit a > ?c then aea_LeaderCommit a else ?c)"
    using lc_l by (simp add: follower_commit_def min_def)
  have "commit_ok n ?A L (commitIndex ?rf) ?l (aea_Term a)"
    unfolding ci using old new by (simp add: commit_ok_insert)
  moreover have "delivered ?rf"
  proof -
    have pre: "applyCh rf = map (entry_msg ?l) [1..?c]" "lastApplied rf = ?c"
      using del entry_msgs_prefix [OF same] by (simp_all add: delivered_def)
    have "0 \<le> ?c" using com by (simp add: commit_ok_def)
    then show ?thesis
      using pre lc_l upto_append [of 1 ?c "aea_LeaderCommit a"]
      by (auto simp: delivered_def lastApplied_after_install follower_commit_def min_def max_def
          simp flip: map_append)
  qed
  ultimately show ?thesis using role ct' nonneg Ta by (simp add: node_commit_def)
qed


text \<open>Becoming the leader, taking a command.\<close>

lemma node_commit_elected:
  assumes node: "node_commit n A L i rf" and nlo: "node_log_ok L rf" and cand: "myRole rf = Candidate"
    and conv: "convertToLeader rf = Some rf0" and me: "me rf = i"
    and own: "L (currentTerm rf) = Some (log rf)"
  shows "node_commit n (insert (i, currentTerm rf, length (log rf)) A) L i
     (rf0\<lparr>voteSuccessCh := x\<rparr>)"
proof -
  let ?A = "insert (i, currentTerm rf, length (log rf)) A" and ?rf = "rf0\<lparr>voteSuccessCh := x\<rparr>"
  from conv have mem: "0 \<le> i" "i < npeers rf" and same: "currentTerm rf0 = currentTerm rf"
    "log rf0 = log rf" "commitIndex rf0 = commitIndex rf" "lastApplied rf0 = lastApplied rf"
    "applyCh rf0 = applyCh rf" "npeers rf0 = npeers rf"
    and tabs: "nextIndex rf0 = replicate (nat (npeers rf)) (len (log rf) + 1)"
      "matchIndex rf0 = (replicate (nat (npeers rf)) 0)[nat i := len (log rf)]"
    using me by (auto elim!: convertToLeader_SomeE)
  have heeds: "heeds ?A L i (log rf) (currentTerm rf)"
    unfolding heeds_def
  proof (intro allI impI)
    fix T k assume *: "T \<le> currentTerm rf" "acked ?A i T k" "owned L T k"
    then consider "acked A i T k" | "T = currentTerm rf" "k \<le> length (log rf)"
      by (auto simp: acked_insert)
    then show "safe_at L T k (log rf) (currentTerm rf)"
    proof cases
      case 1
      with node * show ?thesis by (simp add: node_commit_def heeds_def)
    next
      case 2
      with own show ?thesis by (simp add: safe_at_def carries_def)
    qed
  qed
  have low: "Term (log rf ! k) < currentTerm rf" if "k < length (log rf)" for k
    using nlo cand that by (simp add: node_log_ok_def)
  have leader: "leader_ok ?A i ?rf"
    using mem low
    by (auto simp: leader_ok_def same tabs acked_insert nth_list_update)
  have "commit_ok n ?A L (commitIndex rf) (log rf) (currentTerm rf)"
    using node by (simp add: node_commit_def commit_ok_insert)
  with heeds leader node show ?thesis by (simp add: node_commit_def same delivered_def)
qed

lemma node_commit_Start:
  assumes node: "node_commit n A L i rf" and lead: "myRole rf = Leader"
    and rf': "rf' = snd (Start cmd rf)" and own: "L (currentTerm rf) = Some (log rf')"
  shows "node_commit n (insert (i, currentTerm rf, length (log rf')) A) L i rf'"
proof -
  let ?A = "insert (i, currentTerm rf, length (log rf')) A"
  have log': "log rf' = log rf @ [\<lparr>Command = cmd, Term = currentTerm rf\<rparr>]"
    using lead by (simp add: rf' Start_log)
  have heeds: "heeds ?A L i (log rf') (currentTerm rf)"
    unfolding heeds_def
  proof (intro allI impI)
    fix T k assume *: "T \<le> currentTerm rf" "acked ?A i T k" "owned L T k"
    then consider "acked A i T k" | "T = currentTerm rf" "k \<le> length (log rf')"
      by (auto simp: acked_insert)
    then show "safe_at L T k (log rf') (currentTerm rf)"
    proof cases
      case 1
      have "heeds A L i (log rf') (currentTerm rf)"
        using node by (simp add: node_commit_def log' heeds_append)
      with 1 * show ?thesis by (simp add: heeds_def)
    next
      case 2
      with own show ?thesis by (simp add: safe_at_def carries_def)
    qed
  qed
  have ci: "commit_ok n A L (commitIndex rf) (log rf) (currentTerm rf)"
    using node by (simp add: node_commit_def)
  then have "commit_ok n ?A L (commitIndex rf) (log rf) (currentTerm rf)"
    by (rule commit_ok_insert)
  then have com: "commit_ok n ?A L (commitIndex rf) (log rf') (currentTerm rf)"
    unfolding log' by (rule commit_ok_append)
  have "map (entry_msg (log rf)) [1..commitIndex rf] = map (entry_msg (log rf')) [1..commitIndex rf]"
    using ci by (intro entry_msgs_prefix) (auto simp: log' commit_ok_def)
  then have "delivered rf'" using node by (simp add: node_commit_def delivered_def rf')
  moreover have "leader_ok ?A i rf'"
    using node lead
    by (auto simp: node_commit_def leader_ok_def rf' Start_log acked_insert nth_append)
  ultimately show ?thesis using heeds com node lead by (simp add: node_commit_def rf')
qed

text \<open>An answer to a replication call.\<close>

lemma node_commit_ack:
  assumes node: "node_commit n A L i rf" and lead: "myRole rf = Leader" and own: "L (currentTerm rf) = Some (log rf)"
    and np: "npeers rf = n" and mem: "i \<in> members n" and p: "p \<in> members n" "p \<noteq> i"
    and tab: "tables_ok rf" and r: "acked A p (currentTerm rf) r" "r \<le> length (log rf)"
    and c: "c = commitIndex rf \<or> commitIndex rf < c \<and> c \<le> len (log rf) \<and>
       may_commit (rf\<lparr>matchIndex := (matchIndex rf)[nat p := int r]\<rparr>) c"
  shows "node_commit n A L i (after_ack p (int r) c rf)"
proof -
  let ?rf = "after_ack p (int r) c rf" and ?T = "currentTerm rf"
  let ?mi = "(matchIndex rf)[nat p := int r]"
  have lo: "leader_ok A i rf" using node lead by (simp add: node_commit_def)
  have lens: "length (matchIndex rf) = nat n" "length (nextIndex rf) = nat n"
    using tab np by (auto simp: tables_ok_def)
  have upd: "?mi ! nat q = (if q = p then int r else matchIndex rf ! nat q)"
    "(nextIndex rf)[nat p := int r + 1] ! nat q = (if q = p then int r + 1 else nextIndex rf ! nat q)"
    if "q \<in> members n" for q
    using that p lens by (auto simp: nth_list_update)
  have acks: "acked A q ?T (nat (?mi ! nat q))" if "q \<in> members n" "q \<noteq> i" "0 < ?mi ! nat q" for q
    using that lo r(1) upd(1) [of q] np by (auto simp: leader_ok_def simp del: in_members split: if_splits)
  have lo': "leader_ok A i ?rf"
    using lo acks upd p(2) mem np r(2) by (auto simp: leader_ok_def simp del: in_members)
  have com0: "commit_ok n A L (commitIndex rf) (log rf) ?T"
    using node by (simp add: node_commit_def)
  then have c0: "0 \<le> commitIndex rf" by (simp add: commit_ok_def)
  have com: "commit_ok n A L c (log rf) ?T"
  proof (cases "c = commitIndex rf")
    case True
    with com0 show ?thesis by simp
  next
    case False
    with c have c': "commitIndex rf < c" "c \<le> len (log rf)" "Term (log rf ! nat (c - 1)) = ?T"
      "n < 2 * (1 + int (card (replicated (rf\<lparr>matchIndex := ?mi\<rparr>) c)))"
      by (auto simp: may_commit_def np)
    define S where "S = replicated (rf\<lparr>matchIndex := ?mi\<rparr>) c"
    have S: "S \<subseteq> members n" "\<And>q. q \<in> S \<Longrightarrow> c \<le> ?mi ! nat q"
      by (auto simp: S_def replicated_def np)
    have "i \<notin> S"
    proof
      assume "i \<in> S"
      then have "c \<le> matchIndex rf ! nat i" using S(2) upd(1) [OF mem] p(2) by fastforce
      then have "int (nat (c - 1)) < matchIndex rf ! nat i" using c'(1) c0 by linarith
      then have "Term (log rf ! nat (c - 1)) < ?T" using lo by (auto simp: leader_ok_def)
      with c'(3) show False by simp
    qed
    have fin: "finite S" using S(1) finite_subset [OF _ finite_members] by blast
    have "majority n (insert i S)"
      using S(1) mem c'(4) \<open>i \<notin> S\<close> fin by (auto simp: majority_def S_def [symmetric])
    moreover have "acked A q ?T (nat c)" if "q \<in> insert i S" for q
    proof (cases "q = i")
      case True
      have "acked A i ?T (length (log rf))" using lo by (simp add: leader_ok_def)
      with True c'(2) acked_le show ?thesis by fastforce
    next
      case False
      with that have q: "q \<in> S" by simp
      then have "c \<le> ?mi ! nat q" by (rule S(2))
      moreover have "acked A q ?T (nat (?mi ! nat q))"
        using q S(1) False c'(1) c0 calculation by (intro acks) auto
      ultimately show ?thesis using acked_le nat_mono by blast
    qed
    moreover have "owned L ?T (nat c)"
      using own c' c0 by (auto simp: owned_def nat_diff_distrib)
    ultimately have "committed n A L ?T (nat c)" unfolding committed_def by blast
    moreover have "carries L ?T (nat c) (log rf)" using own c'(2) by (simp add: carries_self)
    ultimately show ?thesis using c'(1,2) c0 unfolding commit_ok_def by auto
  qed
  have "commitIndex rf \<le> c" using c by auto
  then have "delivered ?rf"
    using node c0 upto_append [of 1 "commitIndex rf" c]
    by (auto simp: node_commit_def delivered_def after_ack_def max_def simp flip: map_append)
  with com lo' node lead show ?thesis by (simp add: node_commit_def)
qed

lemma backoff_index_bounds:
  assumes "backoff_index reply lg = Some k" and "1 \<le> aer_ConflictIndex reply"
    and "aer_ConflictIndex reply \<le> len lg + 1"
  shows "1 \<le> k \<and> k \<le> len lg + 1"
proof (cases "aer_ConflictTerm reply \<le> 0")
  case True
  with assms show ?thesis by (simp add: backoff_index_def)
next
  case False
  with assms(1) have "find_next_index (aer_ConflictTerm reply) (aer_ConflictIndex reply) 1 False lg = Some k"
    by (simp add: backoff_index_def)
  from find_next_index_Some [OF this] assms(2,3) show ?thesis by (auto split: if_splits)
qed

lemma node_commit_backoff:
  assumes node: "node_commit n A L i rf" and lead: "myRole rf = Leader" and np: "npeers rf = n"
    and p: "p \<in> members n" and tab: "tables_ok rf"
    and ci: "1 \<le> aer_ConflictIndex reply" "aer_ConflictIndex reply \<le> len (log rf) + 1"
  shows "node_commit n A L i (after_backoff p reply rf)"
proof (cases "backoff_index reply (log rf)")
  case None
  with node show ?thesis by (simp add: after_backoff_def)
next
  case (Some k)
  then have k: "1 \<le> k" "k \<le> len (log rf) + 1" using backoff_index_bounds ci by blast+
  have len: "length (nextIndex rf) = nat n" using tab np by (auto simp: tables_ok_def)
  have "1 \<le> (nextIndex rf)[nat p := k] ! nat q \<and> (nextIndex rf)[nat p := k] ! nat q \<le> len (log rf) + 1"
    if "q \<in> members n" for q
    using that node lead p k len np by (auto simp: node_commit_def leader_ok_def nth_list_update)
  then have "leader_ok A i (after_backoff p reply rf)"
    using node lead np Some by (simp add: node_commit_def leader_ok_def after_backoff_def del: in_members)
  with node lead Some show ?thesis
    by (simp add: node_commit_def delivered_def after_backoff_def)
qed


subsection \<open>Calls\<close>

lemma call_commit_send:
  assumes "node_commit n A L i rf" and "L (currentTerm rf) = Some (log rf)"
    and "1 \<le> ni" "ni \<le> len (log rf) + 1"
    and "ac_args c = append_args rf ni" "ac_status c = AE_Sent"
  shows "call_commit n A L c"
proof -
  have "reach (append_args rf ni) = length (log rf)"
    using append_args_reach [OF assms(3,4)] assms(3) by (auto simp: append_args_def)
  with assms show ?thesis
    by (simp add: call_commit_def Let_def node_commit_def) (simp add: append_args_def)
qed

lemma call_commit_replied:
  assumes "call_commit n A L c" and "A \<subseteq> A'" and "c' = c\<lparr>ac_status := AE_Replied reply\<rparr>"
    and "if aer_Success reply then acked A' (ac_dst c) (aea_Term (ac_args c)) (reach (ac_args c))
         else aea_Term (ac_args c) < aer_Term reply \<or>
              1 \<le> aer_ConflictIndex reply \<and> aer_ConflictIndex reply \<le> aea_PrevLogIndex (ac_args c)"
  shows "call_commit n A' L c'"
  using call_commit_frame [OF assms(1,2) extends_refl] assms(3,4)
  by (simp add: call_commit_def Let_def)

lemma conflict_reply_fails [simp]: "\<not> aer_Success (conflict_reply a lg)"
  by (simp add: conflict_reply_def Let_def)

lemma conflict_reply_bounds:
  assumes "\<not> prev_matches a lg" and "0 \<le> aea_PrevLogIndex a"
  shows "1 \<le> aer_ConflictIndex (conflict_reply a lg)"
    and "aer_ConflictIndex (conflict_reply a lg) \<le> aea_PrevLogIndex a"
proof -
  let ?p = "aea_PrevLogIndex a"
  have "1 \<le> aer_ConflictIndex (conflict_reply a lg) \<and> aer_ConflictIndex (conflict_reply a lg) \<le> ?p"
  proof (cases "len lg < ?p")
    case True
    then show ?thesis by (simp add: conflict_reply_def)
  next
    case False
    with assms have p: "0 < ?p" "?p \<le> len lg" by (auto simp: prev_matches_def)
    let ?ct = "Term (lg ! nat (?p - 1))"
    have "nat (?p - 1) < length lg" using p by simp
    then have "\<exists>q < length lg. find_conflict_index ?ct 1 lg = 1 + int q \<and> (\<forall>r < q. Term (lg ! r) \<noteq> ?ct)"
      using find_conflict_index_bounds [of ?ct 1 lg] nth_mem by blast
    then obtain q where q: "find_conflict_index ?ct 1 lg = 1 + int q" "\<forall>r < q. Term (lg ! r) \<noteq> ?ct"
      by blast
    have "\<not> nat (?p - 1) < q" using q(2) by blast
    then have "1 + int q \<le> ?p" using p by linarith
    with q(1) False show ?thesis by (simp add: conflict_reply_def Let_def)
  qed
  then show "1 \<le> aer_ConflictIndex (conflict_reply a lg)"
    "aer_ConflictIndex (conflict_reply a lg) \<le> ?p" by simp_all
qed

subsection \<open>The cluster\<close>

lemma round_match_keep:
  assumes inv: "commit_inv n s e L A" and esim: "election_sim n s e"
    and upd: "nodes s' = (nodes s)(i := rf)" and kept: "candidacy_kept (nodes s i) rf"
    and rd: "rd \<in> set (rounds s)" and same: "rd_args rd' = rd_args rd"
  shows "round_match s' rd'"
proof -
  have "round_sim e rd" using esim rd by (simp add: election_sim_def)
  then have "(candidate_of rd, rva_Term (rd_args rd), candidate_of rd) \<in> ballots e"
    by (simp add: round_sim_def Let_def)
  then have "rva_Term (rd_args rd) \<le> currentTerm (nodes s (candidate_of rd))"
    using commit_invD(3) [OF inv] unfolding ballot_terms_def by blast
  with round_match_step [OF commit_invD(6) [OF inv rd] upd kept _ same] show ?thesis .
qed

text \<open>Rounds of the new state that are rounds of the old one, up to the replies collected.\<close>

definition rounds_from :: "'c cluster \<Rightarrow> 'c cluster \<Rightarrow> bool" where
  "rounds_from s s' \<longleftrightarrow> (\<forall>rd \<in> set (rounds s'). \<exists>rd0 \<in> set (rounds s). rd_args rd = rd_args rd0)"

lemma rounds_from_same: "rounds s' = rounds s \<Longrightarrow> rounds_from s s'"
  by (auto simp: rounds_from_def)

lemma rounds_from_set:
  assumes "rounds s' = (rounds s)[k := rd]" and "k < length (rounds s)"
    and "rd_args rd = rd_args (rounds s ! k)"
  shows "rounds_from s s'"
proof -
  have "set (rounds s') \<subseteq> insert rd (set (rounds s))"
    using assms(1) set_update_subset_insert by metis
  moreover have "rounds s ! k \<in> set (rounds s)" using assms(2) by simp
  ultimately show ?thesis using assms(3) unfolding rounds_from_def by blast
qed

lemma calls_set:
  assumes "\<And>c. c \<in> set cs \<Longrightarrow> P c" and "P c'" and "c \<in> set (cs[k := c'])"
  shows "P c"
  using assms set_update_subset_insert [of cs k c'] by blast

lemma leader_log:
  "log_inv n s e L \<Longrightarrow> i \<in> members n \<Longrightarrow> myRole (nodes s i) = Leader \<Longrightarrow>
   L (currentTerm (nodes s i)) = Some (log (nodes s i))"
  using log_invD(2) [of n s e L i] by (simp add: node_log_ok_def)

lemma cluster_step_commit:
  assumes "cluster_step s s'" and st: "static_inv s" and n: "csize s = n"
    and einv: "election_inv n e" and esim: "election_sim n s e"
    and einv': "election_inv n e'" and esim': "election_sim n s' e'" and nb: "new_ballots s s' e e'"
    and linv: "log_inv n s e L" and linv': "log_inv n s' e' L'" and ext: "extends L L'"
    and brn: "born n s s' L L'" and inv: "commit_inv n s e L A"
  shows "\<exists>A'. commit_inv n s' e' L' A' \<and> A \<subseteq> A'"
proof -
  note mem_del = in_members [simp del]
  have ac: "acks_ok n A L (\<lambda>j. currentTerm (nodes s j))" using inv by (rule commit_invD(1))
  have acked_term: "T \<le> currentTerm (nodes s j)" if "acked A j T k" for j T k
    using acks_ok_acked [OF ac that] by metis
  have ok: "peer_ok (nodes s i)" "npeers (nodes s i) = n" "me (nodes s i) = i"
    if "i \<in> members n" for i
    using static_invD(1-3) [OF st, of i] that n by auto
  have node0: "node_commit n A L' i (nodes s i)" if "i \<in> members n" for i
    using commit_invD(4) [OF inv that] order_refl ext ac by (rule node_commit_frame)
  have calls0: "call_commit n A' L' c" if "c \<in> set (calls s)" "A \<subseteq> A'" for c A'
    using commit_invD(7) [OF inv that(1)] that(2) ext by (rule call_commit_frame)
  have lead0: "L' (currentTerm (nodes s' i)) = Some (log (nodes s' i))"
    if "i \<in> members n" "myRole (nodes s' i) = Leader" for i
    using leader_log [OF linv' that] .
  have main: "commit_inv n s' e' L' A'"
    if "nodes s' = (nodes s)(i := rf)" "i \<in> members n"
      "currentTerm (nodes s i) \<le> currentTerm rf" "candidacy_kept (nodes s i) rf"
      "acks_by i rf L' A A'" "node_commit n A' L' i rf" "rounds_from s s'"
      "\<And>c. c \<in> set (calls s') \<Longrightarrow> call_commit n A' L' c" for i rf A'
  proof (rule commit_inv_step [OF st n inv linv esim einv' esim' that(1-4) nb ext brn that(5,6) _ that(8)])
    fix rd assume "rd \<in> set (rounds s')"
    with that(7) obtain rd0 where "rd0 \<in> set (rounds s)" "rd_args rd = rd_args rd0"
      unfolding rounds_from_def by blast
    then show "round_match s' rd" by (rule round_match_keep [OF inv esim that(1,4)])
  qed
  have quiet: ?thesis
    if "nodes s' = (nodes s)(i := rf)" "i \<in> members n" "log rf = log (nodes s i)"
      "currentTerm (nodes s i) \<le> currentTerm rf" "commitIndex rf = commitIndex (nodes s i)"
      "lastApplied rf = lastApplied (nodes s i)" "applyCh rf = applyCh (nodes s i)"
      "myRole rf = Leader \<Longrightarrow> myRole (nodes s i) = Leader \<and> currentTerm rf = currentTerm (nodes s i) \<and>
         npeers rf = npeers (nodes s i) \<and> matchIndex rf = matchIndex (nodes s i) \<and>
         nextIndex rf = nextIndex (nodes s i)"
      "candidacy_kept (nodes s i) rf" "rounds_from s s'"
      "\<And>c. c \<in> set (calls s') \<Longrightarrow> call_commit n A L' c" for i rf
  proof -
    have "node_commit n A L' i rf"
      using node0 [OF that(2)] acked_term that(3-8) by (rule node_commit_quiet)
    with main [OF that(1,2,4,9) acks_by_refl _ that(10,11)] show ?thesis by blast
  qed
  from assms(1) show ?thesis
  proof (cases rule: cluster_step.cases)
    case (timeout i now r)
    with n show ?thesis
      by (intro quiet [of i "convertToCandidate now r (nodes s i)"])
        (auto simp: candidacy_kept_def rounds_from_same calls0)
  next
    case (voting i args ps)
    have i: "i \<in> members n" using voting(2) n by simp
    have args: "rva_Term args = currentTerm (nodes s i)" "rva_CandidateId args = i"
      "rva_LastLogIndex args = len (log (nodes s i))" "rva_LastLogTerm args = last_term (log (nodes s i))"
      using voting(3) ok(3) [OF i] by (auto simp: startVoting_def Let_def last_term_def split: if_splits)
    have "commit_inv n s' e' L' A"
    proof (rule commit_inv_step [OF st n inv linv esim einv' esim' _ i order_refl _ nb ext brn acks_by_refl node0 [OF i]])
      show "nodes s' = (nodes s)(i := nodes s i)" by (simp add: voting(1))
      show "candidacy_kept (nodes s i) (nodes s i)" by (simp add: candidacy_kept_def)
      show "call_commit n A L' c" if "c \<in> set (calls s')" for c
        using that voting(1) by (simp add: calls0)
      fix rd assume "rd \<in> set (rounds s')"
      then consider "rd \<in> set (rounds s)" | "rd_args rd = args"
        by (auto simp: voting(1) new_round_def)
      then show "round_match s' rd"
      proof cases
        case 1
        then show ?thesis
          using commit_invD(6) [OF inv 1] by (simp add: round_match_def voting(1))
      next
        case 2
        with args show ?thesis by (simp add: round_match_def voting(1))
      qed
    qed
    then show ?thesis by blast
  next
    case (vote_request k rd j now reply rf')
    have j: "j \<in> members n"
      using static_invD(4) [OF st vote_request(2)] vote_request(3,4) n by (auto simp: round_ok_def)
    have rf': "rf' = snd (RequestVote now (rd_args rd) (nodes s j))"
      using vote_request(5) by simp
    have "rounds_from s s'"
      using vote_request(1-3) by (intro rounds_from_set [of s' s k "answer j (RV_Replied reply) rd"]) auto
    then show ?thesis
      using vote_request(1) j
      by (intro quiet [of j rf'])
        (auto simp: rf' RequestVote_state candidacy_kept_def calls0 split: if_splits)
  next
    case (vote_reply k rd j reply rf' v)
    let ?c = "candidate_of rd"
    have c: "?c \<in> members n"
      using static_invD(4) [OF st vote_reply(2)] vote_reply(3) n by (auto simp: round_ok_def)
    have rds: "rounds_from s s'"
      using vote_reply(1-3)
      by (intro rounds_from_set [of s' s k "answer j RV_Done (rd\<lparr>rd_votes := v\<rparr>)"]) auto
    have nd: "nodes s' = (nodes s)(?c := rf')" and cs: "calls s' = calls s"
      by (simp_all add: vote_reply(1))
    from vote_reply(6) show ?thesis
    proof (cases rule: handleVoteReply_cases)
      case (elected rf0)
      let ?A = "insert (?c, currentTerm (nodes s ?c), length (log (nodes s ?c))) A"
      have rf': "log rf' = log (nodes s ?c)" "currentTerm rf' = currentTerm (nodes s ?c)" "myRole rf' = Leader"
        using elected(5,6) by (auto elim!: convertToLeader_SomeE)
      have own: "L' (currentTerm (nodes s ?c)) = Some (log (nodes s ?c))"
        using lead0 [OF c] rf' nd by simp
      have nlo: "node_log_ok L (nodes s ?c)" using linv c by (rule log_invD(2))
      then have "log_ok L' (log (nodes s ?c))" using ext log_ok_extends by (auto simp: node_log_ok_def)
      with nlo elected(2) have "node_log_ok L' (nodes s ?c)" by (simp add: node_log_ok_def)
      then have "node_commit n ?A L' ?c rf'"
        using node_commit_elected [OF node0 [OF c] _ elected(2,5) ok(3) [OF c] own] elected(6) by simp
      moreover have "acks_by ?c rf' L' A ?A" using own rf' by (auto simp: acks_by_def)
      ultimately have "commit_inv n s' e' L' ?A"
        using rds rf' cs by (intro main [OF nd c]) (auto simp: candidacy_kept_def calls0 subset_insertI)
      then show ?thesis by blast
    qed (use nd c rds cs in \<open>(intro quiet [OF nd c]; auto simp: candidacy_kept_def calls0)+\<close>)
  next
    case (append_send i j args)
    have i: "i \<in> members n" using append_send(2) n by simp
    from append_send(4) obtain ni where lead: "myRole (nodes s i) = Leader"
      and ni: "1 \<le> ni" "ni \<le> len (log (nodes s i)) + 1" and args: "args = append_args (nodes s i) ni"
      by (rule sendAppend_SomeE)
    have own: "L' (currentTerm (nodes s i)) = Some (log (nodes s i))"
      using lead0 [OF i] lead append_send(1) by simp
    have new: "call_commit n A L' c" if "ac_args c = args" "ac_status c = AE_Sent" for c :: "'a ae_call"
      using call_commit_send [OF node0 [OF i] own ni] that args by simp
    have calls': "call_commit n A L' c" if "c \<in> set (calls s')" for c
      using that append_send(1) new calls0 by fastforce
    have "commit_inv n s' e' L' A"
      by (rule main [OF _ i order_refl _ acks_by_refl node0 [OF i] _ calls'])
        (auto simp: append_send(1) candidacy_kept_def rounds_from_def)
    then show ?thesis by blast
  next
    case (append_request k c now reply rf')
    let ?d = "ac_dst c" and ?a = "ac_args c" and ?c = "c\<lparr>ac_status := AE_Replied reply\<rparr>"
    have c_in: "c \<in> set (calls s)" using append_request(2,3) by simp
    have c: "call_ok n c" using static_invD(5) [OF st append_request(2)] append_request(3) n by simp
    then have d: "?d \<in> members n" "0 \<le> aea_PrevLogIndex ?a" by (auto simp: call_ok_def)
    have la: "0 \<le> lastApplied (nodes s ?d)" using ok(1) [OF d(1)] by (simp add: peer_okD)
    have nd: "nodes s' = (nodes s)(?d := rf')" and rds: "rounds_from s s'"
      and cs: "calls s' = (calls s)[k := ?c]"
      by (simp_all add: append_request(1) rounds_from_same)
    have calls': "call_commit n A' L' x" if "x \<in> set (calls s')" "A \<subseteq> A'"
      "if aer_Success reply then acked A' ?d (aea_Term ?a) (reach ?a)
       else aea_Term ?a < aer_Term reply \<or>
         1 \<le> aer_ConflictIndex reply \<and> aer_ConflictIndex reply \<le> aea_PrevLogIndex ?a" for A' x
    proof (rule calls_set [of "calls s" "call_commit n A' L'"])
      show "call_commit n A' L' ?c"
        using call_commit_replied [OF calls0 [OF c_in order_refl] that(2) refl that(3)] .
    qed (use that cs calls0 in auto)
    from append_request(5) d(2) la show ?thesis
    proof (cases rule: AppendEntries_cases)
      case stale
      then show ?thesis
        using rds by (intro quiet [OF nd d(1)]) (auto simp: candidacy_kept_def intro!: calls')
    next
      case reject
      then show ?thesis
        using rds conflict_reply_bounds [OF reject(2) d(2)] recognise_leader_state [OF reject(1), of now]
        by (intro quiet [OF nd d(1)])
          (auto simp: candidacy_kept_def intro!: calls' split: if_splits)
    next
      case accept
      let ?A = "insert (?d, aea_Term ?a, reach ?a) A"
      have foll: "myRole (recognise_leader now ?a (nodes s ?d)) = Follower"
        using accepting_follower [OF esim append_request(2)] c append_request(3) accept(1) by simp
      obtain m where m: "L (aea_Term ?a) = Some m" "reach ?a \<le> length m"
        "commit_ok n A L (aea_LeaderCommit ?a) (take (reach ?a) m) (aea_Term ?a)"
        using commit_invD(7) [OF inv c_in] by (auto simp: call_commit_def Let_def)
      have a: "args_ok L ?a" using log_invD(3) [OF linv append_request(2)] append_request(3) by simp
      have new: "node_commit n ?A L ?d rf'"
        unfolding accept(3)
        using node_commit_accept [OF commit_invD(4) [OF inv d(1)] ac commit_invD(2) [OF inv]
            log_invD(1) [OF linv] log_invD(2) [OF linv d(1)] a accept(2,1) foll refl m(1,3)] .
      have ct': "currentTerm rf' = aea_Term ?a"
        using recognise_leader_state(1) [OF accept(1)] by (simp add: accept(3))
      have "acks_ok n ?A L (\<lambda>j. currentTerm (nodes s' j))"
        using ac extends_refl
        by (rule acks_ok_extend) (use accept(1) m d nd ct' in \<open>auto simp: mem_del\<close>)
      with new order_refl ext have new': "node_commit n ?A L' ?d rf'"
        by (rule node_commit_frame)
      obtain ys where "L' (aea_Term ?a) = Some (m @ ys)" using ext m(1) by (rule extends_SomeE)
      then have "acks_by ?d rf' L' A ?A" using m(2) ct' by (auto simp: acks_by_def)
      moreover have "candidacy_kept (nodes s ?d) rf'"
        using foll by (simp add: candidacy_kept_def accept(3))
      moreover have "call_commit n ?A L' x" if "x \<in> set (calls s')" for x
        using accept(4) by (intro calls' [OF that]) (auto simp: acked_insert)
      ultimately have "commit_inv n s' e' L' ?A"
        using main [OF nd d(1) _ _ _ new' rds] accept(1) ct' by simp
      then show ?thesis by blast
    qed
  next
    case (append_reply k c reply rf' again)
    let ?i = "ac_src c" and ?p = "ac_dst c" and ?a = "ac_args c" and ?c = "c\<lparr>ac_status := AE_Done\<rparr>"
    have c_in: "c \<in> set (calls s)" using append_reply(2,3) by simp
    have c: "call_ok n c" using static_invD(5) [OF st append_reply(2)] append_reply(3) n by simp
    then have i: "?i \<in> members n" and p: "?p \<in> members n" "?p \<noteq> ?i" and prev: "0 \<le> aea_PrevLogIndex ?a"
      by (auto simp: call_ok_def)
    have nd: "nodes s' = (nodes s)(?i := rf')" and rds: "rounds_from s s'"
      and cs: "calls s' = (calls s)[k := ?c]"
      by (simp_all add: append_reply(1) rounds_from_same)
    have cc: "call_commit n A L' c" using calls0 [OF c_in order_refl] .
    have calls': "call_commit n A L' x" if "x \<in> set (calls s')" for x
    proof (rule calls_set [of "calls s" "call_commit n A L'"])
      show "call_commit n A L' ?c" using cc by (simp add: call_commit_def Let_def)
    qed (use that cs calls0 in auto)
    have own: "L' (currentTerm (nodes s ?i)) = Some (log (nodes s ?i))"
      if "myRole rf' = Leader" "currentTerm rf' = currentTerm (nodes s ?i)" "log rf' = log (nodes s ?i)"
      using lead0 [OF i] nd that by simp
    obtain m where m: "L' (aea_Term ?a) = Some m" "reach ?a \<le> length m"
      using cc by (auto simp: call_commit_def Let_def)
    have bound: "?p < npeers (nodes s ?i)" "0 \<le> ?p" using p ok(2) [OF i] by (auto simp: in_members)
    from append_reply(6) peer_okD(6) [OF ok(1) [OF i]] bound(2,1) peer_okD(2,3) [OF ok(1) [OF i]]
    show ?thesis
    proof (cases rule: handleAppendReply_cases)
      case newer
      then show ?thesis
        using rds by (intro quiet [OF nd i]) (auto simp: candidacy_kept_def intro!: calls')
    next
      case ignored
      then show ?thesis
        using rds by (intro quiet [OF nd i]) (auto simp: candidacy_kept_def intro!: calls')
    next
      case (success q)
      have r: "int (reach ?a) = aea_PrevLogIndex ?a + len (aea_Entries ?a)" using prev by simp
      have own': "L' (currentTerm (nodes s ?i)) = Some (log (nodes s ?i))"
        using success(3) by (intro own) (simp_all add: success(6))
      have ack: "acked A ?p (currentTerm (nodes s ?i)) (reach ?a)"
        using cc success(2,4) append_reply(4) by (auto simp: call_commit_def Let_def)
      have le: "reach ?a \<le> length (log (nodes s ?i))" using m own' success(2) by simp
      have tab: "tables_ok (nodes s ?i)" using peer_okD(6) [OF ok(1) [OF i]] success(3) by simp
      have "node_commit n A L' ?i (after_ack ?p (int (reach ?a)) q (nodes s ?i))"
      proof (rule node_commit_ack [OF node0 [OF i] success(3) own' ok(2) [OF i] i p tab ack le])
        show "q = commitIndex (nodes s ?i) \<or> commitIndex (nodes s ?i) < q \<and>
            q \<le> len (log (nodes s ?i)) \<and>
            may_commit (nodes s ?i\<lparr>matchIndex := (matchIndex (nodes s ?i))[nat ?p := int (reach ?a)]\<rparr>) q"
          using success(7) unfolding r success(6) by simp
      qed
      then have nc: "node_commit n A L' ?i rf'" by (simp only: success(6) r)
      have "commit_inv n s' e' L' A"
        by (rule main [OF nd i _ _ acks_by_refl nc rds calls'])
          (simp_all add: success(6) success(3) candidacy_kept_def)
      then show ?thesis by blast
    next
      case backoff
      have own': "L' (currentTerm (nodes s ?i)) = Some (log (nodes s ?i))"
        using backoff(3) by (intro own) (simp_all add: backoff(6))
      have "1 \<le> aer_ConflictIndex reply \<and> aer_ConflictIndex reply \<le> aea_PrevLogIndex ?a"
        using cc backoff(1,2,4) append_reply(4) by (auto simp: call_commit_def Let_def)
      moreover have "reach ?a \<le> length (log (nodes s ?i))" using m own' backoff(2) by simp
      ultimately have ci: "1 \<le> aer_ConflictIndex reply"
        "aer_ConflictIndex reply \<le> len (log (nodes s ?i)) + 1"
        by linarith+
      have tab: "tables_ok (nodes s ?i)" using peer_okD(6) [OF ok(1) [OF i]] backoff(3) by simp
      have nc: "node_commit n A L' ?i rf'"
        unfolding backoff(6)
        using node_commit_backoff [OF node0 [OF i] backoff(3) ok(2) [OF i] p(1) tab ci] .
      have "commit_inv n s' e' L' A"
        by (rule main [OF nd i _ _ acks_by_refl nc rds calls'])
          (simp_all add: backoff(6) backoff(3) candidacy_kept_def)
      then show ?thesis by blast
    qed
  next
    case (client i cmd res rf')
    then have i: "i \<in> members n" and rf': "rf' = snd (Start cmd (nodes s i))" using n by auto
    have nd: "nodes s' = (nodes s)(i := rf')" and cs: "calls s' = calls s" and rds: "rounds_from s s'"
      by (simp_all add: client(1) rounds_from_same)
    show ?thesis
    proof (cases "myRole (nodes s i) = Leader")
      case True
      let ?A = "insert (i, currentTerm (nodes s i), length (log rf')) A"
      have own: "L' (currentTerm (nodes s i)) = Some (log rf')"
        using lead0 [OF i] nd True by (simp add: rf')
      have "node_commit n ?A L' i rf'"
        using node_commit_Start [OF node0 [OF i] True rf' own] .
      moreover have "acks_by i rf' L' A ?A" using own by (auto simp: acks_by_def rf')
      ultimately have "commit_inv n s' e' L' ?A"
        using rds cs True by (intro main [OF nd i])
          (auto simp: candidacy_kept_def calls0 subset_insertI rf')
      then show ?thesis by blast
    next
      case False
      then show ?thesis
        using rds cs by (intro quiet [OF nd i]) (auto simp: rf' Start_log candidacy_kept_def calls0)
    qed
  next
    case (kill i)
    then have i: "i \<in> members n" using n by simp
    show ?thesis
      by (rule quiet [OF _ i, of "Kill (nodes s i)"])
        (auto simp: kill(1) Kill_def candidacy_kept_def rounds_from_same calls0)
  next
    case (restart i now r)
    have i: "i \<in> members n" using restart(2) n by simp
    have sync: "in_sync (nodes s i)" using ok(1) [OF i] by (simp add: peer_okD)
    let ?rf = "restart_peer now r (nodes s i)"
    note rst = restart_peer_state [OF sync, of now r]
    have nd: "nodes s' = (nodes s)(i := ?rf)" and rds: "rounds_from s s'" and cs: "calls s' = calls s"
      by (simp_all add: restart(1) rounds_from_same)
    have nc: "node_commit n A L' i ?rf"
      using node0 [OF i] by (rule node_commit_reset) (rule rst)+
    have kept: "candidacy_kept (nodes s i) ?rf" by (simp add: candidacy_kept_def rst(6))
    have "currentTerm (nodes s i) \<le> currentTerm ?rf" by (simp add: rst(1))
    from main [OF nd i this kept acks_by_refl nc rds] cs calls0 show ?thesis by auto
  qed
qed

lemma commit_inv_init: "commit_inv n (cluster_init n r) election_init Map.empty {}"
  by (simp add: commit_inv_def acks_ok_def leads_ok_def ballot_terms_def cluster_init_def
      election_init_def node_commit_def cand_ok_def heeds_def acked_def delivered_def Make_def
      ReadRaftState_def MakePersister_def del: in_members)

subsection \<open>The whole invariant, along every run\<close>

definition raft_inv ::
  "int \<Rightarrow> 'c cluster \<Rightarrow> election \<Rightarrow> 'c leader_logs \<Rightarrow> acks \<Rightarrow> bool" where
  "raft_inv n s e L A \<longleftrightarrow> static_inv s \<and> csize s = n \<and> election_inv n e \<and> election_sim n s e \<and>
     log_inv n s e L \<and> commit_inv n s e L A"

definition ghost_grows ::
  "election \<Rightarrow> 'c leader_logs \<Rightarrow> acks \<Rightarrow> election \<Rightarrow> 'c leader_logs \<Rightarrow> acks \<Rightarrow> bool" where
  "ghost_grows e L A e' L' A' \<longleftrightarrow> (\<forall>T c. winner e T = Some c \<longrightarrow> winner e' T = Some c) \<and>
     extends L L' \<and> A \<subseteq> A'"

lemma extends_trans:
  assumes "extends L L'" and "extends L' L''"
  shows "extends L L''"
  unfolding extends_def
proof (intro allI impI)
  fix T m assume "L T = Some m"
  with assms(1) obtain ys where ys: "L' T = Some (m @ ys)" "\<forall>y \<in> set ys. Term y = T"
    by (rule extends_SomeE)
  obtain zs where "L'' T = Some ((m @ ys) @ zs)" "\<forall>y \<in> set zs. Term y = T"
    using assms(2) ys(1) by (rule extends_SomeE)
  with ys(2) show "\<exists>ys. L'' T = Some (m @ ys) \<and> (\<forall>y \<in> set ys. Term y = T)"
    by (intro exI [of _ "ys @ zs"]) auto
qed

lemma cluster_step_raft_inv:
  assumes "cluster_step s s'" and "raft_inv n s e L A"
  shows "\<exists>e' L' A'. raft_inv n s' e' L' A' \<and> ghost_grows e L A e' L' A'"
proof -
  from assms(2) have st: "static_inv s" and n: "csize s = n" and einv: "election_inv n e"
    and esim: "election_sim n s e" and linv: "log_inv n s e L" and inv: "commit_inv n s e L A"
    by (simp_all add: raft_inv_def)
  obtain e' where e': "rtranclp (estep n) e e'" "election_sim n s' e'" "new_ballots s s' e e'"
    using cluster_step_election [OF assms(1) st n einv esim] by blast
  have einv': "election_inv n e'" using e'(1) einv by (rule election_inv_steps)
  obtain L' where L': "log_inv n s' e' L'" "extends L L'" "born n s s' L L'"
    using cluster_step_log [OF assms(1) st n einv esim e'(1,2) linv] by blast
  obtain A' where A': "commit_inv n s' e' L' A'" "A \<subseteq> A'"
    using cluster_step_commit [OF assms(1) st n einv esim einv' e'(2,3) linv L' inv] by blast
  have "csize s' = n" using assms(1) n by (auto elim!: cluster_step.cases)
  with cluster_step_static [OF assms(1) st] einv' e'(2) L'(1) A'(1)
  have "raft_inv n s' e' L' A'" by (simp add: raft_inv_def)
  moreover have "ghost_grows e L A e' L' A'"
    using winner_stable_steps [OF e'(1) einv] L'(2) A'(2) by (simp add: ghost_grows_def)
  ultimately show ?thesis by blast
qed

lemma reachable_raft_inv: "reachable n s \<Longrightarrow> \<exists>e L A. raft_inv n s e L A"
proof (induction rule: reachable.induct)
  case (start r)
  have "csize (cluster_init n r) = n" by (simp add: cluster_init_def)
  then have "raft_inv n (cluster_init n r) election_init Map.empty {}"
    unfolding raft_inv_def
    using static_inv_init election_inv_init election_sim_init log_inv_init commit_inv_init by blast
  then show ?case by blast
next
  case (step s s')
  with cluster_step_raft_inv show ?case by blast
qed

text \<open>Two states of one run, the second after the first.\<close>

abbreviation cluster_steps :: "'c cluster \<Rightarrow> 'c cluster \<Rightarrow> bool" where
  "cluster_steps \<equiv> rtranclp cluster_step"

lemma steps_raft_inv:
  assumes "cluster_steps s s'" and "raft_inv n s e L A"
  shows "\<exists>e' L' A'. raft_inv n s' e' L' A' \<and> ghost_grows e L A e' L' A'"
  using assms(1)
proof (induction rule: rtranclp_induct)
  case base
  have "ghost_grows e L A e L A" by (simp add: ghost_grows_def)
  with assms(2) show ?case by blast
next
  case (step s1 s2)
  then obtain e1 L1 A1 where 1: "raft_inv n s1 e1 L1 A1" "ghost_grows e L A e1 L1 A1" by blast
  obtain e2 L2 A2 where 2: "raft_inv n s2 e2 L2 A2" "ghost_grows e1 L1 A1 e2 L2 A2"
    using cluster_step_raft_inv [OF step.hyps(2) 1(1)] by blast
  have "ghost_grows e L A e2 L2 A2"
    using 1(2) 2(2) extends_trans [of L L1 L2] unfolding ghost_grows_def by auto
  with 2(1) show ?case by blast
qed

lemma reachable_steps: "cluster_steps s s' \<Longrightarrow> reachable n s \<Longrightarrow> reachable n s'"
  by (induction rule: rtranclp_induct) (auto intro: reachable.step)

lemma run_steps: "run es s = Some s' \<Longrightarrow> cluster_steps s s'"
  by (induction es arbitrary: s)
    (auto split: option.splits dest: exec_cluster_step intro: converse_rtranclp_into_rtranclp)

lemma reachable_pairE:
  assumes "reachable n s" and "cluster_steps s s'"
  obtains e L A e' L' A' where "raft_inv n s e L A" "raft_inv n s' e' L' A'"
    "ghost_grows e L A e' L' A'"
  using reachable_raft_inv [OF assms(1)] steps_raft_inv [OF assms(2)] by blast

end
