(* ===== verification/Raft_Runs.thy ===== *)
theory Raft_Runs
  imports Raft_Safety
begin

section \<open>Concrete runs of a cluster of three\<close>

text \<open>
  Runs of the executable step function on a cluster of three peers. They continue the election
  of \<open>Raft_Election\<close>: the leader accepts a command, replicates it to one peer, commits it
  and applies it; a second call carries the commit index to the follower. The properties are
  applied to these states, so their hypotheses are satisfiable by what the code does.
\<close>

definition replication_run :: "nat event list" where
  "replication_run = [Client 0 42, Append_Send 0 1, Append_Request 0 310, Append_Reply 0]"

definition committed_cluster :: "nat cluster" where
  "committed_cluster = the (run replication_run elected)"

definition notify_run :: "nat event list" where
  "notify_run = [Append_Send 0 1, Append_Request 1 420, Append_Reply 1]"

definition notified_cluster :: "nat cluster" where
  "notified_cluster = the (run notify_run committed_cluster)"

lemmas replicate_eval = Start_def sendAppend_def killed_def other_peers_def AppendEntries_def
  recognise_leader_def install_entries_def scan_entries.simps zero_AppendEntriesReply_def
  go_index_def go_update_def go_from_def go_upto_def apply_committed.simps handleAppendReply_def
  advance_commit.simps getMin_def

lemma reachable_three_peers: "reachable 3 three_peers"
  unfolding three_peers_def by (rule reachable.start)

lemmas elected_eval = elected_def election_run_def run_eval upto.simps upt_rec

lemmas committed_eval = committed_cluster_def replication_run_def replicate_eval elected_eval

lemmas notified_eval = notified_cluster_def notify_run_def committed_eval

lemma committed_run: "run replication_run elected = Some committed_cluster"
proof -
  have "run replication_run elected \<noteq> None" by (simp add: replication_run_def replicate_eval elected_eval)
  then show ?thesis by (auto simp: committed_cluster_def)
qed

lemma notified_run: "run notify_run committed_cluster = Some notified_cluster"
proof -
  have "run notify_run committed_cluster \<noteq> None" by (simp add: notify_run_def committed_eval)
  then show ?thesis by (auto simp: notified_cluster_def)
qed

lemma reachable_elected: "reachable 3 elected"
  using run_reachable [OF elected_run reachable_three_peers] .

lemma reachable_committed: "reachable 3 committed_cluster"
  using run_reachable [OF committed_run reachable_elected] .

lemma reachable_notified: "reachable 3 notified_cluster"
  using run_reachable [OF notified_run reachable_committed] .

lemma committed_state:
  "myRole (nodes committed_cluster 0) = Leader" "currentTerm (nodes committed_cluster 0) = 1"
  "log (nodes committed_cluster 0) = [\<lparr>Command = 42, Term = 1\<rparr>]"
  "log (nodes committed_cluster 1) = [\<lparr>Command = 42, Term = 1\<rparr>]"
  "commitIndex (nodes committed_cluster 0) = 1" "commitIndex (nodes committed_cluster 1) = 0"
  "applyCh (nodes committed_cluster 0) = [\<lparr>CommandValid = True, msg_Command = 42, CommandIndex = 1\<rparr>]"
  by (simp_all add: committed_eval)

lemma notified_state:
  "myRole (nodes notified_cluster 0) = Leader" "currentTerm (nodes notified_cluster 0) = 1"
  "commitIndex (nodes notified_cluster 0) = 1" "commitIndex (nodes notified_cluster 1) = 1"
  "applyCh (nodes notified_cluster 0) = [\<lparr>CommandValid = True, msg_Command = 42, CommandIndex = 1\<rparr>]"
  "applyCh (nodes notified_cluster 1) = [\<lparr>CommandValid = True, msg_Command = 42, CommandIndex = 1\<rparr>]"
  by (simp_all add: notified_eval)


text \<open>A run into the state where the back-off loops: peer 0 appends two commands in term 1 and
  replicates the first to peer 1; peer 1 wins term 2 with peer 2's vote and appends a command of its
  own; peer 0 wins term 3 with peer 2's vote.\<close>

definition stuck_run :: "nat event list" where
  "stuck_run = [Client 0 7, Append_Send 0 1, Append_Request 0 310, Client 0 8,
     Timeout 1 600 20, Voting 1, Vote_Request 1 2 610, Vote_Reply 1 2, Client 1 9,
     Timeout 0 900 30, Timeout 0 1200 40, Voting 0, Vote_Request 2 2 1210, Vote_Reply 2 2]"

definition stuck_cluster :: "nat cluster" where
  "stuck_cluster = the (run stuck_run elected)"

lemmas stuck_eval = stuck_cluster_def stuck_run_def replicate_eval elected_eval

lemma stuck_run_Some: "run stuck_run elected = Some stuck_cluster"
proof -
  have "run stuck_run elected \<noteq> None" by (simp add: stuck_run_def replicate_eval elected_eval)
  then show ?thesis by (auto simp: stuck_cluster_def)
qed

lemma reachable_stuck: "reachable 3 stuck_cluster"
  using run_reachable [OF stuck_run_Some reachable_elected] .

lemma stuck_state:
  "myRole (nodes stuck_cluster 0) = Leader" "currentTerm (nodes stuck_cluster 0) = 3"
  "log (nodes stuck_cluster 0) = [\<lparr>Command = 7, Term = 1\<rparr>, \<lparr>Command = 8, Term = 1\<rparr>]"
  "nextIndex (nodes stuck_cluster 0) = [3, 3, 3]" "matchIndex (nodes stuck_cluster 0) = [2, 0, 0]"
  "commitIndex (nodes stuck_cluster 0) = 0" "npeers (nodes stuck_cluster 0) = 3"
  "me (nodes stuck_cluster 0) = 0" "dead (nodes stuck_cluster 0) = 0"
  "log (nodes stuck_cluster 1) = [\<lparr>Command = 7, Term = 1\<rparr>, \<lparr>Command = 9, Term = 2\<rparr>]"
  "currentTerm (nodes stuck_cluster 1) = 2"
  by (simp_all add: stuck_eval eval_nat_numeral)

text \<open>A run in which the answer to an older replication call is handled after the answer to a newer
  one: the leader's \<open>matchIndex\<close> goes back from 2 to 1.\<close>

definition ahead_run :: "nat event list" where
  "ahead_run = [Client 0 7, Append_Send 0 1, Append_Request 0 310, Client 0 8, Append_Send 0 1,
     Append_Request 1 320, Append_Reply 1]"

definition ahead_cluster :: "nat cluster" where
  "ahead_cluster = the (run ahead_run elected)"

definition behind_cluster :: "nat cluster" where
  "behind_cluster = the (run [Append_Reply 0] ahead_cluster)"

lemmas ahead_eval = ahead_cluster_def ahead_run_def replicate_eval elected_eval

lemma ahead_run_Some: "run ahead_run elected = Some ahead_cluster"
proof -
  have "run ahead_run elected \<noteq> None" by (simp add: ahead_run_def replicate_eval elected_eval)
  then show ?thesis by (auto simp: ahead_cluster_def)
qed

lemma reachable_ahead: "reachable 3 ahead_cluster"
  using run_reachable [OF ahead_run_Some reachable_elected] .

lemma behind_run_Some: "run [Append_Reply 0] ahead_cluster = Some behind_cluster"
proof -
  have "run [Append_Reply 0] ahead_cluster \<noteq> None" by (simp add: ahead_eval)
  then show ?thesis by (auto simp: behind_cluster_def)
qed

lemma ahead_behind_state:
  "myRole (nodes ahead_cluster 0) = Leader" "myRole (nodes behind_cluster 0) = Leader"
  "currentTerm (nodes behind_cluster 0) = currentTerm (nodes ahead_cluster 0)"
  "matchIndex (nodes ahead_cluster 0) ! 1 = 2" "matchIndex (nodes behind_cluster 0) ! 1 = 1"
  "length (log (nodes behind_cluster 1)) = 2"
  by (simp_all add: behind_cluster_def ahead_eval)

end
