(* ===== verification/Raft_Properties.thy ===== *)
theory Raft_Properties
  imports Raft_Runs
begin

section \<open>The properties of the Raft implementation\<close>

text \<open>
  The statements about the cluster as a whole. Each is read off the invariant \<open>raft_inv\<close>
  (\<open>Raft_Safety\<close>), and applied to a concrete run of three peers (\<open>Raft_Runs\<close>).
\<close>

subsection \<open>Reading the invariant\<close>

lemma raft_invD:
  assumes "raft_inv n s e L A"
  shows "static_inv s" "csize s = n" "election_inv n e" "election_sim n s e" "log_inv n s e L"
    "commit_inv n s e L A"
  using assms by (simp_all add: raft_inv_def)

lemma raft_inv_node:
  assumes "raft_inv n s e L A" and "i \<in> members n"
  shows "peer_ok (nodes s i)" "npeers (nodes s i) = n" "me (nodes s i) = i"
    "node_log_ok L (nodes s i)" "node_commit n A L i (nodes s i)"
  using assms static_invD(1-3) [of s i] log_invD(2) [of n s e L i] commit_invD(4) [of n s e L A i]
  by (auto simp: raft_inv_def)

lemma raft_inv_leader:
  assumes "raft_inv n s e L A" and "i \<in> members n" and "myRole (nodes s i) = Leader"
  shows "L (currentTerm (nodes s i)) = Some (log (nodes s i))"
    and "winner e (currentTerm (nodes s i)) = Some i"
  using assms leader_log [of n s e L i] winner_of_leader [of n s e i] by (simp_all add: raft_inv_def)

lemma raft_inv_commit:
  assumes "raft_inv n s e L A" and "i \<in> members n"
  shows "commit_ok n A L (commitIndex (nodes s i)) (log (nodes s i)) (currentTerm (nodes s i))"
    and "delivered (nodes s i)"
  using raft_inv_node(5) [OF assms] by (simp_all add: node_commit_def)

lemma raft_inv_acks:
  assumes "raft_inv n s e L A"
  shows "acks_ok n A L (\<lambda>j. currentTerm (nodes s j))" "leads_ok n A L (\<lambda>j. currentTerm (nodes s j))"
  using commit_invD(1,2) [OF raft_invD(6) [OF assms]] by simp_all

lemma commit_ok_grows:
  assumes "commit_ok n A L c l b" and "ghost_grows e L A e' L' A'" and "b \<le> b'"
  shows "commit_ok n A' L' c l b'"
  using assms commit_ok_mono unfolding ghost_grows_def by blast

lemma three [simp]: "0 \<in> members 3" "1 \<in> members 3" "2 \<in> members 3"
  by simp_all

subsection \<open>Elections\<close>

text \<open>The two statements that the checks of the test configuration rest on, too.\<close>

lemma one_leader_per_term:
  assumes "reachable n s" and "cluster_steps s s'"
    and "i \<in> members n" "myRole (nodes s i) = Leader"
    and "j \<in> members n" "myRole (nodes s' j) = Leader"
    and "currentTerm (nodes s' j) = currentTerm (nodes s i)"
  shows "j = i"
  using assms(1,2)
proof (rule reachable_pairE)
  fix e L A e' L' A'
  assume "raft_inv n s e L A" "raft_inv n s' e' L' A'" "ghost_grows e L A e' L' A'"
  with raft_inv_leader(2) [of n s e L A i] raft_inv_leader(2) [of n s' e' L' A' j] assms(3-)
  show "j = i" by (auto simp: ghost_grows_def)
qed

text \<open>C1. Election safety, over a whole run: a peer that is leader of a term at some moment and a
  peer that is leader of the same term at the same or a later moment are the same peer, however
  messages are lost, delayed or reordered and peers crash and restart in between.\<close>

theorem election_safety:
  assumes "reachable n s" and "cluster_steps s s'"
    and "i \<in> members n" "myRole (nodes s i) = Leader"
    and "j \<in> members n" "myRole (nodes s' j) = Leader"
    and "currentTerm (nodes s' j) = currentTerm (nodes s i)"
  shows "j = i"
  using assms by (rule one_leader_per_term)

theorem election_safety_witness:
  "{j. j \<in> members 3 \<and> myRole (nodes committed_cluster j) = Leader \<and>
     currentTerm (nodes committed_cluster j) = 1} = {0}"
proof -
  have "j = 0" if "j \<in> members 3" "myRole (nodes committed_cluster j) = Leader"
    "currentTerm (nodes committed_cluster j) = 1" for j
    using election_safety [OF reachable_elected run_steps [OF committed_run] three(1)
      elected_leader(1) that(1,2)] that(3) by (simp add: elected_leader(2))
  with three(1) show ?thesis by (auto simp: committed_state simp del: in_members)
qed

subsection \<open>Logs\<close>

text \<open>C5. Log matching: if the logs of two peers hold an entry with the same term at the same
  position, they are identical up to and including that position.\<close>

theorem log_matching:
  assumes "reachable n s" and "i \<in> members n" and "j \<in> members n"
    and "k < length (log (nodes s i))" and "k < length (log (nodes s j))"
    and "Term (log (nodes s i) ! k) = Term (log (nodes s j) ! k)"
  shows "take (Suc k) (log (nodes s i)) = take (Suc k) (log (nodes s j))"
proof -
  obtain e L A where inv: "raft_inv n s e L A" using reachable_raft_inv [OF assms(1)] by blast
  with raft_inv_node(4) [OF inv assms(2)] raft_inv_node(4) [OF inv assms(3)] assms(4-6)
  show ?thesis by (intro log_ok_matching) (auto simp: node_log_ok_def)
qed

theorem log_matching_witness:
  "take (Suc 0) (log (nodes committed_cluster 0)) = take (Suc 0) (log (nodes committed_cluster 1))"
  using log_matching [OF reachable_committed three(1,2), of 0] by (simp add: committed_state)

text \<open>A leader only ever appends to its log: as long as a peer is the leader of one term, its
  earlier log is a prefix of its later one.\<close>

lemma leader_append_only:
  assumes "reachable n s" and "cluster_steps s s'" and "i \<in> members n"
    and "myRole (nodes s i) = Leader" and "myRole (nodes s' i) = Leader"
    and "currentTerm (nodes s' i) = currentTerm (nodes s i)"
  shows "\<exists>ys. log (nodes s' i) = log (nodes s i) @ ys"
  using assms(1,2)
proof (rule reachable_pairE)
  fix e L A e' L' A'
  assume inv: "raft_inv n s e L A" "raft_inv n s' e' L' A'" and g: "ghost_grows e L A e' L' A'"
  have "extends L L'" using g by (simp add: ghost_grows_def)
  then obtain ys where "L' (currentTerm (nodes s i)) = Some (log (nodes s i) @ ys)"
    using raft_inv_leader(1) [OF inv(1) assms(3,4)] by (rule extends_SomeE)
  with raft_inv_leader(1) [OF inv(2) assms(3,5)] assms(6) show ?thesis by (intro exI [of _ ys]) simp
qed

lemma leader_append_only_witness:
  "\<exists>ys. log (nodes committed_cluster 0) = log (nodes elected 0) @ ys"
  by (rule leader_append_only [OF reachable_elected run_steps [OF committed_run] three(1)])
    (simp_all add: elected_leader committed_state)

subsection \<open>Commitment\<close>

text \<open>C4. Leader completeness: what a peer of term \<open>T\<close> considers committed is in the log of every
  later leader of term \<open>T\<close> or above.\<close>

theorem leader_completeness:
  assumes "reachable n s" and "cluster_steps s s'"
    and "i \<in> members n" and "j \<in> members n" and "myRole (nodes s' j) = Leader"
    and "currentTerm (nodes s i) \<le> currentTerm (nodes s' j)"
  shows "take (nat (commitIndex (nodes s i))) (log (nodes s' j)) =
         take (nat (commitIndex (nodes s i))) (log (nodes s i)) \<and>
         commitIndex (nodes s i) \<le> len (log (nodes s' j))"
  using assms(1,2)
proof (rule reachable_pairE)
  fix e L A e' L' A'
  assume inv: "raft_inv n s e L A" "raft_inv n s' e' L' A'" and g: "ghost_grows e L A e' L' A'"
  let ?c = "commitIndex (nodes s i)" and ?l = "log (nodes s i)" and ?m = "log (nodes s' j)"
  have com: "commit_ok n A' L' ?c ?l (currentTerm (nodes s' j))"
    using raft_inv_commit(1) [OF inv(1) assms(3)] g assms(6) by (rule commit_ok_grows)
  have own: "L' (currentTerm (nodes s' j)) = Some ?m" using raft_inv_leader(1) [OF inv(2) assms(4,5)] .
  show ?thesis
  proof (cases "0 < ?c")
    case False
    with com show ?thesis by (simp add: commit_ok_def)
  next
    case True
    with com obtain T k where T: "committed n A' L' T k" "T \<le> currentTerm (nodes s' j)" "nat ?c \<le> k"
      "carries L' T (nat ?c) ?l"
      by (auto simp: commit_ok_def)
    have car: "carries L' T k ?m"
      using committed_carried_le [OF raft_inv_acks [OF inv(2)] T(1) own T(2)] .
    then have "k \<le> length ?m" by (auto simp: carries_def)
    with carries_agree [OF T(4) car T(3)] T(3) show ?thesis by auto
  qed
qed

theorem leader_completeness_witness:
  "take 1 (log (nodes notified_cluster 0)) = [\<lparr>Command = 42, Term = 1\<rparr>]"
  using leader_completeness [OF reachable_committed run_steps [OF notified_run] three(1,1)]
  by (simp add: committed_state notified_state)

lemma deliveries_agree:
  assumes "reachable n s" and "cluster_steps s s'"
    and "i \<in> members n" and "m \<in> set (applyCh (nodes s i))"
    and "j \<in> members n" and "m' \<in> set (applyCh (nodes s' j))"
    and "CommandIndex m = CommandIndex m'"
  shows "m = m'"
  using assms(1,2)
proof (rule reachable_pairE)
  fix e L A e' L' A'
  assume inv: "raft_inv n s e L A" "raft_inv n s' e' L' A'" and g: "ghost_grows e L A e' L' A'"
  let ?c = "commitIndex (nodes s i)" and ?c' = "commitIndex (nodes s' j)"
  let ?l = "log (nodes s i)" and ?l' = "log (nodes s' j)"
  define k where "k = CommandIndex m"
  have m: "m = entry_msg ?l k" "1 \<le> k" "k \<le> ?c"
    using assms(4) raft_inv_commit(2) [OF inv(1) assms(3)] by (auto simp: delivered_def k_def)
  have m': "m' = entry_msg ?l' k" "k \<le> ?c'"
    using assms(6,7) raft_inv_commit(2) [OF inv(2) assms(5)] by (auto simp: delivered_def k_def)
  have a: "commit_ok n A' L' ?c ?l (currentTerm (nodes s i))"
    using raft_inv_commit(1) [OF inv(1) assms(3)] g order_refl by (rule commit_ok_grows)
  note b = raft_inv_commit(1) [OF inv(2) assms(5)] and acks = raft_inv_acks [OF inv(2)]
  have "nat (k - 1) < nat (min ?c ?c')" using m(2,3) m'(2) by auto
  moreover have "take (nat (min ?c ?c')) ?l = take (nat (min ?c ?c')) ?l'"
    using commit_ok_agree [OF acks a b] commit_ok_agree [OF acks b a]
    by (cases "?c \<le> ?c'") (simp_all add: min_def)
  ultimately have "?l ! nat (k - 1) = ?l' ! nat (k - 1)" by (metis take_eq_imp_nth)
  with m(1) m'(1) show "m = m'" by (simp add: entry_msg_def)
qed

text \<open>C2. State machine safety, over a whole run: two messages ever sent on an \<open>applyCh\<close>, by the
  same peer or by different ones, before or after crashes, with the same \<open>CommandIndex\<close>, carry
  the same command.\<close>

theorem state_machine_safety:
  assumes "reachable n s" and "cluster_steps s s'"
    and "i \<in> members n" and "m \<in> set (applyCh (nodes s i))"
    and "j \<in> members n" and "m' \<in> set (applyCh (nodes s' j))"
    and "CommandIndex m = CommandIndex m'"
  shows "m = m'"
  using assms by (rule deliveries_agree)

theorem state_machine_safety_witness:
  "hd (applyCh (nodes committed_cluster 0)) = hd (applyCh (nodes notified_cluster 1))"
  by (rule state_machine_safety [OF reachable_committed run_steps [OF notified_run] three(1) _ three(2)])
    (simp_all add: committed_state notified_state)

text \<open>What a peer has delivered: in every reachable state the messages on \<open>applyCh\<close> are the
  entries \<open>1, 2, \<dots>, commitIndex\<close> of its log, each once, in this order, and the commit index
  lies within the log.\<close>

lemma delivered_in_order:
  assumes "reachable n s" and "i \<in> members n"
  shows "lastApplied (nodes s i) = commitIndex (nodes s i) \<and>
    commitIndex (nodes s i) \<le> len (log (nodes s i)) \<and>
    applyCh (nodes s i) = map (\<lambda>k. \<lparr>CommandValid = True,
       msg_Command = Command (log (nodes s i) ! nat (k - 1)), CommandIndex = k\<rparr>)
      [1..commitIndex (nodes s i)]"
proof -
  obtain e L A where inv: "raft_inv n s e L A" using reachable_raft_inv [OF assms(1)] by blast
  from raft_inv_commit [OF inv assms(2)] show ?thesis
    by (auto simp: delivered_def commit_ok_def entry_msg_def)
qed

lemma delivered_in_order_witness:
  "applyCh (nodes notified_cluster 1) =
     [\<lparr>CommandValid = True, msg_Command = Command (log (nodes notified_cluster 1) ! 0), CommandIndex = 1\<rparr>]"
  using delivered_in_order [OF reachable_notified three(2)] by (simp add: notified_state)

subsection \<open>No handler panics\<close>

text \<open>C8. In no reachable state does a critical section of a peer panic: the slice and index
  expressions of \<open>sendAppendEntriesToOnePeer\<close>, \<open>AppendEntries\<close> and \<open>convertToLeader\<close>
  stay in range, whatever requests and replies are in flight.\<close>

theorem no_handler_panics:
  assumes "reachable n s"
  shows "(\<forall>i \<in> members n. \<forall>j \<in> members n. sendAppend j (nodes s i) \<noteq> None) \<and>
    (\<forall>c \<in> set (calls s). AppendEntries now (ac_args c) (nodes s (ac_dst c)) \<noteq> None) \<and>
    (\<forall>c \<in> set (calls s). \<forall>reply. ac_status c = AE_Replied reply \<longrightarrow>
       handleAppendReply (ac_dst c) (ac_args c) reply (nodes s (ac_src c)) \<noteq> None) \<and>
    (\<forall>rd \<in> set (rounds s). \<forall>reply.
       handleVoteReply (rd_args rd) reply (rd_votes rd) (nodes s (candidate_of rd)) \<noteq> None)"
proof -
  obtain e L A where inv: "raft_inv n s e L A" using reachable_raft_inv [OF assms(1)] by blast
  note node = raft_inv_node [OF inv]
  have static: "static_inv s" "csize s = n" using raft_invD(1,2) [OF inv] .
  have send: "sendAppend j (nodes s i) \<noteq> None" if "i \<in> members n" "j \<in> members n" for i j
  proof (cases "myRole (nodes s i) = Leader \<and> \<not> killed (nodes s i)")
    case True
    have "leader_ok A i (nodes s i)" using node(5) [OF that(1)] True by (simp add: node_commit_def)
    moreover have "tables_ok (nodes s i)" using node(1) [OF that(1)] True by (simp add: peer_okD)
    ultimately show ?thesis
      using True that node(2) [OF that(1)]
      by (subst sendAppend_leader) (auto simp: leader_ok_def tables_ok_def)
  qed (auto simp: sendAppend_def)
  have call: "call_ok n c" if "c \<in> set (calls s)" for c
    using that static by (simp add: static_inv_def)
  have append: "AppendEntries now (ac_args c) (nodes s (ac_dst c)) \<noteq> None" if "c \<in> set (calls s)" for c
    using AppendEntries_total [of "ac_args c" "nodes s (ac_dst c)" now] call [OF that]
      node(1) [of "ac_dst c"] by (auto simp: call_ok_def peer_okD simp del: in_members)
  have ack: "handleAppendReply (ac_dst c) (ac_args c) reply (nodes s (ac_src c)) \<noteq> None"
    if "c \<in> set (calls s)" for c reply
  proof -
    let ?rf = "nodes s (ac_src c)"
    have c: "ac_src c \<in> members n" "0 \<le> ac_dst c" "ac_dst c < npeers ?rf"
      using call [OF that] node(2) by (auto simp: call_ok_def)
    note pk = node(1) [OF c(1)]
    consider "currentTerm ?rf < aer_Term reply"
      | "aer_Term reply \<le> currentTerm ?rf" "currentTerm ?rf \<noteq> aea_Term (ac_args c) \<or> myRole ?rf \<noteq> Leader"
      | "aer_Term reply \<le> currentTerm ?rf" "currentTerm ?rf = aea_Term (ac_args c)" "myRole ?rf = Leader"
      by linarith
    then show ?thesis
    proof cases
      case 3
      then have tab: "tables_ok ?rf" using pk by (simp add: peer_okD)
      show ?thesis
        using handleAppendReply_success [OF 3 _ tab c(2,3) peer_okD(2,3) [OF pk]]
          handleAppendReply_backoff [OF 3 _ tab c(2,3)]
        by (cases "aer_Success reply") auto
    qed (auto simp: handleAppendReply_def)
  qed
  have vote: "handleVoteReply (rd_args rd) reply (rd_votes rd) (nodes s (candidate_of rd)) \<noteq> None"
    if "rd \<in> set (rounds s)" for rd reply
  proof -
    have "candidate_of rd \<in> members n" using that static by (simp add: static_inv_def round_ok_def)
    then have "convertToLeader (nodes s (candidate_of rd)) \<noteq> None"
      using node(2,3) [of "candidate_of rd"] by (simp add: convertToLeader_eq)
    then show ?thesis by (auto simp: handleVoteReply_def Let_def)
  qed
  show ?thesis using send append ack vote by blast
qed

theorem no_handler_panics_witness: "sendAppend 2 (nodes committed_cluster 0) \<noteq> None"
  using no_handler_panics [OF reachable_committed] three by blast


subsection \<open>Committed entries are never lost\<close>

text \<open>What one step does to the log of one peer.\<close>

lemma cluster_step_log_change:
  assumes "cluster_step s s'" and inv: "raft_inv n s e L A" and i: "i \<in> members n"
  obtains (same) "log (nodes s' i) = log (nodes s i)"
  | (append) x where "log (nodes s' i) = log (nodes s i) @ [x]"
  | (merge) c where "c \<in> set (calls s)" "prev_matches (ac_args c) (log (nodes s i))"
      "currentTerm (nodes s i) \<le> aea_Term (ac_args c)"
      "log (nodes s' i) = merged_log (ac_args c) (log (nodes s i))"
      "currentTerm (nodes s' i) = aea_Term (ac_args c)"
  using assms(1)
proof (cases rule: cluster_step.cases)
  case (vote_request k rd j now reply rf')
  then have "rf' = snd (RequestVote now (rd_args rd) (nodes s j))" by simp
  with vote_request(1) same show ?thesis by auto
next
  case (vote_reply k rd j reply rf' v)
  from vote_reply(6) have "log rf' = log (nodes s (candidate_of rd))"
    by (cases rule: handleVoteReply_cases) (auto elim!: convertToLeader_SomeE)
  with vote_reply(1) same show ?thesis by auto
next
  case (append_request k c now reply rf')
  have c: "c \<in> set (calls s)" using append_request(2,3) by simp
  then have "call_ok n c" using raft_invD(1,2) [OF inv] by (simp add: static_inv_def)
  then have d: "ac_dst c \<in> members n" "0 \<le> aea_PrevLogIndex (ac_args c)" by (auto simp: call_ok_def)
  from append_request(5) d(2) peer_okD(4) [OF raft_inv_node(1) [OF inv d(1)]] show ?thesis
  proof (cases rule: AppendEntries_cases)
    case stale
    with append_request(1) same show ?thesis by auto
  next
    case reject
    with append_request(1) same show ?thesis by auto
  next
    case accept
    then show ?thesis
      using append_request(1) same merge [OF c] recognise_leader_state(1) [OF accept(1), of now]
      by (cases "ac_dst c = i") auto
  qed
next
  case (append_reply k c reply rf' again)
  have c: "c \<in> set (calls s)" using append_reply(2,3) by simp
  then have "call_ok n c" using raft_invD(1,2) [OF inv] by (simp add: static_inv_def)
  then have src: "ac_src c \<in> members n" "0 \<le> ac_dst c" "ac_dst c < npeers (nodes s (ac_src c))"
    using raft_inv_node(2) [OF inv] by (auto simp: call_ok_def)
  note pk = raft_inv_node(1) [OF inv src(1)]
  from append_reply(6) peer_okD(6) [OF pk] src(2,3) peer_okD(2,3) [OF pk]
  have "log rf' = log (nodes s (ac_src c))" by (cases rule: handleAppendReply_cases) auto
  with append_reply(1) same show ?thesis by auto
next
  case (client j cmd res rf')
  then have "rf' = snd (Start cmd (nodes s j))" by simp
  with client(1) same append show ?thesis
    by (cases "j = i"; cases "myRole (nodes s i) = Leader") (auto simp: Start_log)
next
  case (restart j now r)
  have "log (restart_peer now r (nodes s j)) = log (nodes s j)"
    using restart(2) raft_inv_node(1) [OF inv, of j] raft_invD(2) [OF inv]
    by (auto intro!: restart_peer_state peer_okD)
  with restart(1) same show ?thesis by (cases "j = i") auto
qed (use same in \<open>auto simp: Kill_def\<close>)

lemma commit_ok_step:
  assumes "cluster_step s s'" and inv: "raft_inv n s e L A" and inv': "raft_inv n s' e' L' A'"
    and g: "ghost_grows e L A e' L' A'" and i: "i \<in> members n"
    and ct: "currentTerm (nodes s i) \<le> currentTerm (nodes s' i)"
    and com: "commit_ok n A L c (log (nodes s i)) (currentTerm (nodes s i))"
  shows "commit_ok n A' L' c (log (nodes s' i)) (currentTerm (nodes s' i)) \<and>
    take (nat c) (log (nodes s' i)) = take (nat c) (log (nodes s i))"
  using assms(1) inv i
proof (cases rule: cluster_step_log_change)
  case same
  with commit_ok_grows [OF com g ct] show ?thesis by simp
next
  case (append x)
  have "c \<le> len (log (nodes s i))" using com by (simp add: commit_ok_def)
  with append commit_ok_append [OF commit_ok_grows [OF com g ct]] show ?thesis by simp
next
  case (merge cl)
  note node = raft_inv_node(4) [OF inv i] and linv = raft_invD(5) [OF inv]
  have a: "args_ok L (ac_args cl)" using linv merge(1) by (simp add: log_inv_def)
  then obtain m where m: "L (aea_Term (ac_args cl)) = Some m" by (auto simp: args_ok_def)
  have okm: "log_ok L m" using log_invD(1) [OF linv] m by (simp add: logs_ok_def)
  have okl: "log_ok L (log (nodes s i))" using node by (simp add: node_log_ok_def)
  note new = commit_ok_merged [OF okl okm m a merge(2) raft_inv_acks [OF inv] com merge(3)]
  show ?thesis
    using commit_ok_grows [OF new(1) g order_refl] new(2) merge(4,5) by simp
qed

text \<open>Terms never go back, not even over a crash.\<close>

lemma cluster_step_term:
  assumes "cluster_step s s'" and inv: "raft_inv n s e L A" and i: "i \<in> members n"
  shows "currentTerm (nodes s i) \<le> currentTerm (nodes s' i)"
  using assms(1)
proof (cases rule: cluster_step.cases)
  case (vote_request k rd j now reply rf')
  then have "rf' = snd (RequestVote now (rd_args rd) (nodes s j))" by simp
  with vote_request(1) show ?thesis by (simp add: RequestVote_state)
next
  case (vote_reply k rd j reply rf' v)
  from vote_reply(6) have "currentTerm (nodes s (candidate_of rd)) \<le> currentTerm rf'"
    by (cases rule: handleVoteReply_cases) (auto elim!: convertToLeader_SomeE)
  with vote_reply(1) show ?thesis by auto
next
  case (append_request k c now reply rf')
  have c: "c \<in> set (calls s)" using append_request(2,3) by simp
  then have "call_ok n c" using raft_invD(1,2) [OF inv] by (simp add: static_inv_def)
  then have d: "ac_dst c \<in> members n" "0 \<le> aea_PrevLogIndex (ac_args c)" by (auto simp: call_ok_def)
  from append_request(5) d(2) peer_okD(4) [OF raft_inv_node(1) [OF inv d(1)]]
  have "currentTerm (nodes s (ac_dst c)) \<le> currentTerm rf'"
    by (cases rule: AppendEntries_cases) (simp_all add: recognise_leader_state)
  with append_request(1) show ?thesis by auto
next
  case (append_reply k c reply rf' again)
  have c: "c \<in> set (calls s)" using append_reply(2,3) by simp
  then have "call_ok n c" using raft_invD(1,2) [OF inv] by (simp add: static_inv_def)
  then have src: "ac_src c \<in> members n" "0 \<le> ac_dst c" "ac_dst c < npeers (nodes s (ac_src c))"
    using raft_inv_node(2) [OF inv] by (auto simp: call_ok_def)
  note pk = raft_inv_node(1) [OF inv src(1)]
  from append_reply(6) peer_okD(6) [OF pk] src(2,3) peer_okD(2,3) [OF pk]
  have "currentTerm (nodes s (ac_src c)) \<le> currentTerm rf'"
    by (cases rule: handleAppendReply_cases) auto
  with append_reply(1) show ?thesis by auto
next
  case (client j cmd res rf')
  then have "rf' = snd (Start cmd (nodes s j))" by simp
  with client(1) show ?thesis by simp
next
  case (restart j now r)
  have "currentTerm (restart_peer now r (nodes s j)) = currentTerm (nodes s j)"
    using restart(2) raft_inv_node(1) [OF inv, of j] raft_invD(2) [OF inv]
    by (auto intro!: restart_peer_state peer_okD)
  with restart(1) show ?thesis by auto
qed (auto simp: Kill_def)

lemma commit_ok_steps:
  assumes "cluster_steps s s'" and inv: "raft_inv n s e L A" and i: "i \<in> members n"
  shows "\<exists>e' L' A'. raft_inv n s' e' L' A' \<and> currentTerm (nodes s i) \<le> currentTerm (nodes s' i) \<and>
    (\<forall>c. commit_ok n A L c (log (nodes s i)) (currentTerm (nodes s i)) \<longrightarrow>
      commit_ok n A' L' c (log (nodes s' i)) (currentTerm (nodes s' i)) \<and>
      take (nat c) (log (nodes s' i)) = take (nat c) (log (nodes s i)))"
  using assms(1)
proof (induction rule: rtranclp_induct)
  case base
  with inv show ?case by blast
next
  case (step s1 s2)
  then obtain e1 L1 A1 where 1: "raft_inv n s1 e1 L1 A1"
    "currentTerm (nodes s i) \<le> currentTerm (nodes s1 i)"
    "\<forall>c. commit_ok n A L c (log (nodes s i)) (currentTerm (nodes s i)) \<longrightarrow>
      commit_ok n A1 L1 c (log (nodes s1 i)) (currentTerm (nodes s1 i)) \<and>
      take (nat c) (log (nodes s1 i)) = take (nat c) (log (nodes s i))"
    by blast
  obtain e2 L2 A2 where 2: "raft_inv n s2 e2 L2 A2" "ghost_grows e1 L1 A1 e2 L2 A2"
    using cluster_step_raft_inv [OF step.hyps(2) 1(1)] by blast
  have ct: "currentTerm (nodes s1 i) \<le> currentTerm (nodes s2 i)"
    using cluster_step_term [OF step.hyps(2) 1(1) i] .
  with commit_ok_step [OF step.hyps(2) 1(1) 2 i ct] 1(2,3) 2(1) show ?case
    by (intro exI [of _ e2] exI [of _ L2] exI [of _ A2]) auto
qed

text \<open>C7. Durability of commitment: once a peer has committed (and applied) a prefix of its log, its
  log keeps that prefix for the rest of the run, over later leaders, truncations, crashes and
  restarts, and its term never decreases.\<close>

theorem committed_prefix_kept:
  assumes "reachable n s" and "cluster_steps s s'" and "i \<in> members n"
  shows "take (nat (commitIndex (nodes s i))) (log (nodes s' i)) =
         take (nat (commitIndex (nodes s i))) (log (nodes s i)) \<and>
         commitIndex (nodes s i) \<le> len (log (nodes s' i)) \<and>
         currentTerm (nodes s i) \<le> currentTerm (nodes s' i)"
proof -
  obtain e L A where inv: "raft_inv n s e L A" using reachable_raft_inv [OF assms(1)] by blast
  from commit_ok_steps [OF assms(2) inv assms(3)] raft_inv_commit(1) [OF inv assms(3)]
  show ?thesis by (auto simp: commit_ok_def)
qed

theorem committed_prefix_kept_witness:
  "take 1 (log (nodes notified_cluster 0)) = take 1 (log (nodes committed_cluster 0))"
  using committed_prefix_kept [OF reachable_committed run_steps [OF notified_run] three(1)]
  by (simp add: committed_state)

end
