(* ===== verification/Raft_Replication.thy ===== *)
theory Raft_Replication
  imports Raft_Properties
begin

section \<open>The retry loop of sendAppendEntriesToOnePeer\<close>

text \<open>
  The whole loop of \<open>sendAppendEntriesToOnePeer\<close> against a peer that answers every call at
  once: build the arguments, run the peer's \<open>AppendEntries\<close>, handle the reply, go round again
  while the reply asks for it. The number of iterations is fuel; the flag of the result says
  that the function has returned. Two theorems: the loop returns within \<open>nextIndex\<close> rounds,
  with the logs reconciled, when the leader's log ends with an entry of its own term; and it
  never returns when the follower's conflicting entry is of a later term than every entry of the
  leader, because the scan for the next index then runs off the leader's log.
\<close>

fun sendAppendEntriesToOnePeer ::
  "nat \<Rightarrow> int \<Rightarrow> int \<Rightarrow> 'c raft \<Rightarrow> 'c raft \<Rightarrow> ('c raft \<times> 'c raft \<times> bool) option" where
  "sendAppendEntriesToOnePeer 0 now peerId rf peer = Some (rf, peer, False)"
| "sendAppendEntriesToOnePeer (Suc fuel) now peerId rf peer =
     (case sendAppend peerId rf of
        None \<Rightarrow> None
      | Some None \<Rightarrow> Some (rf, peer, True)
      | Some (Some args) \<Rightarrow> do {
          (reply, peer) \<leftarrow> AppendEntries now args peer;
          (rf, again) \<leftarrow> handleAppendReply peerId args reply rf;
          if again then sendAppendEntriesToOnePeer fuel now peerId rf peer
          else Some (rf, peer, True)
        })"

subsection \<open>One rejected round\<close>

lemma conflict_reply_term:
  "aer_ConflictTerm (conflict_reply a f) =
     (if len f < aea_PrevLogIndex a then -1 else Term (f ! nat (aea_PrevLogIndex a - 1)))"
  "aer_Term (conflict_reply a f) = aea_Term a"
  by (simp_all add: conflict_reply_def Let_def)

text \<open>A rejection names an earlier position, or finds one in the leader's log.\<close>

lemma backoff_progress:
  assumes lo: "logs_ok e L" and okl: "log_ok L lg" and okf: "log_ok L f"
    and a: "aea_PrevLogIndex a \<le> len lg"
      "0 < aea_PrevLogIndex a \<Longrightarrow> aea_PrevLogTerm a = Term (lg ! nat (aea_PrevLogIndex a - 1))"
    and prev: "0 \<le> aea_PrevLogIndex a" and rej: "\<not> prev_matches a f"
    and some: "backoff_index (conflict_reply a f) lg = Some k"
  shows "1 \<le> k \<and> k \<le> aea_PrevLogIndex a"
proof -
  let ?p = "aea_PrevLogIndex a" and ?r = "conflict_reply a f"
  have ci: "1 \<le> aer_ConflictIndex ?r" "aer_ConflictIndex ?r \<le> ?p"
    using conflict_reply_bounds [OF rej prev] .
  show ?thesis
  proof (cases "aer_ConflictTerm ?r \<le> 0")
    case True
    with some ci show ?thesis by (simp add: backoff_index_def)
  next
    case False
    then have in_f: "?p \<le> len f" by (auto simp: conflict_reply_term split: if_splits)
    then have pos: "0 < ?p" and ne: "Term (f ! nat (?p - 1)) \<noteq> Term (lg ! nat (?p - 1))"
      and ct: "aer_ConflictTerm ?r = Term (f ! nat (?p - 1))"
      using rej prev a(2) by (auto simp: prev_matches_def conflict_reply_term)
    define ct where "ct = Term (f ! nat (?p - 1))"
    define q where "q = nat (?p - 1)"
    have q: "q < length f" "q < length lg" "int q = ?p - 1"
      using pos in_f a(1) by (auto simp: q_def)
    obtain w where w: "w < length lg" "Term (lg ! w) > ct" "\<forall>v < w. Term (lg ! v) \<le> ct"
      "k = (if \<exists>v < w. Term (lg ! v) = ct then 1 + int w else aer_ConflictIndex ?r)"
      using find_next_index_Some [of ct "aer_ConflictIndex ?r" 1 False lg k] some False
      by (auto simp: backoff_index_def ct ct_def)
    show ?thesis
    proof (cases "\<exists>v < w. Term (lg ! v) = ct")
      case False
      with w(4) ci show ?thesis by simp
    next
      case True
      then obtain v where v: "v < w" "Term (lg ! v) = ct" by blast
      have "v < q"
      proof (rule ccontr)
        assume "\<not> v < q"
        then have "q \<le> v" by simp
        obtain m where m: "L ct = Some m" "take (Suc v) lg = take (Suc v) m"
          using log_ok_at [OF okl, of v] v w(1) by auto
        obtain m' where m': "L (Term (f ! q)) = Some m'" "take (Suc q) f = take (Suc q) m'"
          using log_ok_at [OF okf q(1)] by blast
        have "m' = m" using m'(1) m(1) by (simp add: q_def ct_def)
        then have "take (Suc q) f = take (Suc q) lg"
          using m(2) m'(2) \<open>q \<le> v\<close> by (metis Suc_le_mono take_eq_imp_take_le)
        then have "f ! q = lg ! q" by (metis lessI take_eq_imp_nth)
        with ne show False by (simp add: q_def)
      qed
      have "ct \<le> Term (lg ! q)" using log_ok_terms_mono [OF okl lo, of v q] v(2) \<open>v < q\<close> q(2) by simp
      with ne have "ct < Term (lg ! q)" by (simp add: ct_def q_def)
      then have "\<not> q < w" using w(3) by (metis not_le)
      with True w(4) q(3) show ?thesis by auto
    qed
  qed
qed

subsection \<open>The loop returns\<close>

lemma loop_returns:
  assumes "myRole rf = Leader" and "\<not> killed rf" and "tables_ok rf" and "0 \<le> p" "p < npeers rf"
    and "logs_ok e L" and "L (currentTerm rf) = Some (log rf)" and "log rf \<noteq> []"
    and "Term (last (log rf)) = currentTerm rf"
    and "0 \<le> commitIndex rf" "commitIndex rf \<le> lastApplied rf"
    and "1 \<le> nextIndex rf ! nat p" "nextIndex rf ! nat p \<le> len (log rf) + 1"
    and "log_ok L (log f)" and "\<forall>x \<in> set (log f). Term x \<le> currentTerm rf"
    and "currentTerm f \<le> currentTerm rf" and "0 \<le> lastApplied f"
    and "nextIndex rf ! nat p \<le> int k"
  shows "\<exists>rf' f'. sendAppendEntriesToOnePeer k now p rf f = Some (rf', f', True) \<and>
    take (length (log rf)) (log f') = log rf \<and> matchIndex rf' ! nat p = len (log rf) \<and>
    nextIndex rf' ! nat p = len (log rf) + 1 \<and> log rf' = log rf"
  using assms(1-5,7-)
proof (induction k arbitrary: rf f)
  case 0
  then show ?case by simp
next
  case (Suc k)
  note lead = Suc.prems(1) and tab = Suc.prems(3) and p = Suc.prems(4,5) and own = Suc.prems(6)
    and ni = Suc.prems(11,12) and okf = Suc.prems(13) and ctf = Suc.prems(15)
  define a where "a = append_args rf (nextIndex rf ! nat p)"
  have send: "sendAppend p rf = Some (Some a)"
    unfolding a_def using tab p by (intro sendAppend_leader [OF lead Suc.prems(2) _ _ ni]) (auto simp: tables_ok_def)
  have okl: "log_ok L (log rf)" using assms(6) own by (simp add: logs_ok_def)
  have prev: "0 \<le> aea_PrevLogIndex a" "aea_PrevLogIndex a \<le> len (log rf)"
    and pt: "0 < aea_PrevLogIndex a \<Longrightarrow> aea_PrevLogTerm a = Term (log rf ! nat (aea_PrevLogIndex a - 1))"
    and ta: "aea_Term a = currentTerm rf" and pi: "aea_PrevLogIndex a = nextIndex rf ! nat p - 1"
    using ni by (auto simp: a_def append_args_def)
  have le: "currentTerm f \<le> aea_Term a" using ctf ta by simp
  show ?case
  proof (cases "prev_matches a (log f)")
    case True
    define r where "r = aea_PrevLogIndex a + len (aea_Entries a)"
    have r: "r = len (log rf)" unfolding r_def a_def using append_args_reach [OF ni] .
    have args: "args_ok L a"
      using own ni by (auto simp: args_ok_def a_def append_args_def diff_diff_eq)
    have reach: "reach a = length (log rf)" using r prev(1) by (simp add: r_def)
    obtain reply f' where app: "AppendEntries now a f = Some (reply, f')"
      using AppendEntries_total [OF prev(1) Suc.prems(16)] by blast
    from app prev(1) Suc.prems(16) have acc: "f' = after_install a (recognise_leader now a f)"
      "aer_Success reply" "aer_Term reply = currentTerm rf"
      using le True ta by (cases rule: AppendEntries_cases; simp)+
    have logf: "take (length (log rf)) (log f') = log rf"
      using merged_log_matches(1) [OF okf okl _ args True] own ta reach by (simp add: acc(1))
    obtain c where h: "handleAppendReply p a reply rf = Some (after_ack p r c rf, False)"
      using handleAppendReply_success [OF eq_refl [OF acc(3)] ta [symmetric] lead acc(2) tab p
          Suc.prems(9,10)]
      unfolding r_def by blast
    have "nat p < length (matchIndex rf)" "nat p < length (nextIndex rf)"
      using tab p by (auto simp: tables_ok_def)
    with logf show ?thesis by (simp add: send app h r)
  next
    case False
    have app: "AppendEntries now a f = Some (conflict_reply a (log f), recognise_leader now a f)"
      using AppendEntries_reject [OF le False prev(1)] .
    have ct: "aer_Term (conflict_reply a (log f)) \<le> currentTerm rf"
      by (simp add: conflict_reply_term ta)
    have h: "handleAppendReply p a (conflict_reply a (log f)) rf =
        Some (after_backoff p (conflict_reply a (log f)) rf, True)"
      using handleAppendReply_backoff [OF ct _ lead _ tab p] ta by simp
    have "backoff_index (conflict_reply a (log f)) (log rf) \<noteq> None"
    proof
      let ?r = "conflict_reply a (log f)" and ?q = "nat (aea_PrevLogIndex a - 1)"
      assume "backoff_index ?r (log rf) = None"
      then have gt: "\<not> aer_ConflictTerm ?r \<le> 0" and all: "\<forall>x \<in> set (log rf). Term x \<le> aer_ConflictTerm ?r"
        by (auto simp: backoff_index_def find_next_index_None_iff split: if_splits)
      from gt have in_f: "aea_PrevLogIndex a \<le> len (log f)"
        by (auto simp: conflict_reply_term split: if_splits)
      then have pos: "0 < aea_PrevLogIndex a"
        and ne: "Term (log f ! ?q) \<noteq> Term (log rf ! ?q)" and ctq: "aer_ConflictTerm ?r = Term (log f ! ?q)"
        using False prev(1) pt by (auto simp: prev_matches_def conflict_reply_term)
      have q: "?q < length (log f)" "?q < length (log rf)" using pos in_f prev(2) by auto
      have "currentTerm rf \<le> aer_ConflictTerm ?r"
        using all Suc.prems(7,8) by (metis last_in_set)
      moreover have "Term (log f ! ?q) \<le> currentTerm rf" using Suc.prems(14) q(1) by simp
      ultimately have "Term (log f ! ?q) = currentTerm rf" using ctq by simp
      then have "take (Suc ?q) (log f) = take (Suc ?q) (log rf)"
        using log_ok_at [OF okf q(1)] own by (metis option.inject)
      then have "log f ! ?q = log rf ! ?q" by (metis lessI take_eq_imp_nth)
      with ne show False by simp
    qed
    then obtain m where m: "backoff_index (conflict_reply a (log f)) (log rf) = Some m" by blast
    have mb: "1 \<le> m" "m \<le> aea_PrevLogIndex a"
      using backoff_progress [OF assms(6) okl okf prev(2) pt prev(1) False m] by auto
    define rf1 where "rf1 = after_backoff p (conflict_reply a (log f)) rf"
    define f1 where "f1 = recognise_leader now a f"
    have len: "nat p < length (nextIndex rf)" using tab p by (auto simp: tables_ok_def)
    have ni1: "nextIndex rf1 ! nat p = m"
      using m len by (simp add: rf1_def after_backoff_def)
    have rf1: "myRole rf1 = Leader" "killed rf1 = killed rf" "tables_ok rf1" "npeers rf1 = npeers rf"
      "currentTerm rf1 = currentTerm rf" "log rf1 = log rf" "commitIndex rf1 = commitIndex rf"
      "lastApplied rf1 = lastApplied rf"
      using lead tab by (simp_all add: rf1_def killed_def tables_ok_def)
    have f1: "log f1 = log f" "currentTerm f1 = currentTerm rf" "lastApplied f1 = lastApplied f"
      using recognise_leader_state(1) [OF le] ta by (simp_all add: f1_def)
    have "\<exists>rf' f'. sendAppendEntriesToOnePeer k now p rf1 f1 = Some (rf', f', True) \<and>
      take (length (log rf1)) (log f') = log rf1 \<and> matchIndex rf' ! nat p = len (log rf1) \<and>
      nextIndex rf' ! nat p = len (log rf1) + 1 \<and> log rf' = log rf1"
      using Suc.prems mb pi by (intro Suc.IH) (simp_all add: rf1 f1 ni1)
    then show ?thesis
      by (simp add: send app h rf1(6) flip: rf1_def f1_def)
  qed
qed

text \<open>C9. Replication converges: if the leader's log ends with an entry of its own term and the
  peer's term is not ahead, the retry loop against an answering peer returns after at most
  \<open>nextIndex[peer]\<close> rounds; then the peer's log starts with the leader's whole log and the
  leader's tables say so.\<close>

theorem replication_converges:
  assumes "reachable n s" and "i \<in> members n" and "j \<in> members n"
    and "myRole (nodes s i) = Leader" and "\<not> killed (nodes s i)"
    and "currentTerm (nodes s j) \<le> currentTerm (nodes s i)"
    and "log (nodes s i) \<noteq> []" and "Term (last (log (nodes s i))) = currentTerm (nodes s i)"
  shows "\<exists>rf f. sendAppendEntriesToOnePeer (nat (nextIndex (nodes s i) ! nat j)) now j
      (nodes s i) (nodes s j) = Some (rf, f, True) \<and>
    take (length (log (nodes s i))) (log f) = log (nodes s i) \<and>
    matchIndex rf ! nat j = len (log (nodes s i)) \<and> log rf = log (nodes s i)"
proof -
  obtain e L A where inv: "raft_inv n s e L A" using reachable_raft_inv [OF assms(1)] by blast
  note pk = raft_inv_node(1) [OF inv assms(2)] and pj = raft_inv_node(1) [OF inv assms(3)]
    and lj = raft_inv_node(4) [OF inv assms(3)]
  have "leader_ok A i (nodes s i)"
    using raft_inv_node(5) [OF inv assms(2)] assms(4) by (simp add: node_commit_def)
  then have ni: "1 \<le> nextIndex (nodes s i) ! nat j"
    "nextIndex (nodes s i) ! nat j \<le> len (log (nodes s i)) + 1"
    using raft_inv_node(2) [OF inv assms(2)] assms(3) by (auto simp: leader_ok_def)
  have j: "0 \<le> j" "j < npeers (nodes s i)"
    using raft_inv_node(2) [OF inv assms(2)] assms(3) by simp_all
  have "log_ok L (log (nodes s j))" "\<forall>x \<in> set (log (nodes s j)). Term x \<le> currentTerm (nodes s i)"
    using lj assms(6) by (force simp: node_log_ok_def)+
  moreover have "nextIndex (nodes s i) ! nat j \<le> int (nat (nextIndex (nodes s i) ! nat j))" by simp
  moreover have "tables_ok (nodes s i)" using peer_okD(6) [OF pk] assms(4) by simp
  ultimately have "\<exists>rf f. sendAppendEntriesToOnePeer (nat (nextIndex (nodes s i) ! nat j)) now j
      (nodes s i) (nodes s j) = Some (rf, f, True) \<and>
    take (length (log (nodes s i))) (log f) = log (nodes s i) \<and>
    matchIndex rf ! nat j = len (log (nodes s i)) \<and>
    nextIndex rf ! nat j = len (log (nodes s i)) + 1 \<and> log rf = log (nodes s i)"
    by (intro loop_returns [OF assms(4,5) _ j log_invD(1) [OF raft_invD(5) [OF inv]]
        raft_inv_leader(1) [OF inv assms(2,4)] assms(7,8) peer_okD(2,3) [OF pk] ni _ _ assms(6)
        peer_okD(4) [OF pj]])
  then show ?thesis by blast
qed

theorem replication_converges_witness:
  "\<exists>rf f. sendAppendEntriesToOnePeer (nat (nextIndex (nodes committed_cluster 0) ! nat 2)) 500 2
      (nodes committed_cluster 0) (nodes committed_cluster 2) = Some (rf, f, True) \<and>
    take (length (log (nodes committed_cluster 0))) (log f) = log (nodes committed_cluster 0) \<and>
    matchIndex rf ! nat 2 = len (log (nodes committed_cluster 0)) \<and>
    log rf = log (nodes committed_cluster 0)"
proof (rule replication_converges [OF reachable_committed three(1,3)])
  show "\<not> killed (nodes committed_cluster 0)"
    "currentTerm (nodes committed_cluster 2) \<le> currentTerm (nodes committed_cluster 0)"
    by (simp_all add: committed_eval)
qed (simp_all add: committed_state)

subsection \<open>The loop that never returns\<close>

lemma livelock_round:
  assumes "sendAppend p rf = Some (Some a)" and "tables_ok rf" and "0 \<le> p" "p < npeers rf"
    and "currentTerm f \<le> currentTerm rf" and "0 < aea_PrevLogIndex a" "aea_PrevLogIndex a \<le> len (log f)"
    and "Term (log f ! nat (aea_PrevLogIndex a - 1)) \<noteq> aea_PrevLogTerm a"
    and "0 < Term (log f ! nat (aea_PrevLogIndex a - 1))"
    and "\<forall>x \<in> set (log rf). Term x \<le> Term (log f ! nat (aea_PrevLogIndex a - 1))"
  shows "AppendEntries now a f = Some (conflict_reply a (log f), recognise_leader now a f) \<and>
    handleAppendReply p a (conflict_reply a (log f)) rf = Some (rf, True)"
proof -
  from assms(1) have lead: "myRole rf = Leader" "aea_Term a = currentTerm rf"
    by (auto elim!: sendAppend_SomeE simp: append_args_def)
  have rej: "\<not> prev_matches a (log f)" using assms(6,8) by (auto simp: prev_matches_def)
  have app: "AppendEntries now a f = Some (conflict_reply a (log f), recognise_leader now a f)"
    using assms(5,6) lead(2) by (intro AppendEntries_reject rej) auto
  have "backoff_index (conflict_reply a (log f)) (log rf) = None"
    using assms(7,9,10) by (simp add: backoff_index_def conflict_reply_term find_next_index_None_iff)
  then have "after_backoff p (conflict_reply a (log f)) rf = rf" by (simp add: after_backoff_def)
  moreover have "aer_Term (conflict_reply a (log f)) \<le> currentTerm rf"
    by (simp add: conflict_reply_term lead(2))
  ultimately have "handleAppendReply p a (conflict_reply a (log f)) rf = Some (rf, True)"
    using handleAppendReply_backoff [OF _ lead(2) [symmetric] lead(1) conflict_reply_fails assms(2-4)]
    by metis
  with app show ?thesis by blast
qed

text \<open>C10. The back-off can loop forever: if the follower's conflicting entry has a term that no entry
  of the leader exceeds, a round changes neither the leader nor the follower's log, so however many
  rounds are run the function has not returned (until a command is appended, it spins).\<close>

theorem backoff_livelock:
  assumes "sendAppend p rf = Some (Some a)" and "tables_ok rf" and "0 \<le> p" "p < npeers rf"
    and "currentTerm f \<le> currentTerm rf" and "0 < aea_PrevLogIndex a" "aea_PrevLogIndex a \<le> len (log f)"
    and "Term (log f ! nat (aea_PrevLogIndex a - 1)) \<noteq> aea_PrevLogTerm a"
    and "0 < Term (log f ! nat (aea_PrevLogIndex a - 1))"
    and "\<forall>x \<in> set (log rf). Term x \<le> Term (log f ! nat (aea_PrevLogIndex a - 1))"
  shows "\<exists>f'. sendAppendEntriesToOnePeer k now p rf f = Some (rf, f', False) \<and> log f' = log f"
  using assms(5-)
proof (induction k arbitrary: f)
  case (Suc k)
  let ?f = "recognise_leader now a f"
  from assms(1) have "aea_Term a = currentTerm rf" by (auto elim!: sendAppend_SomeE simp: append_args_def)
  then have "currentTerm ?f \<le> currentTerm rf" using Suc.prems(1) by (simp add: recognise_leader_state)
  then have "\<exists>f'. sendAppendEntriesToOnePeer k now p rf ?f = Some (rf, f', False) \<and> log f' = log ?f"
    using Suc.prems by (intro Suc.IH) simp_all
  with livelock_round [OF assms(1-4) Suc.prems, of now] assms(1) show ?case by simp
qed simp


theorem backoff_livelock_witness:
  "\<exists>f'. sendAppendEntriesToOnePeer 1000000 1300 1 (nodes stuck_cluster 0) (nodes stuck_cluster 1) =
      Some (nodes stuck_cluster 0, f', False) \<and> log f' = log (nodes stuck_cluster 1)"
proof (rule backoff_livelock)
  show "sendAppend 1 (nodes stuck_cluster 0) = Some (Some (append_args (nodes stuck_cluster 0) 3))"
    by (subst sendAppend_leader) (simp_all add: stuck_state killed_def)
qed (simp_all add: stuck_state tables_ok_def append_args_def)

text \<open>\<open>matchIndex\<close> is not monotone: in a reachable state of a leader, handling the late answer
  to an older call takes \<open>matchIndex[1]\<close> from 2 back to 1 within the same term, although the
  peer's log holds both entries.\<close>

theorem matchIndex_not_monotone:
  "reachable 3 ahead_cluster \<and> exec (Append_Reply 0) ahead_cluster = Some behind_cluster \<and>
   myRole (nodes ahead_cluster 0) = Leader \<and> myRole (nodes behind_cluster 0) = Leader \<and>
   currentTerm (nodes behind_cluster 0) = currentTerm (nodes ahead_cluster 0) \<and>
   matchIndex (nodes ahead_cluster 0) ! 1 = 2 \<and> matchIndex (nodes behind_cluster 0) ! 1 = 1 \<and>
   length (log (nodes behind_cluster 1)) = 2"
proof -
  have "exec (Append_Reply 0) ahead_cluster = Some behind_cluster"
    using behind_run_Some by (simp del: exec.simps split: option.splits)
  with reachable_ahead ahead_behind_state show ?thesis by blast
qed

end
