(* ===== verification/Raft_Contracts.thy ===== *)
theory Raft_Contracts
  imports Raft_Replication
begin

section \<open>Contracts of the single operations\<close>

text \<open>
  What one call of an operation of \<open>raft.go\<close> or \<open>persister.go\<close> does, on every branch, and
  two statements about the model itself: the executable step function and the step relation
  agree, and the cluster refines the abstract election protocol.
\<close>

subsection \<open>Stable storage\<close>

text \<open>C14. \<open>readPersist\<close> inverts \<open>persist\<close>: from the bytes a peer saved, any other peer object
  reads back the saved term, vote and log, and nothing else of it changes; saving the Raft state
  leaves the snapshot alone.\<close>

theorem persist_roundtrip:
  "readPersist (ReadRaftState (persister (persist rf))) rf0 =
     rf0\<lparr>currentTerm := currentTerm rf, votedFor := votedFor rf, log := log rf\<rparr> \<and>
   ReadSnapshot (persister (persist rf)) = ReadSnapshot (persister rf)"
proof
  show "ReadSnapshot (persister (persist rf)) = ReadSnapshot (persister rf)"
    by (simp add: persist_def ps.snap_save_state)
qed (simp add: ReadRaftState_def)

text \<open>Durability: in every reachable state, whatever was going on, a crash and restart of a peer
  brings back its current term, its vote and its log; only the volatile state is lost.\<close>

theorem crash_loses_nothing_persistent:
  fixes now r :: int
  assumes "reachable n s" and "i \<in> members n"
  defines "rf \<equiv> restart_peer now r (nodes s i)"
  shows "currentTerm rf = currentTerm (nodes s i) \<and> votedFor rf = votedFor (nodes s i) \<and>
    log rf = log (nodes s i) \<and> me rf = i \<and> npeers rf = n \<and> myRole rf = Follower \<and>
    commitIndex rf = 0 \<and> lastApplied rf = 0"
proof -
  obtain e L A where inv: "raft_inv n s e L A" using reachable_raft_inv [OF assms(1)] by blast
  have "in_sync (nodes s i)" using raft_inv_node(1) [OF inv assms(2)] by (simp add: peer_okD)
  from restart_peer_state [OF this, of now r] raft_inv_node(2,3) [OF inv assms(2)]
  show ?thesis by (simp add: rf_def)
qed

theorem crash_loses_nothing_persistent_witness:
  "log (restart_peer 900 5 (nodes committed_cluster 1)) = [\<lparr>Command = 42, Term = 1\<rparr>]"
  using crash_loses_nothing_persistent [OF reachable_committed three(2)] by (simp add: committed_state)

subsection \<open>AppendEntries\<close>

text \<open>The conflict scan and append of steps (6) and (7) compute \<open>merge_entries\<close> of the log
  beyond \<open>prevLogIndex\<close> and the new entries: the log is cut only at a genuine term conflict,
  entries already present are kept, and everything the leader sent is in the result.\<close>

theorem scan_and_append_merge:
  assumes "0 \<le> p" and "p \<le> len lg"
  shows "\<exists>lg' k. scan_entries lg es p 0 = Some (lg', k) \<and> go_from es k = Some (drop (nat k) es) \<and>
    lg' @ drop (nat k) es = take (nat p) lg @ merge_entries (drop (nat p) lg) es \<and>
    map Term (take (length es) (drop (nat p) (lg' @ drop (nat k) es))) = map Term es"
proof -
  obtain lg' k where *: "scan_entries lg es p 0 = Some (lg', k)" "0 \<le> k" "k \<le> len es"
    "lg' @ drop (nat k) es = take (nat p) lg @ merge_entries (drop (nat p) lg) es"
    using scan_entries_merge [of p lg 0 es] assms by auto
  have "drop (nat p) (take (nat p) lg @ merge_entries (drop (nat p) lg) es) =
      merge_entries (drop (nat p) lg) es"
    using assms by simp
  then have "map Term (take (length es) (drop (nat p) (lg' @ drop (nat k) es))) = map Term es"
    unfolding *(4) by (simp only: merge_entries_terms)
  with * show ?thesis by (intro exI [of _ lg'] exI [of _ k]) (simp add: go_from_in)
qed

theorem scan_and_append_merge_witness:
  "\<exists>lg' k. scan_entries [\<lparr>Command = 1, Term = 1\<rparr>, \<lparr>Command = (2::int), Term = 1\<rparr>]
       [\<lparr>Command = 3, Term = 2\<rparr>] 1 0 = Some (lg', k) \<and>
     lg' @ drop (nat k) [\<lparr>Command = 3, Term = 2\<rparr>] = [\<lparr>Command = 1, Term = 1\<rparr>, \<lparr>Command = 3, Term = 2\<rparr>]"
  using scan_and_append_merge [of 1 "[\<lparr>Command = 1, Term = 1\<rparr>, \<lparr>Command = (2::int), Term = 1\<rparr>]"
      "[\<lparr>Command = 3, Term = 2\<rparr>]"] by auto

text \<open>C11. \<open>AppendEntries\<close> on every branch: a stale term is refused without touching the state; a
  failed consistency check leaves the log and the indices alone and reports the conflict; otherwise
  the log is merged, the state persisted, and the commit index moves to the smaller of
  \<open>leaderCommit\<close> and the length of the log, never back.\<close>

theorem AppendEntries_contract:
  assumes "0 \<le> aea_PrevLogIndex a" and "peer_ok rf"
  shows "\<exists>reply rf'. AppendEntries now a rf = Some (reply, rf') \<and> peer_ok rf' \<and>
    (if aea_Term a < currentTerm rf
     then \<not> aer_Success reply \<and> aer_Term reply = currentTerm rf \<and> rf' = rf
     else aer_Term reply = aea_Term a \<and> currentTerm rf' = aea_Term a \<and>
       aer_Success reply = prev_matches a (log rf) \<and>
       (if prev_matches a (log rf)
        then log rf' = merged_log a (log rf) \<and>
          raftstate (persister rf') = encoded_state rf' \<and>
          commitIndex rf' = (if aea_LeaderCommit a > commitIndex rf
            then min (aea_LeaderCommit a) (len (log rf')) else commitIndex rf)
        else log rf' = log rf \<and> commitIndex rf' = commitIndex rf \<and> lastApplied rf' = lastApplied rf \<and>
          (if aea_PrevLogIndex a > len (log rf)
           then aer_ConflictTerm reply = -1 \<and> aer_ConflictIndex reply = len (log rf) + 1
           else aer_ConflictTerm reply = Term (log rf ! nat (aea_PrevLogIndex a - 1)) \<and>
             (\<exists>q < length (log rf). aer_ConflictIndex reply = 1 + int q \<and>
                Term (log rf ! q) = aer_ConflictTerm reply \<and>
                (\<forall>r < q. Term (log rf ! r) \<noteq> aer_ConflictTerm reply)))))"
proof -
  obtain reply rf' where app: "AppendEntries now a rf = Some (reply, rf')"
    using AppendEntries_total [OF assms(1) peer_okD(4) [OF assms(2)]] by blast
  have ok: "peer_ok rf'" by (rule peer_ok_AppendEntries [OF assms(2) app assms(1)])
  from app assms(1) peer_okD(4) [OF assms(2)] show ?thesis
  proof (cases rule: AppendEntries_cases)
    case stale
    with app ok show ?thesis by auto
  next
    case accept
    then have "raftstate (persister rf') = encoded_state rf'"
      by (simp add: after_install_def Let_def encoded_state_def)
    with accept app ok recognise_leader_state(1) [OF accept(1), of now] show ?thesis
      by (auto simp: follower_commit_def)
  next
    case reject
    have idx: "\<exists>q < length (log rf). find_conflict_index (Term (log rf ! nat (aea_PrevLogIndex a - 1))) 1 (log rf) = 1 + int q \<and>
        Term (log rf ! q) = Term (log rf ! nat (aea_PrevLogIndex a - 1)) \<and>
        (\<forall>r < q. Term (log rf ! r) \<noteq> Term (log rf ! nat (aea_PrevLogIndex a - 1)))"
      if "\<not> len (log rf) < aea_PrevLogIndex a"
    proof -
      have "0 < aea_PrevLogIndex a" using reject(2) that assms(1) by (auto simp: prev_matches_def)
      then have "nat (aea_PrevLogIndex a - 1) < length (log rf)" using that by simp
      then show ?thesis
        using find_conflict_index_bounds [of "Term (log rf ! nat (aea_PrevLogIndex a - 1))" 1 "log rf"]
          nth_mem by blast
    qed
    have "aer_ConflictIndex reply = (if len (log rf) < aea_PrevLogIndex a then len (log rf) + 1
        else find_conflict_index (Term (log rf ! nat (aea_PrevLogIndex a - 1))) 1 (log rf))"
      by (simp add: reject(4) conflict_reply_def Let_def)
    with reject(1-3) app ok recognise_leader_state(1) [OF reject(1), of now] idx show ?thesis
      by (simp add: reject(4) conflict_reply_term)
  qed
qed

theorem AppendEntries_contract_witness:
  "\<exists>reply rf'. AppendEntries 900 (append_args (nodes committed_cluster 0) 2) (nodes committed_cluster 1) =
     Some (reply, rf') \<and> aer_Success reply \<and> commitIndex rf' = 1"
proof -
  have "peer_ok (nodes committed_cluster 1)"
    using reachable_static [OF reachable_committed] static_invD(3) [of committed_cluster 1] by simp
  moreover have "currentTerm (nodes committed_cluster 1) = 1" by (simp add: committed_eval)
  ultimately show ?thesis
    using AppendEntries_contract [of "append_args (nodes committed_cluster 0) 2" "nodes committed_cluster 1" 900]
    by (auto simp: append_args_def committed_state prev_matches_def merged_log_def)
qed

subsection \<open>RequestVote\<close>

text \<open>The comparison of logs is a linear order on the positions of their last entries, the term first, then
  the index; \<open>-1\<close> is the term of an empty log.\<close>

datatype position = Position (last_of: int) (length_of: int)

instantiation position :: linorder
begin

definition less_eq_position :: "position \<Rightarrow> position \<Rightarrow> bool" where
  "x \<le> y \<longleftrightarrow> last_of x < last_of y \<or> last_of x = last_of y \<and> length_of x \<le> length_of y"

definition less_position :: "position \<Rightarrow> position \<Rightarrow> bool" where
  "x < y \<longleftrightarrow> last_of x < last_of y \<or> last_of x = last_of y \<and> length_of x < length_of y"

instance
  by standard (auto simp: less_eq_position_def less_position_def position.expand)

end

definition position_of :: "'c Log list \<Rightarrow> position" where
  "position_of lg = Position (last_term lg) (len lg)"

definition claimed_position :: "RequestVoteArgs \<Rightarrow> position" where
  "claimed_position a = Position (rva_LastLogTerm a) (rva_LastLogIndex a)"

lemma up_to_date_le: "up_to_date a lg \<longleftrightarrow> position_of lg \<le> claimed_position a"
  by (auto simp: up_to_date_iff less_eq_position_def position_of_def claimed_position_def)

lemma startVoting_claims: "startVoting rf = Some (a, ps) \<Longrightarrow> claimed_position a = position_of (log rf)"
  by (auto simp: startVoting_def Let_def claimed_position_def position_of_def last_term_def split: if_splits)

text \<open>So the restriction on votes never excludes everybody: in every group of peers there is one whose
  log is up to date for all of them, and as a candidate of a new term it gets every vote.\<close>

lemma somebody_electable:
  assumes "finite S" and "S \<noteq> {}"
  shows "\<exists>i \<in> S. \<forall>j \<in> S. position_of (log (nodes s j)) \<le> position_of (log (nodes s i))"
proof -
  let ?P = "\<lambda>i. position_of (log (nodes s i))"
  have "Max (?P ` S) \<in> ?P ` S" using assms by (intro Max_in) auto
  then obtain i where "i \<in> S" "?P i = Max (?P ` S)" by auto
  moreover have "\<forall>j \<in> S. ?P j \<le> Max (?P ` S)" using assms(1) by (intro ballI Max_ge) auto
  ultimately show ?thesis by (intro bexI [of _ i]) simp_all
qed

lemma best_candidate_wins_votes:
  assumes "finite S" and "S \<noteq> {}"
  obtains i where "i \<in> S" "\<And>a ps j now. startVoting (nodes s i) = Some (a, ps) \<Longrightarrow> j \<in> S \<Longrightarrow>
    currentTerm (nodes s j) < rva_Term a \<Longrightarrow> rvr_VoteGranted (fst (RequestVote now a (nodes s j)))"
proof -
  from somebody_electable [OF assms, of s] obtain i where i: "i \<in> S"
    "\<forall>j \<in> S. position_of (log (nodes s j)) \<le> position_of (log (nodes s i))" by blast
  then have "rvr_VoteGranted (fst (RequestVote now a (nodes s j)))"
    if "startVoting (nodes s i) = Some (a, ps)" "j \<in> S" "currentTerm (nodes s j) < rva_Term a" for a ps j now
    using that startVoting_claims [OF that(1)] by (simp add: RequestVote_reply vote_granted_def up_to_date_le)
  with i(1) show thesis by (rule that)
qed

text \<open>C12. \<open>RequestVote\<close> on every branch: the reply carries the larger term; a vote is granted iff
  the request is not stale, the receiver has not voted for anybody else in that term, and the
  candidate's last log entry is at least as up to date as the receiver's; a granted vote is
  persisted before the reply; the log and the indices are never touched.\<close>

theorem RequestVote_contract:
  assumes "RequestVote now a rf = (reply, rf')"
  shows "rvr_Term reply = max (currentTerm rf) (rva_Term a) \<and> currentTerm rf' = rvr_Term reply \<and>
    (rvr_VoteGranted reply \<longleftrightarrow> currentTerm rf \<le> rva_Term a \<and>
       (currentTerm rf < rva_Term a \<or> votedFor rf = -1 \<or> votedFor rf = rva_CandidateId a) \<and>
       (let t = (if log rf = [] then -1 else Term (last (log rf))) in
          t < rva_LastLogTerm a \<or> t = rva_LastLogTerm a \<and> len (log rf) \<le> rva_LastLogIndex a)) \<and>
    votedFor rf' = (if rvr_VoteGranted reply then rva_CandidateId a
                    else if currentTerm rf < rva_Term a then -1 else votedFor rf) \<and>
    (rvr_VoteGranted reply \<longrightarrow> raftstate (persister rf') = encoded_state rf') \<and>
    log rf' = log rf \<and> commitIndex rf' = commitIndex rf \<and> applyCh rf' = applyCh rf"
proof -
  have eq: "reply = fst (RequestVote now a rf)" "rf' = snd (RequestVote now a rf)" using assms by simp_all
  have "raftstate (persister rf') = encoded_state rf'" if "rvr_VoteGranted reply"
    using that unfolding eq by (auto simp: RequestVote_def Let_def zero_RequestVoteReply_def encoded_state_def)
  then show ?thesis
    unfolding eq RequestVote_reply RequestVote_state
    by (simp add: vote_granted_def up_to_date_def Let_def)
qed

theorem RequestVote_contract_witness:
  "\<not> rvr_VoteGranted (fst (RequestVote 900 \<lparr>rva_Term = 9, rva_CandidateId = 2, rva_LastLogIndex = 0,
     rva_LastLogTerm = -1\<rparr> (nodes committed_cluster 1)))"
  using RequestVote_contract [OF prod.collapse [symmetric], of 900 "\<lparr>rva_Term = 9, rva_CandidateId = 2,
     rva_LastLogIndex = 0, rva_LastLogTerm = -1\<rparr>" "nodes committed_cluster 1"]
  by (simp add: committed_state)

subsection \<open>Committing and applying\<close>

text \<open>C13. The commit rule: after a positive answer the commit index is the largest position above
  the old one that holds an entry of the leader's term and is reached by enough \<open>matchIndex\<close>
  slots, or the old one if there is none; the newly committed entries are then applied in order.\<close>

theorem commit_rule:
  assumes "aer_Term reply \<le> currentTerm rf" and "currentTerm rf = aea_Term a"
    and "myRole rf = Leader" and "aer_Success reply" and "peer_ok rf"
    and "0 \<le> p" and "p < npeers rf"
  defines "m \<equiv> aea_PrevLogIndex a + len (aea_Entries a)"
  defines "mi \<equiv> (matchIndex rf)[nat p := m]"
  defines "ok \<equiv> \<lambda>k. Term (log rf ! nat (k - 1)) = currentTerm rf \<and>
     npeers rf < 2 * (1 + int (card {i \<in> members (npeers rf). k \<le> mi ! nat i}))"
  shows "\<exists>rf'. handleAppendReply p a reply rf = Some (rf', False) \<and>
    matchIndex rf' = mi \<and> nextIndex rf' ! nat p = m + 1 \<and> log rf' = log rf \<and>
    (commitIndex rf' = commitIndex rf \<or>
     commitIndex rf < commitIndex rf' \<and> commitIndex rf' \<le> len (log rf) \<and> ok (commitIndex rf')) \<and>
    (\<forall>k. commitIndex rf < k \<and> k \<le> len (log rf) \<and> ok k \<longrightarrow> k \<le> commitIndex rf') \<and>
    applyCh rf' = applyCh rf @ map (entry_msg (log rf)) [lastApplied rf + 1..commitIndex rf']"
proof -
  have tab: "tables_ok rf" using peer_okD(6) [OF assms(5)] assms(3) by simp
  from handleAppendReply_success [OF assms(1-4) tab assms(6,7) peer_okD(2,3) [OF assms(5)]]
  obtain c where c: "handleAppendReply p a reply rf = Some (after_ack p m c rf, False)"
    "c = commitIndex rf \<or> commitIndex rf < c \<and> c \<le> len (log rf) \<and> ok c"
    "\<forall>k. commitIndex rf < k \<and> k \<le> len (log rf) \<and> ok k \<longrightarrow> k \<le> c"
    by (auto simp: m_def mi_def ok_def may_commit_def replicated_def simp del: in_members)
  have "nat p < length (nextIndex rf)" using tab assms(6,7) by (auto simp: tables_ok_def)
  then have "nextIndex (after_ack p m c rf) ! nat p = m + 1" by simp
  moreover have "applyCh (after_ack p m c rf) =
      applyCh rf @ map (entry_msg (log rf)) [lastApplied rf + 1..c]"
    by (simp add: after_ack_def)
  ultimately show ?thesis using c by (intro exI [of _ "after_ack p m c rf"]) (simp add: mi_def)
qed

theorem commit_rule_witness:
  "\<exists>rf'. handleAppendReply 2 (append_args (nodes committed_cluster 0) 1)
      \<lparr>aer_Term = 1, aer_Success = True, aer_ConflictTerm = 0, aer_ConflictIndex = 0\<rparr>
      (nodes committed_cluster 0) = Some (rf', False) \<and> nextIndex rf' ! 2 = 2"
proof -
  have "peer_ok (nodes committed_cluster 0)" "npeers (nodes committed_cluster 0) = 3"
    using reachable_static [OF reachable_committed] static_invD(1,3) [of committed_cluster 0] by simp_all
  then show ?thesis
    using commit_rule [of "\<lparr>aer_Term = 1, aer_Success = True, aer_ConflictTerm = 0, aer_ConflictIndex = 0\<rparr>"
        "nodes committed_cluster 0" "append_args (nodes committed_cluster 0) 1" 2]
    by (auto simp: committed_state append_args_def)
qed

subsection \<open>The model\<close>

text \<open>The step relation of the cluster is exactly what the executable step function can do.\<close>

lemma cluster_step_iff_exec: "cluster_step s s' \<longleftrightarrow> (\<exists>e. exec e s = Some s')"
  using exec_cluster_step cluster_step_exec by blast

text \<open>C15. Refinement: there is an abstract election run in step with every run of the cluster, in
  which a peer's term, vote and candidacy are the abstract ones and every leader is the abstract
  winner of its term.\<close>

theorem cluster_refines_election:
  assumes "reachable n s" and "cluster_step s s'"
  shows "\<exists>e e'. election_inv n e \<and> election_sim n s e \<and> rtranclp (estep n) e e' \<and>
    election_sim n s' e' \<and>
    (\<forall>i \<in> members n. e_term e' i = currentTerm (nodes s' i) \<and> e_vote e' i = votedFor (nodes s' i) \<and>
       e_cand e' i = (myRole (nodes s' i) = Candidate) \<and>
       (myRole (nodes s' i) = Leader \<longrightarrow> winner e' (currentTerm (nodes s' i)) = Some i))"
proof -
  obtain e L A where inv: "raft_inv n s e L A" using reachable_raft_inv [OF assms(1)] by blast
  obtain e' where e': "rtranclp (estep n) e e'" "election_sim n s' e'"
    using cluster_step_election [OF assms(2) raft_invD(1-4) [OF inv]] by blast
  moreover have "\<forall>i \<in> members n. node_sim e' i (nodes s' i)"
    using e'(2) by (simp add: election_sim_def del: in_members)
  ultimately show ?thesis
    using raft_invD(3,4) [OF inv] unfolding node_sim_def by blast
qed

theorem cluster_refines_election_witness:
  "\<exists>e e'. election_inv 3 e \<and> rtranclp (estep 3) e e' \<and> election_sim 3 (set_node 0 (Kill (nodes elected 0)) elected) e'"
proof -
  have "csize elected = 3" using reachable_static [OF reachable_elected] by simp
  then have "cluster_step elected (set_node 0 (Kill (nodes elected 0)) elected)"
    by (intro cluster_step.kill) simp
  from cluster_refines_election [OF reachable_elected this] show ?thesis by blast
qed

subsection \<open>A cluster of one\<close>

lemma lone_peer:
  "reachable n s \<Longrightarrow> n = 1 \<Longrightarrow> myRole (nodes s 0) \<noteq> Leader"
proof (induction rule: reachable.induct)
  case (start r)
  then show ?case by (simp add: cluster_init_def)
next
  case (step s s')
  obtain e L A where inv: "raft_inv n s e L A" using reachable_raft_inv [OF step.hyps(1)] by blast
  then have st: "static_inv s" "csize s = 1" using step.prems raft_invD(1,2) by auto
  have ok: "peer_ok (nodes s 0)" using static_invD(3) [OF st(1)] st(2) by simp
  have ih: "myRole (nodes s 0) \<noteq> Leader" using step.IH step.prems by simp
  from step.hyps(2) show ?case
  proof (cases rule: cluster_step.cases)
    case (vote_request k rd j now reply rf')
    then have "rf' = snd (RequestVote now (rd_args rd) (nodes s j))" by simp
    with vote_request(1) ih show ?thesis by (auto simp: RequestVote_state split: if_splits)
  next
    case (vote_reply k rd j reply rf' v)
    have "round_ok 1 rd" using static_invD(4) [OF st(1) vote_reply(2)] vote_reply(3) st(2) by simp
    moreover have "rd_calls rd j \<noteq> RV_None" using vote_reply(4) by simp
    ultimately have "j \<in> members 1" "j \<noteq> candidate_of rd" "candidate_of rd \<in> members 1"
      unfolding round_ok_def by blast+
    then show ?thesis by simp
  next
    case (append_request k c now reply rf')
    have "call_ok 1 c" using static_invD(5) [OF st(1) append_request(2)] append_request(3) st(2) by simp
    then show ?thesis by (auto simp: call_ok_def)
  next
    case (append_reply k c reply rf' again)
    have "call_ok 1 c" using static_invD(5) [OF st(1) append_reply(2)] append_reply(3) st(2) by simp
    then show ?thesis by (auto simp: call_ok_def)
  next
    case (client i cmd res rf')
    then have "rf' = snd (Start cmd (nodes s i))" by simp
    with client(1) ih show ?thesis by simp
  next
    case (restart i now r)
    then have "i = 0" by (simp add: st(2))
    with restart(1) show ?thesis
      using restart_peer_state(6) [OF peer_okD(1) [OF ok], of now r] by simp
  qed (use ih in \<open>auto simp: Kill_def\<close>)
qed

text \<open>A cluster of one server never has a leader: the majority is only checked when a vote reply
  arrives, and a lone candidate asks nobody.\<close>

theorem single_server_never_leads:
  assumes "reachable 1 s"
  shows "myRole (nodes s 0) \<noteq> Leader"
  using lone_peer [OF assms refl] .

theorem single_server_never_leads_witness:
  "myRole (nodes (set_node 0 (convertToCandidate 300 5 (nodes (cluster_init 1 (\<lambda>_. 0)) 0))
      (cluster_init 1 (\<lambda>_. 0))) 0) \<noteq> (Leader :: role)"
proof (rule single_server_never_leads)
  let ?s = "cluster_init 1 (\<lambda>_. 0)"
  have "cluster_step ?s (set_node 0 (convertToCandidate 300 5 (nodes ?s 0)) ?s)"
    by (rule cluster_step.timeout) (simp add: cluster_init_def)
  then show "reachable 1 (set_node 0 (convertToCandidate 300 5 (nodes ?s 0)) ?s)"
    by (rule reachable.step [OF reachable.start])
qed

end
