(* ===== verification/Raft_Types.thy ===== *)
theory Raft_Types
  imports Raft_Runs
begin

section \<open>Every reachable state is well typed\<close>

text \<open>
  Go's types say little about the state of a cluster: a vote is an \<open>int\<close>, a log a slice of
  structs, a table a slice of \<open>int\<close>s. This theory gives the state and the messages in flight the
  types they have in the algorithm (\<open>well_typed\<close>): terms of entries start at 1 and never
  decrease along a log, a vote is for a member or is the \<open>-1\<close> of \<open>lab3/raft/raft.go\<close>, leaders
  and candidates voted for themselves, a leader's indices point into its log or just behind it, a
  conflict index lies in the part that was sent. The first half is an invariant of its own
  (\<open>base_inv\<close>); the rest is read off \<open>raft_inv\<close>.
\<close>

subsection \<open>The types\<close>

definition typed_log :: "int \<Rightarrow> 'c Log list \<Rightarrow> bool" where
  "typed_log b lg \<longleftrightarrow> (\<forall>x \<in> set lg. 1 \<le> Term x \<and> Term x \<le> b) \<and> sorted (map Term lg)"

definition typed_tables :: "int \<Rightarrow> 'c raft \<Rightarrow> bool" where
  "typed_tables n rf \<longleftrightarrow> len (nextIndex rf) = n \<and> len (matchIndex rf) = n \<and>
     (\<forall>p \<in> members n. 1 \<le> nextIndex rf ! nat p \<and> nextIndex rf ! nat p \<le> len (log rf) + 1 \<and>
        0 \<le> matchIndex rf ! nat p \<and> matchIndex rf ! nat p \<le> len (log rf))"

definition typed_peer :: "int \<Rightarrow> int \<Rightarrow> 'c raft \<Rightarrow> bool" where
  "typed_peer n i rf \<longleftrightarrow> npeers rf = n \<and> me rf = i \<and> (dead rf = 0 \<or> dead rf = 1) \<and>
     0 \<le> currentTerm rf \<and> (votedFor rf = -1 \<or> votedFor rf \<in> members n) \<and>
     (myRole rf \<noteq> Follower \<longrightarrow> votedFor rf = i \<and> 1 \<le> currentTerm rf) \<and>
     typed_log (currentTerm rf) (log rf) \<and>
     0 \<le> commitIndex rf \<and> commitIndex rf \<le> len (log rf) \<and> lastApplied rf = commitIndex rf \<and>
     applyCh rf = map (entry_msg (log rf)) [1..commitIndex rf] \<and>
     (myRole rf = Leader \<longrightarrow> typed_tables n rf) \<and> in_sync rf"

definition typed_vote_reply :: "RequestVoteArgs \<Rightarrow> RequestVoteReply \<Rightarrow> bool" where
  "typed_vote_reply a r \<longleftrightarrow> rva_Term a \<le> rvr_Term r \<and> (rvr_VoteGranted r \<longrightarrow> rvr_Term r = rva_Term a)"

definition typed_vote_args :: "RequestVoteArgs \<Rightarrow> bool" where
  "typed_vote_args a \<longleftrightarrow> 1 \<le> rva_Term a \<and>
     (if rva_LastLogIndex a = 0 then rva_LastLogTerm a = -1
      else 1 \<le> rva_LastLogIndex a \<and> 1 \<le> rva_LastLogTerm a)"

definition typed_round :: "int \<Rightarrow> round \<Rightarrow> bool" where
  "typed_round n rd \<longleftrightarrow> candidate_of rd \<in> members n \<and> typed_vote_args (rd_args rd) \<and>
     1 \<le> rd_votes rd \<and> rd_votes rd \<le> n \<and>
     (\<forall>j. rd_calls rd j \<noteq> RV_None \<longrightarrow> j \<in> members n \<and> j \<noteq> candidate_of rd) \<and>
     (\<forall>j r. rd_calls rd j = RV_Replied r \<longrightarrow> typed_vote_reply (rd_args rd) r)"

definition typed_append_reply :: "'c AppendEntriesArgs \<Rightarrow> AppendEntriesReply \<Rightarrow> bool" where
  "typed_append_reply a r \<longleftrightarrow>
     (if aer_Success r then aer_Term r = aea_Term a
      else aea_Term a < aer_Term r \<or> aer_Term r = aea_Term a \<and>
        1 \<le> aer_ConflictIndex r \<and> aer_ConflictIndex r \<le> aea_PrevLogIndex a \<and>
        (aer_ConflictTerm r = -1 \<or> 1 \<le> aer_ConflictTerm r))"

definition typed_append_args :: "'c AppendEntriesArgs \<Rightarrow> bool" where
  "typed_append_args a \<longleftrightarrow> 1 \<le> aea_Term a \<and> typed_log (aea_Term a) (aea_Entries a) \<and>
     (if aea_PrevLogIndex a = 0 then aea_PrevLogTerm a = 0
      else 1 \<le> aea_PrevLogIndex a \<and> 1 \<le> aea_PrevLogTerm a \<and> aea_PrevLogTerm a \<le> aea_Term a) \<and>
     0 \<le> aea_LeaderCommit a \<and> aea_LeaderCommit a \<le> aea_PrevLogIndex a + len (aea_Entries a)"

definition typed_call :: "int \<Rightarrow> 'c ae_call \<Rightarrow> bool" where
  "typed_call n c \<longleftrightarrow> ac_src c \<in> members n \<and> ac_dst c \<in> members n \<and> ac_src c \<noteq> ac_dst c \<and>
     aea_LeaderId (ac_args c) = ac_src c \<and> typed_append_args (ac_args c) \<and>
     (\<forall>r. ac_status c = AE_Replied r \<longrightarrow> typed_append_reply (ac_args c) r)"

definition well_typed :: "int \<Rightarrow> 'c cluster \<Rightarrow> bool" where
  "well_typed n s \<longleftrightarrow> csize s = n \<and> (\<forall>i \<in> members n. typed_peer n i (nodes s i)) \<and>
     (\<forall>rd \<in> set (rounds s). typed_round n rd) \<and> (\<forall>c \<in> set (calls s). typed_call n c)"

subsection \<open>The base: what the other invariants do not say\<close>

definition peer_base :: "int \<Rightarrow> 'c raft \<Rightarrow> bool" where
  "peer_base n rf \<longleftrightarrow> (dead rf = 0 \<or> dead rf = 1) \<and> 0 \<le> currentTerm rf \<and>
     (votedFor rf = -1 \<or> votedFor rf \<in> members n) \<and>
     (myRole rf \<noteq> Follower \<longrightarrow> votedFor rf = me rf \<and> 1 \<le> currentTerm rf) \<and>
     (\<forall>x \<in> set (log rf). 1 \<le> Term x) \<and>
     (myRole rf = Leader \<longrightarrow> (\<forall>m \<in> set (matchIndex rf). 0 \<le> m))"

definition append_base :: "'c AppendEntriesArgs \<Rightarrow> bool" where
  "append_base a \<longleftrightarrow> 1 \<le> aea_Term a \<and> (\<forall>x \<in> set (aea_Entries a). 1 \<le> Term x) \<and>
     (if aea_PrevLogIndex a = 0 then aea_PrevLogTerm a = 0
      else 1 \<le> aea_PrevLogIndex a \<and> 1 \<le> aea_PrevLogTerm a)"

definition reply_base :: "'c AppendEntriesArgs \<Rightarrow> AppendEntriesReply \<Rightarrow> bool" where
  "reply_base a r \<longleftrightarrow> aea_Term a \<le> aer_Term r \<and> (aer_Success r \<longrightarrow> aer_Term r = aea_Term a) \<and>
     (\<not> aer_Success r \<longrightarrow> aer_Term r = aea_Term a \<longrightarrow>
        aer_ConflictTerm r = -1 \<or> 1 \<le> aer_ConflictTerm r)"

definition round_base :: "round \<Rightarrow> bool" where
  "round_base rd \<longleftrightarrow> typed_vote_args (rd_args rd) \<and>
     (\<forall>j r. rd_calls rd j = RV_Replied r \<longrightarrow> typed_vote_reply (rd_args rd) r)"

definition call_base :: "'c ae_call \<Rightarrow> bool" where
  "call_base c \<longleftrightarrow> append_base (ac_args c) \<and>
     (\<forall>r. ac_status c = AE_Replied r \<longrightarrow> reply_base (ac_args c) r)"

definition base_inv :: "int \<Rightarrow> 'c cluster \<Rightarrow> bool" where
  "base_inv n s \<longleftrightarrow> (\<forall>i \<in> members n. peer_base n (nodes s i)) \<and>
     (\<forall>rd \<in> set (rounds s). round_base rd) \<and> (\<forall>c \<in> set (calls s). call_base c)"

lemma peer_baseD:
  assumes "peer_base n rf"
  shows "dead rf = 0 \<or> dead rf = 1" "0 \<le> currentTerm rf" "votedFor rf = -1 \<or> votedFor rf \<in> members n"
    "myRole rf \<noteq> Follower \<Longrightarrow> votedFor rf = me rf" "myRole rf \<noteq> Follower \<Longrightarrow> 1 \<le> currentTerm rf"
    "x \<in> set (log rf) \<Longrightarrow> 1 \<le> Term x" "myRole rf = Leader \<Longrightarrow> m \<in> set (matchIndex rf) \<Longrightarrow> 0 \<le> m"
  using assms by (auto simp: peer_base_def)

lemma base_invD:
  assumes "base_inv n s"
  shows "i \<in> members n \<Longrightarrow> peer_base n (nodes s i)"
    "k < length (rounds s) \<Longrightarrow> round_base (rounds s ! k)"
    "k < length (calls s) \<Longrightarrow> call_base (calls s ! k)"
  using assms by (auto simp: base_inv_def)

lemma base_inv_set_node: "base_inv n s \<Longrightarrow> peer_base n rf \<Longrightarrow> base_inv n (set_node i rf s)"
  by (simp add: base_inv_def)

lemma base_inv_set_round: "base_inv n s \<Longrightarrow> round_base rd \<Longrightarrow> base_inv n (set_round k rd s)"
  using set_update_subset_insert [of "rounds s" k rd] by (auto simp: base_inv_def)

lemma base_inv_set_call: "base_inv n s \<Longrightarrow> call_base c \<Longrightarrow> base_inv n (set_call k c s)"
  using set_update_subset_insert [of "calls s" k c] by (auto simp: base_inv_def)

subsection \<open>Every operation keeps the base\<close>

lemma peer_base_convertToFollower:
  "peer_base n rf \<Longrightarrow> 0 \<le> t \<Longrightarrow> v = -1 \<or> v \<in> members n \<Longrightarrow> peer_base n (convertToFollower t v rf)"
  by (auto simp: peer_base_def)

lemma peer_base_convertToCandidate:
  "peer_base n rf \<Longrightarrow> me rf \<in> members n \<Longrightarrow> peer_base n (convertToCandidate now r rf)"
  by (auto simp: peer_base_def)

lemma peer_base_convertToLeader:
  assumes "peer_base n rf" and "myRole rf = Candidate" and "convertToLeader rf = Some rf'"
  shows "peer_base n rf'"
  using assms(3)
proof (rule convertToLeader_SomeE)
  assume "0 \<le> me rf"
    and rf': "rf' = persist (rf\<lparr>myRole := Leader,
      nextIndex := replicate (nat (npeers rf)) (len (log rf) + 1),
      matchIndex := (replicate (nat (npeers rf)) 0)[nat (me rf) := len (log rf)]\<rparr>)"
  have "\<forall>m \<in> set ((replicate (nat (npeers rf)) 0)[nat (me rf) := len (log rf)]). 0 \<le> m"
    using set_update_subset_insert [of "replicate (nat (npeers rf)) (0::int)" "nat (me rf)"] by fastforce
  with assms(1,2) show ?thesis by (auto simp: rf' peer_base_def)
qed

lemma peer_base_Start: "peer_base n rf \<Longrightarrow> peer_base n (snd (Start cmd rf))"
  by (auto simp: peer_base_def Start_log)

lemma peer_base_Kill: "peer_base n rf \<Longrightarrow> peer_base n (Kill rf)"
  by (simp add: peer_base_def Kill_def)

lemma peer_base_RequestVote:
  assumes "peer_base n rf" and "1 \<le> rva_Term args" and "rva_CandidateId args \<in> members n"
    and "rva_CandidateId args \<noteq> me rf" and "me rf \<in> members n"
  shows "peer_base n (snd (RequestVote now args rf))"
  using assms by (auto simp: peer_base_def RequestVote_state vote_granted_def)

lemma peer_base_recognise_leader:
  assumes "peer_base n rf" and "currentTerm rf \<le> aea_Term args" and "aea_LeaderId args \<in> members n"
  shows "peer_base n (recognise_leader now args rf)"
  using assms recognise_leader_state [OF assms(2), of now] by (auto simp: peer_base_def)

lemma peer_base_after_install:
  assumes "peer_base n rf" and "\<forall>x \<in> set (aea_Entries args). 1 \<le> Term x"
  shows "peer_base n (after_install args rf)"
proof -
  have "\<forall>x \<in> set (merged_log args (log rf)). 1 \<le> Term x"
    using assms peer_baseD(6) [OF assms(1)] set_merged_log [of args "log rf"] by blast
  with assms(1) show ?thesis by (simp add: peer_base_def)
qed

lemma conflict_reply_base:
  assumes "\<forall>x \<in> set lg. 1 \<le> Term x" and "\<not> prev_matches args lg" and "0 \<le> aea_PrevLogIndex args"
  shows "reply_base args (conflict_reply args lg)"
  using assms by (auto simp: reply_base_def conflict_reply_def prev_matches_def Let_def)

lemma AppendEntries_base:
  assumes "peer_base n rf" and "AppendEntries now args rf = Some (reply, rf')" and "append_base args"
    and "0 \<le> aea_PrevLogIndex args" and "aea_LeaderId args \<in> members n" and "0 \<le> lastApplied rf"
  shows "peer_base n rf'" "reply_base args reply"
proof -
  have entries: "\<forall>x \<in> set (aea_Entries args). 1 \<le> Term x" using assms(3) by (simp add: append_base_def)
  have "peer_base n rf' \<and> reply_base args reply"
    using assms(2,4,6)
  proof (cases rule: AppendEntries_cases)
    case stale
    with assms(1) show ?thesis by (simp add: reply_base_def)
  next
    case reject
    with assms conflict_reply_base [of "log rf" args] peer_baseD(6) [OF assms(1)] show ?thesis
      by (simp add: peer_base_recognise_leader)
  next
    case accept
    with assms(1,5) entries show ?thesis
      by (simp add: peer_base_recognise_leader peer_base_after_install reply_base_def)
  qed
  then show "peer_base n rf'" "reply_base args reply" by simp_all
qed

lemma peer_base_handleAppendReply:
  assumes "peer_base n rf" and "handleAppendReply p args reply rf = Some (rf', again)"
    and "myRole rf = Leader \<longrightarrow> tables_ok rf" and "0 \<le> p" and "p < npeers rf"
    and "0 \<le> commitIndex rf" and "commitIndex rf \<le> lastApplied rf" and "0 \<le> aea_PrevLogIndex args"
  shows "peer_base n rf'"
  using assms(2-7)
proof (cases rule: handleAppendReply_cases)
  case newer
  with assms(1) peer_baseD(2) [OF assms(1)] show ?thesis by (simp add: peer_base_convertToFollower)
next
  case ignored
  with assms(1) show ?thesis by simp
next
  case (success c)
  have "\<forall>m \<in> set ((matchIndex rf)[nat p := aea_PrevLogIndex args + len (aea_Entries args)]). 0 \<le> m"
    using set_update_subset_insert [of "matchIndex rf" "nat p"] peer_baseD(7) [OF assms(1) success(3)]
      assms(8) by fastforce
  with success(6) assms(1) show ?thesis by (simp add: peer_base_def)
next
  case backoff
  with assms(1) show ?thesis by (auto simp: peer_base_def)
qed

lemma peer_base_handleVoteReply:
  assumes "peer_base n rf" and "handleVoteReply args reply v rf = Some (rf', v')"
  shows "peer_base n rf'"
  using assms(2)
proof (cases rule: handleVoteReply_cases)
  case newer
  with assms(1) peer_baseD(2) [OF assms(1)] show ?thesis by (simp add: peer_base_convertToFollower)
next
  case (elected rf0)
  then have "peer_base n rf0" using peer_base_convertToLeader [OF assms(1)] by blast
  with elected show ?thesis by (simp add: peer_base_def)
qed (use assms(1) in simp_all)

lemma sendAppend_base:
  assumes "peer_base n rf" and "sendAppend j rf = Some (Some args)"
  shows "append_base args"
  using assms(2)
proof (rule sendAppend_SomeE)
  fix ni assume *: "myRole rf = Leader" "1 \<le> ni" "ni \<le> len (log rf) + 1" "args = append_args rf ni"
  have "1 < ni \<Longrightarrow> log rf ! nat (ni - 2) \<in> set (log rf)" using * by (intro nth_mem) auto
  with * peer_baseD(5,6) [OF assms(1)] show ?thesis
    by (auto simp: append_base_def append_args_def dest: in_set_dropD)
qed

lemma startVoting_base:
  assumes "peer_base n rf" and "startVoting rf = Some (args, ps)"
  shows "typed_vote_args args"
  using assms peer_baseD(5,6) [OF assms(1)]
  by (cases "log rf" rule: rev_cases) (auto simp: typed_vote_args_def startVoting_def Let_def split: if_splits)

lemma RequestVote_reply_typed: "typed_vote_reply args (fst (RequestVote now args rf))"
  by (auto simp: typed_vote_reply_def RequestVote_reply vote_granted_def)

lemma peer_base_restart:
  assumes "peer_base n rf" and "in_sync rf"
  shows "peer_base n (restart_peer now r rf)"
  using assms restart_peer_state [OF assms(2), of now r]
  by (auto simp: peer_base_def restart_peer_def)

subsection \<open>The base is an invariant\<close>

lemma base_inv_init: "base_inv n (cluster_init n r)"
  by (auto simp: base_inv_def peer_base_def cluster_init_def Make_def ReadRaftState_def MakePersister_def)

lemma cluster_step_base:
  assumes "cluster_step s s'" and "static_inv s" and "csize s = n" and "base_inv n s"
  shows "base_inv n s'"
  using assms
proof (induction rule: cluster_step.induct)
  case (timeout i s now r)
  then show ?case
    using static_invD(2) [OF timeout.prems(1), of i]
    by (intro base_inv_set_node peer_base_convertToCandidate) (simp_all add: base_invD)
next
  case (voting i s args ps)
  then have "typed_vote_args args" using startVoting_base base_invD(1) by blast
  with voting.prems(3) show ?case
    by (auto simp: base_inv_def round_base_def new_round_def)
next
  case (vote_request k s rd j now reply rf')
  note st = vote_request.prems(1)
  have rd: "round_ok n rd" "round_base rd"
    using vote_request static_invD(4) [OF st] base_invD(2) by auto
  then have j: "j \<in> members n" "candidate_of rd \<in> members n" "j \<noteq> candidate_of rd"
    using vote_request.hyps(3) by (auto simp: round_ok_def)
  have eq: "rf' = snd (RequestVote now (rd_args rd) (nodes s j))"
    "reply = fst (RequestVote now (rd_args rd) (nodes s j))"
    using vote_request.hyps(4) by simp_all
  have "me (nodes s j) = j" using static_invD(2) [OF st] j(1) vote_request.prems(2) by blast
  with j rd(2) vote_request.prems have "peer_base n rf'"
    unfolding eq by (intro peer_base_RequestVote) (auto simp: base_invD round_base_def typed_vote_args_def)
  moreover have "round_base (answer j (RV_Replied reply) rd)"
    using rd(2) by (auto simp: round_base_def eq RequestVote_reply_typed)
  ultimately show ?case by (intro base_inv_set_round base_inv_set_node vote_request.prems(3))
next
  case (vote_reply k s rd j reply rf' v)
  have rd: "round_ok n rd" "round_base rd"
    using vote_reply static_invD(4) [OF vote_reply.prems(1)] base_invD(2) by auto
  then have "peer_base n (nodes s (candidate_of rd))"
    using vote_reply.prems by (simp add: round_ok_def base_invD)
  then have "peer_base n rf'" using vote_reply.hyps(5) by (rule peer_base_handleVoteReply)
  moreover have "round_base (answer j RV_Done (rd\<lparr>rd_votes := v\<rparr>))"
    using rd(2) by (auto simp: round_base_def)
  ultimately show ?case by (intro base_inv_set_round base_inv_set_node vote_reply.prems(3))
next
  case (append_send i s j args)
  then have "append_base args" using sendAppend_base base_invD(1) by blast
  with append_send.prems(3) show ?case by (auto simp: base_inv_def call_base_def)
next
  case (append_request k s c now reply rf')
  note st = append_request.prems(1)
  have c: "call_ok n c" "call_base c"
    using append_request static_invD(5) [OF st] base_invD(3) by auto
  then have dst: "ac_dst c \<in> members n" by (simp add: call_ok_def)
  then have "peer_base n (nodes s (ac_dst c))" "0 \<le> lastApplied (nodes s (ac_dst c))"
    using append_request.prems peer_okD(4) [OF static_invD(3) [OF st, of "ac_dst c"]] base_invD(1)
    by blast+
  with c have "peer_base n rf'" "reply_base (ac_args c) reply"
    using AppendEntries_base [OF _ append_request.hyps(4), of n] by (auto simp: call_ok_def call_base_def)
  moreover from this c(2) have "call_base (c\<lparr>ac_status := AE_Replied reply\<rparr>)"
    by (simp add: call_base_def)
  ultimately show ?case by (intro base_inv_set_call base_inv_set_node append_request.prems(3))
next
  case (append_reply k s c reply rf' again)
  note st = append_reply.prems(1)
  have c: "call_ok n c" "call_base c"
    using append_reply static_invD(5) [OF st] base_invD(3) by auto
  then have src: "ac_src c \<in> members n" by (simp add: call_ok_def)
  have "peer_base n rf'"
    using append_reply.hyps(5)
  proof (rule peer_base_handleAppendReply [rotated])
    show "peer_base n (nodes s (ac_src c))" using append_reply.prems(3) src by (rule base_invD)
    have ok: "peer_ok (nodes s (ac_src c))" "npeers (nodes s (ac_src c)) = n"
      using static_invD(1,3) [OF st, of "ac_src c"] src append_reply.prems(2) by simp_all
    then show "myRole (nodes s (ac_src c)) = Leader \<longrightarrow> tables_ok (nodes s (ac_src c))"
      "0 \<le> commitIndex (nodes s (ac_src c))"
      "commitIndex (nodes s (ac_src c)) \<le> lastApplied (nodes s (ac_src c))"
      by (simp_all add: peer_ok_def)
    show "0 \<le> ac_dst c" "ac_dst c < npeers (nodes s (ac_src c))" "0 \<le> aea_PrevLogIndex (ac_args c)"
      using c(1) ok(2) by (simp_all add: call_ok_def)
  qed
  moreover have "call_base (c\<lparr>ac_status := AE_Done\<rparr>)" using c(2) by (simp add: call_base_def)
  ultimately show ?case by (intro base_inv_set_call base_inv_set_node append_reply.prems(3))
next
  case (client i s cmd res rf')
  then have "rf' = snd (Start cmd (nodes s i))" by simp
  with client show ?case
    by (auto intro!: base_inv_set_node peer_base_Start simp: base_invD)
next
  case (kill i s)
  then show ?case by (intro base_inv_set_node peer_base_Kill) (simp_all add: base_invD)
next
  case (restart i s now r)
  then have "base_inv n (set_node i (restart_peer now r (nodes s i)) s)"
    using peer_okD(1) [OF static_invD(3) [OF restart.prems(1), of i]]
    by (intro base_inv_set_node peer_base_restart) (simp_all add: base_invD)
  then show ?case by (simp add: base_inv_def)
qed

lemma reachable_base: "reachable n s \<Longrightarrow> base_inv n s"
proof (induction rule: reachable.induct)
  case (start r)
  show ?case by (rule base_inv_init)
next
  case (step s s')
  from step.hyps(1) have "static_inv s" "csize s = n" using reachable_static by blast+
  with step.hyps(2) show ?case using step.IH by (rule cluster_step_base)
qed

subsection \<open>The types of every reachable state\<close>

lemma log_ok_sorted: "log_ok L lg \<Longrightarrow> logs_ok e L \<Longrightarrow> sorted (map Term lg)"
  by (auto simp: sorted_iff_nth_mono intro: log_ok_terms_mono)

lemma leader_tables_typed:
  assumes inv: "raft_inv n s e L A" and "peer_base n (nodes s i)" and i: "i \<in> members n"
    and lead: "myRole (nodes s i) = Leader"
  shows "typed_tables n (nodes s i)"
proof -
  let ?rf = "nodes s i"
  have com: "node_commit n A L i ?rf" and acks: "acks_ok n A L (\<lambda>j. currentTerm (nodes s j))"
    using inv i by (auto simp: raft_inv_def commit_inv_def)
  have ids: "npeers ?rf = n" and tab: "tables_ok ?rf"
    using static_invD(1,3) [of s i] inv i lead by (auto simp: raft_inv_def peer_ok_def)
  have ok: "leader_ok A i ?rf" using com lead by (simp add: node_commit_def)
  have L: "L (currentTerm ?rf) = Some (log ?rf)"
    using leader_log [of n s e L i] inv i lead by (simp add: raft_inv_def)
  have len: "len (nextIndex ?rf) = n" "len (matchIndex ?rf) = n"
    using tab ids by (simp_all add: tables_ok_def)
  have low: "0 \<le> matchIndex ?rf ! nat p" if "p \<in> members n" for p
    using that len(2) by (intro peer_baseD(7) [OF assms(2) lead] nth_mem) auto
  have high: "matchIndex ?rf ! nat p \<le> len (log ?rf)" if p: "p \<in> members n" for p
  proof (cases "p = i \<or> matchIndex ?rf ! nat p \<le> 0")
    case True
    with ok show ?thesis by (auto simp: leader_ok_def)
  next
    case False
    with ok p ids have "acked A p (currentTerm ?rf) (nat (matchIndex ?rf ! nat p))"
      by (simp add: leader_ok_def)
    then obtain m where "L (currentTerm ?rf) = Some m" "nat (matchIndex ?rf ! nat p) \<le> length m"
      using acks_ok_acked [OF acks] by metis
    with L show ?thesis by simp
  qed
  show ?thesis
    unfolding typed_tables_def using len low high ok ids by (simp add: leader_ok_def)
qed

lemma reachable_typed_peer:
  assumes inv: "raft_inv n s e L A" and "base_inv n s" and i: "i \<in> members n"
  shows "typed_peer n i (nodes s i)"
proof -
  let ?rf = "nodes s i"
  have base: "peer_base n ?rf" using assms(2) i by (rule base_invD)
  have log: "node_log_ok L ?rf" "logs_ok e L" using inv i by (auto simp: raft_inv_def log_inv_def)
  have com: "node_commit n A L i ?rf" using inv i by (auto simp: raft_inv_def commit_inv_def)
  have ids: "npeers ?rf = n" "me ?rf = i" "in_sync ?rf"
    using static_invD(1-3) [of s i] inv i by (auto simp: raft_inv_def peer_ok_def)
  have "sorted (map Term (log ?rf))" using log by (auto simp: node_log_ok_def intro: log_ok_sorted)
  then have "typed_log (currentTerm ?rf) (log ?rf)"
    using log(1) peer_baseD(6) [OF base] by (simp add: typed_log_def node_log_ok_def)
  moreover have "myRole ?rf = Leader \<longrightarrow> typed_tables n ?rf"
    using leader_tables_typed [OF inv base i] by blast
  moreover have "0 \<le> commitIndex ?rf" "commitIndex ?rf \<le> len (log ?rf)"
    "lastApplied ?rf = commitIndex ?rf" "applyCh ?rf = map (entry_msg (log ?rf)) [1..commitIndex ?rf]"
    using com by (simp_all add: node_commit_def commit_ok_def delivered_def)
  ultimately show ?thesis
    unfolding typed_peer_def using peer_baseD(1-5) [OF base] ids by simp
qed

text \<open>A round counts one vote of its own and at most one of every other member.\<close>

lemma round_votes_bound:
  assumes "round_sim e rd" and "round_ok n rd"
  shows "1 \<le> rd_votes rd" "rd_votes rd \<le> n"
proof -
  obtain S where S: "finite S" "\<forall>j \<in> S. rd_calls rd j = RV_Done" "rd_votes rd = 1 + int (card S)"
    using assms(1) by (auto simp: round_sim_def Let_def)
  have cand: "0 \<le> candidate_of rd" "candidate_of rd < n" using assms(2) by (auto simp: round_ok_def)
  have "j \<in> {0..<n} - {candidate_of rd}" if "j \<in> S" for j
  proof -
    have "rd_calls rd j \<noteq> RV_None" using S(2) that by simp
    with assms(2) show ?thesis by (auto simp: round_ok_def)
  qed
  then have "S \<subseteq> {0..<n} - {candidate_of rd}" by blast
  then have "card S \<le> card ({0..<n} - {candidate_of rd})" by (rule card_mono [rotated]) simp
  with cand S(3) show "1 \<le> rd_votes rd" "rd_votes rd \<le> n" by simp_all
qed

lemma reachable_typed_round:
  assumes inv: "raft_inv n s e L A" and "base_inv n s" and rd: "rd \<in> set (rounds s)"
  shows "typed_round n rd"
proof -
  have "round_sim e rd" "round_ok n rd" "round_base rd"
    using inv assms(2) rd by (auto simp: raft_inv_def election_sim_def static_inv_def base_inv_def)
  then show ?thesis
    using round_votes_bound [of e rd n] by (simp add: typed_round_def round_ok_def round_base_def)
qed

lemma reachable_typed_call:
  assumes inv: "raft_inv n s e L A" and "base_inv n s" and c: "c \<in> set (calls s)"
  shows "typed_call n c"
proof -
  let ?a = "ac_args c"
  have ok: "call_ok n c" "call_base c" "args_ok L ?a" "call_commit n A L c" and logs: "logs_ok e L"
    using inv assms(2) c
    by (auto simp: raft_inv_def static_inv_def base_inv_def log_inv_def commit_inv_def)
  have base: "append_base ?a" using ok(2) by (simp add: call_base_def)
  obtain m where m: "L (aea_Term ?a) = Some m" "aea_PrevLogIndex ?a + len (aea_Entries ?a) \<le> len m"
    "aea_Entries ?a = take (length (aea_Entries ?a)) (drop (nat (aea_PrevLogIndex ?a)) m)"
    "0 < aea_PrevLogIndex ?a \<longrightarrow> aea_PrevLogTerm ?a = Term (m ! nat (aea_PrevLogIndex ?a - 1))"
    using ok(3) by (auto simp: args_ok_def)
  have le: "\<forall>x \<in> set m. Term x \<le> aea_Term ?a" and so: "sorted (map Term m)"
    using logs m(1) log_ok_sorted [OF _ logs, of m] by (auto simp: logs_ok_def)
  have "set (aea_Entries ?a) \<subseteq> set m" by (subst m(3)) (auto dest: in_set_takeD in_set_dropD)
  moreover have "sorted (map Term (aea_Entries ?a))"
    by (subst m(3)) (simp add: so sorted_wrt_take sorted_wrt_drop flip: take_map drop_map)
  ultimately have entries: "typed_log (aea_Term ?a) (aea_Entries ?a)"
    using le base by (auto simp: typed_log_def append_base_def)
  have prev: "aea_PrevLogTerm ?a \<le> aea_Term ?a" if "1 \<le> aea_PrevLogIndex ?a"
  proof -
    have "m ! nat (aea_PrevLogIndex ?a - 1) \<in> set m" using that m(2) by (intro nth_mem) auto
    with le m(4) that show ?thesis by simp
  qed
  have "commit_ok n A L (aea_LeaderCommit ?a) (take (reach ?a) m) (aea_Term ?a)" "reach ?a \<le> length m"
    using ok(4) m(1) by (auto simp: call_commit_def Let_def)
  then have commit: "0 \<le> aea_LeaderCommit ?a"
    "aea_LeaderCommit ?a \<le> aea_PrevLogIndex ?a + len (aea_Entries ?a)"
    using ok(1) by (auto simp: commit_ok_def call_ok_def)
  have "typed_append_args ?a"
    using base entries prev commit by (auto simp: typed_append_args_def append_base_def)
  moreover have "typed_append_reply ?a r" if "ac_status c = AE_Replied r" for r
    using ok(2,4) that by (auto simp: typed_append_reply_def call_base_def reply_base_def call_commit_def Let_def)
  ultimately show ?thesis using ok(1) by (simp add: typed_call_def call_ok_def)
qed

text \<open>C6. In every state that a cluster can reach, the peers and the messages in flight are well typed:
  the terms of a log start at 1, never decrease and stay below the peer's term; a vote is for a member
  or is \<open>-1\<close>, and leaders and candidates voted for themselves; what has been applied is exactly the
  committed part of the log; a leader's tables have one slot per peer, \<open>nextIndex\<close> between 1
  and one behind the log, \<open>matchIndex\<close> within the log; a round counts between one and \<open>n\<close> votes; a
  call carries a commit index that its entries reach, and a refusal names a conflict index inside what
  precedes the entries.
\<close>

theorem reachable_well_typed:
  assumes "reachable n s"
  shows "well_typed n s"
proof -
  obtain e L A where inv: "raft_inv n s e L A" using reachable_raft_inv [OF assms] by blast
  have base: "base_inv n s" using assms by (rule reachable_base)
  have "csize s = n" using inv by (simp add: raft_inv_def)
  then show ?thesis
    unfolding well_typed_def
    using reachable_typed_peer [OF inv base] reachable_typed_round [OF inv base]
      reachable_typed_call [OF inv base] by blast
qed

text \<open>The leader of \<open>stuck_cluster\<close> holds entries of term 1 in term 3; its tables are in range.\<close>

theorem reachable_well_typed_witness:
  "well_typed 3 stuck_cluster \<and> myRole (nodes stuck_cluster 0) = Leader \<and>
   nextIndex (nodes stuck_cluster 0) = [3, 3, 3] \<and> len (log (nodes stuck_cluster 0)) = 2"
  using reachable_well_typed [OF reachable_stuck] by (simp add: stuck_state)

end
