(* ===== verification/Raft_Replica.thy ===== *)
theory Raft_Replica
  imports Raft_Properties "HOL-Library.Sublist"
begin

section \<open>The cluster is one replicated log\<close>

text \<open>
  What a service on top of Raft needs: behind the crashes, elections and retries there is one log of
  commands that only grows, every peer hands out a prefix of it, and nothing enters it that no client
  proposed. The locale \<open>ordered_delivery\<close> is the interface: replicas that agree on each position, in one
  state and over time. Its lemmas build the log (\<open>history\<close>) and run a state machine on it; the
  interpretation is the cluster of \<open>Raft_Cluster\<close>.
\<close>

subsection \<open>The longest of a set of comparable lists\<close>

definition longer :: "'a list \<Rightarrow> 'a list \<Rightarrow> 'a list" where
  "longer xs ys = (if length xs < length ys then ys else xs)"

definition longest :: "'a list list \<Rightarrow> 'a list" where
  "longest xss = foldl longer [] xss"

lemma longest_snoc [simp]: "longest [] = []" "longest (xss @ [xs]) = longer (longest xss) xs"
  by (simp_all add: longest_def)

lemma longest_in: "longest xss = [] \<or> longest xss \<in> set xss"
  by (induction xss rule: rev_induct) (auto simp: longer_def)

lemma longest_length: "xs \<in> set xss \<Longrightarrow> length xs \<le> length (longest xss)"
  by (induction xss rule: rev_induct) (auto simp: longer_def)

lemma longest_append_length: "length (longest xss) \<le> length (longest (xss @ yss))"
  by (induction yss rule: rev_induct) (auto simp: longer_def simp flip: append_assoc)

lemma prefix_nthI:
  assumes "length xs \<le> length ys" and "\<And>k. k < length xs \<Longrightarrow> xs ! k = ys ! k"
  shows "prefix xs ys"
proof -
  have "xs = take (length xs) ys" using assms by (intro nth_equalityI) auto
  then show ?thesis by (metis take_is_prefix)
qed

subsection \<open>Replicas that agree\<close>

locale ordered_delivery =
  fixes reach :: "'s \<Rightarrow> bool" and steps :: "'s \<Rightarrow> 's \<Rightarrow> bool"
    and reps :: "'r list" and given :: "'s \<Rightarrow> 'r \<Rightarrow> 'm list"
  assumes steps_refl: "steps s s"
    and agree: "reach s \<Longrightarrow> steps s s' \<Longrightarrow> r \<in> set reps \<Longrightarrow> r' \<in> set reps \<Longrightarrow>
      k < length (given s r) \<Longrightarrow> k < length (given s' r') \<Longrightarrow> given s r ! k = given s' r' ! k"
begin

text \<open>A part of a run: reachable states, each before the next.\<close>

definition in_order :: "'s list \<Rightarrow> bool" where
  "in_order ss \<longleftrightarrow> (\<forall>s \<in> set ss. reach s) \<and> sorted_wrt steps ss"

definition all_given :: "'s list \<Rightarrow> 'm list list" where
  "all_given ss = concat (map (\<lambda>s. map (given s) reps) ss)"

definition history :: "'s list \<Rightarrow> 'm list" where
  "history ss = longest (all_given ss)"

lemma all_given_iff: "xs \<in> set (all_given ss) \<longleftrightarrow> (\<exists>s \<in> set ss. \<exists>r \<in> set reps. xs = given s r)"
  by (auto simp: all_given_def)

lemma in_order_cases:
  assumes "in_order ss" and "s \<in> set ss" and "s' \<in> set ss"
  shows "reach s \<and> reach s' \<and> (steps s s' \<or> steps s' s)"
proof -
  obtain i j where ij: "i < length ss" "s = ss ! i" "j < length ss" "s' = ss ! j"
    using assms(2,3) by (metis in_set_conv_nth)
  have "steps (ss ! i) (ss ! j)" if "i < j" "j < length ss" for i j
    using assms(1) that by (auto simp: in_order_def sorted_wrt_iff_nth_less)
  then have "steps s s' \<or> steps s' s" using ij steps_refl by (cases i j rule: linorder_cases) auto
  with assms show ?thesis by (simp add: in_order_def)
qed

lemma given_agree:
  assumes "in_order ss" and "xs \<in> set (all_given ss)" and "ys \<in> set (all_given ss)"
    and "k < length xs" and "k < length ys"
  shows "xs ! k = ys ! k"
proof -
  obtain s r s' r' where x: "s \<in> set ss" "r \<in> set reps" "xs = given s r"
    and y: "s' \<in> set ss" "r' \<in> set reps" "ys = given s' r'"
    using assms(2,3) by (auto simp: all_given_iff)
  from in_order_cases [OF assms(1) x(1) y(1)] show ?thesis
    using agree [of s s' r r' k] agree [of s' s r' r k] x y assms(4,5) by auto
qed

text \<open>Every list that a replica has handed out is a prefix of the history, which only grows.\<close>

lemma given_prefix_history:
  assumes "in_order ss" and "s \<in> set ss" and "r \<in> set reps"
  shows "prefix (given s r) (history ss)"
proof -
  have g: "given s r \<in> set (all_given ss)" using assms(2,3) by (auto simp: all_given_iff)
  then have len: "length (given s r) \<le> length (history ss)" by (simp add: history_def longest_length)
  show ?thesis
  proof (rule prefix_nthI [OF len])
    fix k assume k: "k < length (given s r)"
    with len have "history ss \<in> set (all_given ss)"
      using longest_in [of "all_given ss"] by (auto simp: history_def)
    with g k len show "given s r ! k = history ss ! k" by (intro given_agree [OF assms(1)]) simp_all
  qed
qed

lemma history_grows:
  assumes "in_order (ss @ ts)"
  shows "prefix (history ss) (history (ss @ ts))"
proof (cases "history ss = []")
  case False
  then have "history ss \<in> set (all_given ss)" using longest_in [of "all_given ss"] by (simp add: history_def)
  then have "history ss \<in> set (all_given (ss @ ts))" by (simp add: all_given_def)
  then show ?thesis using given_prefix_history [OF assms] by (auto simp: all_given_iff)
qed simp

text \<open>A state machine that applies what its replica hands out: replicas are at the same state once they have
  applied as many commands, and one that is behind gets to the state of the other by the commands it
  still lacks.\<close>

definition machine :: "('q \<Rightarrow> 'm \<Rightarrow> 'q) \<Rightarrow> 'q \<Rightarrow> 's \<Rightarrow> 'r \<Rightarrow> 'q" where
  "machine ap q0 s r = foldl ap q0 (given s r)"

lemma machine_catches_up:
  assumes "reach s" and "steps s s'" and "r \<in> set reps" and "r' \<in> set reps"
    and "length (given s r) \<le> length (given s' r')"
  shows "machine ap q0 s' r' = foldl ap (machine ap q0 s r) (drop (length (given s r)) (given s' r'))"
proof -
  have "prefix (given s r) (given s' r')"
    using assms agree [OF assms(1-4)] by (intro prefix_nthI) auto
  then obtain zs where "given s' r' = given s r @ zs" by (auto simp: prefix_def)
  then show ?thesis by (simp add: machine_def)
qed

lemma machines_agree:
  assumes "reach s" and "steps s s'" and "r \<in> set reps" and "r' \<in> set reps"
    and "length (given s r) = length (given s' r')"
  shows "machine ap q0 s' r' = machine ap q0 s r"
  using machine_catches_up [OF assms(1-4)] assms(5) by simp

end

subsection \<open>The cluster hands out one log\<close>

definition commands :: "'c cluster \<Rightarrow> int \<Rightarrow> 'c list" where
  "commands s i = map msg_Command (applyCh (nodes s i))"

lemma commands_nth:
  assumes "raft_inv n s e L A" and "i \<in> members n" and "k < length (commands s i)"
  shows "CommandIndex (applyCh (nodes s i) ! k) = int k + 1" "k < length (log (nodes s i))"
    "commands s i ! k = Command (log (nodes s i) ! k)"
proof -
  let ?rf = "nodes s i"
  have d: "applyCh ?rf = map (entry_msg (log ?rf)) [1..commitIndex ?rf]" "commitIndex ?rf \<le> len (log ?rf)"
    using raft_inv_commit [OF assms(1,2)] by (auto simp: delivered_def commit_ok_def)
  then have k: "int k < commitIndex ?rf" using assms(3) by (simp add: commands_def)
  then have "[1..commitIndex ?rf] ! k = 1 + int k" by (intro nth_upto) simp
  with k d show "CommandIndex (applyCh ?rf ! k) = int k + 1" "k < length (log ?rf)"
    "commands s i ! k = Command (log ?rf ! k)"
    by (auto simp: commands_def entry_msg_def)
qed

lemma commands_agree:
  assumes "reachable n s" and "cluster_steps s s'" and "i \<in> members n" and "j \<in> members n"
    and "k < length (commands s i)" and "k < length (commands s' j)"
  shows "commands s i ! k = commands s' j ! k"
proof -
  obtain e L A where inv: "raft_inv n s e L A" using reachable_raft_inv [OF assms(1)] by blast
  obtain e' L' A' where inv': "raft_inv n s' e' L' A'"
    using reachable_raft_inv [OF reachable_steps [OF assms(2,1)]] by blast
  have "applyCh (nodes s i) ! k = applyCh (nodes s' j) ! k"
    using commands_nth(1) [OF inv assms(3,5)] commands_nth(1) [OF inv' assms(4,6)] assms(5,6)
    by (intro deliveries_agree [OF assms(1-3) _ assms(4)]) (simp_all add: commands_def)
  with assms(5,6) show ?thesis by (simp add: commands_def)
qed

interpretation raft: ordered_delivery "reachable n" cluster_steps "[0..n - 1]" commands for n
proof
  show "cluster_steps s s" for s :: "'c cluster" by simp
  show "commands s r ! k = commands s' r' ! k"
    if "reachable n s" "cluster_steps s s'" "r \<in> set [0..n - 1]" "r' \<in> set [0..n - 1]"
      "k < length (commands s r)" "k < length (commands s' r')" for s s' :: "'c cluster" and r r' k
    using that by (intro commands_agree [where n = n]) auto
qed

text \<open>The states of a run of the executable cluster.\<close>

fun trace :: "'c event list \<Rightarrow> 'c cluster \<Rightarrow> 'c cluster list" where
  "trace [] s = [s]"
| "trace (e # es) s = s # (case exec e s of None \<Rightarrow> [] | Some s' \<Rightarrow> trace es s')"

lemma trace_states: "t \<in> set (trace es s) \<Longrightarrow> cluster_steps s t"
proof (induction es s rule: trace.induct)
  case (2 e es s)
  show ?case
  proof (cases "exec e s")
    case (Some s')
    then have "cluster_step s s'" by (rule exec_cluster_step)
    with 2 Some show ?thesis by (auto intro: converse_rtranclp_into_rtranclp)
  qed (use 2 in simp)
qed simp

lemma trace_sorted: "sorted_wrt cluster_steps (trace es s)"
proof (induction es s rule: trace.induct)
  case (2 e es s)
  show ?case
  proof (cases "exec e s")
    case (Some s')
    then have "\<forall>t \<in> set (trace es s'). cluster_steps s t"
      using exec_cluster_step trace_states by (metis converse_rtranclp_into_rtranclp)
    with 2 Some show ?thesis by simp
  qed simp
qed simp

lemma trace_in_order: "raft.in_order n (trace es (cluster_init n r))"
  unfolding raft.in_order_def using trace_sorted trace_states reachable_steps [OF _ reachable.start] by blast

lemma trace_nth:
  "k < length (trace es s) \<Longrightarrow> k \<le> length es \<and> run (take k es) s = Some (trace es s ! k)"
proof (induction es s arbitrary: k rule: trace.induct)
  case (2 e es s)
  then show ?case by (cases k) (auto split: option.splits)
qed simp

lemma trace_length: "run es s = Some t \<Longrightarrow> length (trace es s) = Suc (length es)"
  by (induction es arbitrary: s) (auto split: option.splits)

subsection \<open>Nothing is made up\<close>

definition proposed :: "'c event list \<Rightarrow> 'c set" where
  "proposed es = {cmd. \<exists>i. Client i cmd \<in> set es}"

text \<open>The commands in the logs of the peers and in the calls in flight.\<close>

definition held :: "'c cluster \<Rightarrow> 'c set" where
  "held s = (\<Union>i \<in> members (csize s). Command ` set (log (nodes s i))) \<union>
     (\<Union>c \<in> set (calls s). Command ` set (aea_Entries (ac_args c)))"

lemma held_log: "i \<in> members (csize s) \<Longrightarrow> Command ` set (log (nodes s i)) \<subseteq> held s"
  by (auto simp: held_def)

lemma held_entries: "k < length (calls s) \<Longrightarrow> Command ` set (aea_Entries (ac_args (calls s ! k))) \<subseteq> held s"
  using nth_mem [of k "calls s"] unfolding held_def by blast

lemma held_sub_iff: "held s \<subseteq> X \<longleftrightarrow>
    (\<forall>i \<in> members (csize s). \<forall>x \<in> set (log (nodes s i)). Command x \<in> X) \<and>
    (\<forall>c \<in> set (calls s). \<forall>x \<in> set (aea_Entries (ac_args c)). Command x \<in> X)"
  unfolding held_def by blast

lemma held_set_node:
  "held s \<subseteq> X \<Longrightarrow> Command ` set (log rf) \<subseteq> X \<Longrightarrow> held (set_node i rf s) \<subseteq> X"
  by (simp add: held_sub_iff image_subset_iff)

lemma held_set_round [simp]: "held (set_round k rd s) = held s"
  by (simp add: held_def)

lemma held_set_call:
  assumes "held s \<subseteq> X" and "Command ` set (aea_Entries (ac_args c)) \<subseteq> X"
  shows "held (set_call k c s) \<subseteq> X"
  using assms set_update_subset_insert [of "calls s" k c] by (auto simp: held_sub_iff image_subset_iff)

lemma AppendEntries_held:
  assumes "AppendEntries now args rf = Some (reply, rf')" and "0 \<le> aea_PrevLogIndex args" and "0 \<le> lastApplied rf"
  shows "set (log rf') \<subseteq> set (log rf) \<union> set (aea_Entries args)"
  using assms
proof (cases rule: AppendEntries_cases)
  case accept
  then show ?thesis using set_merged_log [of args "log rf"] by simp
qed simp_all

lemma handleVoteReply_log: "handleVoteReply args reply v rf = Some (rf', v') \<Longrightarrow> log rf' = log rf"
  by (cases rule: handleVoteReply_cases) (auto elim!: convertToLeader_SomeE)

lemma handleAppendReply_log:
  assumes "handleAppendReply p args reply rf = Some (rf', again)" and "peer_ok rf" and "0 \<le> p" and "p < npeers rf"
  shows "log rf' = log rf"
  using assms(1) peer_okD(6) [OF assms(2)] assms(3,4) peer_okD(2,3) [OF assms(2)]
  by (cases rule: handleAppendReply_cases) simp_all

text \<open>The handlers move commands around; only \<open>Start\<close> adds one.\<close>

lemma exec_held:
  assumes "exec e s = Some s'" and "static_inv s"
  shows "held s' \<subseteq> held s \<union> proposed [e]"
proof -
  have quiet: "held s' \<subseteq> held s" if "\<And>i cmd. e \<noteq> Client i cmd"
  proof (cases e)
    case (Timeout i now r)
    with assms(1) held_set_node [of s "held s" "convertToCandidate now r (nodes s i)" i] held_log [of i s]
    show ?thesis by (simp split: if_splits)
  next
    case (Voting i)
    with assms(1) show ?thesis by (auto simp: held_def split: if_splits option.splits)
  next
    case (Vote_Request k j now)
    with assms(1) have k: "k < length (rounds s)" "rd_calls (rounds s ! k) j = RV_Sent"
      by (auto simp: Let_def split: if_splits)
    let ?rf = "snd (RequestVote now (rd_args (rounds s ! k)) (nodes s j))"
    from k assms(1) Vote_Request have s': "held s' = held (set_node j ?rf s)"
      by (auto simp: Let_def split: prod.splits)
    have "j \<in> members (csize s)" using static_invD(4) [OF assms(2) k(1)] k(2) by (auto simp: round_ok_def)
    from held_log [OF this] show ?thesis unfolding s' by (intro held_set_node) simp_all
  next
    case (Vote_Reply k j)
    with assms(1) obtain reply rf v rd where r: "k < length (rounds s)"
      "handleVoteReply (rd_args (rounds s ! k)) reply (rd_votes (rounds s ! k)) (nodes s (candidate_of (rounds s ! k))) = Some (rf, v)"
      "s' = set_round k rd (set_node (candidate_of (rounds s ! k)) rf s)"
      by (auto simp: Let_def split: if_splits rv_call.splits option.splits)
    then have c: "candidate_of (rounds s ! k) \<in> members (csize s)"
      using static_invD(4) [OF assms(2)] by (simp add: round_ok_def)
    from r(3) handleVoteReply_log [OF r(2)] held_log [OF c] show ?thesis
      using held_set_node [of s "held s" rf "candidate_of (rounds s ! k)"] by simp
  next
    case (Append_Send i j)
    with assms(1) obtain args c where i: "i \<in> members (csize s)" "sendAppend j (nodes s i) = Some (Some args)"
      "s' = s\<lparr>calls := calls s @ [c]\<rparr>" "ac_args c = args"
      by (auto split: if_splits option.splits)
    then have "set (aea_Entries args) \<subseteq> set (log (nodes s i))"
      by (auto simp: append_args_def elim!: sendAppend_SomeE dest: in_set_dropD)
    then have "Command ` set (aea_Entries args) \<subseteq> held s" using held_log [OF i(1)] by blast
    with i(3,4) show ?thesis by (auto simp: held_def)
  next
    case (Append_Request k now)
    with assms(1) obtain reply rf where k: "k < length (calls s)"
      "AppendEntries now (ac_args (calls s ! k)) (nodes s (ac_dst (calls s ! k))) = Some (reply, rf)"
      "s' = set_call k ((calls s ! k)\<lparr>ac_status := AE_Replied reply\<rparr>) (set_node (ac_dst (calls s ! k)) rf s)"
      by (auto simp: Let_def split: if_splits option.splits)
    have c: "call_ok (csize s) (calls s ! k)" by (rule static_invD(5) [OF assms(2) k(1)])
    then have dst: "ac_dst (calls s ! k) \<in> members (csize s)" by (simp add: call_ok_def)
    have "set (log rf) \<subseteq> set (log (nodes s (ac_dst (calls s ! k)))) \<union> set (aea_Entries (ac_args (calls s ! k)))"
      using c peer_okD(4) [OF static_invD(3) [OF assms(2) dst]]
      by (intro AppendEntries_held [OF k(2)]) (simp_all add: call_ok_def)
    then have "Command ` set (log rf) \<subseteq> held s" using held_log [OF dst] held_entries [OF k(1)] by blast
    then have "held (set_node (ac_dst (calls s ! k)) rf s) \<subseteq> held s" by (intro held_set_node) simp_all
    then show ?thesis using held_entries [OF k(1)] unfolding k(3) by (intro held_set_call) simp_all
  next
    case (Append_Reply k)
    with assms(1) obtain reply rf again where k: "k < length (calls s)"
      "handleAppendReply (ac_dst (calls s ! k)) (ac_args (calls s ! k)) reply (nodes s (ac_src (calls s ! k))) = Some (rf, again)"
      "s' = set_call k ((calls s ! k)\<lparr>ac_status := AE_Done\<rparr>) (set_node (ac_src (calls s ! k)) rf s)"
      by (auto simp: Let_def split: if_splits ae_status.splits option.splits)
    have c: "call_ok (csize s) (calls s ! k)" by (rule static_invD(5) [OF assms(2) k(1)])
    then have src: "ac_src (calls s ! k) \<in> members (csize s)" by (simp add: call_ok_def)
    have "0 \<le> ac_dst (calls s ! k)" "ac_dst (calls s ! k) < npeers (nodes s (ac_src (calls s ! k)))"
      using c static_invD(1) [OF assms(2) src] by (simp_all add: call_ok_def)
    from handleAppendReply_log [OF k(2) static_invD(3) [OF assms(2) src] this] held_log [OF src]
    have "held (set_node (ac_src (calls s ! k)) rf s) \<subseteq> held s" by (intro held_set_node) simp_all
    then show ?thesis using held_entries [OF k(1)] unfolding k(3) by (intro held_set_call) simp_all
  next
    case (Kill_Peer i)
    with assms(1) held_set_node [of s "held s" "Kill (nodes s i)" i] held_log [of i s] show ?thesis
      by (auto simp: Kill_def split: if_splits)
  next
    case (Restart i now r)
    with assms(1) have i: "i \<in> members (csize s)" and
      s': "s' = (set_node i (restart_peer now r (nodes s i)) s)\<lparr>incs := (incs s)(i := Suc (incs s i))\<rparr>"
      by (auto split: if_splits)
    have "log (restart_peer now r (nodes s i)) = log (nodes s i)"
      using restart_peer_state(3) [OF peer_okD(1) [OF static_invD(3) [OF assms(2) i]]] .
    with held_log [OF i] have "held (set_node i (restart_peer now r (nodes s i)) s) \<subseteq> held s"
      by (intro held_set_node) simp_all
    then show ?thesis by (simp add: s' held_def)
  qed (use that in simp)
  show ?thesis
  proof (cases "\<exists>i cmd. e = Client i cmd")
    case True
    then obtain i cmd where e: "e = Client i cmd" by blast
    with assms(1) have i: "i \<in> members (csize s)" "s' = set_node i (snd (Start cmd (nodes s i))) s"
      by (auto split: if_splits)
    have "Command ` set (log (snd (Start cmd (nodes s i)))) \<subseteq> held s \<union> proposed [e]"
      using held_log [OF i(1)] by (auto simp: Start_log proposed_def e)
    then show ?thesis unfolding i(2) by (intro held_set_node) simp_all
  qed (use quiet in blast)
qed

lemma run_held:
  assumes "run es s = Some t" and "reachable n s"
  shows "held t \<subseteq> held s \<union> proposed es"
  using assms
proof (induction es arbitrary: s)
  case (Cons e es)
  then obtain s' where s': "exec e s = Some s'" "run es s' = Some t" by (auto split: option.splits)
  have "reachable n s'" using Cons.prems(2) exec_cluster_step [OF s'(1)] by (rule reachable.step)
  from Cons.IH [OF s'(2) this] exec_held [OF s'(1)] reachable_static [OF Cons.prems(2)]
  show ?case by (auto simp: proposed_def)
qed simp

lemma commands_held:
  assumes "reachable n s" and "i \<in> members n"
  shows "set (commands s i) \<subseteq> held s"
proof
  fix c assume "c \<in> set (commands s i)"
  then obtain k where k: "k < length (commands s i)" "c = commands s i ! k" by (auto simp: in_set_conv_nth)
  obtain e L A where inv: "raft_inv n s e L A" using reachable_raft_inv [OF assms(1)] by blast
  have "csize s = n" using inv by (simp add: raft_inv_def)
  with commands_nth(2,3) [OF inv assms(2) k(1)] k(2) assms(2) held_log [of i s] show "c \<in> held s" by auto
qed

subsection \<open>The replicated log\<close>

text \<open>The log that the cluster has agreed on after \<open>k\<close> events of a run: the longest list of commands that any
  peer has handed out so far.\<close>

definition agreed_log :: "int \<Rightarrow> (int \<Rightarrow> int) \<Rightarrow> 'c event list \<Rightarrow> nat \<Rightarrow> 'c list" where
  "agreed_log n r es k = raft.history n (take (Suc k) (trace es (cluster_init n r)))"

lemma agreed_log_proposed:
  fixes es :: "'c event list"
  assumes "run es (cluster_init n r) = Some s"
  shows "set (agreed_log n r es k) \<subseteq> proposed (take k es)"
proof (cases "agreed_log n r es k = []")
  case False
  let ?T = "trace es (cluster_init n r)"
  from False longest_in [of "raft.all_given n (take (Suc k) ?T)"]
  obtain t i where t: "t \<in> set (take (Suc k) ?T)" "i \<in> set [0..n - 1]" "agreed_log n r es k = commands t i"
    by (auto simp: agreed_log_def raft.history_def raft.all_given_iff)
  then obtain j where j: "j < length ?T" "j \<le> k" "t = ?T ! j" by (auto simp: in_set_conv_nth)
  from trace_nth [OF j(1)] j(3) have run: "run (take j es) (cluster_init n r) = Some t" by simp
  have "held (cluster_init n r :: 'c cluster) = {}"
    by (auto simp: held_def cluster_init_def Make_def ReadRaftState_def MakePersister_def)
  with run_held [OF run reachable.start] have "held t \<subseteq> proposed (take j es)" by simp
  moreover have "proposed (take j es) \<subseteq> proposed (take k es)"
    using set_take_subset_set_take [OF j(2), of es] by (auto simp: proposed_def)
  moreover have "set (commands t i) \<subseteq> held t"
    using t(2) by (intro commands_held [OF run_reachable [OF run reachable.start]]) auto
  ultimately show ?thesis using t(3) by simp
qed simp

text \<open>C3. The cluster refines an append-only log. Along every run there is one log, empty at first, that
  every event of the run extends or leaves alone; at any time every peer has handed a prefix of it to its
  service, crashed and restarted peers included, and all its commands have been proposed to \<open>Start\<close>
  before. So the state machines of two services that have applied equally many commands, at any two
  times, are in the same state.\<close>

theorem cluster_is_replicated_log:
  assumes "run es (cluster_init n r) = Some s"
  defines "states \<equiv> trace es (cluster_init n r)" and "lg \<equiv> agreed_log n r es"
  shows "length states = Suc (length es) \<and> lg 0 = [] \<and>
    (\<forall>k < length es. prefix (lg k) (lg (Suc k))) \<and>
    (\<forall>k \<le> length es. set (lg k) \<subseteq> proposed (take k es) \<and>
       (\<forall>i \<in> members n. prefix (commands (states ! k) i) (lg k))) \<and>
    (\<forall>k \<le> length es. \<forall>k' \<le> length es. \<forall>i \<in> members n. \<forall>j \<in> members n.
       length (commands (states ! k) i) = length (commands (states ! k') j) \<longrightarrow>
       foldl ap q (commands (states ! k) i) = foldl ap q (commands (states ! k') j))"
proof -
  have len: "length states = Suc (length es)" unfolding states_def by (rule trace_length [OF assms(1)])
  have ord: "raft.in_order n (take k states)" for k
  proof -
    have "raft.in_order n states" unfolding states_def by (rule trace_in_order)
    then show ?thesis
      using sorted_wrt_take [of cluster_steps states k] by (auto simp: raft.in_order_def dest: in_set_takeD)
  qed
  have lg: "lg k = raft.history n (take (Suc k) states)" for k by (simp add: lg_def agreed_log_def states_def)
  have proposed: "set (lg k) \<subseteq> proposed (take k es)" for k
    unfolding lg_def by (rule agreed_log_proposed [OF assms(1)])
  have pre: "prefix (commands (states ! j) i) (lg k)" if "j \<le> k" "k \<le> length es" "i \<in> members n" for i j k
    unfolding lg using that len
    by (intro raft.given_prefix_history [OF ord]) (auto simp: in_set_conv_nth intro!: exI [of _ j])
  have grows: "prefix (lg k) (lg (Suc k))" if "k < length es" for k
  proof -
    have eq: "take (Suc (Suc k)) states = take (Suc k) states @ [states ! Suc k]"
      using that len by (simp add: take_Suc_conv_app_nth)
    show ?thesis unfolding lg eq by (rule raft.history_grows) (simp only: eq [symmetric] ord)
  qed
  have same: "foldl ap q (commands (states ! k) i) = foldl ap q (commands (states ! k') j)"
    if "k \<le> length es" "k' \<le> length es" "i \<in> members n" "j \<in> members n"
      "length (commands (states ! k) i) = length (commands (states ! k') j)" for k k' i j
  proof -
    have "prefix (commands (states ! k) i) (lg (length es))" "prefix (commands (states ! k') j) (lg (length es))"
      using that by (auto intro: pre)
    with that(5) have "commands (states ! k) i = commands (states ! k') j" by (metis append_eq_append_conv prefix_def)
    then show ?thesis by simp
  qed
  have "lg 0 = []" using proposed [of 0] by (simp add: proposed_def)
  with len grows proposed pre same show ?thesis by blast
qed

text \<open>The run of three peers that commits the command 42: the log at its end.\<close>

theorem cluster_is_replicated_log_witness:
  "\<exists>lg :: nat list. prefix (commands committed_cluster 0) lg \<and> prefix (commands committed_cluster 1) lg \<and>
     set lg \<subseteq> proposed (election_run @ replication_run) \<and> commands committed_cluster 0 = [42]"
proof -
  let ?es = "election_run @ replication_run"
  have "run (es @ fs) s = (case run es s of None \<Rightarrow> None | Some t \<Rightarrow> run fs t)" for es fs :: "nat event list" and s
    by (induction es arbitrary: s) (auto split: option.splits)
  with elected_run committed_run have run: "run ?es (cluster_init 3 (\<lambda>i. 10 * i)) = Some committed_cluster"
    by (simp add: three_peers_def)
  note w = cluster_is_replicated_log [OF run, where ap = "(+)" and q = 0]
  let ?S = "trace ?es (cluster_init 3 (\<lambda>i. 10 * i))" and ?L = "agreed_log 3 (\<lambda>i. 10 * i) ?es (length ?es)"
  from w have L: "set ?L \<subseteq> proposed (take (length ?es) ?es)"
    "\<forall>i \<in> members 3. prefix (commands (?S ! length ?es) i) ?L" by blast+
  have last: "?S ! length ?es = committed_cluster"
    using trace_nth [of "length ?es" ?es "cluster_init 3 (\<lambda>i. 10 * i)"] run trace_length [OF run] by simp
  show ?thesis
  proof (intro exI conjI)
    show "prefix (commands committed_cluster 0) ?L" "prefix (commands committed_cluster 1) ?L"
      using L(2) three(1,2) unfolding last by blast+
    show "set ?L \<subseteq> proposed ?es" using L(1) by (simp only: take_all order_refl)
    show "commands committed_cluster 0 = [42]" by (simp add: commands_def committed_state)
  qed
qed

end
