(* ===== verification/Raft_Roles.thy ===== *)
theory Raft_Roles
  imports Raft_Properties
begin

section \<open>The control loops: timers, channels and the lock\<close>

text \<open>
  Each peer of \<open>lab3/raft/raft.go\<close> has a goroutine that runs \<open>startRoles\<close> and, from it,
  \<open>startFollower\<close>, \<open>startCandidate\<close> and \<open>startLeader\<close>. This theory adds them to the cluster of
  \<open>Raft_Cluster\<close>: where the loop of each peer stands, whether it has kept \<open>rf.mu\<close>, what it has taken
  from its two channels, which goroutines it has started, and a clock in milliseconds. In the cluster the election timer
  may fire at any moment; here it fires where the code lets it.

  Every other critical section takes and releases \<open>rf.mu\<close> within one step, so the lock is held
  between steps only where the loop returns without releasing it.
\<close>

subsection \<open>The loop of one peer\<close>

text \<open>The next statement of the loop. A wait holds the time at which its timer fires.\<close>

datatype place =
    Roles_Top | Roles_Lock
  | Follower_Lock | Follower_Wait int | Follower_Fire
  | Candidate_Lock | Candidate_Wait int | Candidate_Fire
  | Leader_Top | Leader_Lock | Leader_Send | Leader_Sleep int
  | Returned

text \<open>The fields \<open>resetTimerCh\<close> and \<open>voteSuccessCh\<close> of a peer count the goroutines that were started
  to send; those that have not been received from yet are the difference to the numbers here.
  \<open>voters\<close> counts the goroutines that are about to run \<open>startVoting\<close>, \<open>senders\<close> lists the peers of
  those about to run an iteration of \<open>sendAppendEntriesToOnePeer\<close>. \<open>timer_starts\<close> is the history of
  the times at which a new election timeout was generated, the latest first.\<close>

record control =
  place :: place
  locked :: bool
  reset_taken :: nat
  success_taken :: nat
  voters :: nat
  senders :: "int list"
  timer_starts :: "int list"

definition control_init :: "int \<Rightarrow> control" where
  "control_init now = \<lparr>place = Roles_Top, locked = False, reset_taken = 0, success_taken = 0,
     voters = 0, senders = [], timer_starts = [now]\<rparr>"

text \<open>\<open>timeout := rf.electionTimeout - time.Since(rf.lastHeartbeat)\<close>, as the time when it is over.\<close>

definition fires_at :: "int \<Rightarrow> 'c raft \<Rightarrow> int" where
  "fires_at now rf = (let timeout = electionTimeout rf - (now - lastHeartbeat rf) in now + timeout)"

text \<open>The steps of the four functions; \<open>None\<close> when the goroutine is blocked, or is elsewhere.
  \<open>startCandidate\<close> returns with the lock when the role has changed.\<close>

fun startRoles :: "place \<Rightarrow> 'c raft \<Rightarrow> control \<Rightarrow> control option" where
  "startRoles Roles_Top rf c = Some (c\<lparr>place := (if killed rf then Returned else Roles_Lock)\<rparr>)"
| "startRoles Roles_Lock rf c =
     (if locked c then None
      else Some (c\<lparr>place := (case myRole rf of
          Follower \<Rightarrow> Follower_Lock | Candidate \<Rightarrow> Candidate_Lock | Leader \<Rightarrow> Leader_Top)\<rparr>))"
| "startRoles _ rf c = None"

fun startFollower :: "int \<Rightarrow> int \<Rightarrow> place \<Rightarrow> 'c raft \<Rightarrow> control \<Rightarrow> ('c raft \<times> control) option" where
  "startFollower now r Follower_Lock rf c =
     (if locked c then None
      else if myRole rf \<noteq> Follower then Some (rf, c\<lparr>place := Roles_Top\<rparr>)
      else Some (rf, c\<lparr>place := Follower_Wait (fires_at now rf)\<rparr>))"
| "startFollower now r Follower_Fire rf c =
     (if locked c then None
      else Some (convertToCandidate now r rf, c\<lparr>place := Roles_Top, timer_starts := now # timer_starts c\<rparr>))"
| "startFollower now r _ rf c = None"

fun startCandidate :: "int \<Rightarrow> int \<Rightarrow> place \<Rightarrow> 'c raft \<Rightarrow> control \<Rightarrow> ('c raft \<times> control) option" where
  "startCandidate now r Candidate_Lock rf c =
     (if locked c then None
      else if myRole rf \<noteq> Candidate then Some (rf, c\<lparr>place := Roles_Top, locked := True\<rparr>)
      else Some (rf, c\<lparr>place := Candidate_Wait (fires_at now rf), voters := Suc (voters c)\<rparr>))"
| "startCandidate now r Candidate_Fire rf c =
     (if locked c then None
      else Some (convertToCandidate now r rf, c\<lparr>place := Roles_Top, timer_starts := now # timer_starts c\<rparr>))"
| "startCandidate now r _ rf c = None"

fun startLeader :: "int \<Rightarrow> place \<Rightarrow> 'c raft \<Rightarrow> control \<Rightarrow> control option" where
  "startLeader now Leader_Top rf c = Some (c\<lparr>place := (if killed rf then Roles_Top else Leader_Lock)\<rparr>)"
| "startLeader now Leader_Lock rf c =
     (if locked c then None
      else Some (c\<lparr>place := (if myRole rf \<noteq> Leader then Roles_Top else Leader_Send)\<rparr>))"
| "startLeader now Leader_Send rf c =
     Some (c\<lparr>place := Leader_Sleep (now + 100), senders := senders c @ other_peers rf\<rparr>)"
| "startLeader now (Leader_Sleep t) rf c = (if t \<le> now then Some (c\<lparr>place := Leader_Top\<rparr>) else None)"
| "startLeader now _ rf c = None"

text \<open>The goroutine's next step, outside the two \<open>select\<close> statements.\<close>

definition main_step :: "int \<Rightarrow> int \<Rightarrow> 'c raft \<Rightarrow> control \<Rightarrow> ('c raft \<times> control) option" where
  "main_step now r rf c =
     (case startRoles (place c) rf c of
        Some c' \<Rightarrow> Some (rf, c')
      | None \<Rightarrow>
          (case startLeader now (place c) rf c of
             Some c' \<Rightarrow> Some (rf, c')
           | None \<Rightarrow>
               (case startFollower now r (place c) rf c of
                  Some p \<Rightarrow> Some p
                | None \<Rightarrow> startCandidate now r (place c) rf c)))"

text \<open>The branches of the \<open>select\<close> statements. Go picks any branch that is ready, so a timer that
  has fired may win over a waiting sender.\<close>

datatype branch = Vote_Success | Reset_Timer | Election_Timeout

fun select_step :: "int \<Rightarrow> branch \<Rightarrow> 'c raft \<Rightarrow> control \<Rightarrow> control option" where
  "select_step now Vote_Success rf c =
     (case place c of
        Candidate_Wait t \<Rightarrow>
          if success_taken c < voteSuccessCh rf
          then Some (c\<lparr>place := Roles_Top, success_taken := Suc (success_taken c)\<rparr>) else None
      | _ \<Rightarrow> None)"
| "select_step now Reset_Timer rf c =
     (if (case place c of Candidate_Wait t \<Rightarrow> True | Follower_Wait t \<Rightarrow> True | _ \<Rightarrow> False) \<and>
         reset_taken c < resetTimerCh rf
      then Some (c\<lparr>place := Roles_Top, reset_taken := Suc (reset_taken c)\<rparr>) else None)"
| "select_step now Election_Timeout rf c =
     (case place c of
        Candidate_Wait t \<Rightarrow> if t \<le> now then Some (c\<lparr>place := Candidate_Fire\<rparr>) else None
      | Follower_Wait t \<Rightarrow> if t \<le> now then Some (c\<lparr>place := Follower_Fire\<rparr>) else None
      | _ \<Rightarrow> None)"

subsection \<open>The system\<close>

record 'c system =
  raft_cluster :: "'c cluster"
  controls :: "int \<Rightarrow> control"
  clock :: int

definition system_init :: "int \<Rightarrow> (int \<Rightarrow> int) \<Rightarrow> 'c system" where
  "system_init n r = \<lparr>raft_cluster = cluster_init n r, controls = (\<lambda>_. control_init 0), clock = 0\<rparr>"

text \<open>The peer whose lock an event of the cluster takes. \<open>Kill\<close> only writes \<open>dead\<close>; a killed peer's
  senders return before they lock.\<close>

fun lock_of :: "'c event \<Rightarrow> 'c cluster \<Rightarrow> int option" where
  "lock_of (Voting i) s = Some i"
| "lock_of (Vote_Request k j now) s = Some j"
| "lock_of (Vote_Reply k j) s = Some (candidate_of (rounds s ! k))"
| "lock_of (Append_Send i j) s = (if killed (nodes s i) then None else Some i)"
| "lock_of (Append_Request k now) s = Some (ac_dst (calls s ! k))"
| "lock_of (Append_Reply k) s = Some (ac_src (calls s ! k))"
| "lock_of (Client i cmd) s = Some i"
| "lock_of _ s = None"

definition lock_free :: "'c event \<Rightarrow> 'c system \<Rightarrow> bool" where
  "lock_free e s = (case lock_of e (raft_cluster s) of None \<Rightarrow> True | Some i \<Rightarrow> \<not> locked (controls s i))"

text \<open>Whether the goroutine that runs the event exists, and whether the event reads the clock. The
  election timer is left to the loop.\<close>

fun ready :: "'c event \<Rightarrow> 'c system \<Rightarrow> bool" where
  "ready (Timeout i now r) s = False"
| "ready (Voting i) s = (0 < voters (controls s i))"
| "ready (Append_Send i j) s = (j \<in> set (senders (controls s i)))"
| "ready (Vote_Request k j now) s = (now = clock s)"
| "ready (Append_Request k now) s = (now = clock s)"
| "ready (Restart i now r) s = (now = clock s \<and> 0 \<le> r \<and> r < 200)"
| "ready _ s = True"

text \<open>An iteration that finds nothing to do ends its goroutine and leaves the cluster as it is; every
  other event is the one of the cluster.\<close>

fun ends :: "'c event \<Rightarrow> 'c cluster \<Rightarrow> bool" where
  "ends (Voting i) s = (i \<in> members (csize s) \<and> startVoting (nodes s i) = None)"
| "ends (Append_Send i j) s = (i \<in> members (csize s) \<and> sendAppend j (nodes s i) = Some None)"
| "ends _ s = False"

definition set_control :: "int \<Rightarrow> control \<Rightarrow> 'c system \<Rightarrow> 'c system" where
  "set_control i c s = s\<lparr>controls := (controls s)(i := c)\<rparr>"

text \<open>The goroutines started and ended by an event: \<open>Start\<close> sends to all peers, a rejected call is
  retried, a restarted peer has a new loop.\<close>

fun goroutines :: "'c event \<Rightarrow> 'c system \<Rightarrow> 'c system" where
  "goroutines (Voting i) s = (let c = controls s i in set_control i (c\<lparr>voters := voters c - 1\<rparr>) s)"
| "goroutines (Append_Send i j) s =
     (let c = controls s i in set_control i (c\<lparr>senders := remove1 j (senders c)\<rparr>) s)"
| "goroutines (Client i cmd) s =
     (let c = controls s i; rf = nodes (raft_cluster s) i in
      if myRole rf \<noteq> Leader then s else set_control i (c\<lparr>senders := senders c @ other_peers rf\<rparr>) s)"
| "goroutines (Append_Reply k) s =
     (let call = calls (raft_cluster s) ! k; i = ac_src call; c = controls s i in
      case ac_status call of
        AE_Replied reply \<Rightarrow>
          (case handleAppendReply (ac_dst call) (ac_args call) reply (nodes (raft_cluster s) i) of
             Some (rf', True) \<Rightarrow> set_control i (c\<lparr>senders := senders c @ [ac_dst call]\<rparr>) s
           | _ \<Rightarrow> s)
      | _ \<Rightarrow> s)"
| "goroutines (Restart i now r) s = set_control i (control_init now) s"
| "goroutines _ s = s"

datatype 'c system_event = Tick int | Main int int | Select int branch | Other "'c event"

fun system_exec :: "'c system_event \<Rightarrow> 'c system \<Rightarrow> 'c system option" where
  "system_exec (Tick d) s = (if 0 \<le> d then Some (s\<lparr>clock := clock s + d\<rparr>) else None)"
| "system_exec (Main i r) s =
     (if i \<in> members (csize (raft_cluster s)) \<and> 0 \<le> r \<and> r < 200 then
        (case main_step (clock s) r (nodes (raft_cluster s) i) (controls s i) of
           None \<Rightarrow> None
         | Some (rf, c) \<Rightarrow> Some ((set_control i c s)\<lparr>raft_cluster := set_node i rf (raft_cluster s)\<rparr>))
      else None)"
| "system_exec (Select i br) s =
     (if i \<in> members (csize (raft_cluster s)) then
        map_option (\<lambda>c. set_control i c s)
          (select_step (clock s) br (nodes (raft_cluster s) i) (controls s i))
      else None)"
| "system_exec (Other e) s =
     (if \<not> ready e s \<or> \<not> lock_free e s then None
      else if ends e (raft_cluster s) then Some (goroutines e s)
      else map_option (\<lambda>cl. (goroutines e s)\<lparr>raft_cluster := cl\<rparr>) (exec e (raft_cluster s)))"

fun system_run :: "'c system_event list \<Rightarrow> 'c system \<Rightarrow> 'c system option" where
  "system_run [] s = Some s"
| "system_run (e # es) s = (case system_exec e s of None \<Rightarrow> None | Some s' \<Rightarrow> system_run es s')"

inductive system_reachable :: "int \<Rightarrow> 'c system \<Rightarrow> bool" for n where
  start: "\<forall>i. 0 \<le> r i \<and> r i < 200 \<Longrightarrow> system_reachable n (system_init n r)"
| step: "system_reachable n s \<Longrightarrow> system_exec e s = Some s' \<Longrightarrow> system_reachable n s'"

lemma system_run_reachable: "system_run es s = Some s' \<Longrightarrow> system_reachable n s \<Longrightarrow> system_reachable n s'"
  by (induction es arbitrary: s) (auto split: option.splits dest: system_reachable.step)

lemma system_run_append:
  "system_run (es @ es') s = (case system_run es s of None \<Rightarrow> None | Some s' \<Rightarrow> system_run es' s')"
  by (induction es arbitrary: s) (auto split: option.splits)

lemma set_control_simps [simp]:
  "raft_cluster (set_control i c s) = raft_cluster s" "clock (set_control i c s) = clock s"
  "controls (set_control i c s) = (controls s)(i := c)"
  by (simp_all add: set_control_def)

lemma goroutines_frame [simp]:
  "raft_cluster (goroutines e s) = raft_cluster s" "clock (goroutines e s) = clock s"
  by (cases e; simp add: Let_def split: ae_status.splits option.splits prod.splits bool.splits)+

lemma set_node_same [simp]: "set_node i (nodes s i) s = s"
  by (simp add: set_node_def)

subsection \<open>The system refines the cluster\<close>

text \<open>A step of the loop changes the peer only where a timer has fired, and then as the cluster's
  timeout does.\<close>

lemma main_step_cases:
  assumes "main_step now r rf c = Some (rf', c')"
  obtains (quiet) "rf' = rf" "timer_starts c' = timer_starts c"
  | (fire) "place c = Follower_Fire \<or> place c = Candidate_Fire" "\<not> locked c"
      "rf' = convertToCandidate now r rf"
      "c' = c\<lparr>place := Roles_Top, timer_starts := now # timer_starts c\<rparr>"
  using assms by (cases "place c") (auto simp: main_step_def split: if_splits)

lemma system_exec_cluster:
  assumes "system_exec e s = Some s'"
  shows "raft_cluster s' = raft_cluster s \<or> cluster_step (raft_cluster s) (raft_cluster s')"
proof (cases e)
  case (Tick d)
  with assms show ?thesis by (auto split: if_splits)
next
  case (Main i r)
  with assms obtain rf c where i: "i \<in> members (csize (raft_cluster s))"
    and m: "main_step (clock s) r (nodes (raft_cluster s) i) (controls s i) = Some (rf, c)"
    and s': "raft_cluster s' = set_node i rf (raft_cluster s)"
    by (auto split: if_splits option.splits)
  from m show ?thesis
  proof (cases rule: main_step_cases)
    case quiet
    then show ?thesis by (simp add: s')
  next
    case fire
    with i show ?thesis unfolding s' by (auto intro: cluster_step.timeout)
  qed
next
  case (Select i br)
  with assms show ?thesis by (auto split: if_splits)
next
  case (Other ev)
  with assms show ?thesis by (auto split: if_splits intro: exec_cluster_step)
qed

text \<open>Everything that is proved of the reachable states of the cluster holds of the system with its
  timers, channels and locks.\<close>

lemma cluster_init_reachable: "reachable n (cluster_init n r)"
  by (rule reachable.start)

lemma system_reachable_cluster: "system_reachable n s \<Longrightarrow> reachable n (raft_cluster s)"
proof (induction rule: system_reachable.induct)
  case (start r)
  show ?case by (simp add: system_init_def cluster_init_reachable)
next
  case (step s e s')
  from system_exec_cluster [OF step.hyps(2)] step.IH show ?case by (auto intro: reachable.step)
qed

subsection \<open>What the handlers do to the timer\<close>

text \<open>No handler generates a new timeout, what it sets \<open>lastHeartbeat\<close> to is the time, and none brings
  a killed peer back.\<close>

definition keeps_timeout :: "int \<Rightarrow> 'c raft \<Rightarrow> 'c raft \<Rightarrow> bool" where
  "keeps_timeout now rf rf' \<longleftrightarrow> electionTimeout rf' = electionTimeout rf \<and>
     (lastHeartbeat rf' = lastHeartbeat rf \<or> lastHeartbeat rf' = now) \<and> (dead rf = 1 \<longrightarrow> dead rf' = 1)"

lemma keeps_timeout_refl [simp]: "keeps_timeout now rf rf"
  by (simp add: keeps_timeout_def)

lemma convertToFollower_timer [simp]:
  "electionTimeout (convertToFollower t v rf) = electionTimeout rf"
  "lastHeartbeat (convertToFollower t v rf) = lastHeartbeat rf"
  by (simp_all add: convertToFollower_def)

lemma apply_committed_timer:
  "apply_committed rf = Some rf' \<Longrightarrow>
   electionTimeout rf' = electionTimeout rf \<and> lastHeartbeat rf' = lastHeartbeat rf \<and> dead rf' = dead rf"
proof (induction rf rule: apply_committed.induct)
  case (1 rf)
  show ?case
  proof (cases "lastApplied rf < commitIndex rf")
    case False
    with "1.prems" show ?thesis by (simp add: apply_committed.simps [of rf])
  next
    case True
    with "1.prems" obtain e where "go_index (log rf) (lastApplied rf) = Some e"
      by (auto simp: apply_committed.simps [of rf] Let_def split: option.splits)
    with "1.IH" [OF True refl, of e] "1.prems" True show ?thesis
      by (simp add: apply_committed.simps [of rf])
  qed
qed

lemma install_entries_timer:
  "install_entries args rf = Some rf' \<Longrightarrow>
   electionTimeout rf' = electionTimeout rf \<and> lastHeartbeat rf' = lastHeartbeat rf \<and> dead rf' = dead rf"
  by (auto simp: install_entries_def Let_def split: bind_splits if_splits prod.splits dest!: apply_committed_timer)

lemma recognise_leader_timer:
  "electionTimeout (recognise_leader now args rf) = electionTimeout rf"
  "lastHeartbeat (recognise_leader now args rf) = now"
  by (simp_all add: recognise_leader_def Let_def resetElectionTimer_def)

lemma AppendEntries_timer:
  "AppendEntries now args rf = Some (reply, rf') \<Longrightarrow> keeps_timeout now rf rf'"
  by (auto simp: AppendEntries_def Let_def keeps_timeout_def recognise_leader_timer
      split: if_splits bind_splits dest!: install_entries_timer)

lemma RequestVote_timer: "RequestVote now args rf = (reply, rf') \<Longrightarrow> keeps_timeout now rf rf'"
  by (auto simp: RequestVote_def Let_def keeps_timeout_def resetElectionTimer_def split: if_splits)

lemma handleVoteReply_timer:
  "handleVoteReply args reply v rf = Some (rf', v') \<Longrightarrow> keeps_timeout now rf rf'"
  by (auto simp: handleVoteReply_def Let_def keeps_timeout_def split: if_splits bind_splits
      elim!: convertToLeader_SomeE)

lemma handleAppendReply_timer:
  "handleAppendReply p args reply rf = Some (rf', again) \<Longrightarrow> keeps_timeout now rf rf'"
  by (auto simp: handleAppendReply_def Let_def keeps_timeout_def split: if_splits bind_splits option.splits
      dest!: apply_committed_timer)

lemma Start_timer: "keeps_timeout now rf (snd (Start cmd rf))"
  by (simp add: keeps_timeout_def Start_def Let_def)

lemma Kill_timer: "keeps_timeout now rf (Kill rf)"
  by (simp add: keeps_timeout_def Kill_def)

text \<open>So no event of the cluster but a restart and the timeout touches a peer's timer otherwise.\<close>

lemma exec_timer:
  assumes "exec e (raft_cluster s) = Some cl" and "ready e s"
  shows "keeps_timeout (clock s) (nodes (raft_cluster s) i) (nodes cl i) \<or> (\<exists>r. e = Restart i (clock s) r)"
proof (cases e)
  case (Client j cmd)
  with assms show ?thesis by (auto simp: Start_timer split: if_splits)
next
  case (Kill_Peer j)
  with assms show ?thesis by (auto simp: Kill_timer split: if_splits)
next
  case (Vote_Request k j now)
  with assms show ?thesis
    by (auto simp: Let_def RequestVote_timer split: if_splits prod.splits)
next
  case (Append_Request k now)
  with assms show ?thesis
    by (auto simp: Let_def AppendEntries_timer split: if_splits prod.splits option.splits)
next
  case (Vote_Reply k j)
  with assms show ?thesis
    by (auto simp: Let_def handleVoteReply_timer split: if_splits prod.splits option.splits rv_call.splits)
next
  case (Append_Reply k)
  with assms show ?thesis
    by (auto simp: Let_def handleAppendReply_timer split: if_splits prod.splits option.splits ae_status.splits)
qed (use assms in \<open>auto split: if_splits prod.splits option.splits\<close>)

subsection \<open>The election timer\<close>

text \<open>New timeouts are at least 200 ms apart: a waiting loop waits until 200 ms after the last of them,
  and only heartbeats and votes move \<open>lastHeartbeat\<close>, forwards.\<close>

definition timer_ok :: "int \<Rightarrow> 'c raft \<Rightarrow> control \<Rightarrow> bool" where
  "timer_ok now rf c \<longleftrightarrow> timer_starts c \<noteq> [] \<and>
     sorted_wrt (\<lambda>t u. u + 200 \<le> t) (timer_starts c) \<and>
     (\<forall>t \<in> set (timer_starts c). t \<le> lastHeartbeat rf) \<and> lastHeartbeat rf \<le> now \<and>
     200 \<le> electionTimeout rf \<and> electionTimeout rf < 400 \<and>
     (\<forall>d. place c = Follower_Wait d \<or> place c = Candidate_Wait d \<longrightarrow>
        (\<forall>t \<in> set (timer_starts c). t + 200 \<le> d)) \<and>
     (place c = Follower_Fire \<or> place c = Candidate_Fire \<longrightarrow> (\<forall>t \<in> set (timer_starts c). t + 200 \<le> now))"

lemma timer_ok_later: "timer_ok now rf c \<Longrightarrow> now \<le> now' \<Longrightarrow> timer_ok now' rf c"
  by (fastforce simp: timer_ok_def)

lemma timer_ok_keeps:
  assumes "timer_ok now rf c" and "keeps_timeout now rf rf'"
    and "place c' = place c" "timer_starts c' = timer_starts c"
  shows "timer_ok now rf' c'"
  using assms by (fastforce simp: timer_ok_def keeps_timeout_def)

lemma timer_ok_cong:
  "place c' = place c \<Longrightarrow> timer_starts c' = timer_starts c \<Longrightarrow> timer_ok now rf c' = timer_ok now rf c"
  by (simp add: timer_ok_def)

lemma readPersist_timer [simp]:
  "electionTimeout (readPersist d rf) = electionTimeout rf" "lastHeartbeat (readPersist d rf) = lastHeartbeat rf"
  by (simp_all add: readPersist_def split: option.splits)

lemma timer_ok_Make: "0 \<le> r \<Longrightarrow> r < 200 \<Longrightarrow> timer_ok now (Make n i ps now r) (control_init now)"
  by (simp add: timer_ok_def Make_def control_init_def generateElectionTimeout_def)

lemma timer_ok_restart:
  "0 \<le> r \<Longrightarrow> r < 200 \<Longrightarrow> timer_ok now (restart_peer now r rf) (control_init now)"
  by (simp add: restart_peer_def Let_def timer_ok_Make)

lemma timer_ok_convert:
  assumes "timer_ok now rf c" and "place c = Follower_Fire \<or> place c = Candidate_Fire" and "0 \<le> r" "r < 200"
  shows "timer_ok now (convertToCandidate now r rf) (c\<lparr>place := Roles_Top, timer_starts := now # timer_starts c\<rparr>)"
  using assms by (fastforce simp: timer_ok_def convertToCandidate_def Let_def generateElectionTimeout_def)

lemma timer_ok_wait:
  assumes "timer_ok now rf c" and "timer_starts c' = timer_starts c"
    and "place c' = Follower_Wait (fires_at now rf) \<or> place c' = Candidate_Wait (fires_at now rf)"
  shows "timer_ok now rf c'"
  using assms by (fastforce simp: timer_ok_def fires_at_def)

lemma timer_ok_elsewhere:
  assumes "timer_ok now rf c" and "timer_starts c' = timer_starts c"
    and "\<forall>d. place c' \<noteq> Follower_Wait d \<and> place c' \<noteq> Candidate_Wait d"
    and "place c' \<noteq> Follower_Fire \<and> place c' \<noteq> Candidate_Fire"
  shows "timer_ok now rf c'"
  using assms by (fastforce simp: timer_ok_def)

lemma main_step_timer:
  assumes "main_step now r rf c = Some (rf', c')" and "timer_ok now rf c" and "0 \<le> r" "r < 200"
  shows "timer_ok now rf' c'"
  using assms(1)
proof (cases rule: main_step_cases)
  case fire
  with assms(2-4) timer_ok_convert show ?thesis by simp
next
  case quiet
  have "(place c' = Follower_Wait (fires_at now rf) \<or> place c' = Candidate_Wait (fires_at now rf)) \<or>
      (\<forall>d. place c' \<noteq> Follower_Wait d \<and> place c' \<noteq> Candidate_Wait d) \<and>
      place c' \<noteq> Follower_Fire \<and> place c' \<noteq> Candidate_Fire"
    using assms(1) by (cases "place c") (auto simp: main_step_def split: if_splits role.splits)
  then show ?thesis
    using timer_ok_wait [OF assms(2) quiet(2)] timer_ok_elsewhere [OF assms(2) quiet(2)]
    unfolding quiet(1) by blast
qed

lemma select_step_timer:
  assumes "select_step now br rf c = Some c'" and "timer_ok now rf c"
  shows "timer_ok now rf c'"
proof (cases br)
  case Election_Timeout
  with assms show ?thesis
    by (fastforce simp: timer_ok_def split: place.splits if_splits)
qed (use assms in \<open>auto intro!: timer_ok_elsewhere [OF assms(2)] split: place.splits if_splits\<close>)

lemma goroutines_place:
  "(\<forall>now r. e \<noteq> Restart i now r) \<Longrightarrow>
   place (controls (goroutines e s) i) = place (controls s i) \<and>
   timer_starts (controls (goroutines e s) i) = timer_starts (controls s i) \<and>
   locked (controls (goroutines e s) i) = locked (controls s i)"
  by (cases e) (auto simp: Let_def split: ae_status.splits option.splits prod.splits bool.splits)

definition timers_ok :: "'c system \<Rightarrow> bool" where
  "timers_ok s \<longleftrightarrow> (\<forall>i. timer_ok (clock s) (nodes (raft_cluster s) i) (controls s i))"

lemma timers_ok_other:
  assumes "timers_ok s" and "exec e (raft_cluster s) = Some cl" and "ready e s"
  shows "timer_ok (clock s) (nodes cl i) (controls (goroutines e s) i)"
proof (cases "\<exists>now r. e = Restart i now r")
  case True
  then obtain now r where e: "e = Restart i now r" by blast
  with assms(2,3) show ?thesis by (auto simp: timer_ok_restart split: if_splits)
next
  case False
  with exec_timer [OF assms(2,3), of i] have "keeps_timeout (clock s) (nodes (raft_cluster s) i) (nodes cl i)" by blast
  moreover have "timer_ok (clock s) (nodes (raft_cluster s) i) (controls s i)"
    using assms(1) by (simp add: timers_ok_def)
  moreover have "place (controls (goroutines e s) i) = place (controls s i) \<and>
      timer_starts (controls (goroutines e s) i) = timer_starts (controls s i)"
    using False goroutines_place [of e i s] by blast
  ultimately show ?thesis by (blast intro: timer_ok_keeps)
qed

lemma system_exec_timers:
  assumes "system_exec e s = Some s'" and "timers_ok s"
  shows "timers_ok s'"
proof (cases e)
  case (Tick d)
  with assms show ?thesis by (auto simp: timers_ok_def split: if_splits intro: timer_ok_later [of "clock s"])
next
  case (Main i r)
  with assms(1) obtain rf c where r: "0 \<le> r" "r < 200"
    and m: "main_step (clock s) r (nodes (raft_cluster s) i) (controls s i) = Some (rf, c)"
    and s': "s' = (set_control i c s)\<lparr>raft_cluster := set_node i rf (raft_cluster s)\<rparr>"
    by (auto split: if_splits option.splits)
  from assms(2) have "timer_ok (clock s) rf c"
    by (intro main_step_timer [OF m _ r]) (simp add: timers_ok_def)
  with assms(2) show ?thesis by (simp add: timers_ok_def s')
next
  case (Select i br)
  with assms(1) obtain c where m: "select_step (clock s) br (nodes (raft_cluster s) i) (controls s i) = Some c"
    and s': "s' = set_control i c s"
    by (auto split: if_splits)
  from assms(2) have "timer_ok (clock s) (nodes (raft_cluster s) i) c"
    by (intro select_step_timer [OF m]) (simp add: timers_ok_def)
  with assms(2) show ?thesis by (simp add: timers_ok_def s')
next
  case (Other ev)
  show ?thesis
  proof (cases "ends ev (raft_cluster s)")
    case True
    then have "\<forall>i now r. ev \<noteq> Restart i now r" by (cases ev) auto
    then have "timer_ok (clock s) (nodes (raft_cluster s) i) (controls (goroutines ev s) i) =
        timer_ok (clock s) (nodes (raft_cluster s) i) (controls s i)" for i
      using goroutines_place [of ev i s] by (intro timer_ok_cong) blast+
    moreover have "s' = goroutines ev s" using True Other assms(1) by (simp split: if_splits)
    ultimately show ?thesis using assms(2) by (simp add: timers_ok_def)
  next
    case False
    with Other assms timers_ok_other [OF assms(2)] show ?thesis
      by (auto simp: timers_ok_def split: if_splits)
  qed
qed

lemma system_reachable_timers: "system_reachable n s \<Longrightarrow> timers_ok s"
proof (induction rule: system_reachable.induct)
  case (start r)
  then show ?case by (auto simp: timers_ok_def system_init_def cluster_init_def intro: timer_ok_Make)
next
  case (step s e s')
  then show ?case by (blast intro: system_exec_timers)
qed

subsection \<open>A loop that keeps the lock\<close>

text \<open>The state of a peer whose loop has kept \<open>rf.mu\<close>: nothing but \<open>Kill\<close> and the replacement by a
  restart can change the peer.\<close>

definition wedged :: "int \<Rightarrow> 'c system \<Rightarrow> bool" where
  "wedged i s \<longleftrightarrow> locked (controls s i) \<and> place (controls s i) \<in> {Roles_Top, Roles_Lock, Returned}"

fun restarts :: "int \<Rightarrow> 'c system_event \<Rightarrow> bool" where
  "restarts i (Other (Restart j now r)) = (j = i)"
| "restarts i _ = False"

definition same_but_dead :: "'c raft \<Rightarrow> 'c raft \<Rightarrow> bool" where
  "same_but_dead rf rf' \<longleftrightarrow> rf' = rf\<lparr>dead := dead rf'\<rparr>"

lemma same_but_dead_refl [simp]: "same_but_dead rf rf"
  by (simp add: same_but_dead_def)

lemma same_but_dead_trans: "same_but_dead rf rf' \<Longrightarrow> same_but_dead rf' rf'' \<Longrightarrow> same_but_dead rf rf''"
  unfolding same_but_dead_def by (metis raft.update_convs(4) raft.surjective)

lemma same_but_dead_Kill: "same_but_dead rf (Kill rf)"
  by (simp add: same_but_dead_def Kill_def)

text \<open>Calls to the peer that have not been answered stay so.\<close>

definition unanswered :: "int \<Rightarrow> 'c cluster \<Rightarrow> 'c cluster \<Rightarrow> bool" where
  "unanswered i s s' \<longleftrightarrow>
     length (calls s) \<le> length (calls s') \<and> length (rounds s) \<le> length (rounds s') \<and>
     (\<forall>k < length (calls s). ac_dst (calls s' ! k) = ac_dst (calls s ! k)) \<and>
     (\<forall>k < length (calls s'). ac_dst (calls s' ! k) = i \<and>
        (k < length (calls s) \<longrightarrow> ac_status (calls s ! k) = AE_Sent) \<longrightarrow> ac_status (calls s' ! k) = AE_Sent) \<and>
     (\<forall>k < length (rounds s').
        (k < length (rounds s) \<longrightarrow> rd_calls (rounds s ! k) i \<in> {RV_None, RV_Sent}) \<longrightarrow>
        rd_calls (rounds s' ! k) i \<in> {RV_None, RV_Sent})"

lemma unanswered_refl [simp]: "unanswered i s s"
  by (auto simp: unanswered_def)

lemma unanswered_trans:
  assumes "unanswered i s s'" and "unanswered i s' s''"
  shows "unanswered i s s''"
  unfolding unanswered_def
proof (intro conjI allI impI)
  show "length (calls s) \<le> length (calls s'')" "length (rounds s) \<le> length (rounds s'')"
    using assms by (auto simp: unanswered_def)
  show "ac_dst (calls s'' ! k) = ac_dst (calls s ! k)" if "k < length (calls s)" for k
    using assms that by (auto simp: unanswered_def)
  show "ac_status (calls s'' ! k) = AE_Sent"
    if "k < length (calls s'')" "ac_dst (calls s'' ! k) = i \<and> (k < length (calls s) \<longrightarrow> ac_status (calls s ! k) = AE_Sent)" for k
    using assms that by (cases "k < length (calls s')") (auto simp: unanswered_def)
  show "rd_calls (rounds s'' ! k) i \<in> {RV_None, RV_Sent}"
    if "k < length (rounds s'')" "k < length (rounds s) \<longrightarrow> rd_calls (rounds s ! k) i \<in> {RV_None, RV_Sent}" for k
    using assms that by (cases "k < length (rounds s')") (auto simp: unanswered_def)
qed

lemma exec_wedged:
  assumes "exec e (raft_cluster s) = Some cl" and "ready e s" and "lock_free e s" and "wedged i s"
    and "\<not> restarts i (Other e)"
  shows "same_but_dead (nodes (raft_cluster s) i) (nodes cl i) \<and> unanswered i (raft_cluster s) cl"
proof (cases e)
  case (Voting j)
  with assms show ?thesis
    by (auto simp: unanswered_def new_round_def nth_append split: option.splits if_splits)
next
  case (Append_Send j k)
  with assms show ?thesis
    by (auto simp: unanswered_def nth_append split: option.splits if_splits)
next
  case (Vote_Request k j now)
  with assms show ?thesis
    by (auto simp: unanswered_def Let_def lock_free_def wedged_def nth_list_update split: if_splits prod.splits)
next
  case (Append_Request k now)
  with assms show ?thesis
    by (auto simp: unanswered_def Let_def lock_free_def wedged_def nth_list_update split: if_splits prod.splits option.splits)
next
  case (Vote_Reply k j)
  with assms show ?thesis
    by (auto simp: unanswered_def Let_def lock_free_def wedged_def nth_list_update
        split: if_splits prod.splits option.splits rv_call.splits)
next
  case (Append_Reply k)
  with assms show ?thesis
    by (auto simp: unanswered_def Let_def lock_free_def wedged_def nth_list_update
        split: if_splits prod.splits option.splits ae_status.splits)
qed (use assms in \<open>auto simp: unanswered_def same_but_dead_Kill lock_free_def wedged_def split: if_splits\<close>)

lemma wedged_cong:
  "place (controls s' i) = place (controls s i) \<Longrightarrow> locked (controls s' i) = locked (controls s i) \<Longrightarrow>
   wedged i s' = wedged i s"
  by (simp add: wedged_def)

text \<open>A system event, seen by a wedged peer.\<close>

definition stays_wedged :: "int \<Rightarrow> 'c system \<Rightarrow> 'c system \<Rightarrow> bool" where
  "stays_wedged i s s' \<longleftrightarrow> wedged i s' \<and>
     same_but_dead (nodes (raft_cluster s) i) (nodes (raft_cluster s') i) \<and>
     unanswered i (raft_cluster s) (raft_cluster s')"

lemma main_step_wedged:
  assumes "main_step now r rf c = Some (rf', c')" and "locked c" and "place c \<in> {Roles_Top, Roles_Lock, Returned}"
  shows "rf' = rf \<and> locked c' \<and> place c' \<in> {Roles_Top, Roles_Lock, Returned}"
  using assms by (auto simp: main_step_def)

lemma select_step_wedged: "place c \<in> {Roles_Top, Roles_Lock, Returned} \<Longrightarrow> select_step now br rf c = None"
  by (cases br) auto

lemma system_exec_wedged:
  assumes "system_exec e s = Some s'" and "wedged i s" and "\<not> restarts i e"
  shows "stays_wedged i s s'"
proof (cases e)
  case (Tick d)
  with assms show ?thesis by (auto simp: stays_wedged_def wedged_def split: if_splits)
next
  case (Main j r)
  with assms(1) obtain rf c where
      m: "main_step (clock s) r (nodes (raft_cluster s) j) (controls s j) = Some (rf, c)"
    and s': "s' = (set_control j c s)\<lparr>raft_cluster := set_node j rf (raft_cluster s)\<rparr>"
    by (auto split: if_splits option.splits)
  have "j = i \<Longrightarrow> rf = nodes (raft_cluster s) i \<and> locked c \<and> place c \<in> {Roles_Top, Roles_Lock, Returned}"
    using main_step_wedged [OF m] assms(2) by (simp add: wedged_def)
  with assms(2) show ?thesis
    by (cases "j = i") (simp_all add: stays_wedged_def wedged_def s' unanswered_def)
next
  case (Select j br)
  with assms(1) obtain c where m: "select_step (clock s) br (nodes (raft_cluster s) j) (controls s j) = Some c"
    and s': "s' = set_control j c s"
    by (auto split: if_splits)
  from assms(2) have "place (controls s i) \<in> {Roles_Top, Roles_Lock, Returned}" by (simp add: wedged_def)
  from select_step_wedged [OF this, of "clock s" br "nodes (raft_cluster s) i"] m have "j \<noteq> i" by auto
  with assms(2) show ?thesis by (simp add: stays_wedged_def wedged_def s')
next
  case (Other ev)
  have "\<forall>now r. ev \<noteq> Restart i now r" using assms(3) Other by auto
  with assms(2) goroutines_place [of ev i s] have w: "wedged i (goroutines ev s)"
    by (simp add: wedged_cong [of "goroutines ev s" i s])
  show ?thesis
  proof (cases "ends ev (raft_cluster s)")
    case True
    with Other assms(1) have s': "s' = goroutines ev s" by (simp split: if_splits)
    from w show ?thesis unfolding s' by (simp add: stays_wedged_def)
  next
    case False
    with Other assms(1) obtain cl where "ready ev s" "lock_free ev s" "exec ev (raft_cluster s) = Some cl"
      and s': "s' = (goroutines ev s)\<lparr>raft_cluster := cl\<rparr>"
      by (auto split: if_splits)
    with exec_wedged [of ev s cl i] assms(2,3) Other w show ?thesis
      by (simp add: stays_wedged_def wedged_def s')
  qed
qed

lemma stays_wedged_trans: "stays_wedged i s s' \<Longrightarrow> stays_wedged i s' s'' \<Longrightarrow> stays_wedged i s s''"
  by (auto simp: stays_wedged_def intro: same_but_dead_trans unanswered_trans)

lemma system_run_wedged:
  "system_run es s = Some s' \<Longrightarrow> wedged i s \<Longrightarrow> list_all (\<lambda>e. \<not> restarts i e) es \<Longrightarrow> stays_wedged i s s'"
proof (induction es arbitrary: s)
  case Nil
  then show ?case by (simp add: stays_wedged_def)
next
  case (Cons e es)
  then obtain s1 where s1: "system_exec e s = Some s1" "system_run es s1 = Some s'" by (auto split: option.splits)
  with Cons.prems system_exec_wedged [of e s s1 i] have 1: "stays_wedged i s s1" by simp
  then have "wedged i s1" by (simp add: stays_wedged_def)
  from stays_wedged_trans [OF 1 Cons.IH [OF s1(2) this]] Cons.prems(3) show ?case by simp
qed

subsection \<open>A killed peer's loop ends\<close>

text \<open>How many steps the loop of a killed peer can still take, the branch of a \<open>select\<close> included.\<close>

fun steps_left :: "place \<Rightarrow> nat" where
  "steps_left Returned = 0"
| "steps_left Roles_Top = 1"
| "steps_left Leader_Top = 2"
| "steps_left (Leader_Sleep t) = 3"
| "steps_left Leader_Send = 4"
| "steps_left Leader_Lock = 5"
| "steps_left Follower_Fire = 2"
| "steps_left (Follower_Wait t) = 3"
| "steps_left Follower_Lock = 4"
| "steps_left Candidate_Fire = 2"
| "steps_left (Candidate_Wait t) = 3"
| "steps_left Candidate_Lock = 4"
| "steps_left Roles_Lock = 6"

lemma main_step_killed:
  assumes "main_step now r rf c = Some (rf', c')" and "killed rf"
  shows "steps_left (place c') < steps_left (place c)"
  using assms by (cases "place c") (auto simp: main_step_def split: if_splits role.splits)

lemma select_step_decreases:
  assumes "select_step now br rf c = Some c'"
  shows "steps_left (place c') < steps_left (place c)"
  using assms by (cases br) (auto split: place.splits if_splits)

fun loop_event :: "int \<Rightarrow> 'c system_event \<Rightarrow> bool" where
  "loop_event i (Main j r) = (j = i)"
| "loop_event i (Select j br) = (j = i)"
| "loop_event i _ = False"

lemma system_exec_killed:
  assumes "system_exec e s = Some s'" and "killed (nodes (raft_cluster s) i)" and "\<not> restarts i e"
  shows "killed (nodes (raft_cluster s') i) \<and>
    steps_left (place (controls s' i)) + (if loop_event i e then 1 else 0) \<le> steps_left (place (controls s i))"
proof (cases e)
  case (Tick d)
  with assms show ?thesis by (auto split: if_splits)
next
  case (Main j r)
  with assms(1) obtain rf c where
      m: "main_step (clock s) r (nodes (raft_cluster s) j) (controls s j) = Some (rf, c)"
    and s': "s' = (set_control j c s)\<lparr>raft_cluster := set_node j rf (raft_cluster s)\<rparr>"
    by (auto split: if_splits option.splits)
  from m have "killed (nodes (raft_cluster s) j) \<Longrightarrow> killed rf"
    by (cases rule: main_step_cases) (simp_all add: killed_def)
  with assms(2) main_step_killed [OF m] show ?thesis by (auto simp: s' Main)
next
  case (Select j br)
  with assms(1) obtain c where m: "select_step (clock s) br (nodes (raft_cluster s) j) (controls s j) = Some c"
    and s': "s' = set_control j c s"
    by (auto split: if_splits)
  from assms(2) select_step_decreases [OF m] show ?thesis by (auto simp: s' Select)
next
  case (Other ev)
  have "\<forall>now r. ev \<noteq> Restart i now r" using assms(3) Other by auto
  then have place: "place (controls (goroutines ev s) i) = place (controls s i)"
    using goroutines_place [of ev i s] by blast
  show ?thesis
  proof (cases "ends ev (raft_cluster s)")
    case True
    with Other assms(1) have "s' = goroutines ev s" by (simp split: if_splits)
    with place assms(2) show ?thesis by (simp add: Other)
  next
    case False
    with Other assms(1) obtain cl where ev: "ready ev s" "exec ev (raft_cluster s) = Some cl"
      and s': "s' = (goroutines ev s)\<lparr>raft_cluster := cl\<rparr>"
      by (auto split: if_splits)
    from exec_timer [OF ev(2,1), of i] assms(3) Other
    have "keeps_timeout (clock s) (nodes (raft_cluster s) i) (nodes cl i)" by auto
    with assms(2) place show ?thesis by (simp add: Other s' killed_def keeps_timeout_def)
  qed
qed

lemma system_run_killed:
  "system_run es s = Some s' \<Longrightarrow> killed (nodes (raft_cluster s) i) \<Longrightarrow> list_all (\<lambda>e. \<not> restarts i e) es \<Longrightarrow>
   killed (nodes (raft_cluster s') i) \<and>
   steps_left (place (controls s' i)) + length (filter (loop_event i) es) \<le> steps_left (place (controls s i))"
proof (induction es arbitrary: s)
  case (Cons e es)
  then obtain s1 where s1: "system_exec e s = Some s1" "system_run es s1 = Some s'" by (auto split: option.splits)
  with Cons.prems system_exec_killed [of e s s1 i] Cons.IH [of s1] show ?case by (auto split: if_splits)
qed simp

lemma steps_left_le: "steps_left p \<le> 6"
  by (cases p) simp_all

text \<open>A loop that is not blocked on the lock can step as soon as the clock has passed its timer.\<close>

lemma main_step_possible:
  assumes "\<not> locked c" and "place c \<noteq> Returned"
  shows "(\<exists>now'. \<forall>now \<ge> now'. \<exists>p. main_step now r rf c = Some p) \<or>
    (\<exists>now'. \<forall>now \<ge> now'. \<exists>c'. select_step now Election_Timeout rf c = Some c')"
  using assms by (cases "place c") (auto simp: main_step_def)

end
