(* ===== verification/Raft_Timing.thy ===== *)
theory Raft_Timing
  imports Raft_Roles Raft_Replica
begin

section \<open>What the control loops guarantee, and where they fail\<close>

text \<open>
  The properties of the loops of \<open>Raft_Roles\<close>, with runs of a cluster of three. A loop calls an election
  only after it has looked at \<open>killed\<close> and at the role and has waited out a timeout; in the cluster
  alone the timer may fire at any time. New election timeouts are at least 200 ms apart;
  a killed peer's loop ends. Two runs show what goes wrong: a loop that returns with the lock, after
  which the peer answers nothing any more, and a leader that its own election timer deposes.
\<close>

subsection \<open>Runs\<close>

text \<open>The first statements of a loop, up to the \<open>select\<close>; a timer that fires, up to the next look at the
  role.\<close>

definition to_wait :: "int \<Rightarrow> nat system_event list" where
  "to_wait i = [Main i 0, Main i 0, Main i 0]"

definition fire :: "int \<Rightarrow> int \<Rightarrow> nat system_event list" where
  "fire i r = [Select i Election_Timeout, Main i r]"

definition timing_start :: "nat system" where
  "timing_start = system_init 3 (\<lambda>i. if i = 0 then 199 else 0)"

text \<open>Peer 1 has a timeout of 200 ms and peer 0 one of 399. Peer 1 starts its second election at 400,
  just after peer 0, a candidate since 399, has looked at its role and before it has locked again:
  the request for term 2 makes it a follower.\<close>

definition wedging_run :: "nat system_event list" where
  "wedging_run = to_wait 0 @ to_wait 1 @ [Tick 200] @ fire 1 0 @ to_wait 1 @ [Tick 199] @ fire 0 0 @
     [Main 0 0, Main 0 0, Tick 1] @ fire 1 0 @ to_wait 1 @
     [Other (Voting 1), Other (Vote_Request 0 0 400), Main 0 0]"

text \<open>Peer 0 is a candidate and the vote of peer 1 arrives when its timer has just fired.\<close>

definition deposing_run :: "nat system_event list" where
  "deposing_run = to_wait 0 @ [Tick 399] @ fire 0 0 @ to_wait 0 @
     [Other (Voting 0), Other (Vote_Request 0 1 399), Tick 200, Select 0 Election_Timeout,
      Other (Vote_Reply 0 1)]"

lemmas timing_eval = to_wait_def fire_def timing_start_def system_init_def control_init_def
  main_step_def fires_at_def set_control_def lock_free_def killed_def

lemma timing_start_reachable: "system_reachable 3 timing_start"
  unfolding timing_start_def by (rule system_reachable.start) simp

lemma wedging_run_wedges:
  "\<exists>s. system_run wedging_run timing_start = Some s \<and> wedged 0 s \<and> killed (nodes (raft_cluster s) 0) = False"
  by (simp add: wedging_run_def timing_eval run_eval wedged_def upto.simps upt_rec)

lemma deposing_run_elects:
  "\<exists>s s'. system_run deposing_run timing_start = Some s \<and> system_exec (Main 0 0) s = Some s' \<and>
     myRole (nodes (raft_cluster s) 0) = Leader \<and> currentTerm (nodes (raft_cluster s) 0) = 1 \<and>
     myRole (nodes (raft_cluster s') 0) = Candidate \<and> currentTerm (nodes (raft_cluster s') 0) = 2"
  by (simp add: deposing_run_def timing_eval run_eval upto.simps upt_rec)

subsection \<open>Properties\<close>

definition wedged_system :: "nat system" where
  "wedged_system = the (system_run wedging_run timing_start)"

lemma wedged_system_run: "system_run wedging_run timing_start = Some wedged_system"
  using wedging_run_wedges by (auto simp: wedged_system_def)

lemma wedged_system_reachable: "system_reachable 3 wedged_system"
  using system_run_reachable [OF wedged_system_run timing_start_reachable] .

lemma wedged_system_wedged: "wedged 0 wedged_system"
  using wedging_run_wedges wedged_system_run by auto

subsection \<open>What has led to a place of the loop\<close>

text \<open>The events that leave the loop of peer \<open>i\<close> where it is: all but its own steps and its
  replacement by a restart.\<close>

definition others :: "int \<Rightarrow> 'c system_event list \<Rightarrow> bool" where
  "others i es \<longleftrightarrow> list_all (\<lambda>e. \<not> loop_event i e \<and> \<not> restarts i e) es"

lemma others_simps [simp]:
  "others i []" "others i (es @ es') \<longleftrightarrow> others i es \<and> others i es'"
  "others i (e # es) \<longleftrightarrow> \<not> loop_event i e \<and> \<not> restarts i e \<and> others i es"
  by (auto simp: others_def)

lemma system_exec_place:
  assumes "system_exec e s = Some s'" and "\<not> loop_event i e" and "\<not> restarts i e"
  shows "place (controls s' i) = place (controls s i)"
proof (cases e)
  case (Other ev)
  with assms(3) have "\<forall>now r. ev \<noteq> Restart i now r" by auto
  with goroutines_place [of ev i s] assms(1) Other show ?thesis by (auto split: if_splits)
qed (use assms(1,2) in \<open>auto split: if_splits option.splits\<close>)

lemma restart_place:
  assumes "system_exec e s = Some s'" and "restarts i e"
  shows "place (controls s' i) = Roles_Top"
proof -
  from assms(2) obtain now r where e: "e = Other (Restart i now r)"
    by (cases "(i, e)" rule: restarts.cases) auto
  with assms(1) show ?thesis by (auto simp: control_init_def split: if_splits)
qed

text \<open>So a loop that is not at its start is where its last step has brought it.\<close>

lemma last_loop_event:
  assumes "system_run es s0 = Some s" and "place (controls s0 i) = Roles_Top" and "place (controls s i) \<noteq> Roles_Top"
  obtains es1 e es2 s1 s2 where "es = es1 @ e # es2" "loop_event i e" "others i es2"
    "system_run es1 s0 = Some s1" "system_exec e s1 = Some s2" "place (controls s2 i) = place (controls s i)"
proof -
  from assms(1,3) have "\<exists>es1 e es2 s1 s2. es = es1 @ e # es2 \<and> loop_event i e \<and> others i es2 \<and>
    system_run es1 s0 = Some s1 \<and> system_exec e s1 = Some s2 \<and> place (controls s2 i) = place (controls s i)"
  proof (induction es arbitrary: s rule: rev_induct)
    case Nil
    with assms(2) show ?case by simp
  next
    case (snoc e es)
    then obtain t where t: "system_run es s0 = Some t" "system_exec e t = Some s"
      by (auto simp: system_run_append split: option.splits)
    show ?case
    proof (cases "loop_event i e")
      case True
      with t show ?thesis by (intro exI [of _ es] exI [of _ e] exI [of _ "[]"]) simp
    next
      case False
      with restart_place [OF t(2)] snoc.prems(2) have quiet: "\<not> restarts i e" by blast
      with system_exec_place [OF t(2) False] snoc.prems(2) snoc.IH [OF t(1)] obtain es1 e1 es2 s1 s2 where
        "es = es1 @ e1 # es2" "loop_event i e1" "others i es2" "system_run es1 s0 = Some s1"
        "system_exec e1 s1 = Some s2" "place (controls s2 i) = place (controls s i)" by auto
      with False quiet show ?thesis
        by (intro exI [of _ es1] exI [of _ e1] exI [of _ "es2 @ [e]"] exI [of _ s1] exI [of _ s2]) simp
    qed
  qed
  with that show ?thesis by blast
qed

text \<open>The step before each statement on the way to a fired timer.\<close>

lemma loop_event_cases:
  assumes "system_exec e s = Some s'" and "loop_event i e"
  obtains (main) q rf where "e = Main i q" "main_step (clock s) q (nodes (raft_cluster s) i) (controls s i) = Some (rf, controls s' i)"
  | (select) br where "e = Select i br" "select_step (clock s) br (nodes (raft_cluster s) i) (controls s i) = Some (controls s' i)"
  using assms by (cases e) (auto split: if_splits option.splits)

lemma to_lock:
  "main_step now r rf c = Some (rf', c') \<Longrightarrow> place c' = Roles_Lock \<Longrightarrow> place c = Roles_Top \<and> \<not> killed rf"
  by (cases "place c") (auto simp: main_step_def split: if_splits role.splits)

lemma to_role:
  "main_step now r rf c = Some (rf', c') \<Longrightarrow> place c' = Follower_Lock \<or> place c' = Candidate_Lock \<Longrightarrow>
   place c = Roles_Lock \<and> \<not> locked c \<and> (place c' = Follower_Lock \<longleftrightarrow> myRole rf = Follower) \<and>
   (place c' = Candidate_Lock \<longleftrightarrow> myRole rf = Candidate)"
  by (cases "place c") (auto simp: main_step_def split: if_splits role.splits)

lemma to_waiting:
  "main_step now r rf c = Some (rf', c') \<Longrightarrow> place c' = Follower_Wait t \<or> place c' = Candidate_Wait t \<Longrightarrow>
   \<not> locked c \<and> t = fires_at now rf \<and>
   (place c = Follower_Lock \<and> myRole rf = Follower \<or> place c = Candidate_Lock \<and> myRole rf = Candidate)"
  by (cases "place c") (auto simp: main_step_def split: if_splits role.splits)

lemma to_fire:
  "main_step now r rf c = Some (rf', c') \<Longrightarrow> place c' \<noteq> Follower_Fire \<and> place c' \<noteq> Candidate_Fire"
  by (cases "place c") (auto simp: main_step_def split: if_splits role.splits)

lemma select_to:
  "select_step now br rf c = Some c' \<Longrightarrow> place c' = Roles_Top \<or>
   br = Election_Timeout \<and> (place c' = Follower_Fire \<or> place c' = Candidate_Fire) \<and>
     (\<exists>t \<le> now. place c = Follower_Wait t \<or> place c = Candidate_Wait t)"
  by (cases br) (auto split: place.splits if_splits)

lemma fire_history:
  assumes "system_run es s0 = Some s" and "place (controls s0 i) = Roles_Top"
    and "place (controls s i) = Follower_Fire \<or> place (controls s i) = Candidate_Fire"
  obtains es1 es2 s1 t where "es = es1 @ Select i Election_Timeout # es2" "others i es2" "system_run es1 s0 = Some s1"
    "place (controls s1 i) = Follower_Wait t \<or> place (controls s1 i) = Candidate_Wait t" "t \<le> clock s1"
proof -
  from assms(3) have "place (controls s i) \<noteq> Roles_Top" by auto
  from last_loop_event [OF assms(1,2) this] obtain es1 e es2 s1 s2 where
    es: "es = es1 @ e # es2" "others i es2" "system_run es1 s0 = Some s1" and
    e: "loop_event i e" "system_exec e s1 = Some s2" "place (controls s2 i) = place (controls s i)" .
  from e(2,1) show ?thesis
  proof (cases rule: loop_event_cases)
    case (main q rf)
    with to_fire e(3) assms(3) show ?thesis by metis
  next
    case (select br)
    from select_to [OF select(2)] e(3) assms(3) obtain t where
      "br = Election_Timeout" "t \<le> clock s1" "place (controls s1 i) = Follower_Wait t \<or> place (controls s1 i) = Candidate_Wait t"
      by auto
    with that es select(1) show ?thesis by blast
  qed
qed

lemma step_history:
  assumes "system_run es s0 = Some s" and "place (controls s0 i) = Roles_Top"
    and "place (controls s i) \<notin> {Roles_Top, Follower_Fire, Candidate_Fire}"
  obtains es1 q es2 s1 rf c where "es = es1 @ Main i q # es2" "others i es2" "system_run es1 s0 = Some s1"
    "main_step (clock s1) q (nodes (raft_cluster s1) i) (controls s1 i) = Some (rf, c)" "place c = place (controls s i)"
proof -
  from assms(3) have "place (controls s i) \<noteq> Roles_Top" by auto
  from last_loop_event [OF assms(1,2) this] obtain es1 e es2 s1 s2 where
    es: "es = es1 @ e # es2" "others i es2" "system_run es1 s0 = Some s1" and
    e: "loop_event i e" "system_exec e s1 = Some s2" "place (controls s2 i) = place (controls s i)" .
  from e(2,1) show ?thesis
  proof (cases rule: loop_event_cases)
    case (main q rf)
    with that es e(3) show ?thesis by blast
  next
    case (select br)
    from select_to [OF select(2)] e(3) assms(3) show ?thesis by auto
  qed
qed

subsection \<open>Elections are called for\<close>

text \<open>The loop of peer \<open>i\<close> has just waited out an election timeout in the run \<open>es\<close>: its last four own
  steps were the look at \<open>killed\<close>, the look at the role under the lock, the second look at the role,
  which set the timer, and the end of the timer.\<close>

definition waited_out :: "int \<Rightarrow> 'c system \<Rightarrow> 'c system_event list \<Rightarrow> bool" where
  "waited_out i s0 es \<longleftrightarrow> (\<exists>es1 q1 es2 q2 es3 q3 es4 es5 s1 s2 s3 s4.
     es = es1 @ Main i q1 # es2 @ Main i q2 # es3 @ Main i q3 # es4 @ Select i Election_Timeout # es5 \<and>
     others i es2 \<and> others i es3 \<and> others i es4 \<and> others i es5 \<and>
     system_run es1 s0 = Some s1 \<and> \<not> killed (nodes (raft_cluster s1) i) \<and>
     system_run (Main i q1 # es2) s1 = Some s2 \<and> \<not> locked (controls s2 i) \<and>
     system_run (Main i q2 # es3) s2 = Some s3 \<and> \<not> locked (controls s3 i) \<and>
     myRole (nodes (raft_cluster s2) i) \<noteq> Leader \<and>
     myRole (nodes (raft_cluster s3) i) = myRole (nodes (raft_cluster s2) i) \<and>
     system_run (Main i q3 # es4) s3 = Some s4 \<and>
     200 \<le> electionTimeout (nodes (raft_cluster s3) i) \<and> electionTimeout (nodes (raft_cluster s3) i) < 400 \<and>
     lastHeartbeat (nodes (raft_cluster s3) i) + electionTimeout (nodes (raft_cluster s3) i) \<le> clock s4)"

lemma system_run_timers: "system_run es s = Some s' \<Longrightarrow> timers_ok s \<Longrightarrow> timers_ok s'"
  by (induction es arbitrary: s) (auto split: option.splits dest: system_exec_timers)

lemma system_run_rest:
  "system_run (es @ es') s = Some s' \<Longrightarrow> system_run es s = Some s1 \<Longrightarrow> system_run es' s1 = Some s'"
  by (simp add: system_run_append)

lemma fire_waited_out:
  assumes run: "system_run es s0 = Some s" and top: "place (controls s0 i) = Roles_Top" and "timers_ok s0"
    and "place (controls s i) = Follower_Fire \<or> place (controls s i) = Candidate_Fire"
  shows "waited_out i s0 es"
proof -
  from fire_history [OF run top assms(4)] obtain es4' es5 s4 t where
    4: "es = es4' @ Select i Election_Timeout # es5" "others i es5" "system_run es4' s0 = Some s4"
      "place (controls s4 i) = Follower_Wait t \<or> place (controls s4 i) = Candidate_Wait t" "t \<le> clock s4" .
  then have "place (controls s4 i) \<notin> {Roles_Top, Follower_Fire, Candidate_Fire}" by auto
  from step_history [OF 4(3) top this] obtain es3' q3 es4 s3 rf3 c3 where
    3: "es4' = es3' @ Main i q3 # es4" "others i es4" "system_run es3' s0 = Some s3"
    and m3: "main_step (clock s3) q3 (nodes (raft_cluster s3) i) (controls s3 i) = Some (rf3, c3)"
      "place c3 = place (controls s4 i)" .
  from to_waiting [OF m3(1)] m3(2) 4(4) have w: "\<not> locked (controls s3 i)"
    "t = fires_at (clock s3) (nodes (raft_cluster s3) i)"
    "place (controls s3 i) = Follower_Lock \<and> myRole (nodes (raft_cluster s3) i) = Follower \<or>
     place (controls s3 i) = Candidate_Lock \<and> myRole (nodes (raft_cluster s3) i) = Candidate" by simp_all
  then have "place (controls s3 i) \<notin> {Roles_Top, Follower_Fire, Candidate_Fire}" by auto
  from step_history [OF 3(3) top this] obtain es2' q2 es3 s2 rf2 c2 where
    2: "es3' = es2' @ Main i q2 # es3" "others i es3" "system_run es2' s0 = Some s2"
    and m2: "main_step (clock s2) q2 (nodes (raft_cluster s2) i) (controls s2 i) = Some (rf2, c2)"
      "place c2 = place (controls s3 i)" .
  from to_role [OF m2(1)] m2(2) w(3) have l: "place (controls s2 i) = Roles_Lock" "\<not> locked (controls s2 i)"
    "myRole (nodes (raft_cluster s2) i) \<noteq> Leader"
    "myRole (nodes (raft_cluster s3) i) = myRole (nodes (raft_cluster s2) i)" by auto
  then have "place (controls s2 i) \<notin> {Roles_Top, Follower_Fire, Candidate_Fire}" by auto
  from step_history [OF 2(3) top this] obtain es1 q1 es2 s1 rf1 c1 where
    1: "es2' = es1 @ Main i q1 # es2" "others i es2" "system_run es1 s0 = Some s1"
    and m1: "main_step (clock s1) q1 (nodes (raft_cluster s1) i) (controls s1 i) = Some (rf1, c1)"
      "place c1 = place (controls s2 i)" .
  from to_lock [OF m1(1)] m1(2) l(1) have k: "\<not> killed (nodes (raft_cluster s1) i)" by simp
  have "timers_ok s3" using 3(3) assms(3) by (rule system_run_timers)
  then have "200 \<le> electionTimeout (nodes (raft_cluster s3) i)" "electionTimeout (nodes (raft_cluster s3) i) < 400"
    by (simp_all add: timers_ok_def timer_ok_def)
  moreover have "lastHeartbeat (nodes (raft_cluster s3) i) + electionTimeout (nodes (raft_cluster s3) i) \<le> clock s4"
    using 4(5) w(2) by (simp add: fires_at_def Let_def)
  moreover have "es = es1 @ Main i q1 # es2 @ Main i q2 # es3 @ Main i q3 # es4 @ Select i Election_Timeout # es5"
    by (simp add: 4(1) 3(1) 2(1) 1(1))
  moreover have "system_run (Main i q1 # es2) s1 = Some s2" using 2(3) 1(3) unfolding 1(1) by (rule system_run_rest)
  moreover have "system_run (Main i q2 # es3) s2 = Some s3" using 3(3) 2(3) unfolding 2(1) by (rule system_run_rest)
  moreover have "system_run (Main i q3 # es4) s3 = Some s4" using 4(3) 3(3) unfolding 3(1) by (rule system_run_rest)
  ultimately show ?thesis
    unfolding waited_out_def using 1(2,3) 2(2) 3(2) 4(2) k l(2-4) w(1) by blast
qed

text \<open>C35. Peers call elections only when they should. The loop of a peer changes the cluster in one way
  only: it starts an election of its own. It does so with the lock free, and its last steps before that,
  whatever else happened in between, were: it was found alive, then seen as a follower or a candidate
  with the lock free, then seen again in that role with the lock free, and from then on it waited until
  the election timeout, 200 to 399 ms long, had passed since the last heartbeat recorded then.\<close>

theorem elections_called_for:
  assumes "\<forall>j. 0 \<le> r j \<and> r j < 200" and "system_run es (system_init n r) = Some s"
    and "loop_event i e" and "system_exec e s = Some s'" and "raft_cluster s' \<noteq> raft_cluster s"
  shows "(\<exists>q. e = Main i q \<and> 0 \<le> q \<and> q < 200 \<and>
      raft_cluster s' = set_node i (convertToCandidate (clock s) q (nodes (raft_cluster s) i)) (raft_cluster s)) \<and>
    \<not> locked (controls s i) \<and> waited_out i (system_init n r) es"
proof -
  have "timers_ok (system_init n r)" using assms(1) system_reachable_timers system_reachable.start by blast
  moreover have top: "place (controls (system_init n r) i) = Roles_Top"
    by (simp add: system_init_def control_init_def)
  moreover from assms(3-5) obtain q rf c where e: "e = Main i q" "0 \<le> q" "q < 200"
      "main_step (clock s) q (nodes (raft_cluster s) i) (controls s i) = Some (rf, c)"
      "raft_cluster s' = set_node i rf (raft_cluster s)"
    by (cases e) (auto split: if_splits option.splits)
  moreover from e(4,5) assms(5) have "place (controls s i) = Follower_Fire \<or> place (controls s i) = Candidate_Fire"
      "\<not> locked (controls s i)" "rf = convertToCandidate (clock s) q (nodes (raft_cluster s) i)"
    by (cases rule: main_step_cases; simp)+
  ultimately show ?thesis using fire_waited_out [OF assms(2) top] by blast
qed

text \<open>Peer 1 of three, with a timeout of 200 ms, starts an election at 200 ms and had waited for it.\<close>

definition election_run :: "nat system_event list" where
  "election_run = to_wait 1 @ [Tick 200, Select 1 Election_Timeout]"

theorem elections_called_for_witness:
  "\<exists>s s'. system_run election_run timing_start = Some s \<and> system_exec (Main 1 0) s = Some s' \<and>
     currentTerm (nodes (raft_cluster s') 1) = 1 \<and> waited_out 1 timing_start election_run"
proof -
  have "\<exists>s s'. system_run election_run timing_start = Some s \<and> system_exec (Main 1 0) s = Some s' \<and>
     currentTerm (nodes (raft_cluster s) 1) = 0 \<and> currentTerm (nodes (raft_cluster s') 1) = 1"
    by (simp add: election_run_def timing_eval run_eval upto.simps upt_rec)
  then obtain s s' where s: "system_run election_run timing_start = Some s" "system_exec (Main 1 0) s = Some s'"
    and t: "currentTerm (nodes (raft_cluster s) 1) = 0" "currentTerm (nodes (raft_cluster s') 1) = 1" by blast
  from t have "raft_cluster s' \<noteq> raft_cluster s" by auto
  with elections_called_for [OF _ s(1) [unfolded timing_start_def] _ s(2), of 1] s t show ?thesis
    by (simp add: timing_start_def)
qed

text \<open>What the loops do to the cluster the cluster can do, so its invariants hold of the full system.\<close>

lemma loops_refine_cluster:
  assumes "system_reachable n s" and "system_exec e s = Some s'"
  shows "reachable n (raft_cluster s) \<and>
    (raft_cluster s' = raft_cluster s \<or> cluster_step (raft_cluster s) (raft_cluster s'))"
  using system_reachable_cluster [OF assms(1)] system_exec_cluster [OF assms(2)] by blast

text \<open>So the services above the full system are replicas too: it provides the interface
  \<open>ordered_delivery\<close>, with its own runs as the order of states.\<close>

lemma system_run_cluster: "system_run es s = Some s' \<Longrightarrow> cluster_steps (raft_cluster s) (raft_cluster s')"
proof (induction es arbitrary: s)
  case (Cons e es)
  then obtain s1 where s1: "system_exec e s = Some s1" "system_run es s1 = Some s'" by (auto split: option.splits)
  have "cluster_steps (raft_cluster s) (raft_cluster s1)" using system_exec_cluster [OF s1(1)] by auto
  also have "cluster_steps (raft_cluster s1) (raft_cluster s')" by (rule Cons.IH [OF s1(2)])
  finally show ?case .
qed simp

definition system_leads :: "'c system \<Rightarrow> 'c system \<Rightarrow> bool" where
  "system_leads s s' \<longleftrightarrow> (\<exists>es. system_run es s = Some s')"

interpretation loops: ordered_delivery "system_reachable n" system_leads "[0..n - 1]"
  "\<lambda>s. commands (raft_cluster s)" for n
proof
  show "system_leads s s" for s :: "'c system"
    unfolding system_leads_def by (rule exI [of _ "[]"]) simp
  show "commands (raft_cluster s) r ! k = commands (raft_cluster s') r' ! k"
    if "system_reachable n s" "system_leads s s'" "r \<in> set [0..n - 1]" "r' \<in> set [0..n - 1]"
      "k < length (commands (raft_cluster s) r)" "k < length (commands (raft_cluster s') r')"
    for s s' :: "'c system" and r r' k
  proof (rule commands_agree [OF system_reachable_cluster [OF that(1)] _ _ _ that(5,6)])
    from that(2) show "cluster_steps (raft_cluster s) (raft_cluster s')"
      unfolding system_leads_def by (auto intro: system_run_cluster)
  qed (use that(3,4) in auto)
qed

text \<open>A peer behind another one reaches its state by the commands that it still lacks, now or later in
  the run.\<close>

lemma system_catches_up:
  assumes "system_reachable n s" and "system_run es s = Some s'" and "i \<in> members n" and "j \<in> members n"
    and "length (commands (raft_cluster s) i) \<le> length (commands (raft_cluster s') j)"
  shows "foldl ap q0 (commands (raft_cluster s') j) =
    foldl ap (foldl ap q0 (commands (raft_cluster s) i))
      (drop (length (commands (raft_cluster s) i)) (commands (raft_cluster s') j))"
proof -
  have "system_leads s s'" using assms(2) by (auto simp: system_leads_def)
  from loops.machine_catches_up [OF assms(1) this _ _ assms(5), of ap q0] assms(3,4)
  show ?thesis by (simp add: loops.machine_def)
qed

lemma spaced_length:
  "sorted_wrt (\<lambda>t u. u + 200 \<le> t) ts \<Longrightarrow> ts \<noteq> [] \<Longrightarrow> 200 * (len ts - 1) \<le> hd ts - (last ts :: int)"
proof (induction ts)
  case (Cons t ts)
  show ?case
  proof (cases "ts = []")
    case False
    with Cons have "200 * (len ts - 1) \<le> hd ts - last ts" "hd ts + 200 \<le> t" by auto
    with False show ?thesis by simp
  qed simp
qed simp

text \<open>C36. The election timers of one incarnation of a peer are started at least 200 ms apart, whatever
  arrives and however the goroutines are scheduled: in a time of d ms a peer starts at most d / 200
  elections of its own.\<close>

theorem elections_spaced:
  assumes "system_reachable n s"
  shows "sorted_wrt (\<lambda>t u. u + 200 \<le> t) (timer_starts (controls s i)) \<and>
    200 * (len (timer_starts (controls s i)) - 1) \<le> clock s - last (timer_starts (controls s i))"
proof -
  from system_reachable_timers [OF assms]
  have ok: "timer_ok (clock s) (nodes (raft_cluster s) i) (controls s i)" by (simp add: timers_ok_def)
  then have "hd (timer_starts (controls s i)) \<le> clock s"
    using hd_in_set [of "timer_starts (controls s i)"] unfolding timer_ok_def by fastforce
  with ok spaced_length [of "timer_starts (controls s i)"] show ?thesis unfolding timer_ok_def by linarith
qed

theorem elections_spaced_witness:
  "200 * (len (timer_starts (controls wedged_system 1)) - 1) \<le>
     clock wedged_system - last (timer_starts (controls wedged_system 1))"
  using elections_spaced [OF wedged_system_reachable, of 1] by simp

text \<open>C37. \<open>startCandidate\<close> can return with \<open>rf.mu\<close> held, and once it has, the peer is lost until it is
  replaced: its loop waits for its own lock, its state never changes again except for the flag that
  \<open>Kill\<close> sets, and no call to it that was not answered before is ever answered.\<close>

theorem lost_lock:
  assumes "wedged i s" and "system_run es s = Some s'" and "list_all (\<lambda>e. \<not> restarts i e) es"
  shows "wedged i s' \<and> same_but_dead (nodes (raft_cluster s) i) (nodes (raft_cluster s') i) \<and>
    unanswered i (raft_cluster s) (raft_cluster s')"
  using system_run_wedged [OF assms(2,1,3)] by (simp add: stays_wedged_def)

theorem lost_lock_witness:
  "\<exists>s'. system_reachable 3 wedged_system \<and> wedged 0 wedged_system \<and>
     system_run [Tick 1000, Other (Kill_Peer 1)] wedged_system = Some s' \<and> wedged 0 s' \<and>
     same_but_dead (nodes (raft_cluster wedged_system) 0) (nodes (raft_cluster s') 0)"
proof -
  have "csize (raft_cluster wedged_system) = 3"
    using reachable_static [OF system_reachable_cluster [OF wedged_system_reachable]] by blast
  then obtain s' where s': "system_run [Tick 1000, Other (Kill_Peer 1)] wedged_system = Some s'"
    by (simp add: lock_free_def)
  from lost_lock [OF wedged_system_wedged this] wedged_system_reachable wedged_system_wedged s'
  show ?thesis by (intro exI [of _ s']) simp
qed

text \<open>C38. The loop of a killed peer ends, however it is scheduled among everything else: it takes at most
  six more steps, a branch of a \<open>select\<close> included. Meanwhile it has returned, waits for a lock
  that it holds itself, or can step as soon as the clock has passed its timer.\<close>

theorem killed_loop_ends:
  assumes "killed (nodes (raft_cluster s) i)" and "system_run es s = Some s'"
    and "list_all (\<lambda>e. \<not> restarts i e) es"
  shows "length (filter (loop_event i) es) \<le> 6 \<and>
    (place (controls s' i) = Returned \<or> locked (controls s' i) \<or>
     (\<exists>now'. \<forall>now \<ge> now'. (\<exists>p. main_step now r (nodes (raft_cluster s') i) (controls s' i) = Some p) \<or>
        (\<exists>c. select_step now Election_Timeout (nodes (raft_cluster s') i) (controls s' i) = Some c)))"
  using system_run_killed [OF assms(2,1,3)] steps_left_le [of "place (controls s i)"]
    main_step_possible [of "controls s' i" r "nodes (raft_cluster s') i"] by fastforce

theorem killed_loop_ends_witness:
  "\<exists>s s'. system_run [Other (Kill_Peer 0)] timing_start = Some s \<and>
     system_run [Main 0 0] s = Some s' \<and> place (controls s' 0) = Returned \<and>
     length (filter (loop_event 0) [Main 0 0 :: nat system_event]) \<le> 6"
proof -
  obtain s where s: "system_run [Other (Kill_Peer 0)] timing_start = Some s" "killed (nodes (raft_cluster s) 0)"
    "system_run [Main 0 0] s \<noteq> None" "place (controls (the (system_run [Main 0 0] s)) 0) = Returned"
    by (simp add: timing_eval cluster_init_def Kill_def)
  then obtain s' where s': "system_run [Main 0 0] s = Some s'" "place (controls s' 0) = Returned" by auto
  from killed_loop_ends [OF s(2) s'(1)] s(1) s' show ?thesis by (intro exI [of _ s] exI [of _ s']) simp
qed

end
