(* ===== verification/Labrpc.thy ===== *)
theory Labrpc
  imports Go_Prelude "HOL-Library.Word"
begin

section \<open>The simulated network\<close>

text \<open>
  \<open>lab3/labrpc/labrpc.go\<close>: client end-points, servers, services and the network that loses,
  delays and reorders messages. Servers live on a heap and are named by their addresses, because
  \<open>isServerDead\<close> compares pointers; a goroutine that processes one request is a small state
  machine (\<open>phase\<close>), and the handler that it launches another (\<open>handler\<close>), so that the steps
  of many requests interleave with each other and with the operations of the test configuration.
  The draws of \<open>math/rand\<close> are arguments of the steps, sleeping only delays them.
  The encoder of \<open>encoding/gob\<close> behind \<open>labgob\<close>, which is not part of the repository, is
  a record of functions on the values \<open>'v\<close> of the program; the receivers' methods are functions
  of the state \<open>'o\<close> of all objects.
\<close>

subsection \<open>Names, messages and types\<close>

text \<open>The values of type \<open>interface{}\<close> that name end-points and servers.\<close>

datatype iface = NilI | IntI int | StringI string

datatype gotype = Ptr gotype | Value_Type string

fun Elem :: "gotype \<Rightarrow> gotype option" where
  "Elem (Ptr t) = Some t"
| "Elem (Value_Type _) = None"

record reqMsg =
  endname :: iface
  svcMeth :: string
  argsType :: gotype
  args :: string

record replyMsg =
  ok :: bool
  reply :: string

abbreviation no_reply :: replyMsg where
  "no_reply \<equiv> \<lparr>ok = False, reply = []\<rparr>"

text \<open>\<open>Encode\<close> returns the bytes written and whether it succeeded, \<open>Decode\<close> the value after
  decoding into it and whether that succeeded; \<open>zero_of\<close> is \<open>reflect.New\<close>.\<close>

record 'v codec =
  Encode :: "'v \<Rightarrow> string \<times> bool"
  Decode :: "string \<Rightarrow> 'v \<Rightarrow> 'v \<times> bool"
  zero_of :: "gotype \<Rightarrow> 'v"

text \<open>What ends the whole process: a call of \<open>log.Fatalf\<close>, by its place, or a panic.\<close>

datatype fatal = Unknown_Service string | Unknown_Method string | Endpoint_Exists | Decode_Failed | Panicked

subsection \<open>Services\<close>

text \<open>A method as \<open>reflect\<close> shows it; \<open>Func\<close> takes the receiver, the argument, the zeroed reply
  and the state of the objects, and is \<open>None\<close> when the method panics.\<close>

record ('v, 'o) reflect_method =
  Method_Name :: string
  PkgPath :: string
  In :: "gotype list"
  NumOut :: nat
  Func :: "nat \<Rightarrow> 'v \<Rightarrow> 'v \<Rightarrow> 'o \<Rightarrow> ('v \<times> 'o) option"

record ('v, 'o) Service =
  name :: string
  rcvr :: nat
  methods :: "string \<rightharpoonup> ('v, 'o) reflect_method"

definition looks_like_handler :: "('v, 'o) reflect_method \<Rightarrow> bool" where
  "looks_like_handler method \<longleftrightarrow>
     PkgPath method = '''' \<and> length (In method) = 3 \<and> Elem (In method ! 2) \<noteq> None \<and> NumOut method = 0"

definition MakeService :: "nat \<Rightarrow> string \<Rightarrow> ('v, 'o) reflect_method list \<Rightarrow> ('v, 'o) Service" where
  "MakeService receiver type_name typ =
     \<lparr>name = type_name, rcvr = receiver,
      methods = foldl (\<lambda>ms method.
        if looks_like_handler method then ms(Method_Name method \<mapsto> method) else ms) Map.empty typ\<rparr>"

text \<open>The error of decoding the argument is ignored. \<open>function.Call\<close> panics when the type of the
  argument is not that of the parameter.\<close>

definition Service_dispatch ::
  "'v codec \<Rightarrow> ('v, 'o) Service \<Rightarrow> string \<Rightarrow> reqMsg \<Rightarrow> 'o \<Rightarrow> fatal + replyMsg \<times> 'o" where
  "Service_dispatch gob svc methname req objs =
     (case methods svc methname of
        None \<Rightarrow> Inl (Unknown_Method methname)
      | Some method \<Rightarrow>
          let arg = fst (Decode gob (args req) (zero_of gob (argsType req))) in
          case Elem (In method ! 2) of
            None \<Rightarrow> Inl Panicked
          | Some replyType \<Rightarrow>
              if argsType req \<noteq> In method ! 1 then Inl Panicked
              else case Func method (rcvr svc) arg (zero_of gob replyType) objs of
                  None \<Rightarrow> Inl Panicked
                | Some (replyv, objs') \<Rightarrow> Inr (\<lparr>ok = True, reply = fst (Encode gob replyv)\<rparr>, objs'))"

subsection \<open>Servers\<close>

record ('v, 'o) Server =
  services :: "string \<rightharpoonup> ('v, 'o) Service"
  srv_count :: int

definition MakeServer :: "('v, 'o) Server" where
  "MakeServer = \<lparr>services = Map.empty, srv_count = 0\<rparr>"

definition AddService :: "('v, 'o) Service \<Rightarrow> ('v, 'o) Server \<Rightarrow> ('v, 'o) Server" where
  "AddService svc rs = rs\<lparr>services := (services rs)(name svc \<mapsto> svc)\<rparr>"

text \<open>\<open>strings.LastIndex\<close> for a separator of one character: \<open>-1\<close> when there is none.\<close>

fun LastIndex :: "string \<Rightarrow> char \<Rightarrow> int" where
  "LastIndex [] c = - 1"
| "LastIndex (x # xs) c = (let k = LastIndex xs c in if k \<ge> 0 then k + 1 else if x = c then 0 else - 1)"

definition Server_dispatch ::
  "'v codec \<Rightarrow> ('v, 'o) Server \<Rightarrow> reqMsg \<Rightarrow> 'o \<Rightarrow> fatal + replyMsg \<times> ('v, 'o) Server \<times> 'o" where
  "Server_dispatch gob rs req objs =
     (let rs = rs\<lparr>srv_count := srv_count rs + 1\<rparr>;
          dot = LastIndex (svcMeth req) (CHR ''.'') in
      case (go_upto (svcMeth req) dot, go_from (svcMeth req) (dot + 1)) of
        (Some serviceName, Some methodName) \<Rightarrow>
          (case services rs serviceName of
             None \<Rightarrow> Inl (Unknown_Service serviceName)
           | Some svc \<Rightarrow>
               (case Service_dispatch gob svc methodName req objs of
                  Inl e \<Rightarrow> Inl e
                | Inr (rep, objs') \<Rightarrow> Inr (rep, rs, objs')))
      | _ \<Rightarrow> Inl Panicked)"

subsection \<open>The network\<close>

text \<open>A missing key of a Go map reads as the zero value.\<close>

definition go_get :: "('k \<rightharpoonup> 'v) \<Rightarrow> 'v \<Rightarrow> 'k \<Rightarrow> 'v" where
  "go_get m z k = (case m k of Some v \<Rightarrow> v | None \<Rightarrow> z)"

record Network =
  reliable :: bool
  longDelays :: bool
  longReordering :: bool
  ends :: "iface \<rightharpoonup> unit"
  enabled :: "iface \<rightharpoonup> bool"
  servers :: "iface \<rightharpoonup> nat option"
  connections :: "iface \<rightharpoonup> iface"
  net_done :: bool
  count :: "32 word"
  bytes :: "64 word"

definition MakeNetwork :: Network where
  "MakeNetwork =
     \<lparr>reliable = True, longDelays = False, longReordering = False, ends = Map.empty,
      enabled = Map.empty, servers = Map.empty, connections = Map.empty, net_done = False,
      count = 0, bytes = 0\<rparr>"

definition Reliable :: "bool \<Rightarrow> Network \<Rightarrow> Network" where
  "Reliable yes rn = rn\<lparr>reliable := yes\<rparr>"

definition LongReordering :: "bool \<Rightarrow> Network \<Rightarrow> Network" where
  "LongReordering yes rn = rn\<lparr>longReordering := yes\<rparr>"

definition LongDelays :: "bool \<Rightarrow> Network \<Rightarrow> Network" where
  "LongDelays yes rn = rn\<lparr>longDelays := yes\<rparr>"

text \<open>Closing a closed channel panics.\<close>

definition Cleanup :: "Network \<Rightarrow> fatal + Network" where
  "Cleanup rn = (if net_done rn then Inl Panicked else Inr (rn\<lparr>net_done := True\<rparr>))"

definition MakeEnd :: "iface \<Rightarrow> Network \<Rightarrow> fatal + Network" where
  "MakeEnd en rn =
     (if en \<in> dom (ends rn) then Inl Endpoint_Exists
      else Inr (rn\<lparr>ends := (ends rn)(en \<mapsto> ()), enabled := (enabled rn)(en \<mapsto> False),
                   connections := (connections rn)(en \<mapsto> NilI)\<rparr>))"

definition AddServer :: "iface \<Rightarrow> nat option \<Rightarrow> Network \<Rightarrow> Network" where
  "AddServer sn rs rn = rn\<lparr>servers := (servers rn)(sn \<mapsto> rs)\<rparr>"

definition DeleteServer :: "iface \<Rightarrow> Network \<Rightarrow> Network" where
  "DeleteServer sn rn = rn\<lparr>servers := (servers rn)(sn \<mapsto> None)\<rparr>"

definition Connect :: "iface \<Rightarrow> iface \<Rightarrow> Network \<Rightarrow> Network" where
  "Connect en sn rn = rn\<lparr>connections := (connections rn)(en \<mapsto> sn)\<rparr>"

definition Enable :: "iface \<Rightarrow> bool \<Rightarrow> Network \<Rightarrow> Network" where
  "Enable en yes rn = rn\<lparr>enabled := (enabled rn)(en \<mapsto> yes)\<rparr>"

text \<open>\<open>None\<close> is the panic on a nil server.\<close>

definition GetCount :: "('v, 'o) Server list \<Rightarrow> iface \<Rightarrow> Network \<Rightarrow> int option" where
  "GetCount heap sn rn =
     (case go_get (servers rn) None sn of
        Some s \<Rightarrow> if s < length heap then Some (srv_count (heap ! s)) else None
      | None \<Rightarrow> None)"

definition GetTotalCount :: "Network \<Rightarrow> int" where
  "GetTotalCount rn = sint (count rn)"

definition GetTotalBytes :: "Network \<Rightarrow> int" where
  "GetTotalBytes rn = sint (bytes rn)"

subsection \<open>Processing a request\<close>

record info =
  info_enabled :: bool
  info_servername :: iface
  info_server :: "nat option"
  info_reliable :: bool
  info_longreordering :: bool

definition readEndnameInfo :: "Network \<Rightarrow> iface \<Rightarrow> info" where
  "readEndnameInfo rn en =
     (let sn = go_get (connections rn) NilI en in
      \<lparr>info_enabled = go_get (enabled rn) False en, info_servername = sn,
       info_server = (if sn \<noteq> NilI then go_get (servers rn) None sn else None),
       info_reliable = reliable rn, info_longreordering = longReordering rn\<rparr>)"

definition isServerDead :: "Network \<Rightarrow> iface \<Rightarrow> iface \<Rightarrow> nat option \<Rightarrow> bool" where
  "isServerDead rn en sn server \<longleftrightarrow>
     go_get (enabled rn) False en = False \<or> go_get (servers rn) None sn \<noteq> server"

text \<open>Where the goroutine of a request stands: it has received the request, it waits for the handler
  it launched, it has the handler's reply, it has set a timer that will deliver a reply, it has
  replied.\<close>

datatype phase = Received | Waiting info | Replying info replyMsg | Reply_Later replyMsg | Answered replyMsg

datatype handler = Not_Started | Running nat | Returned nat replyMsg

text \<open>Up to the launch of the handler. A request for a server that is not there is answered
  negatively after a delay.\<close>

definition processReq_admit :: "info \<Rightarrow> int \<Rightarrow> phase \<times> handler" where
  "processReq_admit ei draw =
     (if info_enabled ei \<and> info_servername ei \<noteq> NilI then
        (case info_server ei of
           Some server \<Rightarrow>
             if \<not> info_reliable ei \<and> draw mod 1000 < 100 then (Answered no_reply, Not_Started)
             else (Waiting ei, Running server)
         | None \<Rightarrow> (Reply_Later no_reply, Not_Started))
      else (Reply_Later no_reply, Not_Started))"

text \<open>The timer of the waiting loop: when the server is dead the loop ends without a reply, and
  the code after it answers negatively whatever it finds; the handler's goroutine goes on.\<close>

definition processReq_poll :: "Network \<Rightarrow> iface \<Rightarrow> info \<Rightarrow> phase" where
  "processReq_poll rn en ei =
     (if isServerDead rn en (info_servername ei) (info_server ei) then Answered no_reply
      else Waiting ei)"

text \<open>After the loop has ended with a reply.\<close>

definition processReq_finish :: "Network \<Rightarrow> iface \<Rightarrow> info \<Rightarrow> replyMsg \<Rightarrow> int \<Rightarrow> int \<Rightarrow> phase" where
  "processReq_finish rn en ei rep draw draw900 =
     (if isServerDead rn en (info_servername ei) (info_server ei) then Answered no_reply
      else if \<not> info_reliable ei \<and> draw mod 1000 < 100 then Answered no_reply
      else if info_longreordering ei \<and> draw900 < 600 then Reply_Later rep
      else Answered rep)"

text \<open>The bytes of a reply are counted when it is sent; a negative reply has none.\<close>

definition count_reply :: "phase \<Rightarrow> Network \<Rightarrow> Network" where
  "count_reply p rn =
     (case p of Answered rep \<Rightarrow> rn\<lparr>bytes := bytes rn + of_nat (length (reply rep))\<rparr> | _ \<Rightarrow> rn)"

subsection \<open>Runs of the network\<close>

record rpc =
  rpc_req :: reqMsg
  rpc_phase :: phase
  rpc_handler :: handler

record ('v, 'o) world =
  net :: Network
  heap :: "('v, 'o) Server list"
  objs :: 'o
  rpcs :: "rpc list"
  listening :: bool
  exited :: "fatal option"

definition init_world :: "'o \<Rightarrow> ('v, 'o) world" where
  "init_world os =
     \<lparr>net = MakeNetwork, heap = [], objs = os, rpcs = [], listening = True, exited = None\<rparr>"

definition set_rpc :: "nat \<Rightarrow> rpc \<Rightarrow> ('v, 'o) world \<Rightarrow> ('v, 'o) world" where
  "set_rpc i r w = w\<lparr>rpcs := (rpcs w)[i := r]\<rparr>"

definition move :: "nat \<Rightarrow> phase \<Rightarrow> ('v, 'o) world \<Rightarrow> ('v, 'o) world" where
  "move i p w = set_rpc i ((rpcs w ! i)\<lparr>rpc_phase := p\<rparr>) (w\<lparr>net := count_reply p (net w)\<rparr>)"

text \<open>The goroutine that \<open>MakeNetwork\<close> starts counts the request and processes it concurrently.\<close>

definition accept :: "reqMsg \<Rightarrow> ('v, 'o) world \<Rightarrow> ('v, 'o) world" where
  "accept xreq w =
     w\<lparr>net := (net w)\<lparr>count := count (net w) + 1, bytes := bytes (net w) + of_nat (length (args xreq))\<rparr>,
       rpcs := rpcs w @ [\<lparr>rpc_req = xreq, rpc_phase = Received, rpc_handler = Not_Started\<rparr>]\<rparr>"

definition run_handler :: "'v codec \<Rightarrow> nat \<Rightarrow> nat \<Rightarrow> ('v, 'o) world \<Rightarrow> ('v, 'o) world" where
  "run_handler gob i s w =
     (if s < length (heap w) then
        (case Server_dispatch gob (heap w ! s) (rpc_req (rpcs w ! i)) (objs w) of
           Inl e \<Rightarrow> w\<lparr>exited := Some e\<rparr>
         | Inr (rep, rs, objs') \<Rightarrow>
             set_rpc i ((rpcs w ! i)\<lparr>rpc_handler := Returned s rep\<rparr>)
               (w\<lparr>heap := (heap w)[s := rs], objs := objs'\<rparr>))
      else w\<lparr>exited := Some Panicked\<rparr>)"

text \<open>The events: operations on the network and its servers by the test configuration, the arrival
  of a request at the network, the steps of the request \<open>i\<close>, and what the objects do on their own (the
  goroutines of the receivers, the passing of time).\<close>

datatype command =
    Op_Reliable bool | Op_LongReordering bool | Op_LongDelays bool | Op_Cleanup
  | Op_MakeEnd iface | Op_AddServer iface "nat option" | Op_DeleteServer iface
  | Op_Connect iface iface | Op_Enable iface bool

fun apply_command :: "command \<Rightarrow> Network \<Rightarrow> fatal + Network" where
  "apply_command (Op_Reliable yes) rn = Inr (Reliable yes rn)"
| "apply_command (Op_LongReordering yes) rn = Inr (LongReordering yes rn)"
| "apply_command (Op_LongDelays yes) rn = Inr (LongDelays yes rn)"
| "apply_command Op_Cleanup rn = Cleanup rn"
| "apply_command (Op_MakeEnd en) rn = MakeEnd en rn"
| "apply_command (Op_AddServer sn rs) rn = Inr (AddServer sn rs rn)"
| "apply_command (Op_DeleteServer sn) rn = Inr (DeleteServer sn rn)"
| "apply_command (Op_Connect en sn) rn = Inr (Connect en sn rn)"
| "apply_command (Op_Enable en yes) rn = Inr (Enable en yes rn)"

datatype ('v, 'o) event =
    Net_Op command | New_Server | Register nat "('v, 'o) Service"
  | Accept reqMsg | Stop
  | Admit nat int | Handle nat | Receive nat | Poll nat | Finish nat int int | Fire nat
  | Local "'o \<Rightarrow> 'o"

fun step_of :: "'v codec \<Rightarrow> ('v, 'o) event \<Rightarrow> ('v, 'o) world \<Rightarrow> ('v, 'o) world option" where
  "step_of gob (Net_Op c) w =
     (case apply_command c (net w) of
        Inl e \<Rightarrow> Some (w\<lparr>exited := Some e\<rparr>)
      | Inr rn \<Rightarrow> Some (w\<lparr>net := rn\<rparr>))"
| "step_of gob New_Server w = Some (w\<lparr>heap := heap w @ [MakeServer]\<rparr>)"
| "step_of gob (Register s svc) w =
     (if s < length (heap w) then Some (w\<lparr>heap := (heap w)[s := AddService svc (heap w ! s)]\<rparr>) else None)"
| "step_of gob (Accept xreq) w = (if listening w then Some (accept xreq w) else None)"
| "step_of gob Stop w = (if net_done (net w) then Some (w\<lparr>listening := False\<rparr>) else None)"
| "step_of gob (Admit i draw) w =
     (if i < length (rpcs w) \<and> rpc_phase (rpcs w ! i) = Received then
        let (p, h) = processReq_admit (readEndnameInfo (net w) (endname (rpc_req (rpcs w ! i)))) draw
        in Some (move i p (set_rpc i ((rpcs w ! i)\<lparr>rpc_handler := h\<rparr>) w))
      else None)"
| "step_of gob (Handle i) w =
     (if i < length (rpcs w) then
        case rpc_handler (rpcs w ! i) of Running s \<Rightarrow> Some (run_handler gob i s w) | _ \<Rightarrow> None
      else None)"
| "step_of gob (Receive i) w =
     (if i < length (rpcs w) then
        case (rpc_phase (rpcs w ! i), rpc_handler (rpcs w ! i)) of
          (Waiting ei, Returned s rep) \<Rightarrow> Some (move i (Replying ei rep) w)
        | _ \<Rightarrow> None
      else None)"
| "step_of gob (Poll i) w =
     (if i < length (rpcs w) then
        case rpc_phase (rpcs w ! i) of
          Waiting ei \<Rightarrow> Some (move i (processReq_poll (net w) (endname (rpc_req (rpcs w ! i))) ei) w)
        | _ \<Rightarrow> None
      else None)"
| "step_of gob (Finish i draw draw900) w =
     (if i < length (rpcs w) then
        case rpc_phase (rpcs w ! i) of
          Replying ei rep \<Rightarrow>
            Some (move i (processReq_finish (net w) (endname (rpc_req (rpcs w ! i))) ei rep draw draw900) w)
        | _ \<Rightarrow> None
      else None)"
| "step_of gob (Fire i) w =
     (if i < length (rpcs w) then
        case rpc_phase (rpcs w ! i) of Reply_Later rep \<Rightarrow> Some (move i (Answered rep) w) | _ \<Rightarrow> None
      else None)"
| "step_of gob (Local f) w = Some (w\<lparr>objs := f (objs w)\<rparr>)"

text \<open>A process that has ended makes no step.\<close>

definition exec :: "'v codec \<Rightarrow> ('v, 'o) event \<Rightarrow> ('v, 'o) world \<Rightarrow> ('v, 'o) world option" where
  "exec gob e w = (if exited w = None then step_of gob e w else None)"

fun run :: "'v codec \<Rightarrow> ('v, 'o) event list \<Rightarrow> ('v, 'o) world \<Rightarrow> ('v, 'o) world option" where
  "run gob [] w = Some w"
| "run gob (e # es) w = (case exec gob e w of None \<Rightarrow> None | Some w' \<Rightarrow> run gob es w')"

lemma run_append: "run gob (es @ fs) w = (case run gob es w of None \<Rightarrow> None | Some w' \<Rightarrow> run gob fs w')"
  by (induction es arbitrary: w) (auto split: option.splits)

subsection \<open>Calls\<close>

text \<open>\<open>ClientEnd.Call\<close> in its two halves: what it sends, and what it returns for a reply, the
  success flag and the new value of \<open>reply\<close>. Where the network has been cleaned up the first
  half may return false instead of sending.\<close>

definition Call_request :: "'v codec \<Rightarrow> iface \<Rightarrow> string \<Rightarrow> gotype \<Rightarrow> 'v \<Rightarrow> fatal + reqMsg" where
  "Call_request gob en meth ty v =
     (case Encode gob v of
        (_, False) \<Rightarrow> Inl Panicked
      | (bs, True) \<Rightarrow> Inr \<lparr>endname = en, svcMeth = meth, argsType = ty, args = bs\<rparr>)"

definition Call_return :: "'v codec \<Rightarrow> replyMsg \<Rightarrow> 'v \<Rightarrow> fatal + bool \<times> 'v" where
  "Call_return gob rep v =
     (if ok rep then
        (case Decode gob (reply rep) v of
           (_, False) \<Rightarrow> Inl Decode_Failed
         | (v', True) \<Rightarrow> Inr (True, v'))
      else Inr (False, v))"

end
