(* ===== verification/Labrpc_Properties.thy ===== *)
theory Labrpc_Properties
  imports Labrpc
begin

section \<open>What the simulated network guarantees\<close>

text \<open>
  Every request is handled at most once, and a positive answer carries what its handler replied;
  a server that has been taken out of the network answers nothing more; every call returns; the
  counters of the network and of the servers are what the runs did.
\<close>

subsection \<open>The state of one request\<close>

text \<open>How the two goroutines of a request stand to each other.\<close>

definition rpc_ok :: "rpc \<Rightarrow> bool" where
  "rpc_ok r =
     (case rpc_phase r of
        Received \<Rightarrow> rpc_handler r = Not_Started
      | Waiting ei \<Rightarrow> (\<exists>s. info_server ei = Some s \<and>
          (rpc_handler r = Running s \<or> (\<exists>rep. rpc_handler r = Returned s rep)))
      | Replying ei rep \<Rightarrow> (\<exists>s. info_server ei = Some s \<and> rpc_handler r = Returned s rep)
      | Reply_Later rep \<Rightarrow> rep = no_reply \<or> (\<exists>s. rpc_handler r = Returned s rep)
      | Answered rep \<Rightarrow> rep = no_reply \<or> (\<exists>s. rpc_handler r = Returned s rep))"

definition rpcs_ok :: "('v, 'o) world \<Rightarrow> bool" where
  "rpcs_ok w \<longleftrightarrow> (\<forall>r \<in> set (rpcs w). rpc_ok r)"

lemma rpcs_okD: "rpcs_ok w \<Longrightarrow> i < length (rpcs w) \<Longrightarrow> rpc_ok (rpcs w ! i)"
  by (simp add: rpcs_ok_def)

lemma rpcs_set_rpc [simp]: "rpcs (set_rpc i r w) = (rpcs w)[i := r]"
  by (simp add: set_rpc_def)

lemma rpcs_move: "rpcs (move i p w) = (rpcs w)[i := (rpcs w ! i)\<lparr>rpc_phase := p\<rparr>]"
  by (simp add: move_def)

lemma rpcs_accept: "rpcs (accept xreq w) = rpcs w @ [\<lparr>rpc_req = xreq, rpc_phase = Received, rpc_handler = Not_Started\<rparr>]"
  by (simp add: accept_def)

lemma rpcs_ok_update: "rpcs_ok w \<Longrightarrow> rpcs w' = (rpcs w)[i := r] \<Longrightarrow> rpc_ok r \<Longrightarrow> rpcs_ok w'"
  by (auto simp: rpcs_ok_def dest: set_update_subset_insert [THEN subsetD])

lemma rpc_ok_admit: "processReq_admit ei d = (p, h) \<Longrightarrow> rpc_ok (r\<lparr>rpc_handler := h, rpc_phase := p\<rparr>)"
  by (auto simp: processReq_admit_def rpc_ok_def split: if_splits option.splits)

lemma rpc_ok_handle:
  "rpc_ok r \<Longrightarrow> rpc_handler r = Running s \<Longrightarrow> rpc_ok (r\<lparr>rpc_handler := Returned s rep\<rparr>)"
  by (auto simp: rpc_ok_def split: phase.splits)

lemma step_rpcs_ok:
  assumes "step_of gob e w = Some w'" and "rpcs_ok w"
  shows "rpcs_ok w'"
proof (cases e)
  case (Admit i d)
  let ?r = "rpcs w ! i"
  obtain p h where ph: "processReq_admit (readEndnameInfo (net w) (endname (rpc_req ?r))) d = (p, h)"
    by fastforce
  from assms(1) Admit ph have "i < length (rpcs w)" and
    "w' = move i p (set_rpc i (?r\<lparr>rpc_handler := h\<rparr>) w)" by (auto simp: Let_def split: if_splits)
  then have "rpcs w' = (rpcs w)[i := ?r\<lparr>rpc_handler := h, rpc_phase := p\<rparr>]" by (simp add: rpcs_move)
  then show ?thesis using rpc_ok_admit [OF ph] by (rule rpcs_ok_update [OF assms(2)])
next
  case (Handle i)
  with assms(1) obtain s where s: "i < length (rpcs w)" "rpc_handler (rpcs w ! i) = Running s"
      "w' = run_handler gob i s w"
    by (auto split: if_splits handler.splits)
  from rpc_ok_handle [OF rpcs_okD [OF assms(2) s(1)] s(2)] s(3) show ?thesis
    using assms(2)
    by (auto simp: run_handler_def rpcs_ok_def dest!: set_update_subset_insert [THEN subsetD] split: sum.split)
next
  case (Receive i)
  with assms rpcs_okD [OF assms(2), of i] show ?thesis
    by (auto simp: rpcs_move rpc_ok_def intro!: rpcs_ok_update [OF assms(2)]
        split: if_splits handler.splits phase.splits)
next
  case (Poll i)
  with assms rpcs_okD [OF assms(2), of i] show ?thesis
    by (auto simp: rpcs_move rpc_ok_def processReq_poll_def intro!: rpcs_ok_update [OF assms(2)]
        split: if_splits handler.splits phase.splits)
next
  case (Finish i d d')
  with assms rpcs_okD [OF assms(2), of i] show ?thesis
    by (auto simp: rpcs_move rpc_ok_def processReq_finish_def intro!: rpcs_ok_update [OF assms(2)]
        split: if_splits handler.splits phase.splits)
next
  case (Fire i)
  with assms rpcs_okD [OF assms(2), of i] show ?thesis
    by (auto simp: rpcs_move rpc_ok_def intro!: rpcs_ok_update [OF assms(2)]
        split: if_splits handler.splits phase.splits)
qed (use assms in \<open>auto simp: rpcs_ok_def rpcs_accept rpc_ok_def split: sum.splits if_splits\<close>)

lemma run_snoc: "run gob (es @ [e]) w = (case run gob es w of None \<Rightarrow> None | Some w' \<Rightarrow> exec gob e w')"
  by (simp add: run_append split: option.split)

lemma execD: "exec gob e w = Some w' \<Longrightarrow> exited w = None \<and> step_of gob e w = Some w'"
  by (simp add: exec_def split: if_splits)

text \<open>An invariant of the steps holds after every run.\<close>

lemma run_induct [consumes 1, case_names start step]:
  assumes "run gob es w = Some w'" and "P [] w"
    and "\<And>es e v v'. run gob es w = Some v \<Longrightarrow> P es v \<Longrightarrow> exited v = None \<Longrightarrow>
           step_of gob e v = Some v' \<Longrightarrow> P (es @ [e]) v'"
  shows "P es w'"
  using assms(1)
proof (induction es arbitrary: w' rule: rev_induct)
  case Nil
  with assms(2) show ?case by simp
next
  case (snoc e es)
  then obtain v where "run gob es w = Some v" "exec gob e v = Some w'"
    by (auto simp: run_snoc split: option.splits)
  with snoc.IH assms(3) show ?case by (blast dest: execD)
qed

lemma run_rpcs_ok: "run gob es (init_world os) = Some w \<Longrightarrow> rpcs_ok w"
  by (induction rule: run_induct) (auto simp: rpcs_ok_def init_world_def dest: step_rpcs_ok [unfolded rpcs_ok_def])


subsection \<open>What a step changes\<close>

lemma step_length: "step_of gob e w = Some w' \<Longrightarrow> length (rpcs w) \<le> length (rpcs w')"
  by (cases e) (auto simp: rpcs_accept rpcs_move run_handler_def Let_def
      split: sum.splits if_splits handler.splits phase.splits prod.splits)

lemma step_req:
  "step_of gob e w = Some w' \<Longrightarrow> i < length (rpcs w) \<Longrightarrow> rpc_req (rpcs w' ! i) = rpc_req (rpcs w ! i)"
  by (cases e) (auto simp: rpcs_accept rpcs_move run_handler_def Let_def nth_append nth_list_update
      split: sum.splits if_splits handler.splits phase.splits prod.splits)

text \<open>A handler that has returned stays so; one that runs returns by its own step only, or the
  process ends.\<close>

lemma step_returned:
  "step_of gob e w = Some w' \<Longrightarrow> rpcs_ok w \<Longrightarrow> i < length (rpcs w) \<Longrightarrow> rpc_handler (rpcs w ! i) = Returned s rep \<Longrightarrow>
   rpc_handler (rpcs w' ! i) = Returned s rep \<and> e \<noteq> Handle i"
  using rpcs_okD [of w i]
  by (cases e) (auto simp: rpcs_accept rpcs_move run_handler_def Let_def nth_append nth_list_update rpc_ok_def
      split: sum.splits if_splits handler.splits phase.splits prod.splits)

lemma step_returns:
  assumes "step_of gob e w = Some w'" and "i < length (rpcs w')"
    and "rpc_handler (rpcs w' ! i) = Returned s rep"
  shows "i < length (rpcs w) \<and> (rpc_handler (rpcs w ! i) = Returned s rep \<or>
     (e = Handle i \<and> rpc_handler (rpcs w ! i) = Running s \<and> s < length (heap w) \<and>
      (\<exists>rs os. Server_dispatch gob (heap w ! s) (rpc_req (rpcs w ! i)) (objs w) = Inr (rep, rs, os) \<and>
         heap w' = (heap w)[s := rs] \<and> objs w' = os)))"
  using assms
  by (cases e) (auto simp: rpcs_accept rpcs_move run_handler_def Let_def nth_append nth_list_update processReq_admit_def
      set_rpc_def split: sum.splits if_splits handler.splits phase.splits prod.splits option.splits)


subsection \<open>At most one execution, and its reply\<close>

lemma step_handle_returned:
  "step_of gob (Handle i) w = Some w' \<Longrightarrow>
   exited w' \<noteq> None \<or> i < length (rpcs w') \<and> (\<exists>s rep. rpc_handler (rpcs w' ! i) = Returned s rep)"
  by (auto simp: run_handler_def split: if_splits handler.splits sum.splits)

lemma run_handled:
  assumes "run gob es (init_world os) = Some w" and "Handle i \<in> set es"
  shows "exited w \<noteq> None \<or> i < length (rpcs w) \<and> (\<exists>s rep. rpc_handler (rpcs w ! i) = Returned s rep)"
  using assms
proof (induction rule: run_induct)
  case (step es e v v')
  show ?case
  proof (cases "e = Handle i")
    case True
    with step.hyps step_handle_returned show ?thesis by blast
  next
    case False
    with step have "i < length (rpcs v)" "\<exists>s rep. rpc_handler (rpcs v ! i) = Returned s rep" by auto
    with step.hyps step_returned run_rpcs_ok step_length show ?thesis by (meson less_le_trans)
  qed
qed simp

text \<open>Where the reply of a handler comes from: one step of the run, of the server as it was.\<close>

definition handled_at ::
  "'v codec \<Rightarrow> ('v, 'o) event list \<Rightarrow> 'o \<Rightarrow> nat \<Rightarrow> reqMsg \<Rightarrow> nat \<Rightarrow> replyMsg \<Rightarrow> bool" where
  "handled_at gob es os i req s rep \<longleftrightarrow>
     (\<exists>es1 es2 w1 w2. es = es1 @ Handle i # es2 \<and> Handle i \<notin> set es1 \<and> Handle i \<notin> set es2 \<and>
        run gob es1 (init_world os) = Some w1 \<and> run gob (es1 @ [Handle i]) (init_world os) = Some w2 \<and>
        s < length (heap w1) \<and>
        (\<exists>rs. Server_dispatch gob (heap w1 ! s) req (objs w1) = Inr (rep, rs, objs w2)))"

lemma handled_at_snoc:
  "handled_at gob es os i req s rep \<Longrightarrow> e \<noteq> Handle i \<Longrightarrow> handled_at gob (es @ [e]) os i req s rep"
  unfolding handled_at_def
  by (elim exE conjE, rule exI, rule_tac x="es2 @ [e]" in exI) auto

lemma run_handled_at:
  assumes "run gob es (init_world os) = Some w" and "i < length (rpcs w)"
    and "rpc_handler (rpcs w ! i) = Returned s rep"
  shows "handled_at gob es os i (rpc_req (rpcs w ! i)) s rep"
  using assms
proof (induction arbitrary: rule: run_induct)
  case start
  then show ?case by (simp add: init_world_def)
next
  case (step es e v v')
  from step_returns [OF step.hyps(3) step.prems] have i: "i < length (rpcs v)" by blast
  have req: "rpc_req (rpcs v' ! i) = rpc_req (rpcs v ! i)" by (rule step_req [OF step.hyps(3) i])
  show ?case
  proof (cases "rpc_handler (rpcs v ! i) = Returned s rep")
    case True
    with step.IH i have "handled_at gob es os i (rpc_req (rpcs v ! i)) s rep" by blast
    moreover have "e \<noteq> Handle i"
      using step_returned [OF step.hyps(3) run_rpcs_ok [OF step.hyps(1)] i True] by blast
    ultimately show ?thesis unfolding req by (rule handled_at_snoc)
  next
    case False
    with step_returns [OF step.hyps(3) step.prems] obtain rs os' where e: "e = Handle i"
      "rpc_handler (rpcs v ! i) = Running s" "s < length (heap v)"
      "Server_dispatch gob (heap v ! s) (rpc_req (rpcs v ! i)) (objs v) = Inr (rep, rs, os')" "objs v' = os'"
      by blast
    from run_handled [OF step.hyps(1), of i] step.hyps(2) e(2) have "Handle i \<notin> set es" by auto
    with step.hyps e show ?thesis
      unfolding handled_at_def req by (intro exI [of _ es] exI [of _ "[]"]) (auto simp: run_snoc exec_def)
  qed
qed

text \<open>A handler was launched when the network admitted the request, on the server that the name stood for
  to which the end-point was connected, the end-point being enabled.\<close>

definition admitted_to ::
  "'v codec \<Rightarrow> ('v, 'o) event list \<Rightarrow> 'o \<Rightarrow> nat \<Rightarrow> iface \<Rightarrow> nat \<Rightarrow> bool" where
  "admitted_to gob es os i en s \<longleftrightarrow>
     (\<exists>es0 d es1 w0. es = es0 @ Admit i d # es1 \<and> run gob es0 (init_world os) = Some w0 \<and>
        go_get (enabled (net w0)) False en \<and>
        go_get (servers (net w0)) None (go_get (connections (net w0)) NilI en) = Some s)"

lemma admitted_to_snoc: "admitted_to gob es os i en s \<Longrightarrow> admitted_to gob (es @ [e]) os i en s"
  unfolding admitted_to_def by (elim exE conjE, rule exI, rule exI, rule_tac x="es1 @ [e]" in exI) auto

lemma step_launches:
  assumes "step_of gob e w = Some w'" and "i < length (rpcs w')"
    and "rpc_handler (rpcs w' ! i) = Running s \<or> rpc_handler (rpcs w' ! i) = Returned s rep"
  shows "i < length (rpcs w) \<and>
    (rpc_handler (rpcs w ! i) = Running s \<or> rpc_handler (rpcs w ! i) = Returned s rep \<or>
     (\<exists>d. e = Admit i d) \<and> go_get (enabled (net w)) False (endname (rpc_req (rpcs w ! i))) \<and>
       go_get (servers (net w)) None (go_get (connections (net w)) NilI (endname (rpc_req (rpcs w ! i)))) = Some s)"
  using assms
  by (cases e) (auto simp: rpcs_accept rpcs_move run_handler_def Let_def nth_append nth_list_update processReq_admit_def
      readEndnameInfo_def set_rpc_def
      split: sum.splits if_splits handler.splits phase.splits prod.splits option.splits)

lemma run_admitted:
  assumes "run gob es (init_world os) = Some w" and "i < length (rpcs w)"
    and "rpc_handler (rpcs w ! i) = Running s \<or> rpc_handler (rpcs w ! i) = Returned s rep"
  shows "admitted_to gob es os i (endname (rpc_req (rpcs w ! i))) s"
  using assms
proof (induction rule: run_induct)
  case start
  then show ?case by (simp add: init_world_def)
next
  case (step es e v v')
  note l = step_launches [OF step.hyps(3) step.prems]
  then have i: "i < length (rpcs v)" by blast
  have req: "rpc_req (rpcs v' ! i) = rpc_req (rpcs v ! i)" by (rule step_req [OF step.hyps(3) i])
  show ?case
  proof (cases "rpc_handler (rpcs v ! i) = Running s \<or> rpc_handler (rpcs v ! i) = Returned s rep")
    case True
    then show ?thesis unfolding req by (intro admitted_to_snoc step.IH i)
  next
    case False
    with l obtain d where "e = Admit i d" by blast
    with l False step.hyps(1) show ?thesis
      unfolding admitted_to_def req by (intro exI [of _ es] exI [of _ d] exI [of _ "[]"] exI [of _ v]) simp
  qed
qed

subsection \<open>Dispatching\<close>

lemma LastIndex_split:
  "LastIndex xs c \<ge> 0 \<Longrightarrow>
   xs = take (nat (LastIndex xs c)) xs @ c # drop (nat (LastIndex xs c + 1)) xs \<and>
   c \<notin> set (drop (nat (LastIndex xs c + 1)) xs)"
proof (induction xs)
  case (Cons x xs)
  have none: "LastIndex xs c < 0 \<Longrightarrow> c \<notin> set xs" for xs
    by (induction xs) (auto simp: Let_def split: if_splits)
  show ?case
  proof (cases "LastIndex xs c \<ge> 0")
    case True
    with Cons.IH show ?thesis by (simp add: nat_add_distrib)
  next
    case False
    with Cons.prems none show ?thesis by (auto simp: Let_def split: if_splits)
  qed
qed simp

lemma Server_dispatch_elim:
  assumes "Server_dispatch gob rs req os = Inr (rep, rs', os')"
  obtains sn mn svc m rt v' where "svcMeth req = sn @ CHR ''.'' # mn" "CHR ''.'' \<notin> set mn"
    "services rs sn = Some svc" "methods svc mn = Some m" "Elem (In m ! 2) = Some rt"
    "Func m (rcvr svc) (fst (Decode gob (args req) (zero_of gob (argsType req)))) (zero_of gob rt) os = Some (v', os')"
    "rep = \<lparr>ok = True, reply = fst (Encode gob v')\<rparr>" "rs' = rs\<lparr>srv_count := srv_count rs + 1\<rparr>"
proof -
  let ?k = "LastIndex (svcMeth req) (CHR ''.'')"
  from assms obtain sn mn svc where k: "go_upto (svcMeth req) ?k = Some sn"
      "go_from (svcMeth req) (?k + 1) = Some mn" "services rs sn = Some svc"
      "Service_dispatch gob svc mn req os = Inr (rep, os')" "rs' = rs\<lparr>srv_count := srv_count rs + 1\<rparr>"
    by (auto simp: Server_dispatch_def Let_def split: option.splits sum.splits)
  from k(1,2) have "0 \<le> ?k" "sn = take (nat ?k) (svcMeth req)" "mn = drop (nat (?k + 1)) (svcMeth req)"
    by (auto simp: go_upto_Some_iff go_from_Some_iff)
  with LastIndex_split [of "svcMeth req" "CHR ''.''"]
  have "svcMeth req = sn @ CHR ''.'' # mn" "CHR ''.'' \<notin> set mn" by auto
  with k(3-) that show ?thesis
    by (auto simp: Service_dispatch_def Let_def split: option.splits if_splits)
qed

lemma Server_dispatch_services:
  "Server_dispatch gob srv req os = Inr (rep, srv', os') \<Longrightarrow> services srv' = services srv"
  by (rule Server_dispatch_elim) auto

text \<open>The services of a server are those that the run has registered, under their own names.\<close>

lemma heap_set_rpc [simp]: "heap (set_rpc i r w) = heap w" "heap (move i p w) = heap w"
  by (simp_all add: set_rpc_def move_def)

lemma step_services:
  assumes "step_of gob e w = Some w'" and "s < length (heap w')" and "services (heap w' ! s) sn = Some svc"
  shows "s < length (heap w) \<and> services (heap w ! s) sn = Some svc \<or> sn = name svc \<and> e = Register s svc"
proof (cases e)
  case New_Server
  with assms show ?thesis by (auto simp: nth_append MakeServer_def split: if_splits)
next
  case (Register k svc')
  with assms show ?thesis
    by (cases "s = k") (auto simp: AddService_def split: if_splits)
next
  case (Handle i)
  with assms(1) obtain k where w': "w' = run_handler gob i k w" by (auto split: if_splits handler.splits)
  show ?thesis
  proof (cases "k < length (heap w)")
    case True
    with assms(2,3) show ?thesis unfolding w'
      by (cases "s = k") (auto simp: run_handler_def dest!: Server_dispatch_services split: sum.splits)
  qed (use assms in \<open>auto simp: w' run_handler_def\<close>)
qed (use assms in \<open>auto simp: accept_def Let_def split: if_splits sum.splits prod.splits phase.splits handler.splits\<close>)

lemma run_registered:
  assumes "run gob es (init_world os) = Some w" and "s < length (heap w)" and "services (heap w ! s) sn = Some svc"
  shows "sn = name svc \<and> Register s svc \<in> set es"
  using assms
proof (induction rule: run_induct)
  case start
  then show ?case by (simp add: init_world_def)
next
  case (step es e v v')
  from step_services [OF step.hyps(3) step.prems] step.IH show ?case by auto
qed

text \<open>A server with one service, reached through an end-point.\<close>

definition string_codec :: "string codec" where
  "string_codec = \<lparr>Encode = (\<lambda>v. (v, True)), Decode = (\<lambda>bs v. (bs, True)), zero_of = (\<lambda>_. '''')\<rparr>"

definition echo :: "(string, int) reflect_method" where
  "echo = \<lparr>Method_Name = ''Ping'', PkgPath = '''',
     In = [Ptr (Value_Type ''Echo''), Value_Type ''string'', Ptr (Value_Type ''string'')], NumOut = 0,
     Func = (\<lambda>receiver v z calls. Some (v @ ''!'', calls + 1))\<rparr>"

definition ping :: reqMsg where
  "ping = \<lparr>endname = StringI ''e'', svcMeth = ''Echo.Ping'', argsType = Value_Type ''string'', args = ''hello''\<rparr>"

definition echo_setup :: "(string, int) event list" where
  "echo_setup = [New_Server, Register 0 (MakeService 7 ''Echo'' [echo]), Net_Op (Op_MakeEnd (StringI ''e'')),
     Net_Op (Op_Connect (StringI ''e'') (IntI 3)), Net_Op (Op_AddServer (IntI 3) (Some 0)),
     Net_Op (Op_Enable (StringI ''e'') True)]"

subsection \<open>Calls return what the handler replied\<close>

text \<open>The lemma behind the claim: the reply that was encoded by the handler that ran for the request.\<close>

lemma call_executed:
  assumes "run gob es (init_world os) = Some w" and "i < length (rpcs w)"
    and "Call_request gob en meth ty v = Inr (rpc_req (rpcs w ! i))"
    and "rpc_phase (rpcs w ! i) = Answered rep" and "ok rep"
    and "Decode gob (fst (Encode gob v)) (zero_of gob ty) = (v, True)"
  obtains es1 es2 w1 w2 s sn mn svc m rt u where
    "es = es1 @ Handle i # es2" "Handle i \<notin> set es1" "Handle i \<notin> set es2"
    "run gob es1 (init_world os) = Some w1" "run gob (es1 @ [Handle i]) (init_world os) = Some w2"
    "s < length (heap w1)" "meth = sn @ CHR ''.'' # mn" "CHR ''.'' \<notin> set mn"
    "services (heap w1 ! s) sn = Some svc" "methods svc mn = Some m" "Elem (In m ! 2) = Some rt"
    "Func m (rcvr svc) v (zero_of gob rt) (objs w1) = Some (u, objs w2)"
    "rep = \<lparr>ok = True, reply = fst (Encode gob u)\<rparr>" "rpc_handler (rpcs w ! i) = Returned s rep"
proof -
  from rpcs_okD [OF run_rpcs_ok [OF assms(1)] assms(2)] assms(4,5)
  obtain s where s: "rpc_handler (rpcs w ! i) = Returned s rep" by (auto simp: rpc_ok_def)
  from run_handled_at [OF assms(1,2) this] obtain es1 es2 w1 w2 rs where
    h: "es = es1 @ Handle i # es2" "Handle i \<notin> set es1" "Handle i \<notin> set es2"
       "run gob es1 (init_world os) = Some w1" "run gob (es1 @ [Handle i]) (init_world os) = Some w2"
       "s < length (heap w1)" and
    d: "Server_dispatch gob (heap w1 ! s) (rpc_req (rpcs w ! i)) (objs w1) = Inr (rep, rs, objs w2)"
    unfolding handled_at_def by blast
  from assms(3) have "rpc_req (rpcs w ! i) =
      \<lparr>endname = en, svcMeth = meth, argsType = ty, args = fst (Encode gob v)\<rparr>"
    by (auto simp: Call_request_def split: prod.splits bool.splits)
  then have req: "svcMeth (rpc_req (rpcs w ! i)) = meth" "argsType (rpc_req (rpcs w ! i)) = ty"
      "args (rpc_req (rpcs w ! i)) = fst (Encode gob v)"
    by simp_all
  show thesis
  proof (rule Server_dispatch_elim [OF d])
    fix sn mn svc m rt u
    assume m: "svcMeth (rpc_req (rpcs w ! i)) = sn @ CHR ''.'' # mn" "CHR ''.'' \<notin> set mn"
      "services (heap w1 ! s) sn = Some svc" "methods svc mn = Some m" "Elem (In m ! 2) = Some rt"
      "Func m (rcvr svc) (fst (Decode gob (args (rpc_req (rpcs w ! i))) (zero_of gob (argsType (rpc_req (rpcs w ! i))))))
         (zero_of gob rt) (objs w1) = Some (u, objs w2)"
      "rep = \<lparr>ok = True, reply = fst (Encode gob u)\<rparr>"
    with req assms(6) have "meth = sn @ CHR ''.'' # mn"
      "Func m (rcvr svc) v (zero_of gob rt) (objs w1) = Some (u, objs w2)" by simp_all
    with h m(2-5,7) s that show thesis by blast
  qed
qed

text \<open>The values that can be stored as the reply of a call: by a method that the run has registered under
  the name that is called, for the argument of the call, in some state of the objects.\<close>

definition possible_reply :: "'v codec \<Rightarrow> ('v, 'o) event list \<Rightarrow> string \<Rightarrow> 'v \<Rightarrow> 'v \<Rightarrow> bool" where
  "possible_reply gob es meth v u \<longleftrightarrow>
     (\<exists>s svc mn m rt os os'. Register s svc \<in> set es \<and> meth = name svc @ CHR ''.'' # mn \<and>
        methods svc mn = Some m \<and> Elem (In m ! 2) = Some rt \<and>
        Func m (rcvr svc) v (zero_of gob rt) os = Some (u, os'))"

text \<open>C26. A call that returns true was handled exactly once, at a step of the run between sending and
  returning, by the method of the service that the server registered under the name in the
  request; the method was given the argument of the call, and the reply that the caller sees is
  the one it stored. That \<open>encoding/gob\<close> reads back the argument of the call, and into the reply variable
  the values that its method can store, is a hypothesis; it asks nothing of values of other types,
  which gob refuses to decode.\<close>

theorem call_fidelity:
  assumes "run gob es (init_world os) = Some w" and "i < length (rpcs w)"
    and "Call_request gob en meth ty v = Inr (rpc_req (rpcs w ! i))"
    and "rpc_phase (rpcs w ! i) = Answered rep"
    and "Call_return gob rep z = Inr (True, v')"
    and "Decode gob (fst (Encode gob v)) (zero_of gob ty) = (v, True)"
    and "\<And>u. possible_reply gob es meth v u \<Longrightarrow> Decode gob (fst (Encode gob u)) z = (u, True)"
  shows "\<exists>es1 es2 w1 w2 s sn mn svc m rt.
    es = es1 @ Handle i # es2 \<and> Handle i \<notin> set es1 \<and> Handle i \<notin> set es2 \<and>
    run gob es1 (init_world os) = Some w1 \<and> run gob (es1 @ [Handle i]) (init_world os) = Some w2 \<and>
    s < length (heap w1) \<and> meth = sn @ CHR ''.'' # mn \<and> CHR ''.'' \<notin> set mn \<and>
    services (heap w1 ! s) sn = Some svc \<and> methods svc mn = Some m \<and> Elem (In m ! 2) = Some rt \<and>
    Func m (rcvr svc) v (zero_of gob rt) (objs w1) = Some (v', objs w2)"
proof -
  from assms(5) have pos: "ok rep" and dec: "Decode gob (reply rep) z = (v', True)"
    by (auto simp: Call_return_def split: if_splits prod.splits bool.splits)
  show ?thesis
  proof (rule call_executed [OF assms(1-4) pos assms(6)])
    fix es1 es2 w1 w2 s sn mn svc m rt u
    assume h: "es = es1 @ Handle i # es2" "Handle i \<notin> set es1" "Handle i \<notin> set es2"
      "run gob es1 (init_world os) = Some w1" "run gob (es1 @ [Handle i]) (init_world os) = Some w2"
      "s < length (heap w1)" "meth = sn @ CHR ''.'' # mn" "CHR ''.'' \<notin> set mn"
      "services (heap w1 ! s) sn = Some svc" "methods svc mn = Some m" "Elem (In m ! 2) = Some rt"
      "Func m (rcvr svc) v (zero_of gob rt) (objs w1) = Some (u, objs w2)"
      "rep = \<lparr>ok = True, reply = fst (Encode gob u)\<rparr>"
    from run_registered [OF h(4,6,9)] h(1) have "sn = name svc" "Register s svc \<in> set es" by auto
    with h(7,10-12) have "possible_reply gob es meth v u" unfolding possible_reply_def by blast
    from assms(7) [OF this] h(13) dec have "u = v'" by simp
    with h(1-12) show ?thesis by blast
  qed
qed

text \<open>An encoding of two types that tells them apart, as gob does, and a run with a method from one
  type to the other.\<close>

datatype gob_value = Text string | Number nat

definition tagged_codec :: "gob_value codec" where
  "tagged_codec =
     \<lparr>Encode = (\<lambda>v. case v of Text s \<Rightarrow> (CHR ''t'' # s, True) | Number n \<Rightarrow> (CHR ''n'' # replicate n (CHR ''1''), True)),
      Decode = (\<lambda>bs z. case (bs, z) of
          (c # cs, Text _) \<Rightarrow> if c = CHR ''t'' then (Text cs, True) else (z, False)
        | (c # cs, Number _) \<Rightarrow> if c = CHR ''n'' then (Number (length cs), True) else (z, False)
        | _ \<Rightarrow> (z, False)),
      zero_of = (\<lambda>ty. if ty = Value_Type ''int'' then Number 0 else Text [])\<rparr>"

definition measure_text :: "(gob_value, int) reflect_method" where
  "measure_text = \<lparr>Method_Name = ''Len'', PkgPath = [],
     In = [Ptr (Value_Type ''Meter''), Value_Type ''string'', Ptr (Value_Type ''int'')], NumOut = 0,
     Func = (\<lambda>receiver v z calls. case v of Text s \<Rightarrow> Some (Number (length s), calls + 1) | Number _ \<Rightarrow> None)\<rparr>"

definition meter_message :: reqMsg where
  "meter_message = \<lparr>endname = StringI ''e'', svcMeth = ''Meter.Len'', argsType = Value_Type ''string'', args = ''thello''\<rparr>"

definition meter_events :: "(gob_value, int) event list" where
  "meter_events = [New_Server, Register 0 (MakeService 7 ''Meter'' [measure_text]), Net_Op (Op_MakeEnd (StringI ''e'')),
     Net_Op (Op_Connect (StringI ''e'') (IntI 3)), Net_Op (Op_AddServer (IntI 3) (Some 0)),
     Net_Op (Op_Enable (StringI ''e'') True), Accept meter_message, Admit 0 500, Poll 0, Handle 0, Receive 0, Finish 0 500 0]"

lemma meter_run:
  "map_option (\<lambda>w. (rpcs w, exited w)) (run tagged_codec meter_events (init_world 0)) =
     Some ([\<lparr>rpc_req = meter_message, rpc_phase = Answered \<lparr>ok = True, reply = ''n11111''\<rparr>,
       rpc_handler = Returned 0 \<lparr>ok = True, reply = ''n11111''\<rparr>\<rparr>], None)"
  by code_simp

theorem call_fidelity_witness:
  "\<exists>es1 es2 w1 w2 s sn mn svc m rt.
     meter_events = es1 @ Handle 0 # es2 \<and> Handle 0 \<notin> set es1 \<and> Handle 0 \<notin> set es2 \<and>
     run tagged_codec es1 (init_world 0) = Some w1 \<and>
     run tagged_codec (es1 @ [Handle 0]) (init_world 0) = Some w2 \<and>
     s < length (heap w1) \<and> ''Meter.Len'' = sn @ CHR ''.'' # mn \<and> CHR ''.'' \<notin> set mn \<and>
     services (heap w1 ! s) sn = Some svc \<and> methods svc mn = Some m \<and> Elem (In m ! 2) = Some rt \<and>
     Func m (rcvr svc) (Text ''hello'') (zero_of tagged_codec rt) (objs w1) = Some (Number 5, objs w2)"
proof -
  from meter_run obtain w where w: "run tagged_codec meter_events (init_world 0) = Some w"
    "rpcs w = [\<lparr>rpc_req = meter_message, rpc_phase = Answered \<lparr>ok = True, reply = ''n11111''\<rparr>,
       rpc_handler = Returned 0 \<lparr>ok = True, reply = ''n11111''\<rparr>\<rparr>]"
    by (auto simp: map_option_eq_Some)
  have number: "\<exists>n. u = Number n" if "possible_reply tagged_codec meter_events ''Meter.Len'' (Text ''hello'') u" for u
    using that by (auto simp: possible_reply_def meter_events_def MakeService_def looks_like_handler_def measure_text_def
        split: if_splits)
  show ?thesis
  proof (rule call_fidelity [OF w(1), where rep = "\<lparr>ok = True, reply = ''n11111''\<rparr>" and z = "Number 0"
          and en = "StringI ''e''" and ty = "Value_Type ''string''"])
    fix u assume "possible_reply tagged_codec meter_events ''Meter.Len'' (Text ''hello'') u"
    from number [OF this] show "Decode tagged_codec (fst (Encode tagged_codec u)) (Number 0) = (u, True)"
      by (auto simp: tagged_codec_def)
  qed (simp_all add: w(2) Call_request_def Call_return_def tagged_codec_def meter_message_def)
qed

subsection \<open>Servers out of the network stay silent\<close>

text \<open>The server at an address is cut off from an end-point when no name of the network stands for
  it or the end-point is disabled; only two operations undo that.\<close>

definition cut_off :: "Network \<Rightarrow> iface \<Rightarrow> nat \<Rightarrow> bool" where
  "cut_off rn en s \<longleftrightarrow> (\<forall>sn. go_get (servers rn) None sn \<noteq> Some s) \<or> \<not> go_get (enabled rn) False en"

definition reconnects :: "iface \<Rightarrow> nat \<Rightarrow> command \<Rightarrow> bool" where
  "reconnects en s c =
     (case c of
        Op_Enable en' yes \<Rightarrow> en' = en \<and> yes
      | Op_AddServer sn rs \<Rightarrow> rs = Some s
      | _ \<Rightarrow> False)"

definition positive :: "rpc \<Rightarrow> bool" where
  "positive r = (case rpc_phase r of Reply_Later rep \<Rightarrow> ok rep | Answered rep \<Rightarrow> ok rep | _ \<Rightarrow> False)"

lemma net_move [simp]:
  "servers (net (move i p w)) = servers (net w)" "enabled (net (move i p w)) = enabled (net w)"
  by (simp_all add: move_def set_rpc_def count_reply_def split: phase.split)

lemma net_set_rpc [simp]: "net (set_rpc i r w) = net w"
  by (simp add: set_rpc_def)

lemma net_run_handler [simp]: "net (run_handler gob i s w) = net w"
  by (auto simp: run_handler_def split: sum.split)

lemma command_cut_off:
  "apply_command c rn = Inr rn' \<Longrightarrow> cut_off rn en s \<Longrightarrow> \<not> reconnects en s c \<Longrightarrow>
   cut_off rn' en s"
  by (cases c) (auto simp: Reliable_def LongReordering_def LongDelays_def Cleanup_def MakeEnd_def
      AddServer_def DeleteServer_def Connect_def Enable_def cut_off_def reconnects_def go_get_def split: if_splits)

lemma step_cut_off:
  assumes "step_of gob e w = Some w'" and "cut_off (net w) en s" and "\<forall>c. e = Net_Op c \<longrightarrow> \<not> reconnects en s c"
  shows "cut_off (net w') en s"
proof (cases e)
  case (Net_Op c)
  with assms command_cut_off [of c "net w"] show ?thesis by (auto split: sum.splits)
qed (use assms in \<open>auto simp: cut_off_def accept_def Let_def split: if_splits handler.splits phase.splits prod.splits\<close>)

text \<open>Only the check after the waiting loop answers positively, and only for a server that is there.\<close>

lemma cut_off_dead: "cut_off rn en s \<Longrightarrow> info_server ei = Some s \<Longrightarrow>
   isServerDead rn en (info_servername ei) (info_server ei)"
  by (auto simp: cut_off_def isServerDead_def)

lemma not_positive_poll [simp]: "\<not> positive (r\<lparr>rpc_phase := processReq_poll rn en ei\<rparr>)"
  by (simp add: positive_def processReq_poll_def)

lemma not_positive_admit:
  "processReq_admit ei d = (p, h) \<Longrightarrow> \<not> positive (r\<lparr>rpc_handler := h', rpc_phase := p\<rparr>)"
  by (auto simp: positive_def processReq_admit_def split: if_splits option.splits)

lemma step_positive:
  assumes "step_of gob e w = Some w'" and "rpcs_ok w"
    and "i < length (rpcs w')" and "positive (rpcs w' ! i)" and "rpc_handler (rpcs w' ! i) = Returned s rep"
    and "cut_off (net w) (endname (rpc_req (rpcs w' ! i))) s"
  shows "i < length (rpcs w) \<and> positive (rpcs w ! i) \<and> rpc_handler (rpcs w ! i) = Returned s rep"
proof (cases e)
  case (Admit j d)
  obtain p h where "processReq_admit (readEndnameInfo (net w) (endname (rpc_req (rpcs w ! j)))) d = (p, h)"
    by fastforce
  with assms Admit not_positive_admit show ?thesis
    by (auto simp: rpcs_move nth_list_update split: if_splits)
next
  case (Handle j)
  with assms rpcs_okD [OF assms(2), of i] show ?thesis
    by (auto simp: run_handler_def positive_def rpc_ok_def nth_list_update
        split: if_splits handler.splits sum.splits phase.splits)
next
  case (Finish j d d')
  with assms rpcs_okD [OF assms(2), of j] show ?thesis
    by (auto simp: rpcs_move positive_def rpc_ok_def nth_list_update processReq_finish_def dest: cut_off_dead
        split: if_splits phase.splits)
qed (use assms in \<open>auto simp: rpcs_accept rpcs_move positive_def nth_append nth_list_update processReq_poll_def
      split: if_splits handler.splits phase.splits sum.splits\<close>)

text \<open>C27. Killed servers: from the moment no name of the network stands for a server, or a client's
  end-point is disabled, no call handled by that server, or from that end-point, turns positive;
  only replies that the server had already released may still arrive. This holds until the server
  is added or the end-point enabled again, and it is what the test configuration relies on when it
  crashes a peer and copies its stable storage.\<close>

theorem killed_server_silent:
  assumes "run gob es (init_world os) = Some w" and "run gob fs w = Some w'"
    and "cut_off (net w) (endname (rpc_req (rpcs w' ! i))) s"
    and "\<forall>c. Net_Op c \<in> set fs \<longrightarrow> \<not> reconnects (endname (rpc_req (rpcs w' ! i))) s c"
    and "i < length (rpcs w')" and "rpc_handler (rpcs w' ! i) = Returned s rep" and "positive (rpcs w' ! i)"
  shows "i < length (rpcs w) \<and> positive (rpcs w ! i) \<and> rpc_handler (rpcs w ! i) = Returned s rep"
proof -
  let ?en = "endname (rpc_req (rpcs w' ! i))"
  have "run gob fs v = Some w' \<Longrightarrow> rpcs_ok v \<Longrightarrow> cut_off (net v) ?en s \<Longrightarrow> \<forall>c. Net_Op c \<in> set fs \<longrightarrow> \<not> reconnects ?en s c \<Longrightarrow>
      i < length (rpcs v) \<and> positive (rpcs v ! i) \<and> rpc_handler (rpcs v ! i) = Returned s rep \<and>
      rpc_req (rpcs v ! i) = rpc_req (rpcs w' ! i)" for v
  proof (induction fs arbitrary: v)
    case Nil
    with assms(5-7) show ?case by simp
  next
    case (Cons f fs)
    then obtain u where u: "step_of gob f v = Some u" "run gob fs u = Some w'"
      by (auto simp: exec_def split: if_splits option.splits)
    from Cons.prems u have "rpcs_ok u" "cut_off (net u) ?en s" by (auto intro: step_rpcs_ok step_cut_off)
    with Cons u have later: "i < length (rpcs u)" "positive (rpcs u ! i)" "rpc_handler (rpcs u ! i) = Returned s rep"
      "rpc_req (rpcs u ! i) = rpc_req (rpcs w' ! i)" by auto
    then have "i < length (rpcs v) \<and> positive (rpcs v ! i) \<and> rpc_handler (rpcs v ! i) = Returned s rep"
      using step_positive [OF u(1) Cons.prems(2) later(1-3)] Cons.prems(3) by simp
    with step_req [OF u(1)] later show ?case by auto
  qed
  from this [OF assms(2) run_rpcs_ok [OF assms(1)] assms(3,4)] show ?thesis by blast
qed

theorem killed_server_silent_witness:
  "\<exists>w w'. run string_codec (echo_setup @ [Net_Op (Op_LongReordering True), Accept ping, Admit 0 500, Handle 0,
       Receive 0, Finish 0 500 0, Net_Op (Op_Enable (StringI ''e'') False), Net_Op (Op_DeleteServer (IntI 3))]) (init_world 0) = Some w \<and>
     run string_codec [Fire 0] w = Some w' \<and> positive (rpcs w' ! 0) \<and> positive (rpcs w ! 0)"
proof -
  let ?es = "echo_setup @ [Net_Op (Op_LongReordering True), Accept ping, Admit 0 500, Handle 0,
       Receive 0, Finish 0 500 0, Net_Op (Op_Enable (StringI ''e'') False), Net_Op (Op_DeleteServer (IntI 3))]"
  let ?rep = "\<lparr>ok = True, reply = ''hello!''\<rparr>"
  have "map_option (\<lambda>w. (enabled (net w) (StringI ''e''), map_option rpcs (run string_codec [Fire 0] w)))
      (run string_codec ?es (init_world 0)) =
      Some (Some False, Some [\<lparr>rpc_req = ping, rpc_phase = Answered ?rep, rpc_handler = Returned 0 ?rep\<rparr>])"
    by code_simp
  then obtain w w' where w: "run string_codec ?es (init_world 0) = Some w" "run string_codec [Fire 0] w = Some w'"
    and r: "enabled (net w) (StringI ''e'') = Some False"
      "rpcs w' = [\<lparr>rpc_req = ping, rpc_phase = Answered ?rep, rpc_handler = Returned 0 ?rep\<rparr>]"
    by (auto simp: map_option_eq_Some)
  from r(1) have cut: "cut_off (net w) (StringI ''e'') 0" by (simp add: cut_off_def go_get_def)
  from r have "positive (rpcs w' ! 0)" by (simp add: positive_def)
  moreover have "positive (rpcs w ! 0)"
    using killed_server_silent [OF w, of 0 0 ?rep] cut r by (simp add: positive_def ping_def)
  ultimately show ?thesis using w by blast
qed

subsection \<open>Calls return\<close>

text \<open>The steps of one request, and how many of them can be left, not counting the timer of the
  waiting loop.\<close>

fun rpc_of :: "('v, 'o) event \<Rightarrow> nat option" where
  "rpc_of (Admit i _) = Some i"
| "rpc_of (Handle i) = Some i"
| "rpc_of (Receive i) = Some i"
| "rpc_of (Poll i) = Some i"
| "rpc_of (Finish i _ _) = Some i"
| "rpc_of (Fire i) = Some i"
| "rpc_of _ = None"

definition steps_left :: "rpc \<Rightarrow> nat" where
  "steps_left r =
     (case rpc_phase r of Received \<Rightarrow> 5 | Waiting _ \<Rightarrow> 3 | Replying _ _ \<Rightarrow> 2 | Reply_Later _ \<Rightarrow> 1 | Answered _ \<Rightarrow> 0) +
     (case rpc_handler r of Running _ \<Rightarrow> 1 | _ \<Rightarrow> 0)"

definition own :: "nat \<Rightarrow> ('v, 'o) event \<Rightarrow> bool" where
  "own i e \<longleftrightarrow> rpc_of e = Some i \<and> e \<noteq> Poll i"

lemma steps_left_admit:
  "processReq_admit ei d = (p, h) \<Longrightarrow> rpc_phase r = Received \<Longrightarrow> rpc_handler r = Not_Started \<Longrightarrow>
   Suc (steps_left (r\<lparr>rpc_handler := h, rpc_phase := p\<rparr>)) \<le> steps_left r"
  by (auto simp: processReq_admit_def steps_left_def split: if_splits option.splits)

lemma step_steps_left:
  assumes "step_of gob e w = Some w'" and "rpcs_ok w" and "i < length (rpcs w)" and "exited w' = None"
  shows "(if own i e then 1 else 0) + steps_left (rpcs w' ! i) \<le> steps_left (rpcs w ! i)"
proof (cases e)
  case (Admit j d)
  obtain p h where "processReq_admit (readEndnameInfo (net w) (endname (rpc_req (rpcs w ! j)))) d = (p, h)"
    by fastforce
  with assms Admit steps_left_admit [of _ d p h "rpcs w ! j"] rpcs_okD [OF assms(2,3)] show ?thesis
    by (auto simp: rpcs_move nth_list_update own_def rpc_ok_def split: if_splits)
next
  case (Handle j)
  with assms show ?thesis
    by (auto simp: run_handler_def steps_left_def nth_list_update own_def
        split: if_splits handler.splits sum.splits phase.splits)
next
  case (Receive j)
  with assms(1) obtain ei s rep where "rpc_phase (rpcs w ! j) = Waiting ei" "rpc_handler (rpcs w ! j) = Returned s rep"
      "w' = move j (Replying ei rep) w"
    by (auto split: if_splits phase.splits handler.splits)
  with Receive assms(3) show ?thesis by (cases "i = j") (simp_all add: rpcs_move steps_left_def own_def)
next
  case (Poll j)
  with assms(1) obtain ei where "rpc_phase (rpcs w ! j) = Waiting ei"
      "w' = move j (processReq_poll (net w) (endname (rpc_req (rpcs w ! j))) ei) w"
    by (auto split: if_splits phase.splits)
  with Poll assms(3) show ?thesis
    by (cases "i = j") (simp_all add: rpcs_move steps_left_def own_def processReq_poll_def)
next
  case (Finish j d d')
  with assms(1) obtain ei rep where "rpc_phase (rpcs w ! j) = Replying ei rep"
      "w' = move j (processReq_finish (net w) (endname (rpc_req (rpcs w ! j))) ei rep d d') w"
    by (auto split: if_splits phase.splits)
  with Finish assms(3) show ?thesis
    by (cases "i = j") (simp_all add: rpcs_move steps_left_def own_def processReq_finish_def)
next
  case (Fire j)
  with assms(1) obtain rep where "rpc_phase (rpcs w ! j) = Reply_Later rep" "w' = move j (Answered rep) w"
    by (auto split: if_splits phase.splits)
  with Fire assms(3) show ?thesis by (cases "i = j") (simp_all add: rpcs_move steps_left_def own_def)
qed (use assms in \<open>auto simp: rpcs_accept nth_append own_def split: sum.splits if_splits\<close>)

lemma own_length: "step_of gob e w = Some w' \<Longrightarrow> own i e \<Longrightarrow> i < length (rpcs w)"
  by (cases e) (auto simp: own_def split: if_splits)

lemma run_steps_left:
  assumes "run gob es (init_world os) = Some w"
  shows "(i < length (rpcs w) \<longrightarrow> exited w = None \<longrightarrow> length (filter (own i) es) + steps_left (rpcs w ! i) \<le> 5) \<and>
    length (filter (own i) es) \<le> 5 \<and> (length (rpcs w) \<le> i \<longrightarrow> filter (own i) es = [])"
  using assms
proof (induction rule: run_induct)
  case start
  then show ?case by (simp add: init_world_def)
next
  case (step es e v v')
  show ?case
  proof (cases "i < length (rpcs v)")
    case False
    then have "filter (own i) es = []" "\<not> own i e"
      using step.IH own_length [OF step.hyps(3)] by auto
    moreover have "i < length (rpcs v') \<Longrightarrow> steps_left (rpcs v' ! i) = 5"
      using False step.hyps(3)
      by (cases e) (auto simp: rpcs_accept rpcs_move run_handler_def steps_left_def nth_append
          split: sum.splits if_splits handler.splits phase.splits prod.splits)
    ultimately show ?thesis by simp
  next
    case True
    have le: "length (filter (own i) es) + steps_left (rpcs v ! i) \<le> 5" using step True by blast
    have "own i e \<Longrightarrow> 0 < steps_left (rpcs v ! i)"
      using step.hyps(3) rpcs_okD [OF run_rpcs_ok [OF step.hyps(1)] True]
      by (cases e) (auto simp: own_def steps_left_def rpc_ok_def split: if_splits handler.splits phase.splits)
    with le step_length [OF step.hyps(3)] step_steps_left [OF step.hyps(3) run_rpcs_ok [OF step.hyps(1)] True] True
    show ?thesis by (auto split: if_splits)
  qed
qed

text \<open>The request can be answered by at most \<open>n\<close> steps of its own.\<close>

definition answerable :: "'v codec \<Rightarrow> nat \<Rightarrow> nat \<Rightarrow> ('v, 'o) world \<Rightarrow> bool" where
  "answerable gob n i w \<longleftrightarrow>
     (\<exists>es w' rep. length es \<le> n \<and> (\<forall>e \<in> set es. rpc_of e = Some i) \<and> run gob es w = Some w' \<and>
        exited w' = None \<and> rpc_phase (rpcs w' ! i) = Answered rep)"

lemma answerable_now:
  "exited w = None \<Longrightarrow> rpc_phase (rpcs w ! i) = Answered rep \<Longrightarrow> answerable gob n i w"
  unfolding answerable_def by (intro exI [of _ "[]"]) auto

lemma answerable_step:
  "step_of gob e w = Some w1 \<Longrightarrow> exited w = None \<Longrightarrow> rpc_of e = Some i \<Longrightarrow> answerable gob n i w1 \<Longrightarrow>
   n < m \<Longrightarrow> answerable gob m i w"
  unfolding answerable_def by (elim exE conjE, rule_tac x="e # es" in exI) (auto simp: exec_def)

lemma answerable_mono: "answerable gob n i w \<Longrightarrow> n \<le> m \<Longrightarrow> answerable gob m i w"
  unfolding answerable_def by (meson order_trans)

lemma exited_move [simp]: "exited (move i p w) = exited w" "exited (set_rpc i r w) = exited w"
  by (simp_all add: move_def set_rpc_def)

lemma phase_move [simp]: "i < length (rpcs w) \<Longrightarrow> rpcs (move i p w) ! i = (rpcs w ! i)\<lparr>rpc_phase := p\<rparr>"
  by (simp add: rpcs_move)

lemma length_move [simp]: "length (rpcs (move i p w)) = length (rpcs w)"
  by (simp add: rpcs_move)

lemma answerable_later:
  assumes "i < length (rpcs w)" and "exited w = None" and "rpc_phase (rpcs w ! i) = Reply_Later rep"
  shows "answerable gob 1 i w"
proof (rule answerable_step [OF _ assms(2)])
  show "step_of gob (Fire i) w = Some (move i (Answered rep) w)" using assms by simp
  show "answerable gob 0 i (move i (Answered rep) w)" using assms by (intro answerable_now) auto
qed simp_all

lemma answerable_replying:
  assumes "i < length (rpcs w)" and "exited w = None" and "rpc_phase (rpcs w ! i) = Replying ei rep"
  shows "answerable gob 1 i w"
proof (rule answerable_step [OF _ assms(2)])
  let ?p = "processReq_finish (net w) (endname (rpc_req (rpcs w ! i))) ei rep 500 900"
  show "step_of gob (Finish i 500 900) w = Some (move i ?p w)" using assms by simp
  show "answerable gob 0 i (move i ?p w)"
    using assms by (cases ?p) (auto intro: answerable_now simp: processReq_finish_def split: if_splits)
qed simp_all

lemma answerable_returned:
  assumes "i < length (rpcs w)" and "exited w = None" and "rpc_phase (rpcs w ! i) = Waiting ei"
    and "rpc_handler (rpcs w ! i) = Returned s rep"
  shows "answerable gob 2 i w"
proof (rule answerable_step [OF _ assms(2)])
  show "step_of gob (Receive i) w = Some (move i (Replying ei rep) w)" using assms by simp
  show "answerable gob 1 i (move i (Replying ei rep) w)" using assms by (intro answerable_replying) auto
qed simp_all

text \<open>The handler of the request would return at the server: the server exists, knows the service
  and the method, and the method does not panic.\<close>

definition would_return :: "'v codec \<Rightarrow> nat \<Rightarrow> ('v, 'o) world \<Rightarrow> nat \<Rightarrow> bool" where
  "would_return gob i w s \<longleftrightarrow>
     s < length (heap w) \<and> (case Server_dispatch gob (heap w ! s) (rpc_req (rpcs w ! i)) (objs w) of
        Inr _ \<Rightarrow> True | Inl _ \<Rightarrow> False)"

lemma answerable_waiting:
  assumes "i < length (rpcs w)" and "exited w = None" and "rpc_phase (rpcs w ! i) = Waiting ei"
    and "rpc_handler (rpcs w ! i) = Running s" and "info_server ei = Some s"
    and "would_return gob i w s \<or> cut_off (net w) (endname (rpc_req (rpcs w ! i))) s"
  shows "answerable gob 3 i w"
  using assms(6)
proof
  assume "would_return gob i w s"
  then obtain rep rs os' where d: "s < length (heap w)"
    "Server_dispatch gob (heap w ! s) (rpc_req (rpcs w ! i)) (objs w) = Inr (rep, rs, os')"
    by (auto simp: would_return_def split: sum.splits)
  let ?w = "run_handler gob i s w"
  have "answerable gob 2 i ?w"
    using assms d by (intro answerable_returned [where ei = ei and s = s and rep = rep]) (auto simp: run_handler_def)
  then show ?thesis
    using assms by (intro answerable_step [where e = "Handle i" and n = 2 and m = 3]) auto
next
  assume cut: "cut_off (net w) (endname (rpc_req (rpcs w ! i))) s"
  show ?thesis
  proof (rule answerable_step [OF _ assms(2)])
    show "step_of gob (Poll i) w = Some (move i (Answered no_reply) w)"
      using assms cut_off_dead [OF cut assms(5)] by (simp add: processReq_poll_def)
    show "answerable gob 0 i (move i (Answered no_reply) w)" using assms by (intro answerable_now) auto
  qed simp_all
qed

lemma would_return_move [simp]:
  "i < length (rpcs w) \<Longrightarrow> would_return gob i (move i p (set_rpc i ((rpcs w ! i)\<lparr>rpc_handler := h\<rparr>) w)) s =
     would_return gob i w s"
  by (simp add: would_return_def move_def set_rpc_def)

lemma cut_off_move [simp]: "cut_off (net (move i p w)) en s = cut_off (net w) en s"
  by (simp add: cut_off_def)

lemma answerable_received:
  assumes "exited w = None" and "i < length (rpcs w)" and "rpc_phase (rpcs w ! i) = Received"
    and "\<forall>s. info_server (readEndnameInfo (net w) (endname (rpc_req (rpcs w ! i)))) = Some s \<longrightarrow>
            would_return gob i w s \<or> cut_off (net w) (endname (rpc_req (rpcs w ! i))) s"
  shows "answerable gob 4 i w"
proof -
  let ?r = "rpcs w ! i"
  let ?ei = "readEndnameInfo (net w) (endname (rpc_req ?r))"
  obtain p h where ph: "processReq_admit ?ei 500 = (p, h)" by fastforce
  let ?w = "move i p (set_rpc i (?r\<lparr>rpc_handler := h\<rparr>) w)"
  have step: "step_of gob (Admit i 500) w = Some ?w" using assms(2,3) ph by simp
  have later: "answerable gob 3 i ?w" if "p = Reply_Later no_reply"
    using assms(1,2) that by (intro answerable_mono [OF answerable_later]) auto
  have "answerable gob 3 i ?w"
  proof (cases "info_enabled ?ei \<and> info_servername ?ei \<noteq> NilI \<and> info_server ?ei \<noteq> None")
    case True
    then obtain s where "info_server ?ei = Some s" by blast
    moreover from this True ph have "p = Waiting ?ei" "h = Running s" by (auto simp: processReq_admit_def)
    ultimately show ?thesis
      using assms(1,2,4) by (intro answerable_waiting [where ei = ?ei and s = s]) (auto simp: rpcs_move)
  next
    case False
    with ph have "p = Reply_Later no_reply" by (auto simp: processReq_admit_def split: if_splits option.splits)
    then show ?thesis by (rule later)
  qed
  then show ?thesis by (intro answerable_step [OF step assms(1), where n = 3]) simp_all
qed

lemma answerable_launched:
  assumes "rpc_ok (rpcs w ! i)" and "exited w = None" and "i < length (rpcs w)" and "rpc_phase (rpcs w ! i) = Waiting ei"
    and "\<forall>s. rpc_handler (rpcs w ! i) = Running s \<longrightarrow>
            would_return gob i w s \<or> cut_off (net w) (endname (rpc_req (rpcs w ! i))) s"
  shows "answerable gob 3 i w"
proof -
  from assms(1,4) obtain s where s: "info_server ei = Some s"
    "rpc_handler (rpcs w ! i) = Running s \<or> (\<exists>rep. rpc_handler (rpcs w ! i) = Returned s rep)" by (auto simp: rpc_ok_def)
  from s(2) show ?thesis
  proof (elim disjE exE)
    assume "rpc_handler (rpcs w ! i) = Running s"
    with s(1) assms show ?thesis by (intro answerable_waiting) auto
  next
    fix rep assume "rpc_handler (rpcs w ! i) = Returned s rep"
    from answerable_returned [OF assms(3,2,4) this] show ?thesis by (rule answerable_mono) simp
  qed
qed

text \<open>C28. Calls return. A request takes at most five steps in any run, besides the timer that looks
  every 100 milliseconds whether the server is dead; and a request that has not been answered can
  be answered by at most four further steps of its own, whatever else has happened, when the
  handler returns at the server it runs at or is sent to, or that server has been cut off.\<close>

theorem calls_return:
  assumes "run gob es (init_world os) = Some w" and "exited w = None" and "i < length (rpcs w)"
    and "\<forall>s. rpc_handler (rpcs w ! i) = Running s \<or>
              info_server (readEndnameInfo (net w) (endname (rpc_req (rpcs w ! i)))) = Some s \<longrightarrow>
            would_return gob i w s \<or> cut_off (net w) (endname (rpc_req (rpcs w ! i))) s"
  shows "length (filter (own i) es) \<le> 5 \<and> answerable gob 4 i w"
proof
  show "length (filter (own i) es) \<le> 5" using run_steps_left [OF assms(1)] by blast
  let ?r = "rpcs w ! i" and ?en = "endname (rpc_req (rpcs w ! i))"
  have ok: "rpc_ok ?r" by (rule rpcs_okD [OF run_rpcs_ok [OF assms(1)] assms(3)])
  show "answerable gob 4 i w"
  proof (cases "rpc_phase ?r")
    case Received
    with assms(2-4) show ?thesis by (intro answerable_received) auto
  next
    case (Waiting ei)
    with ok assms(2-4) have "answerable gob 3 i w" by (intro answerable_launched) auto
    then show ?thesis by (rule answerable_mono) simp
  next
    case (Replying ei rep)
    from answerable_replying [OF assms(3,2) this] show ?thesis by (rule answerable_mono) simp
  next
    case (Reply_Later rep)
    then have "answerable gob 1 i w" using assms(2,3) by (intro answerable_later) auto
    then show ?thesis by (rule answerable_mono) simp
  next
    case (Answered rep)
    from answerable_now [OF assms(2) this] show ?thesis .
  qed
qed

theorem calls_return_witness:
  "\<exists>w. run string_codec (echo_setup @ [Accept ping, Admit 0 500]) (init_world 0) = Some w \<and>
     answerable string_codec 4 0 w"
proof -
  let ?es = "echo_setup @ [Accept ping, Admit 0 500]"
  have "map_option (\<lambda>w. (exited w, rpc_handler (rpcs w ! 0), length (rpcs w),
       info_server (readEndnameInfo (net w) (endname (rpc_req (rpcs w ! 0)))),
       would_return string_codec 0 w 0)) (run string_codec ?es (init_world 0)) =
     Some (None, Running 0, 1, Some 0, True)"
    by code_simp
  then obtain w where w: "run string_codec ?es (init_world 0) = Some w" "exited w = None"
      "rpc_handler (rpcs w ! 0) = Running 0" "length (rpcs w) = 1"
      "info_server (readEndnameInfo (net w) (endname (rpc_req (rpcs w ! 0)))) = Some 0"
      "would_return string_codec 0 w 0"
    by (auto simp: map_option_eq_Some)
  from calls_return [OF w(1,2), of 0] w show ?thesis by auto
qed

end
