(* ===== verification/Raft_Over_Labrpc.thy ===== *)
theory Raft_Over_Labrpc
  imports Raft_Cluster Labrpc_Properties
begin

section \<open>Raft's calls over the simulated network\<close>

text \<open>
  \<open>Raft_Cluster\<close> lets a request be executed at most once, by some peer, at any later time, and its reply
  be handled later still. This theory shows that this is what \<open>labrpc\<close> does with the calls of Raft: the
  methods of a \<open>Raft\<close> object that the network can reach (\<open>start1\<close> of \<open>config.go\<close> wraps it into
  a service), the two senders \<open>sendRequestVote\<close> and \<open>sendAppendEntries\<close> of \<open>raft.go\<close>, and the
  runs of the network in which the peers do anything on their own between the calls. A call that
  returns true is one step of the cluster.
\<close>

subsection \<open>Values and methods\<close>

datatype 'c rpc_value =
    Vote_Args RequestVoteArgs | Vote_Reply_Value RequestVoteReply
  | Entries_Args "'c AppendEntriesArgs" | Entries_Reply AppendEntriesReply

text \<open>The \<open>Raft\<close> objects by their addresses, and the clock that the handlers read.\<close>

record 'c machines =
  peer_at :: "nat \<Rightarrow> 'c raft"
  clock :: int

abbreviation type_ptr :: "string \<Rightarrow> gotype" where
  "type_ptr t \<equiv> Ptr (Value_Type t)"

definition RequestVote_method :: "('c rpc_value, 'c machines) reflect_method" where
  "RequestVote_method =
     \<lparr>Method_Name = ''RequestVote'', PkgPath = [],
      In = [type_ptr ''Raft'', type_ptr ''RequestVoteArgs'', type_ptr ''RequestVoteReply''], NumOut = 0,
      Func = (\<lambda>receiver v z m. case v of
          Vote_Args a \<Rightarrow>
            let (r, rf) = RequestVote (clock m) a (peer_at m receiver)
            in Some (Vote_Reply_Value r, m\<lparr>peer_at := (peer_at m)(receiver := rf)\<rparr>)
        | _ \<Rightarrow> None)\<rparr>"

definition AppendEntries_method :: "('c rpc_value, 'c machines) reflect_method" where
  "AppendEntries_method =
     \<lparr>Method_Name = ''AppendEntries'', PkgPath = [],
      In = [type_ptr ''Raft'', type_ptr ''AppendEntriesArgs'', type_ptr ''AppendEntriesReply''], NumOut = 0,
      Func = (\<lambda>receiver v z m. case v of
          Entries_Args a \<Rightarrow>
            (case AppendEntries (clock m) a (peer_at m receiver) of
               None \<Rightarrow> None
             | Some (r, rf) \<Rightarrow> Some (Entries_Reply r, m\<lparr>peer_at := (peer_at m)(receiver := rf)\<rparr>))
        | _ \<Rightarrow> None)\<rparr>"

text \<open>The other exported methods of \<open>Raft\<close>: no handlers, by their parameters and results.\<close>

definition other_method :: "string \<Rightarrow> gotype list \<Rightarrow> nat \<Rightarrow> ('c rpc_value, 'c machines) reflect_method" where
  "other_method meth ins outs = \<lparr>Method_Name = meth, PkgPath = [], In = ins, NumOut = outs, Func = (\<lambda>_ _ _ _. None)\<rparr>"

definition Raft_methods :: "('c rpc_value, 'c machines) reflect_method list" where
  "Raft_methods = [AppendEntries_method, other_method ''GetState'' [type_ptr ''Raft''] 2,
     other_method ''Kill'' [type_ptr ''Raft''] 0, RequestVote_method,
     other_method ''Start'' [type_ptr ''Raft'', Value_Type ''interface {}''] 3]"

definition raft_service :: "nat \<Rightarrow> ('c rpc_value, 'c machines) Service" where
  "raft_service address = MakeService address ''Raft'' Raft_methods"

lemma raft_service_methods:
  "name (raft_service a) = ''Raft''" "rcvr (raft_service a) = a"
  "methods (raft_service a) mn =
     (if mn = ''RequestVote'' then Some RequestVote_method
      else if mn = ''AppendEntries'' then Some AppendEntries_method else None)"
  by (simp_all add: raft_service_def MakeService_def Raft_methods_def looks_like_handler_def
      RequestVote_method_def AppendEntries_method_def other_method_def)

subsection \<open>The senders\<close>

text \<open>A call that one peer makes of another.\<close>

datatype 'c raft_call = Ask_Vote RequestVoteArgs | Append "'c AppendEntriesArgs"

definition sendRequestVote :: "'c rpc_value codec \<Rightarrow> iface \<Rightarrow> RequestVoteArgs \<Rightarrow> fatal + reqMsg" where
  "sendRequestVote gob en a =
     Call_request gob en ''Raft.RequestVote'' (type_ptr ''RequestVoteArgs'') (Vote_Args a)"

definition sendAppendEntries :: "'c rpc_value codec \<Rightarrow> iface \<Rightarrow> 'c AppendEntriesArgs \<Rightarrow> fatal + reqMsg" where
  "sendAppendEntries gob en a =
     Call_request gob en ''Raft.AppendEntries'' (type_ptr ''AppendEntriesArgs'') (Entries_Args a)"

fun send :: "'c rpc_value codec \<Rightarrow> iface \<Rightarrow> 'c raft_call \<Rightarrow> fatal + reqMsg" where
  "send gob en (Ask_Vote a) = sendRequestVote gob en a"
| "send gob en (Append a) = sendAppendEntries gob en a"

text \<open>What the cluster model executes for the call, at a peer and a time.\<close>

fun executes :: "'c raft_call \<Rightarrow> int \<Rightarrow> 'c raft \<Rightarrow> ('c rpc_value \<times> 'c raft) option" where
  "executes (Ask_Vote a) now rf = (let (r, rf') = RequestVote now a rf in Some (Vote_Reply_Value r, rf'))"
| "executes (Append a) now rf = map_option (\<lambda>(r, rf'). (Entries_Reply r, rf')) (AppendEntries now a rf)"

fun sent_value :: "'c raft_call \<Rightarrow> 'c rpc_value \<times> gotype" where
  "sent_value (Ask_Vote a) = (Vote_Args a, type_ptr ''RequestVoteArgs'')"
| "sent_value (Append a) = (Entries_Args a, type_ptr ''AppendEntriesArgs'')"

fun is_reply :: "'c raft_call \<Rightarrow> 'c rpc_value \<Rightarrow> bool" where
  "is_reply (Ask_Vote _) (Vote_Reply_Value _) = True"
| "is_reply (Append _) (Entries_Reply _) = True"
| "is_reply _ _ = False"

text \<open>What is used of \<open>encoding/gob\<close>: it reads back the argument of the call, and the replies of its
  method, as they were written.\<close>

definition gob_faithful :: "'c rpc_value codec \<Rightarrow> 'c raft_call \<Rightarrow> 'c rpc_value \<Rightarrow> bool" where
  "gob_faithful gob call z \<longleftrightarrow>
     (case sent_value call of (v, ty) \<Rightarrow> Decode gob (fst (Encode gob v)) (zero_of gob ty) = (v, True)) \<and>
     (\<forall>u. is_reply call u \<longrightarrow> Decode gob (fst (Encode gob u)) z = (u, True))"

text \<open>Only \<open>Raft\<close> objects are registered, as in \<open>config.go\<close>.\<close>

definition only_raft :: "('c rpc_value, 'c machines) Labrpc.event list \<Rightarrow> bool" where
  "only_raft es \<longleftrightarrow> (\<forall>s svc. Register s svc \<in> set es \<longrightarrow> (\<exists>a. svc = raft_service a))"

lemma run_services:
  assumes "Labrpc.run gob es (init_world os) = Some w" and "only_raft es"
    and "s < length (heap w)" and "services (heap w ! s) sn = Some svc"
  shows "sn = ''Raft'' \<and> (\<exists>a. svc = raft_service a)"
proof -
  from run_registered [OF assms(1,3,4)] assms(2) obtain a where "sn = name svc" "svc = raft_service a"
    unfolding only_raft_def by blast
  then show ?thesis by (auto simp: raft_service_methods)
qed

text \<open>What the handler of a service does with the argument of a call.\<close>

lemma method_executes:
  assumes "Func m a (fst (sent_value call)) z os = Some (u, os')" and "methods (raft_service b) mn = Some m"
    and "mn = (case call of Ask_Vote _ \<Rightarrow> ''RequestVote'' | Append _ \<Rightarrow> ''AppendEntries'')"
  shows "is_reply call u" "executes call (clock os) (peer_at os a) = Some (u, peer_at os' a)"
    "os' = os\<lparr>peer_at := (peer_at os)(a := peer_at os' a)\<rparr>"
  using assms
  by (cases call; auto simp: raft_service_methods RequestVote_method_def AppendEntries_method_def
      split: prod.splits option.splits)+

subsection \<open>Calls are steps of the cluster\<close>

text \<open>The call ran on one peer, at one step of the run, and its value is what the caller sees.\<close>

definition executed_once ::
  "'c rpc_value codec \<Rightarrow> ('c rpc_value, 'c machines) Labrpc.event list \<Rightarrow> 'c machines \<Rightarrow> nat \<Rightarrow> iface \<Rightarrow>
   'c raft_call \<Rightarrow> 'c rpc_value \<Rightarrow> bool" where
  "executed_once gob es os i en call v \<longleftrightarrow>
     (\<exists>es1 es2 w1 w2 s a. es = es1 @ Handle i # es2 \<and> Handle i \<notin> set es1 \<and> Handle i \<notin> set es2 \<and>
        Labrpc.run gob es1 (init_world os) = Some w1 \<and>
        Labrpc.run gob (es1 @ [Handle i]) (init_world os) = Some w2 \<and>
        admitted_to gob es os i en s \<and> s < length (heap w1) \<and>
        services (heap w1 ! s) ''Raft'' = Some (raft_service a) \<and>
        executes call (clock (objs w1)) (peer_at (objs w1) a) = Some (v, peer_at (objs w2) a) \<and>
        objs w2 = (objs w1)\<lparr>peer_at := (peer_at (objs w1))(a := peer_at (objs w2) a)\<rparr>)"

text \<open>C29. Raft over the simulated network: in a run in which the network serves \<open>Raft\<close> objects, in
  which it loses, delays and reorders as it likes and the peers do anything on their own, a call of
  \<open>sendRequestVote\<close> or \<open>sendAppendEntries\<close> that returns true has been executed exactly once, at one step
  between the call and its return, by the object registered at a server to which the caller's end-point was
  connected and enabled; the object and the reply are those of \<open>RequestVote\<close> or \<open>AppendEntries\<close> in
  its state at that step, and no other peer is touched. That the encoder of \<open>encoding/gob\<close> reads back
  what it wrote is a hypothesis.\<close>

theorem raft_calls_executed_once:
  assumes "Labrpc.run gob es (init_world os) = Some w" and "only_raft es" and "i < length (rpcs w)"
    and "send gob en call = Inr (rpc_req (rpcs w ! i))"
    and "rpc_phase (rpcs w ! i) = Answered rep" and "Call_return gob rep z = Inr (True, v)"
    and "gob_faithful gob call z"
  shows "executed_once gob es os i en call v"
proof -
  let ?mn = "case call of Ask_Vote _ \<Rightarrow> ''RequestVote'' | Append _ \<Rightarrow> ''AppendEntries''"
  obtain sv ty where sv: "sent_value call = (sv, ty)" by fastforce
  have req: "Call_request gob en (''Raft.'' @ ?mn) ty sv = Inr (rpc_req (rpcs w ! i))"
    using assms(4) sv by (cases call) (auto simp: sendRequestVote_def sendAppendEntries_def)
  have en: "endname (rpc_req (rpcs w ! i)) = en"
    using req by (auto simp: Call_request_def split: prod.splits bool.splits dest: sym)
  have dec: "Decode gob (fst (Encode gob sv)) (zero_of gob ty) = (sv, True)"
    and rback: "\<And>u. is_reply call u \<Longrightarrow> Decode gob (fst (Encode gob u)) z = (u, True)"
    using assms(7) sv by (simp_all add: gob_faithful_def)
  from assms(6) have pos: "ok rep" and val: "Decode gob (reply rep) z = (v, True)"
    by (auto simp: Call_return_def split: if_splits prod.splits bool.splits)
  show ?thesis
  proof (rule call_executed [OF assms(1,3) req assms(5) pos dec])
    fix es1 es2 w1 w2 s sn mn svc m rt u
    assume h: "es = es1 @ Handle i # es2" "Handle i \<notin> set es1" "Handle i \<notin> set es2"
      "Labrpc.run gob es1 (init_world os) = Some w1" "Labrpc.run gob (es1 @ [Handle i]) (init_world os) = Some w2"
      "s < length (heap w1)" "''Raft.'' @ ?mn = sn @ CHR ''.'' # mn"
      "services (heap w1 ! s) sn = Some svc" "methods svc mn = Some m"
      "Func m (rcvr svc) sv (zero_of gob rt) (objs w1) = Some (u, objs w2)"
      "rep = \<lparr>ok = True, reply = fst (Encode gob u)\<rparr>" "rpc_handler (rpcs w ! i) = Returned s rep"
    have "only_raft es1" using assms(2) h(1) by (simp add: only_raft_def)
    from run_services [OF h(4) this h(6,8)] obtain a where sn: "sn = ''Raft''" and svc: "svc = raft_service a" by blast
    from h(7) sn have mn: "mn = ?mn" by simp
    note m = method_executes [OF _ h(9) [unfolded svc] mn, of "rcvr svc" "zero_of gob rt" "objs w1" u "objs w2"]
    from h(10) sv have "Func m (rcvr svc) (fst (sent_value call)) (zero_of gob rt) (objs w1) = Some (u, objs w2)" by simp
    note x = m [OF this]
    from rback [OF x(1)] val h(11) have u: "u = v" by simp
    have a: "rcvr svc = a" by (simp add: svc raft_service_methods)
    show ?thesis
      unfolding executed_once_def
    proof (intro exI conjI)
      show "admitted_to gob es os i en s" using run_admitted [OF assms(1,3)] h(12) en by metis
      show "services (heap w1 ! s) ''Raft'' = Some (raft_service a)" using h(8) sn svc by simp
      show "executes call (clock (objs w1)) (peer_at (objs w1) a) = Some (v, peer_at (objs w2) a)"
        using x(2) u a by simp
      show "objs w2 = (objs w1)\<lparr>peer_at := (peer_at (objs w1))(a := peer_at (objs w2) a)\<rparr>"
        using x(3) a by simp
    qed (rule h)+
  qed
qed

text \<open>The executed call is the step of the cluster that delivers the request.\<close>

lemma executed_vote_is_step:
  assumes "executes (Ask_Vote (rd_args rd)) now (nodes s j) = Some (v, rf')"
    and "k < length (rounds s)" and "rd = rounds s ! k" and "rd_calls rd j = RV_Sent"
  obtains r where "v = Vote_Reply_Value r"
    "cluster_step s (set_round k (answer j (RV_Replied r) rd) (set_node j rf' s))"
proof -
  obtain r where r: "RequestVote now (rd_args rd) (nodes s j) = (r, rf')" "v = Vote_Reply_Value r"
    using assms(1) by (auto split: prod.splits)
  from cluster_step.vote_request [OF assms(2-4) r(1)] r(2) show thesis by (rule that [rotated])
qed

lemma executed_append_is_step:
  assumes "executes (Append (ac_args c)) now (nodes s (ac_dst c)) = Some (v, rf')"
    and "k < length (calls s)" and "c = calls s ! k" and "ac_status c = AE_Sent"
  obtains r where "v = Entries_Reply r"
    "cluster_step s (set_call k (c\<lparr>ac_status := AE_Replied r\<rparr>) (set_node (ac_dst c) rf' s))"
proof -
  obtain r where r: "AppendEntries now (ac_args c) (nodes s (ac_dst c)) = Some (r, rf')" "v = Entries_Reply r"
    using assms(1) by auto
  from cluster_step.append_request [OF assms(2-4) r(1)] r(2) show thesis by (rule that [rotated])
qed

text \<open>A call that is granted: an encoding of votes, and a run with one \<open>Raft\<close> object.\<close>

definition sample_ballot :: RequestVoteArgs where
  "sample_ballot = \<lparr>rva_Term = 1, rva_CandidateId = 0, rva_LastLogIndex = 0, rva_LastLogTerm = - 1\<rparr>"

definition vote_codec :: "nat rpc_value codec" where
  "vote_codec = \<lparr>Encode = (\<lambda>v. case v of
        Vote_Reply_Value r \<Rightarrow> ((if rvr_VoteGranted r then CHR ''t'' else CHR ''f'') #
          (if rvr_Term r < 0 then CHR ''-'' else CHR ''+'') # replicate (nat \<bar>rvr_Term r\<bar>) (CHR ''x''), True)
      | _ \<Rightarrow> (''a'', True)),
     Decode = (\<lambda>bs z. case bs of
        g # sg # xs \<Rightarrow> (Vote_Reply_Value \<lparr>rvr_Term = (if sg = CHR ''-'' then - int (length xs) else int (length xs)),
          rvr_VoteGranted = (g = CHR ''t'')\<rparr>, True)
      | [_] \<Rightarrow> (Vote_Args sample_ballot, True)
      | [] \<Rightarrow> (z, False)),
     zero_of = (\<lambda>_. Vote_Reply_Value zero_RequestVoteReply)\<rparr>"

definition sample_machines :: "nat machines" where
  "sample_machines = \<lparr>peer_at = (\<lambda>a. Make 3 (int a) MakePersister 0 20), clock = 0\<rparr>"

definition vote_message :: reqMsg where
  "vote_message = \<lparr>endname = StringI ''e'', svcMeth = ''Raft.RequestVote'',
     argsType = type_ptr ''RequestVoteArgs'', args = ''a''\<rparr>"

definition vote_events :: "(nat rpc_value, nat machines) Labrpc.event list" where
  "vote_events = [New_Server, Register 0 (raft_service 1), Net_Op (Op_MakeEnd (StringI ''e'')),
     Net_Op (Op_Connect (StringI ''e'') (IntI 1)), Net_Op (Op_AddServer (IntI 1) (Some 0)),
     Net_Op (Op_Enable (StringI ''e'') True), Accept vote_message, Admit 0 500,
     Local (\<lambda>m. m\<lparr>clock := 310\<rparr>), Poll 0, Handle 0, Receive 0, Finish 0 500 0]"

lemma vote_run:
  "map_option (\<lambda>w. (rpcs w, exited w)) (Labrpc.run vote_codec vote_events (init_world sample_machines)) =
     Some ([\<lparr>rpc_req = vote_message, rpc_phase = Answered \<lparr>ok = True, reply = ''t+x''\<rparr>,
       rpc_handler = Returned 0 \<lparr>ok = True, reply = ''t+x''\<rparr>\<rparr>], None)"
  by code_simp

theorem raft_calls_executed_once_witness:
  "executed_once vote_codec vote_events sample_machines 0 (StringI ''e'') (Ask_Vote sample_ballot)
     (Vote_Reply_Value \<lparr>rvr_Term = 1, rvr_VoteGranted = True\<rparr>)"
proof -
  from vote_run obtain w where w: "Labrpc.run vote_codec vote_events (init_world sample_machines) = Some w"
    "rpcs w = [\<lparr>rpc_req = vote_message, rpc_phase = Answered \<lparr>ok = True, reply = ''t+x''\<rparr>,
       rpc_handler = Returned 0 \<lparr>ok = True, reply = ''t+x''\<rparr>\<rparr>]"
    by (auto simp: map_option_eq_Some)
  have faithful: "gob_faithful vote_codec (Ask_Vote sample_ballot) (Vote_Reply_Value zero_RequestVoteReply)"
    unfolding gob_faithful_def
  proof (intro conjI allI impI)
    fix u assume "is_reply (Ask_Vote sample_ballot) (u :: nat rpc_value)"
    then obtain r where "u = Vote_Reply_Value r" by (cases u) auto
    then show "Decode vote_codec (fst (Encode vote_codec u)) (Vote_Reply_Value zero_RequestVoteReply) = (u, True)"
      by (simp add: vote_codec_def)
  qed (simp add: vote_codec_def)
  have only: "only_raft vote_events" unfolding only_raft_def vote_events_def by auto
  show ?thesis
    by (rule raft_calls_executed_once [OF w(1) only _ _ _ _ faithful, where rep = "\<lparr>ok = True, reply = ''t+x''\<rparr>"])
      (simp_all add: w(2) sendRequestVote_def Call_request_def Call_return_def
        vote_codec_def vote_message_def)
qed

end
