(* ===== verification/Raft_Config.thy ===== *)
theory Raft_Config
  imports Raft_Cluster Labrpc
begin

section \<open>The test configuration: peers on the simulated network\<close>

text \<open>
  \<open>lab3/raft/config.go\<close>: the record of a test, the operations that start, crash, connect and
  disconnect peers, and the checks that a test makes. The network is that of \<open>Labrpc\<close>; the peers
  and their stable storage are those of \<open>Raft_State\<close>. \<open>None\<close> is the end of the process, by a
  panic or by \<open>log.Fatalf\<close>. The random names of the end-points, the address of the new server
  object, the time and the draw for the election timeout are arguments.
\<close>

subsection \<open>State\<close>

text \<open>A peer that runs shares its persister with the entry of \<open>saved\<close>, so that entry counts only
  while there is no peer. The entry of \<open>endnames\<close> is nil before the first start.\<close>

record 'c config =
  cfg_net :: Network
  cfg_n :: nat
  rafts :: "'c raft option list"
  applyErr :: "string list"
  connected :: "bool list"
  saved :: "'c Persister option list"
  endnames :: "string list option list"
  logs :: "(int \<rightharpoonup> 'c) list"
  maxIndex :: int

definition saved_of :: "'c config \<Rightarrow> nat \<Rightarrow> 'c Persister option" where
  "saved_of cfg i = (case rafts cfg ! i of Some rf \<Rightarrow> Some (persister rf) | None \<Rightarrow> saved cfg ! i)"

subsection \<open>Connecting and disconnecting\<close>

text \<open>\<open>endnames[a][b]\<close>, the end-point from server \<open>a\<close> to server \<open>b\<close>.\<close>

definition link :: "'c config \<Rightarrow> nat \<Rightarrow> nat \<Rightarrow> iface option" where
  "link cfg a b =
     (case endnames cfg ! a of
        Some es \<Rightarrow> if b < length es then Some (StringI (es ! b)) else None
      | None \<Rightarrow> None)"

text \<open>One turn of the loops of \<open>connect\<close>: a nil entry of \<open>endnames\<close> panics.\<close>

definition enable_link :: "nat \<Rightarrow> nat \<Rightarrow> 'c config \<Rightarrow> 'c config option" where
  "enable_link a b cfg =
     (case link cfg a b of
        Some en \<Rightarrow> Some (cfg\<lparr>cfg_net := Enable en True (cfg_net cfg)\<rparr>)
      | None \<Rightarrow> None)"

text \<open>One turn of the loops of \<open>disconnect\<close>, which skip a nil entry.\<close>

definition disable_link :: "nat \<Rightarrow> nat \<Rightarrow> 'c config \<Rightarrow> 'c config option" where
  "disable_link a b cfg =
     (if endnames cfg ! a = None then Some cfg
      else case link cfg a b of
          Some en \<Rightarrow> Some (cfg\<lparr>cfg_net := Enable en False (cfg_net cfg)\<rparr>)
        | None \<Rightarrow> None)"

text \<open>A loop whose body may end the process.\<close>

primrec for_each :: "('a \<Rightarrow> 's \<Rightarrow> 's option) \<Rightarrow> 'a list \<Rightarrow> 's \<Rightarrow> 's option" where
  "for_each body [] s = Some s"
| "for_each body (x # xs) s = (case body x s of None \<Rightarrow> None | Some s' \<Rightarrow> for_each body xs s')"

definition connect :: "nat \<Rightarrow> 'c config \<Rightarrow> 'c config option" where
  "connect i cfg =
     (if i < length (connected cfg) then do {
        let cfg = cfg\<lparr>connected := (connected cfg)[i := True]\<rparr>;
        cfg \<leftarrow> for_each (\<lambda>j cfg. if connected cfg ! j then enable_link i j cfg else Some cfg)
                 [0..<cfg_n cfg] cfg;
        for_each (\<lambda>j cfg. if connected cfg ! j then enable_link j i cfg else Some cfg)
          [0..<cfg_n cfg] cfg
      } else None)"

definition disconnect :: "nat \<Rightarrow> 'c config \<Rightarrow> 'c config option" where
  "disconnect i cfg =
     (if i < length (connected cfg) then do {
        let cfg = cfg\<lparr>connected := (connected cfg)[i := False]\<rparr>;
        cfg \<leftarrow> for_each (\<lambda>j cfg. disable_link i j cfg) [0..<cfg_n cfg] cfg;
        for_each (\<lambda>j cfg. disable_link j i cfg) [0..<cfg_n cfg] cfg
      } else None)"

subsection \<open>Crashing and starting\<close>

text \<open>The killed peer is dropped; its goroutines notice \<open>dead\<close> later.\<close>

definition crash1 :: "nat \<Rightarrow> 'c config \<Rightarrow> 'c config option" where
  "crash1 i cfg = do {
     cfg \<leftarrow> disconnect i cfg;
     let cfg = cfg\<lparr>cfg_net := DeleteServer (IntI (int i)) (cfg_net cfg)\<rparr>;
     let old = saved_of cfg i;
     let cfg = cfg\<lparr>rafts := (rafts cfg)[i := None]\<rparr>;
     Some (cfg\<lparr>saved := (saved cfg)[i := map_option crash_store old]\<rparr>)
   }"

text \<open>A fresh end-point for every peer, connected to it and still disabled.\<close>

definition make_link :: "nat \<Rightarrow> nat \<Rightarrow> 'c config \<Rightarrow> 'c config option" where
  "make_link i j cfg =
     (case link cfg i j of
        Some en \<Rightarrow>
          (case MakeEnd en (cfg_net cfg) of
             Inl _ \<Rightarrow> None
           | Inr rn \<Rightarrow> Some (cfg\<lparr>cfg_net := Connect en (IntI (int j)) rn\<rparr>))
      | None \<Rightarrow> None)"

definition start1 :: "nat \<Rightarrow> (nat \<Rightarrow> string) \<Rightarrow> nat \<Rightarrow> int \<Rightarrow> int \<Rightarrow> 'c config \<Rightarrow> 'c config option" where
  "start1 i randstring srv now r cfg = do {
     cfg \<leftarrow> crash1 i cfg;
     let cfg = cfg\<lparr>endnames := (endnames cfg)[i := Some (map randstring [0..<cfg_n cfg])]\<rparr>;
     cfg \<leftarrow> for_each (make_link i) [0..<cfg_n cfg] cfg;
     let store = (case saved cfg ! i of Some ps \<Rightarrow> Copy ps | None \<Rightarrow> MakePersister);
     let cfg = cfg\<lparr>saved := (saved cfg)[i := Some store],
                   rafts := (rafts cfg)[i := Some (Make (int (cfg_n cfg)) (int i) store now r)]\<rparr>;
     Some (cfg\<lparr>cfg_net := AddServer (IntI (int i)) (Some srv) (cfg_net cfg)\<rparr>)
   }"

text \<open>\<open>make_config\<close> creates the arrays, starts every peer and connects them; a start is given its
  random names by peer, the address of its server object, the time and the timer's draw.\<close>

type_synonym start = "(nat \<Rightarrow> string) \<times> nat \<times> int \<times> int"

definition blank_config :: "nat \<Rightarrow> bool \<Rightarrow> 'c config" where
  "blank_config n unreliable =
     \<lparr>cfg_net = LongDelays True (Reliable (\<not> unreliable) MakeNetwork), cfg_n = n,
      rafts = replicate n None, applyErr = replicate n '''', connected = replicate n False,
      saved = replicate n None, endnames = replicate n None, logs = replicate n Map.empty,
      maxIndex = 0\<rparr>"

definition make_config :: "nat \<Rightarrow> bool \<Rightarrow> (nat \<Rightarrow> start) \<Rightarrow> 'c config option" where
  "make_config n unreliable starts = do {
     cfg \<leftarrow> for_each (\<lambda>i cfg. case starts i of (randstring, srv, now, r) \<Rightarrow>
              start1 i randstring srv now r (cfg\<lparr>logs := (logs cfg)[i := Map.empty]\<rparr>))
            [0..<n] (blank_config n unreliable);
     for_each connect [0..<n] cfg
   }"

definition setunreliable :: "bool \<Rightarrow> 'c config \<Rightarrow> 'c config" where
  "setunreliable unrel cfg = cfg\<lparr>cfg_net := Reliable (\<not> unrel) (cfg_net cfg)\<rparr>"

definition setlongreordering :: "bool \<Rightarrow> 'c config \<Rightarrow> 'c config" where
  "setlongreordering longrel cfg = cfg\<lparr>cfg_net := LongReordering longrel (cfg_net cfg)\<rparr>"

definition cleanup :: "'c config \<Rightarrow> 'c config option" where
  "cleanup cfg =
     (let cfg = cfg\<lparr>rafts := map (map_option Kill) (rafts cfg)\<rparr> in
      case Cleanup (cfg_net cfg) of Inl _ \<Rightarrow> None | Inr rn \<Rightarrow> Some (cfg\<lparr>cfg_net := rn\<rparr>))"

text \<open>The server objects are in a heap, which is an argument.\<close>

definition rpcCount :: "('v, 'o) Server list \<Rightarrow> nat \<Rightarrow> 'c config \<Rightarrow> int option" where
  "rpcCount srvs server cfg = GetCount srvs (IntI (int server)) (cfg_net cfg)"

definition rpcTotal :: "'c config \<Rightarrow> int" where
  "rpcTotal cfg = GetTotalCount (cfg_net cfg)"

definition bytesTotal :: "'c config \<Rightarrow> int" where
  "bytesTotal cfg = GetTotalBytes (cfg_net cfg)"

text \<open>The maximum over all servers; a server that was never started panics.\<close>

definition LogSize :: "'c config \<Rightarrow> int option" where
  "LogSize cfg =
     for_each (\<lambda>i logsize. case saved_of cfg i of
         None \<Rightarrow> None
       | Some ps \<Rightarrow> Some (if RaftStateSize ps > logsize then RaftStateSize ps else logsize))
       [0..<cfg_n cfg] 0"

end
