(* ===== verification/Raft_Links.thy ===== *)
theory Raft_Links
  imports Raft_Config
begin

section \<open>Which end-points are enabled\<close>

text \<open>
  The end-points that the network lets through are exactly those between two connected peers, after
  any sequence of starts, crashes, connections and disconnections; the end-points of a crashed
  instance stay disabled for good.
\<close>

abbreviation enabled_of :: "Network \<Rightarrow> iface \<Rightarrow> bool" where
  "enabled_of rn en \<equiv> go_get (enabled rn) False en"

lemma enabled_of_Enable [simp]:
  "enabled_of (Enable en yes rn) x \<longleftrightarrow> (if x = en then yes else enabled_of rn x)"
  by (simp add: Enable_def go_get_def)

lemma Enable_frame [simp]:
  "ends (Enable en yes rn) = ends rn" "connections (Enable en yes rn) = connections rn"
  by (simp_all add: Enable_def)

lemma link_net [simp]: "link (cfg\<lparr>cfg_net := rn\<rparr>) a b = link cfg a b"
  by (simp add: link_def)

subsection \<open>The loops\<close>

lemma enable_loop:
  assumes "for_each (\<lambda>j cfg. if connected cfg ! j then enable_link (f j) (g j) cfg else Some cfg) js cfg = Some cfg'"
  shows "\<exists>rn. cfg' = cfg\<lparr>cfg_net := rn\<rparr> \<and> ends rn = ends (cfg_net cfg) \<and>
    connections rn = connections (cfg_net cfg) \<and>
    (\<forall>x. enabled_of rn x \<longleftrightarrow> enabled_of (cfg_net cfg) x \<or>
       (\<exists>j \<in> set js. connected cfg ! j \<and> link cfg (f j) (g j) = Some x))"
  using assms
proof (induction js arbitrary: cfg)
  case Nil
  then show ?case by (intro exI [of _ "cfg_net cfg'"]) simp
next
  case (Cons j js)
  show ?case
  proof (cases "connected cfg ! j")
    case True
    with Cons.prems obtain en where en: "link cfg (f j) (g j) = Some en"
      and "for_each (\<lambda>j cfg. if connected cfg ! j then enable_link (f j) (g j) cfg else Some cfg) js
         (cfg\<lparr>cfg_net := Enable en True (cfg_net cfg)\<rparr>) = Some cfg'"
      by (auto simp: enable_link_def split: option.splits)
    from Cons.IH [OF this(2)] obtain rn where "cfg' = cfg\<lparr>cfg_net := rn\<rparr>" "ends rn = ends (cfg_net cfg)"
        "connections rn = connections (cfg_net cfg)"
        "\<forall>x. enabled_of rn x \<longleftrightarrow> (if x = en then True else enabled_of (cfg_net cfg) x) \<or>
           (\<exists>j \<in> set js. connected cfg ! j \<and> link cfg (f j) (g j) = Some x)"
      by auto
    with en True show ?thesis by (intro exI [of _ rn]) auto
  next
    case False
    with Cons show ?thesis by auto
  qed
qed

lemma disable_loop:
  assumes "for_each (\<lambda>j cfg. disable_link (f j) (g j) cfg) js cfg = Some cfg'"
  shows "\<exists>rn. cfg' = cfg\<lparr>cfg_net := rn\<rparr> \<and> ends rn = ends (cfg_net cfg) \<and>
    connections rn = connections (cfg_net cfg) \<and>
    (\<forall>x. enabled_of rn x \<longleftrightarrow> enabled_of (cfg_net cfg) x \<and> \<not> (\<exists>j \<in> set js. link cfg (f j) (g j) = Some x))"
  using assms
proof (induction js arbitrary: cfg)
  case Nil
  then show ?case by (intro exI [of _ "cfg_net cfg'"]) simp
next
  case (Cons j js)
  show ?case
  proof (cases "endnames cfg ! f j")
    case None
    then have "link cfg (f j) (g j) = None" by (simp add: link_def)
    with None Cons show ?thesis by (auto simp: disable_link_def)
  next
    case (Some es)
    with Cons.prems obtain en where en: "link cfg (f j) (g j) = Some en"
      and "for_each (\<lambda>j cfg. disable_link (f j) (g j) cfg) js
         (cfg\<lparr>cfg_net := Enable en False (cfg_net cfg)\<rparr>) = Some cfg'"
      by (auto simp: disable_link_def split: option.splits)
    from Cons.IH [OF this(2)] obtain rn where "cfg' = cfg\<lparr>cfg_net := rn\<rparr>" "ends rn = ends (cfg_net cfg)"
        "connections rn = connections (cfg_net cfg)"
        "\<forall>x. enabled_of rn x \<longleftrightarrow> (if x = en then False else enabled_of (cfg_net cfg) x) \<and>
           \<not> (\<exists>j \<in> set js. link cfg (f j) (g j) = Some x)"
      by auto
    with en show ?thesis by (intro exI [of _ rn]) auto
  qed
qed

lemma make_loop:
  assumes "for_each (make_link i) js cfg = Some cfg'" and "distinct js"
  shows "\<exists>rn. cfg' = cfg\<lparr>cfg_net := rn\<rparr> \<and>
    (\<forall>j \<in> set js. \<exists>en. link cfg i j = Some en \<and> en \<notin> dom (ends (cfg_net cfg)) \<and> connections rn en = Some (IntI (int j))) \<and>
    inj_on (link cfg i) (set js) \<and>
    (\<forall>x. x \<in> dom (ends rn) \<longleftrightarrow> x \<in> dom (ends (cfg_net cfg)) \<or> (\<exists>j \<in> set js. link cfg i j = Some x)) \<and>
    (\<forall>x. x \<in> dom (ends (cfg_net cfg)) \<longrightarrow> connections rn x = connections (cfg_net cfg) x) \<and>
    (\<forall>x. enabled_of rn x \<longleftrightarrow> enabled_of (cfg_net cfg) x \<and> \<not> (\<exists>j \<in> set js. link cfg i j = Some x))"
  using assms
proof (induction js arbitrary: cfg)
  case Nil
  then show ?case by (intro exI [of _ "cfg_net cfg'"]) simp
next
  case (Cons j js)
  then obtain cfg1 where cfg1: "make_link i j cfg = Some cfg1" "for_each (make_link i) js cfg1 = Some cfg'"
    by (auto split: option.splits)
  from cfg1(1) obtain en rn1 where en: "link cfg i j = Some en" "MakeEnd en (cfg_net cfg) = Inr rn1"
    and "cfg1 = cfg\<lparr>cfg_net := Connect en (IntI (int j)) rn1\<rparr>"
    by (auto simp: make_link_def split: option.splits sum.splits)
  with cfg1(2) have rest: "for_each (make_link i) js (cfg\<lparr>cfg_net := Connect en (IntI (int j)) rn1\<rparr>) = Some cfg'"
    by simp
  let ?cfg = "cfg\<lparr>cfg_net := Connect en (IntI (int j)) rn1\<rparr>"
  from en(2) have rn1: "en \<notin> dom (ends (cfg_net cfg))" "dom (ends (cfg_net ?cfg)) = insert en (dom (ends (cfg_net cfg)))"
    "connections (cfg_net ?cfg) = (connections (cfg_net cfg))(en \<mapsto> IntI (int j))"
    "\<And>x. enabled_of (cfg_net ?cfg) x \<longleftrightarrow> enabled_of (cfg_net cfg) x \<and> x \<noteq> en"
    by (auto simp: MakeEnd_def Connect_def go_get_def split: if_splits)
  from Cons.IH [OF rest] Cons.prems(2) obtain rn where rn: "cfg' = ?cfg\<lparr>cfg_net := rn\<rparr>"
    "\<forall>j \<in> set js. \<exists>en. link cfg i j = Some en \<and> en \<notin> dom (ends (cfg_net ?cfg)) \<and> connections rn en = Some (IntI (int j))"
    "inj_on (link cfg i) (set js)"
    "\<forall>x. x \<in> dom (ends rn) \<longleftrightarrow> x \<in> dom (ends (cfg_net ?cfg)) \<or> (\<exists>j \<in> set js. link cfg i j = Some x)"
    "\<forall>x. x \<in> dom (ends (cfg_net ?cfg)) \<longrightarrow> connections rn x = connections (cfg_net ?cfg) x"
    "\<forall>x. enabled_of rn x \<longleftrightarrow> enabled_of (cfg_net ?cfg) x \<and> \<not> (\<exists>j \<in> set js. link cfg i j = Some x)"
    unfolding link_net by (auto simp del: select_convs)
  have en_new: "\<forall>k \<in> set js. link cfg i k \<noteq> Some en" using rn(2) rn1(2) by auto
  then have "inj_on (link cfg i) (set (j # js))" using rn(3) en(1) Cons.prems(2) by (auto simp: inj_on_def)
  moreover have "connections rn en = Some (IntI (int j))" using rn(5) rn1(2,3) by simp
  moreover have "connections rn x = connections (cfg_net cfg) x" if "x \<in> dom (ends (cfg_net cfg))" for x
  proof -
    from that rn1(1) have "x \<noteq> en" by blast
    with that rn(5) rn1(2,3) show ?thesis by (simp del: select_convs)
  qed
  ultimately show ?case
    using rn(1,2,4,6) rn1(1,2,4) en(1) by (intro exI [of _ rn]) (auto simp del: select_convs)
qed

subsection \<open>The invariant\<close>

definition sizes_ok :: "'c config \<Rightarrow> bool" where
  "sizes_ok cfg \<longleftrightarrow> length (connected cfg) = cfg_n cfg \<and> length (endnames cfg) = cfg_n cfg \<and>
     length (rafts cfg) = cfg_n cfg \<and> length (saved cfg) = cfg_n cfg \<and>
     (\<forall>a < cfg_n cfg. \<forall>es. endnames cfg ! a = Some es \<longrightarrow> length es = cfg_n cfg)"

definition names_ok :: "'c config \<Rightarrow> bool" where
  "names_ok cfg \<longleftrightarrow>
     (\<forall>a < cfg_n cfg. \<forall>b < cfg_n cfg. \<forall>x. link cfg a b = Some x \<longrightarrow>
        x \<in> dom (ends (cfg_net cfg)) \<and> connections (cfg_net cfg) x = Some (IntI (int b)) \<and>
        (\<forall>a' < cfg_n cfg. \<forall>b' < cfg_n cfg. link cfg a' b' = Some x \<longrightarrow> a' = a \<and> b' = b))"

definition links_ok :: "'c config \<Rightarrow> bool" where
  "links_ok cfg \<longleftrightarrow>
     (\<forall>x. enabled_of (cfg_net cfg) x \<longleftrightarrow>
        (\<exists>a < cfg_n cfg. \<exists>b < cfg_n cfg. link cfg a b = Some x \<and> connected cfg ! a \<and> connected cfg ! b))"

text \<open>\<open>connect\<close> and \<open>disconnect\<close> only change the flag and the network's switches.\<close>

lemma connect_effect:
  assumes "connect i cfg = Some cfg'"
  obtains rn where "cfg' = cfg\<lparr>connected := (connected cfg)[i := True], cfg_net := rn\<rparr>" "i < length (connected cfg)"
    "ends rn = ends (cfg_net cfg)" "connections rn = connections (cfg_net cfg)"
    "\<forall>x. enabled_of rn x \<longleftrightarrow> enabled_of (cfg_net cfg) x \<or>
       (\<exists>j < cfg_n cfg. (connected cfg)[i := True] ! j \<and> (link cfg i j = Some x \<or> link cfg j i = Some x))"
proof -
  let ?cfg = "cfg\<lparr>connected := (connected cfg)[i := True]\<rparr>"
  have link: "link ?cfg = link cfg" by (simp add: link_def fun_eq_iff)
  from assms obtain cfg1 where i: "i < length (connected cfg)" and
    1: "for_each (\<lambda>j cfg. if connected cfg ! j then enable_link i j cfg else Some cfg) [0..<cfg_n cfg] ?cfg = Some cfg1" and
    2: "for_each (\<lambda>j cfg. if connected cfg ! j then enable_link j i cfg else Some cfg) [0..<cfg_n cfg1] cfg1 = Some cfg'"
    unfolding connect_def by (auto simp: Let_def split: if_splits bind_splits)
  from enable_loop [where f = "\<lambda>_. i" and g = "\<lambda>j. j", OF 1] obtain rn1 where rn1: "cfg1 = ?cfg\<lparr>cfg_net := rn1\<rparr>"
    "ends rn1 = ends (cfg_net cfg)" "connections rn1 = connections (cfg_net cfg)"
    "\<forall>x. enabled_of rn1 x \<longleftrightarrow> enabled_of (cfg_net cfg) x \<or>
       (\<exists>j < cfg_n cfg. (connected cfg)[i := True] ! j \<and> link cfg i j = Some x)"
    by (auto simp: link Bex_def)
  from enable_loop [where f = "\<lambda>j. j" and g = "\<lambda>_. i", OF 2] obtain rn where rn: "cfg' = cfg1\<lparr>cfg_net := rn\<rparr>"
    "ends rn = ends rn1" "connections rn = connections rn1"
    "\<forall>x. enabled_of rn x \<longleftrightarrow> enabled_of rn1 x \<or>
       (\<exists>j < cfg_n cfg. (connected cfg)[i := True] ! j \<and> link cfg j i = Some x)"
    by (auto simp: rn1(1) link Bex_def)
  show ?thesis by (rule that [of rn]) (use i rn1 rn in auto)
qed

lemma disconnect_effect:
  assumes "disconnect i cfg = Some cfg'"
  obtains rn where "cfg' = cfg\<lparr>connected := (connected cfg)[i := False], cfg_net := rn\<rparr>" "i < length (connected cfg)"
    "ends rn = ends (cfg_net cfg)" "connections rn = connections (cfg_net cfg)"
    "\<forall>x. enabled_of rn x \<longleftrightarrow> enabled_of (cfg_net cfg) x \<and>
       \<not> (\<exists>j < cfg_n cfg. link cfg i j = Some x \<or> link cfg j i = Some x)"
proof -
  let ?cfg = "cfg\<lparr>connected := (connected cfg)[i := False]\<rparr>"
  have link: "link ?cfg = link cfg" by (simp add: link_def fun_eq_iff)
  from assms obtain cfg1 where i: "i < length (connected cfg)" and
    1: "for_each (\<lambda>j cfg. disable_link i j cfg) [0..<cfg_n cfg] ?cfg = Some cfg1" and
    2: "for_each (\<lambda>j cfg. disable_link j i cfg) [0..<cfg_n cfg1] cfg1 = Some cfg'"
    unfolding disconnect_def by (auto simp: Let_def split: if_splits bind_splits)
  from disable_loop [where f = "\<lambda>_. i" and g = "\<lambda>j. j", OF 1] obtain rn1 where rn1: "cfg1 = ?cfg\<lparr>cfg_net := rn1\<rparr>"
    "ends rn1 = ends (cfg_net cfg)" "connections rn1 = connections (cfg_net cfg)"
    "\<forall>x. enabled_of rn1 x \<longleftrightarrow> enabled_of (cfg_net cfg) x \<and> \<not> (\<exists>j < cfg_n cfg. link cfg i j = Some x)"
    by (auto simp: link Bex_def)
  from disable_loop [where f = "\<lambda>j. j" and g = "\<lambda>_. i", OF 2] obtain rn where rn: "cfg' = cfg1\<lparr>cfg_net := rn\<rparr>"
    "ends rn = ends rn1" "connections rn = connections rn1"
    "\<forall>x. enabled_of rn x \<longleftrightarrow> enabled_of rn1 x \<and> \<not> (\<exists>j < cfg_n cfg. link cfg j i = Some x)"
    by (auto simp: rn1(1) link Bex_def)
  show ?thesis by (rule that [of rn]) (use i rn1 rn in auto)
qed

lemma link_connected [simp]: "link (cfg\<lparr>connected := cs\<rparr>) a b = link cfg a b"
  by (simp add: link_def)

lemma connect_ok:
  assumes "connect i cfg = Some cfg'" and "sizes_ok cfg" and "names_ok cfg" and "links_ok cfg"
  shows "sizes_ok cfg' \<and> names_ok cfg' \<and> links_ok cfg'"
proof -
  from connect_effect [OF assms(1)] obtain rn where
    cfg': "cfg' = cfg\<lparr>connected := (connected cfg)[i := True], cfg_net := rn\<rparr>" and i: "i < length (connected cfg)" and
    rn: "ends rn = ends (cfg_net cfg)" "connections rn = connections (cfg_net cfg)"
    "\<forall>x. enabled_of rn x \<longleftrightarrow> enabled_of (cfg_net cfg) x \<or>
       (\<exists>j < cfg_n cfg. (connected cfg)[i := True] ! j \<and> (link cfg i j = Some x \<or> link cfg j i = Some x))"
    by blast
  have i': "i < cfg_n cfg" using i assms(2) by (simp add: sizes_ok_def)
  have c: "(connected cfg)[i := True] ! j \<longleftrightarrow> j = i \<or> connected cfg ! j" for j
    using i by (simp add: nth_list_update)
  have "links_ok cfg'"
    using assms(4) i' unfolding links_ok_def cfg' by (simp add: rn(3) c) blast
  moreover have "sizes_ok cfg'" "names_ok cfg'"
    using assms(2,3) rn by (auto simp: cfg' sizes_ok_def names_ok_def)
  ultimately show ?thesis by blast
qed

lemma disconnect_ok:
  assumes "disconnect i cfg = Some cfg'" and "sizes_ok cfg" and "names_ok cfg" and "links_ok cfg"
  shows "sizes_ok cfg' \<and> names_ok cfg' \<and> links_ok cfg'"
proof -
  from disconnect_effect [OF assms(1)] obtain rn where
    cfg': "cfg' = cfg\<lparr>connected := (connected cfg)[i := False], cfg_net := rn\<rparr>" and i: "i < length (connected cfg)" and
    rn: "ends rn = ends (cfg_net cfg)" "connections rn = connections (cfg_net cfg)"
    "\<forall>x. enabled_of rn x \<longleftrightarrow> enabled_of (cfg_net cfg) x \<and>
       \<not> (\<exists>j < cfg_n cfg. link cfg i j = Some x \<or> link cfg j i = Some x)"
    by blast
  have i': "i < cfg_n cfg" using i assms(2) by (simp add: sizes_ok_def)
  have c: "(connected cfg)[i := False] ! j \<longleftrightarrow> j \<noteq> i \<and> connected cfg ! j" for j
    using i by (simp add: nth_list_update)
  have once: "a = i \<and> b = j" if "link cfg a b = Some x" "link cfg i j = Some x" "a < cfg_n cfg" "b < cfg_n cfg"
      "j < cfg_n cfg" for a b x j
    using assms(3) that i' unfolding names_ok_def by blast
  have once': "a = j \<and> b = i" if "link cfg a b = Some x" "link cfg j i = Some x" "a < cfg_n cfg" "b < cfg_n cfg"
      "j < cfg_n cfg" for a b x j
    using assms(3) that i' unfolding names_ok_def by blast
  have "links_ok cfg'"
    using assms(4) unfolding links_ok_def cfg' by (simp add: rn(3) c) (blast dest: once once')
  moreover have "sizes_ok cfg'" "names_ok cfg'"
    using assms(2,3) rn by (auto simp: cfg' sizes_ok_def names_ok_def)
  ultimately show ?thesis by blast
qed

text \<open>The invariant does not look at peers, storage and servers.\<close>

lemma ok_frame:
  assumes "cfg_n cfg' = cfg_n cfg" "connected cfg' = connected cfg" "endnames cfg' = endnames cfg"
    and "length (rafts cfg') = length (rafts cfg)" "length (saved cfg') = length (saved cfg)"
    and "ends (cfg_net cfg') = ends (cfg_net cfg)" "connections (cfg_net cfg') = connections (cfg_net cfg)"
    and "enabled (cfg_net cfg') = enabled (cfg_net cfg)"
  shows "sizes_ok cfg' \<longleftrightarrow> sizes_ok cfg" "names_ok cfg' \<longleftrightarrow> names_ok cfg" "links_ok cfg' \<longleftrightarrow> links_ok cfg"
proof -
  have "link cfg' = link cfg" using assms(3) by (simp add: link_def fun_eq_iff)
  then show "sizes_ok cfg' \<longleftrightarrow> sizes_ok cfg" "names_ok cfg' \<longleftrightarrow> names_ok cfg" "links_ok cfg' \<longleftrightarrow> links_ok cfg"
    unfolding sizes_ok_def names_ok_def links_ok_def using assms by simp_all
qed

lemma crash1_ok:
  assumes "crash1 i cfg = Some cfg'" and "sizes_ok cfg" and "names_ok cfg" and "links_ok cfg"
  shows "sizes_ok cfg' \<and> names_ok cfg' \<and> links_ok cfg' \<and> i < cfg_n cfg' \<and> \<not> connected cfg' ! i"
proof -
  from assms(1) obtain cfg1 where d: "disconnect i cfg = Some cfg1"
    and cfg': "cfg' = cfg1\<lparr>cfg_net := DeleteServer (IntI (int i)) (cfg_net cfg1), rafts := (rafts cfg1)[i := None],
      saved := (saved cfg1)[i := map_option crash_store (saved_of
        (cfg1\<lparr>cfg_net := DeleteServer (IntI (int i)) (cfg_net cfg1)\<rparr>) i)]\<rparr>"
    unfolding crash1_def Let_def by (cases "disconnect i cfg") simp_all
  from disconnect_effect [OF d] obtain rn where
    "cfg1 = cfg\<lparr>connected := (connected cfg)[i := False], cfg_net := rn\<rparr>" and "i < length (connected cfg)" by blast
  then have "i < length (connected cfg)" "connected cfg1 = (connected cfg)[i := False]" "cfg_n cfg1 = cfg_n cfg"
    by simp_all
  moreover have "sizes_ok cfg1" "names_ok cfg1" "links_ok cfg1" using disconnect_ok [OF d assms(2-4)] by blast+
  moreover have "sizes_ok cfg'" "names_ok cfg'" "links_ok cfg'"
    using calculation(4-6) ok_frame [of cfg' cfg1] by (simp_all add: cfg' DeleteServer_def)
  ultimately show ?thesis using assms(2) by (simp add: cfg' sizes_ok_def)
qed

lemma start1_ok:
  assumes "start1 i randstring srv now r cfg = Some cfg'" and "sizes_ok cfg" and "names_ok cfg" and "links_ok cfg"
  shows "sizes_ok cfg' \<and> names_ok cfg' \<and> links_ok cfg'"
proof -
  from assms(1) obtain cfg1 cfg3 where c: "crash1 i cfg = Some cfg1" and
    m: "for_each (make_link i) [0..<cfg_n cfg1]
      (cfg1\<lparr>endnames := (endnames cfg1)[i := Some (map randstring [0..<cfg_n cfg1])]\<rparr>) = Some cfg3" and
    cfg': "\<exists>st rf. cfg' = cfg3\<lparr>saved := (saved cfg3)[i := Some st], rafts := (rafts cfg3)[i := Some rf],
      cfg_net := AddServer (IntI (int i)) (Some srv) (cfg_net cfg3)\<rparr>"
    by (auto simp: start1_def Let_def split: bind_splits)
  let ?n = "cfg_n cfg1"
  let ?cfg = "cfg1\<lparr>endnames := (endnames cfg1)[i := Some (map randstring [0..<?n])]\<rparr>"
  from crash1_ok [OF c assms(2-4)] have ok1: "sizes_ok cfg1" "names_ok cfg1" "links_ok cfg1"
    and i: "i < ?n" "\<not> connected cfg1 ! i" by auto
  have len: "length (endnames cfg1) = ?n" using ok1(1) by (simp add: sizes_ok_def)
  have other: "link ?cfg a b = link cfg1 a b" if "a \<noteq> i" for a b
    using that by (simp add: link_def)
  from make_loop [OF m] obtain rn where cfg3: "cfg3 = ?cfg\<lparr>cfg_net := rn\<rparr>" and
    new: "\<forall>j < ?n. \<exists>en. link ?cfg i j = Some en \<and> en \<notin> dom (ends (cfg_net cfg1)) \<and> connections rn en = Some (IntI (int j))" and
    inj: "inj_on (link ?cfg i) {0..<?n}" and
    dom: "\<forall>x. x \<in> dom (ends rn) \<longleftrightarrow> x \<in> dom (ends (cfg_net cfg1)) \<or> (\<exists>j < ?n. link ?cfg i j = Some x)" and
    old: "\<forall>x. x \<in> dom (ends (cfg_net cfg1)) \<longrightarrow> connections rn x = connections (cfg_net cfg1) x" and
    en: "\<forall>x. enabled_of rn x \<longleftrightarrow> enabled_of (cfg_net cfg1) x \<and> \<not> (\<exists>j < ?n. link ?cfg i j = Some x)"
    by (auto simp: Bex_def Ball_def)
  have sizes: "sizes_ok cfg3" using ok1(1) i(1) unfolding cfg3 by (auto simp: sizes_ok_def nth_list_update split: if_splits)
  have uniq: "a' = a \<and> b' = b" if "a < ?n" "b < ?n" "a' < ?n" "b' < ?n" "link ?cfg a b = Some x" "link ?cfg a' b' = Some x"
    for a b a' b' x
  proof (cases "a = i")
    case True
    with new that(2,5) have fresh: "x \<notin> dom (ends (cfg_net cfg1))" by fastforce
    have "a' = i"
    proof (rule ccontr)
      assume "a' \<noteq> i"
      with that(6) other have "link cfg1 a' b' = Some x" by simp
      with ok1(2) that(3,4) fresh show False unfolding names_ok_def by blast
    qed
    with inj True that show ?thesis by (auto simp: inj_on_def)
  next
    case False
    with that(5) other have l: "link cfg1 a b = Some x" by simp
    with ok1(2) that(1,2) have known: "x \<in> dom (ends (cfg_net cfg1))" unfolding names_ok_def by blast
    have "a' \<noteq> i" using new that(4,6) known by fastforce
    with that(6) other have "link cfg1 a' b' = Some x" by simp
    with ok1(2) l that(1-4) show ?thesis unfolding names_ok_def by blast
  qed
  have names: "names_ok cfg3"
    unfolding names_ok_def
  proof (intro allI impI)
    fix a b x assume a: "a < cfg_n cfg3" and b: "b < cfg_n cfg3" and x: "link cfg3 a b = Some x"
    then have x': "link ?cfg a b = Some x" by (simp add: cfg3)
    have "x \<in> dom (ends rn) \<and> connections rn x = Some (IntI (int b))"
    proof (cases "a = i")
      case True
      with x' new b dom show ?thesis by (fastforce simp: cfg3)
    next
      case False
      with x' other have "link cfg1 a b = Some x" by simp
      with ok1(2) a b have "x \<in> dom (ends (cfg_net cfg1)) \<and> connections (cfg_net cfg1) x = Some (IntI (int b))"
        unfolding names_ok_def cfg3 by auto
      with dom old show ?thesis by auto
    qed
    with uniq x' a b show "x \<in> dom (ends (cfg_net cfg3)) \<and> connections (cfg_net cfg3) x = Some (IntI (int b)) \<and>
        (\<forall>a' < cfg_n cfg3. \<forall>b' < cfg_n cfg3. link cfg3 a' b' = Some x \<longrightarrow> a' = a \<and> b' = b)"
      unfolding cfg3 by simp
  qed
  have links: "links_ok cfg3"
    unfolding links_ok_def
  proof (intro allI iffI)
    fix x assume "enabled_of (cfg_net cfg3) x"
    then have "enabled_of (cfg_net cfg1) x" using en by (simp add: cfg3)
    then obtain a b where ab: "a < ?n" "b < ?n" "link cfg1 a b = Some x" "connected cfg1 ! a" "connected cfg1 ! b"
      using ok1(3) unfolding links_ok_def by blast
    then have "a \<noteq> i" using i by blast
    with ab(3) other have "link ?cfg a b = Some x" by simp
    with ab show "\<exists>a < cfg_n cfg3. \<exists>b < cfg_n cfg3. link cfg3 a b = Some x \<and> connected cfg3 ! a \<and> connected cfg3 ! b"
      unfolding cfg3 link_net by auto
  next
    fix x assume "\<exists>a < cfg_n cfg3. \<exists>b < cfg_n cfg3. link cfg3 a b = Some x \<and> connected cfg3 ! a \<and> connected cfg3 ! b"
    then obtain a b where ab: "a < ?n" "b < ?n" "link ?cfg a b = Some x" "connected cfg1 ! a" "connected cfg1 ! b"
      unfolding cfg3 by auto
    then have "a \<noteq> i" using i by blast
    then have "enabled_of (cfg_net cfg1) x" using ok1(3) ab other unfolding links_ok_def by auto
    moreover have "link ?cfg i j \<noteq> Some x" if "j < ?n" for j
      using uniq [OF ab(1,2) i(1) that ab(3)] \<open>a \<noteq> i\<close> by blast
    ultimately show "enabled_of (cfg_net cfg3) x" using en by (simp add: cfg3)
  qed
  from cfg' sizes names links show ?thesis
    using ok_frame [of cfg' cfg3] by (auto simp: AddServer_def)
qed

subsection \<open>Runs of the configuration\<close>

datatype cfg_op =
    Connect_Peer nat | Disconnect_Peer nat | Crash_Peer nat
  | Start_Peer nat "nat \<Rightarrow> string" nat int int
  | Unreliable bool | Long_Reordering bool

fun cfg_step :: "cfg_op \<Rightarrow> 'c config \<Rightarrow> 'c config option" where
  "cfg_step (Connect_Peer i) cfg = connect i cfg"
| "cfg_step (Disconnect_Peer i) cfg = disconnect i cfg"
| "cfg_step (Crash_Peer i) cfg = crash1 i cfg"
| "cfg_step (Start_Peer i randstring srv now r) cfg = start1 i randstring srv now r cfg"
| "cfg_step (Unreliable unrel) cfg = Some (setunreliable unrel cfg)"
| "cfg_step (Long_Reordering longrel) cfg = Some (setlongreordering longrel cfg)"

lemma cfg_step_ok:
  "cfg_step p cfg = Some cfg' \<Longrightarrow> sizes_ok cfg \<and> names_ok cfg \<and> links_ok cfg \<Longrightarrow>
   sizes_ok cfg' \<and> names_ok cfg' \<and> links_ok cfg'"
  using ok_frame [of cfg' cfg]
  by (cases p) (auto dest: connect_ok disconnect_ok crash1_ok start1_ok
      simp: setunreliable_def setlongreordering_def Reliable_def LongReordering_def)

lemma for_each_invariant:
  assumes "for_each body xs s = Some s'" and "Q s"
    and step: "\<And>x s s'. body x s = Some s' \<Longrightarrow> Q s \<Longrightarrow> Q s'"
  shows "Q s'"
  using assms(1,2) by (induction xs arbitrary: s) (auto split: option.splits dest: step)

lemma blank_ok: "sizes_ok (blank_config n u) \<and> names_ok (blank_config n u) \<and> links_ok (blank_config n u)"
  by (auto simp: blank_config_def sizes_ok_def names_ok_def links_ok_def link_def LongDelays_def Reliable_def
      MakeNetwork_def go_get_def)

lemma make_config_ok:
  assumes "make_config n u starts = Some cfg"
  shows "sizes_ok cfg \<and> names_ok cfg \<and> links_ok cfg"
proof -
  let ?P = "\<lambda>cfg :: 'a config. sizes_ok cfg \<and> names_ok cfg \<and> links_ok cfg"
  from assms obtain cfg1 where
    1: "for_each (\<lambda>i cfg. case starts i of (randstring, srv, now, r) \<Rightarrow>
       start1 i randstring srv now r (cfg\<lparr>logs := (logs cfg)[i := Map.empty]\<rparr>)) [0..<n] (blank_config n u) = Some cfg1"
    and 2: "for_each connect [0..<n] cfg1 = Some cfg"
    unfolding make_config_def by (auto split: bind_splits)
  from 1 blank_ok have "?P cfg1"
  proof (rule for_each_invariant)
    fix i and c c' :: "'a config"
    assume step: "(case starts i of (randstring, srv, now, r) \<Rightarrow>
       start1 i randstring srv now r (c\<lparr>logs := (logs c)[i := Map.empty]\<rparr>)) = Some c'" and "?P c"
    moreover have "?P (c\<lparr>logs := (logs c)[i := Map.empty]\<rparr>)"
      using \<open>?P c\<close> ok_frame [of "c\<lparr>logs := (logs c)[i := Map.empty]\<rparr>" c] by simp
    ultimately show "?P c'" by (cases "starts i") (auto dest: start1_ok)
  qed
  with 2 show ?thesis by (rule for_each_invariant) (use connect_ok in blast)
qed

subsection \<open>The server objects\<close>

text \<open>Only crashes and starts touch the table of servers.\<close>

definition same_servers :: "'c config \<Rightarrow> 'c config \<Rightarrow> bool" where
  "same_servers cfg cfg' \<longleftrightarrow> cfg_n cfg' = cfg_n cfg \<and> servers (cfg_net cfg') = servers (cfg_net cfg)"

lemma same_servers_refl: "same_servers cfg cfg"
  by (simp add: same_servers_def)

lemma same_servers_trans: "same_servers cfg cfg1 \<Longrightarrow> same_servers cfg1 cfg2 \<Longrightarrow> same_servers cfg cfg2"
  by (simp add: same_servers_def)

lemma link_servers:
  "enable_link a b cfg = Some cfg' \<Longrightarrow> same_servers cfg cfg'"
  "disable_link a b cfg = Some cfg' \<Longrightarrow> same_servers cfg cfg'"
  "make_link a b cfg = Some cfg' \<Longrightarrow> same_servers cfg cfg'"
  by (auto simp: enable_link_def disable_link_def make_link_def same_servers_def Enable_def MakeEnd_def Connect_def
      split: option.splits sum.splits if_splits)

lemma for_each_servers:
  assumes "for_each body xs cfg = Some cfg'"
    and "\<And>x c c'. body x c = Some c' \<Longrightarrow> same_servers c c'"
  shows "same_servers cfg cfg'"
  using assms(1) same_servers_refl
  by (rule for_each_invariant) (blast intro: assms(2) same_servers_trans)

lemma connect_servers:
  assumes "connect i cfg = Some cfg'"
  shows "same_servers cfg cfg'"
proof -
  let ?cfg = "cfg\<lparr>connected := (connected cfg)[i := True]\<rparr>"
  from assms obtain cfg1 where
    1: "for_each (\<lambda>j cfg. if connected cfg ! j then enable_link i j cfg else Some cfg) [0..<cfg_n cfg] ?cfg = Some cfg1" and
    2: "for_each (\<lambda>j cfg. if connected cfg ! j then enable_link j i cfg else Some cfg) [0..<cfg_n cfg1] cfg1 = Some cfg'"
    unfolding connect_def by (auto simp: Let_def split: if_splits bind_splits)
  have "same_servers cfg ?cfg" by (simp add: same_servers_def)
  moreover from 1 have "same_servers ?cfg cfg1"
    by (rule for_each_servers) (auto intro: link_servers same_servers_refl split: if_splits)
  moreover from 2 have "same_servers cfg1 cfg'"
    by (rule for_each_servers) (auto intro: link_servers same_servers_refl split: if_splits)
  ultimately show ?thesis by (blast intro: same_servers_trans)
qed

lemma disconnect_servers:
  assumes "disconnect i cfg = Some cfg'"
  shows "same_servers cfg cfg'"
proof -
  let ?cfg = "cfg\<lparr>connected := (connected cfg)[i := False]\<rparr>"
  from assms obtain cfg1 where
    1: "for_each (\<lambda>j cfg. disable_link i j cfg) [0..<cfg_n cfg] ?cfg = Some cfg1" and
    2: "for_each (\<lambda>j cfg. disable_link j i cfg) [0..<cfg_n cfg1] cfg1 = Some cfg'"
    unfolding disconnect_def by (auto simp: Let_def split: if_splits bind_splits)
  have "same_servers cfg ?cfg" by (simp add: same_servers_def)
  moreover from 1 have "same_servers ?cfg cfg1" by (rule for_each_servers) (rule link_servers)
  moreover from 2 have "same_servers cfg1 cfg'" by (rule for_each_servers) (rule link_servers)
  ultimately show ?thesis by (blast intro: same_servers_trans)
qed

lemma crash1_servers:
  assumes "crash1 i cfg = Some cfg'"
  shows "cfg_n cfg' = cfg_n cfg \<and> servers (cfg_net cfg') = (servers (cfg_net cfg))(IntI (int i) \<mapsto> None)"
proof -
  from assms obtain cfg1 where "disconnect i cfg = Some cfg1"
    and "cfg_n cfg' = cfg_n cfg1" "servers (cfg_net cfg') = (servers (cfg_net cfg1))(IntI (int i) \<mapsto> None)"
    unfolding crash1_def Let_def by (auto simp: DeleteServer_def split: bind_splits)
  with disconnect_servers show ?thesis by (auto simp: same_servers_def)
qed

lemma start1_servers:
  assumes "start1 i randstring srv now r cfg = Some cfg'"
  shows "cfg_n cfg' = cfg_n cfg \<and> servers (cfg_net cfg') = (servers (cfg_net cfg))(IntI (int i) \<mapsto> Some srv)"
proof -
  from assms obtain cfg1 cfg3 where c: "crash1 i cfg = Some cfg1" and
    m: "for_each (make_link i) [0..<cfg_n cfg1]
      (cfg1\<lparr>endnames := (endnames cfg1)[i := Some (map randstring [0..<cfg_n cfg1])]\<rparr>) = Some cfg3" and
    cfg': "cfg_n cfg' = cfg_n cfg3" "servers (cfg_net cfg') = (servers (cfg_net cfg3))(IntI (int i) \<mapsto> Some srv)"
    by (auto simp: start1_def Let_def AddServer_def split: bind_splits)
  from m have "same_servers (cfg1\<lparr>endnames := (endnames cfg1)[i := Some (map randstring [0..<cfg_n cfg1])]\<rparr>) cfg3"
    by (rule for_each_servers) (rule link_servers)
  with crash1_servers [OF c] cfg' show ?thesis by (auto simp: same_servers_def)
qed

text \<open>The address of the server object of a peer: that of its last start, nil after a crash.\<close>

fun server_after :: "nat \<Rightarrow> cfg_op \<Rightarrow> nat option \<Rightarrow> nat option" where
  "server_after b (Start_Peer i randstring srv now r) old = (if i = b then Some srv else old)"
| "server_after b (Crash_Peer i) old = (if i = b then None else old)"
| "server_after b _ old = old"

definition server_object :: "(nat \<Rightarrow> start) \<Rightarrow> cfg_op list \<Rightarrow> nat \<Rightarrow> nat option" where
  "server_object starts ps b = fold (server_after b) ps (Some (fst (snd (starts b))))"

abbreviation server_of :: "'c config \<Rightarrow> nat \<Rightarrow> nat option" where
  "server_of cfg b \<equiv> go_get (servers (cfg_net cfg)) None (IntI (int b))"

lemma cfg_step_servers:
  assumes "cfg_step p cfg = Some cfg'"
  shows "cfg_n cfg' = cfg_n cfg \<and> server_of cfg' b = server_after b p (server_of cfg b)"
proof (cases p)
  case (Connect_Peer i)
  with assms connect_servers show ?thesis by (fastforce simp: same_servers_def)
next
  case (Disconnect_Peer i)
  with assms disconnect_servers show ?thesis by (fastforce simp: same_servers_def)
next
  case (Crash_Peer i)
  with assms have "crash1 i cfg = Some cfg'" by simp
  from crash1_servers [OF this] Crash_Peer show ?thesis by (simp add: go_get_def)
next
  case (Start_Peer i randstring srv now r)
  with assms have "start1 i randstring srv now r cfg = Some cfg'" by simp
  from start1_servers [OF this] Start_Peer show ?thesis by (simp add: go_get_def)
qed (use assms in \<open>auto simp: setunreliable_def setlongreordering_def Reliable_def LongReordering_def\<close>)

lemma cfg_run_servers:
  "for_each cfg_step ps cfg = Some cfg' \<Longrightarrow>
   cfg_n cfg' = cfg_n cfg \<and> server_of cfg' b = fold (server_after b) ps (server_of cfg b)"
proof (induction ps arbitrary: cfg)
  case (Cons p ps)
  then obtain cfg1 where "cfg_step p cfg = Some cfg1" "for_each cfg_step ps cfg1 = Some cfg'"
    by (auto split: option.splits)
  with Cons.IH [of cfg1] cfg_step_servers [of p cfg cfg1 b] show ?case by simp
qed simp

lemma start_loop_servers:
  "for_each (\<lambda>i cfg. case starts i of (randstring, srv, now, r) \<Rightarrow>
     start1 i randstring srv now r (cfg\<lparr>logs := (logs cfg)[i := Map.empty]\<rparr>)) js cfg = Some cfg' \<Longrightarrow>
   cfg_n cfg' = cfg_n cfg \<and> (b \<in> set js \<longrightarrow> server_of cfg' b = Some (fst (snd (starts b)))) \<and>
   (b \<notin> set js \<longrightarrow> server_of cfg' b = server_of cfg b)"
proof (induction js arbitrary: cfg)
  case (Cons i js)
  obtain rs srv now r where st: "starts i = (rs, srv, now, r)" by (cases "starts i")
  with Cons.prems obtain cfg1 where 1: "start1 i rs srv now r (cfg\<lparr>logs := (logs cfg)[i := Map.empty]\<rparr>) = Some cfg1"
    and 2: "for_each (\<lambda>i cfg. case starts i of (randstring, srv, now, r) \<Rightarrow>
     start1 i randstring srv now r (cfg\<lparr>logs := (logs cfg)[i := Map.empty]\<rparr>)) js cfg1 = Some cfg'"
    by (auto split: option.splits)
  from start1_servers [OF 1] have "cfg_n cfg1 = cfg_n cfg"
    "server_of cfg1 b = (if b = i then Some srv else server_of cfg b)" by (simp_all add: go_get_def)
  with Cons.IH [OF 2] st show ?case by auto
qed simp

lemma make_config_servers:
  assumes "make_config n u starts = Some cfg"
  shows "cfg_n cfg = n" "b < n \<Longrightarrow> server_of cfg b = Some (fst (snd (starts b)))"
proof -
  from assms obtain cfg1 where
    1: "for_each (\<lambda>i cfg. case starts i of (randstring, srv, now, r) \<Rightarrow>
       start1 i randstring srv now r (cfg\<lparr>logs := (logs cfg)[i := Map.empty]\<rparr>)) [0..<n] (blank_config n u) = Some cfg1"
    and 2: "for_each connect [0..<n] cfg1 = Some cfg"
    unfolding make_config_def by (auto split: bind_splits)
  from 2 have "same_servers cfg1 cfg" by (rule for_each_servers) (rule connect_servers)
  with start_loop_servers [OF 1, of b] show "cfg_n cfg = n" "b < n \<Longrightarrow> server_of cfg b = Some (fst (snd (starts b)))"
    by (simp_all add: same_servers_def blank_config_def)
qed

text \<open>What becomes of a request, by the state of its end-point.\<close>

lemma admitted_iff:
  "snd (processReq_admit (readEndnameInfo rn x) d) = Running s \<longleftrightarrow>
     enabled_of rn x \<and> go_get (connections rn) NilI x \<noteq> NilI \<and>
     go_get (servers rn) None (go_get (connections rn) NilI x) = Some s \<and> (reliable rn \<or> 100 \<le> d mod 1000)"
  by (auto simp: processReq_admit_def readEndnameInfo_def Let_def split: option.splits)

lemma refused_iff:
  "snd (processReq_admit ei d) = Not_Started \<longleftrightarrow>
     fst (processReq_admit ei d) = Answered no_reply \<or> fst (processReq_admit ei d) = Reply_Later no_reply"
  by (auto simp: processReq_admit_def split: option.splits)

lemma admitted_or_refused:
  "snd (processReq_admit ei d) = Not_Started \<or> (\<exists>s. snd (processReq_admit ei d) = Running s)"
  by (auto simp: processReq_admit_def split: option.splits)

subsection \<open>The network lets connected peers through\<close>

text \<open>C31. Requests reach exactly the connected peers that run. In a test that was set up and then
  started, crashed, connected and disconnected peers in any order, an end-point is enabled if and only
  if it is the current link between two peers that are both connected, and it names the peer that the
  link is for. A request over an end-point is handed to a server if and only if, moreover, that peer
  was started again since its last crash; then it is handed to the server object of that last start
  (an unreliable network drops one request in ten on the way). Every other request is answered without
  a reply and without a server seeing it: those over end-points of crashed instances, and those to a
  peer that crashed and was connected, but not started, since.\<close>

theorem links_follow_connected:
  assumes "make_config n u starts = Some cfg" and "for_each cfg_step ps cfg = Some cfg'"
  shows "(info_enabled (readEndnameInfo (cfg_net cfg') x) \<longleftrightarrow>
      (\<exists>a < n. \<exists>b < n. link cfg' a b = Some x \<and> connected cfg' ! a \<and> connected cfg' ! b)) \<and>
    (\<forall>a < n. \<forall>b < n. link cfg' a b = Some x \<longrightarrow>
       info_servername (readEndnameInfo (cfg_net cfg') x) = IntI (int b)) \<and>
    (\<forall>d s. snd (processReq_admit (readEndnameInfo (cfg_net cfg') x) d) = Running s \<longleftrightarrow>
       (\<exists>a < n. \<exists>b < n. link cfg' a b = Some x \<and> connected cfg' ! a \<and> connected cfg' ! b \<and>
          server_object starts ps b = Some s) \<and>
       (reliable (cfg_net cfg') \<or> 100 \<le> d mod 1000)) \<and>
    (\<forall>d. (\<nexists>s. snd (processReq_admit (readEndnameInfo (cfg_net cfg') x) d) = Running s) \<longrightarrow>
       snd (processReq_admit (readEndnameInfo (cfg_net cfg') x) d) = Not_Started \<and>
       fst (processReq_admit (readEndnameInfo (cfg_net cfg') x) d) \<in> {Answered no_reply, Reply_Later no_reply})"
proof -
  let ?rn = "cfg_net cfg'"
  have "sizes_ok cfg' \<and> names_ok cfg' \<and> links_ok cfg'"
    using assms(2) make_config_ok [OF assms(1)] by (rule for_each_invariant) (rule cfg_step_ok)
  moreover have n: "cfg_n cfg' = n"
    using make_config_servers(1) [OF assms(1)] cfg_run_servers [OF assms(2)] by simp
  ultimately have E: "enabled_of ?rn x \<longleftrightarrow>
      (\<exists>a < n. \<exists>b < n. link cfg' a b = Some x \<and> connected cfg' ! a \<and> connected cfg' ! b)"
    and N: "\<And>a b. a < n \<Longrightarrow> b < n \<Longrightarrow> link cfg' a b = Some x \<Longrightarrow> go_get (connections ?rn) NilI x = IntI (int b)"
    unfolding links_ok_def names_ok_def by (auto simp: go_get_def)
  have S: "server_of cfg' b = server_object starts ps b" if "b < n" for b
    using make_config_servers(2) [OF assms(1) that] cfg_run_servers [OF assms(2), of b]
    by (simp add: server_object_def)
  have "snd (processReq_admit (readEndnameInfo ?rn x) d) = Running s \<longleftrightarrow>
       (\<exists>a < n. \<exists>b < n. link cfg' a b = Some x \<and> connected cfg' ! a \<and> connected cfg' ! b \<and>
          server_object starts ps b = Some s) \<and> (reliable ?rn \<or> 100 \<le> d mod 1000)" for d s
  proof -
    let ?b = "\<lambda>a b. a < n \<and> b < n \<and> link cfg' a b = Some x \<and> connected cfg' ! a \<and> connected cfg' ! b"
    have "enabled_of ?rn x \<and> go_get (connections ?rn) NilI x \<noteq> NilI \<and>
        go_get (servers ?rn) None (go_get (connections ?rn) NilI x) = Some s \<longleftrightarrow>
      (\<exists>a b. ?b a b \<and> server_object starts ps b = Some s)" (is "?l \<longleftrightarrow> ?r")
    proof
      assume ?l
      with E obtain a b where "?b a b" by blast
      with \<open>?l\<close> N [of a b] S [of b] have "server_object starts ps b = Some s" by simp
      with \<open>?b a b\<close> show ?r by blast
    next
      assume ?r
      then obtain a b where "?b a b" "server_object starts ps b = Some s" by blast
      with E N [of a b] S [of b] show ?l by auto
    qed
    then show ?thesis unfolding admitted_iff by blast
  qed
  moreover have "info_enabled (readEndnameInfo ?rn x) = enabled_of ?rn x"
    "info_servername (readEndnameInfo ?rn x) = go_get (connections ?rn) NilI x"
    by (simp_all add: readEndnameInfo_def Let_def)
  moreover have "snd (processReq_admit ei d) = Not_Started \<and>
      fst (processReq_admit ei d) \<in> {Answered no_reply, Reply_Later no_reply}"
    if "\<nexists>s. snd (processReq_admit ei d) = Running s" for ei d
    using that admitted_or_refused [of ei d] refused_iff [of ei d] by auto
  ultimately show ?thesis using E N by (intro conjI allI impI) simp_all
qed

definition sample_starts :: "nat \<Rightarrow> start" where
  "sample_starts i = 
     (\<lambda>j. [if i = 0 then CHR ''a'' else CHR ''b'', if j = 0 then CHR ''a'' else CHR ''b''], i, 0, 50)"

definition sample_ops :: "cfg_op list" where
  "sample_ops = [Start_Peer 0 (\<lambda>j. ''z'') 2 7 60, Connect_Peer 0]"

definition unstarted_ops :: "cfg_op list" where
  "unstarted_ops = sample_ops @ [Crash_Peer 0, Connect_Peer 0]"

text \<open>A peer that was started again takes the requests over its new end-point, none over the old one;
  connected but not started after another crash, it takes none over the enabled end-point either.\<close>

theorem links_follow_connected_witness:
  "\<exists>cfg cfg' cfg''. make_config 1 False sample_starts = Some (cfg :: int config) \<and>
     for_each cfg_step sample_ops cfg = Some cfg' \<and> for_each cfg_step unstarted_ops cfg = Some cfg'' \<and>
     snd (processReq_admit (readEndnameInfo (cfg_net cfg') (StringI ''z'')) 0) = Running 2 \<and>
     snd (processReq_admit (readEndnameInfo (cfg_net cfg') (StringI ''aa'')) 0) = Not_Started \<and>
     info_enabled (readEndnameInfo (cfg_net cfg'') (StringI ''z'')) \<and>
     snd (processReq_admit (readEndnameInfo (cfg_net cfg'') (StringI ''z'')) 0) = Not_Started"
proof -
  have "(case make_config 1 False sample_starts of
       None \<Rightarrow> None
     | Some (cfg :: int config) \<Rightarrow> (case (for_each cfg_step sample_ops cfg, for_each cfg_step unstarted_ops cfg) of
         (Some cfg', Some cfg'') \<Rightarrow> Some (connected cfg', link cfg' 0 0, reliable (cfg_net cfg'), connected cfg'', link cfg'' 0 0)
       | _ \<Rightarrow> None)) =
     Some ([True], Some (StringI ''z''), True, [True], Some (StringI ''z''))"
    by code_simp
  then obtain cfg :: "int config" and cfg' cfg'' where c: "make_config 1 False sample_starts = Some cfg"
    and r: "for_each cfg_step sample_ops cfg = Some cfg'" "for_each cfg_step unstarted_ops cfg = Some cfg''" and
    s: "connected cfg' = [True]" "link cfg' 0 0 = Some (StringI ''z'')" "reliable (cfg_net cfg')"
      "connected cfg'' = [True]" "link cfg'' 0 0 = Some (StringI ''z'')"
    by (auto split: option.splits)
  have o: "server_object sample_starts sample_ops 0 = Some 2" "server_object sample_starts unstarted_ops 0 = None"
    by (simp_all add: server_object_def sample_ops_def unstarted_ops_def)
  note first = links_follow_connected [OF c r(1)] and second = links_follow_connected [OF c r(2)]
  from first [of "StringI ''z''"] s o
  have 1: "snd (processReq_admit (readEndnameInfo (cfg_net cfg') (StringI ''z'')) 0) = Running 2" by auto
  from first [of "StringI ''aa''"] s
  have 2: "snd (processReq_admit (readEndnameInfo (cfg_net cfg') (StringI ''aa'')) 0) = Not_Started" by auto
  from second [of "StringI ''z''"] s o
  have 3: "info_enabled (readEndnameInfo (cfg_net cfg'') (StringI ''z''))"
    "snd (processReq_admit (readEndnameInfo (cfg_net cfg'') (StringI ''z'')) 0) = Not_Started" by auto
  from c r 1 2 3 show ?thesis by blast
qed

end
