(* ===== verification/Raft_Checks.thy ===== *)
theory Raft_Checks
  imports Raft_Config Raft_Properties
begin

section \<open>The checks of the test configuration\<close>

text \<open>
  The second half of \<open>lab3/raft/config.go\<close>: what the tests check while the cluster runs. The
  goroutines that read the peers' apply channels interleave with the steps of the cluster; readers
  of crashed instances go on with what their channels still hold. \<open>nCommitted\<close> is one step. \<open>Inl\<close> is \<open>log.Fatalf\<close> or
  \<open>t.Fatalf\<close>.
\<close>

subsection \<open>Checking the apply channels\<close>

datatype check_error =
    Commit_Mismatch int nat nat | Out_Of_Order nat int | Apply_Error string
  | Values_Differ int | Two_Leaders int | No_Leader | Terms_Differ | Unexpected_Leader nat

text \<open>The last mismatch found is the one reported. The second result says whether server \<open>i\<close> had
  applied the previous index.\<close>

definition find_mismatch :: "nat \<Rightarrow> 'c ApplyMsg \<Rightarrow> 'c config \<Rightarrow> check_error option" where
  "find_mismatch i m cfg =
     foldl (\<lambda>err j.
       case (logs cfg ! j) (CommandIndex m) of
         Some old \<Rightarrow> if old \<noteq> msg_Command m then Some (Commit_Mismatch (CommandIndex m) i j) else err
       | None \<Rightarrow> err) None [0..<length (logs cfg)]"

definition checkLogs :: "nat \<Rightarrow> 'c ApplyMsg \<Rightarrow> 'c config \<Rightarrow> check_error option \<times> bool \<times> 'c config" where
  "checkLogs i m cfg =
     (let err_msg = find_mismatch i m cfg;
          prevok = (logs cfg ! i) (CommandIndex m - 1) \<noteq> None;
          cfg = cfg\<lparr>logs := (logs cfg)[i := (logs cfg ! i)(CommandIndex m \<mapsto> msg_Command m)]\<rparr>;
          cfg = (if CommandIndex m > maxIndex cfg then cfg\<lparr>maxIndex := CommandIndex m\<rparr> else cfg)
      in (err_msg, prevok, cfg))"

text \<open>The body of the loop of \<open>applier\<close>.\<close>

definition applier_body :: "nat \<Rightarrow> 'c ApplyMsg \<Rightarrow> 'c config \<Rightarrow> check_error + 'c config" where
  "applier_body i m cfg =
     (if \<not> CommandValid m then Inr cfg
      else
        let (err_msg, prevok, cfg) = checkLogs i m cfg;
            err_msg = (if CommandIndex m > 1 \<and> \<not> prevok then Some (Out_Of_Order i (CommandIndex m)) else err_msg)
        in case err_msg of Some e \<Rightarrow> Inl e | None \<Rightarrow> Inr cfg)"

subsection \<open>Counting committed entries\<close>

text \<open>How many servers have applied the index, and the command; one turn of the loop. The code takes the
  lock once per server; here all are looked at in one step, so a message that is read in between
  counts as read before or after the whole.\<close>

definition nCommitted_body ::
  "int \<Rightarrow> 'c config \<Rightarrow> nat \<Rightarrow> check_error + int \<times> 'c option \<Rightarrow> check_error + int \<times> 'c option" where
  "nCommitted_body index cfg i r =
     (case r of
        Inl e \<Rightarrow> Inl e
      | Inr (num, cmd) \<Rightarrow>
          if applyErr cfg ! i \<noteq> '''' then Inl (Apply_Error (applyErr cfg ! i))
          else case (logs cfg ! i) index of
              None \<Rightarrow> Inr (num, cmd)
            | Some cmd1 \<Rightarrow>
                if num > 0 \<and> cmd \<noteq> Some cmd1 then Inl (Values_Differ index)
                else Inr (num + 1, Some cmd1))"

definition nCommitted :: "int \<Rightarrow> 'c config \<Rightarrow> check_error + int \<times> 'c option" where
  "nCommitted index cfg = fold (nCommitted_body index cfg) [0..<length (rafts cfg)] (Inr (0, None))"

subsection \<open>Checking leaders and terms\<close>

text \<open>A round of \<open>checkOneLeader\<close> reads the states of the peers one after the other; the readings,
  with the flag whether the peer is connected, are its argument. The leaders are collected by
  term, the terms in the order in which they were found.\<close>

type_synonym leaders = "(int \<times> nat list) list"

fun add_leader :: "int \<Rightarrow> nat \<Rightarrow> leaders \<Rightarrow> leaders" where
  "add_leader t i [] = [(t, [i])]"
| "add_leader t i ((t', is) # ls) = (if t' = t then (t', is @ [i]) # ls else (t', is) # add_leader t i ls)"

definition collect_leaders :: "(bool \<times> 'c raft) list \<Rightarrow> leaders" where
  "collect_leaders readings =
     fold (\<lambda>(i, is_connected, rf) ls.
       if is_connected then (case GetState rf of (term1, leader) \<Rightarrow> if leader then add_leader term1 i ls else ls)
       else ls)
     (enumerate 0 readings) []"

definition checkOneLeader_round :: "(bool \<times> 'c raft) list \<Rightarrow> check_error + nat option" where
  "checkOneLeader_round readings =
     (let leaders = collect_leaders readings in
      case find (\<lambda>(t, is). length is > 1) leaders of
        Some (t, _) \<Rightarrow> Inl (Two_Leaders t)
      | None \<Rightarrow>
          let lastTermWithLeader = fold (\<lambda>(t, _) last. if t > last then t else last) leaders (- 1) in
          Inr (if leaders \<noteq> [] then map_option hd (map_of leaders lastTermWithLeader) else None))"

text \<open>Up to ten rounds.\<close>

fun checkOneLeader :: "(bool \<times> 'c raft) list list \<Rightarrow> check_error + nat" where
  "checkOneLeader [] = Inl No_Leader"
| "checkOneLeader (readings # rest) =
     (case checkOneLeader_round readings of
        Inl e \<Rightarrow> Inl e
      | Inr (Some i) \<Rightarrow> Inr i
      | Inr None \<Rightarrow> checkOneLeader rest)"

definition checkTerms :: "(bool \<times> 'c raft) list \<Rightarrow> check_error + int" where
  "checkTerms readings =
     fold (\<lambda>(is_connected, rf) r. case r of
         Inl e \<Rightarrow> Inl e
       | Inr term1 \<Rightarrow>
           if is_connected then
             let xterm = fst (GetState rf) in
             if term1 = - 1 then Inr xterm else if term1 \<noteq> xterm then Inl Terms_Differ else Inr term1
           else Inr term1)
     readings (Inr (- 1))"

definition checkNoLeader :: "(bool \<times> 'c raft) list \<Rightarrow> check_error option" where
  "checkNoLeader readings =
     map_option (\<lambda>(i, _). Unexpected_Leader i)
       (find (\<lambda>(i, is_connected, rf). is_connected \<and> snd (GetState rf)) (enumerate 0 readings))"

subsection \<open>A test running beside its cluster\<close>

text \<open>The cluster, the configuration's records, how many messages of its channel the reader of each
  peer has read, and the channels of crashed instances with what their readers have not read.\<close>

record 'c harness =
  h_cluster :: "'c cluster"
  h_cfg :: "'c config"
  h_read :: "nat \<Rightarrow> nat"
  h_old :: "(nat \<times> 'c ApplyMsg list) list"
  h_err :: "check_error option"

definition harness_init :: "nat \<Rightarrow> (int \<Rightarrow> int) \<Rightarrow> 'c harness" where
  "harness_init n r =
     \<lparr>h_cluster = cluster_init (int n) r, h_cfg = blank_config n False, h_read = (\<lambda>_. 0), h_old = [],
      h_err = None\<rparr>"

text \<open>One message of server \<open>i\<close> goes through the body of \<open>applier\<close>; an error ends the test.\<close>

definition feed :: "nat \<Rightarrow> 'c ApplyMsg \<Rightarrow> 'c harness \<Rightarrow> 'c harness" where
  "feed i m h =
     (case applier_body i m (h_cfg h) of
        Inl e \<Rightarrow> h\<lparr>h_err := Some e\<rparr>
      | Inr cfg \<Rightarrow> h\<lparr>h_cfg := cfg\<rparr>)"

datatype 'c harness_event = Cluster_Event "'c Raft_Cluster.event" | Read_Message nat | Read_Old nat

text \<open>A restart leaves the rest of the old channel to its old reader.\<close>

fun leave_channel :: "'c Raft_Cluster.event \<Rightarrow> 'c harness \<Rightarrow> 'c harness" where
  "leave_channel (Restart i now r) h =
     (let k = nat i in
      h\<lparr>h_old := h_old h @ [(k, drop (h_read h k) (applyCh (nodes (h_cluster h) i)))],
        h_read := (h_read h)(k := 0)\<rparr>)"
| "leave_channel _ h = h"

fun harness_step :: "'c harness_event \<Rightarrow> 'c harness \<Rightarrow> 'c harness option" where
  "harness_step (Cluster_Event e) h =
     (case Raft_Cluster.exec e (h_cluster h) of
        None \<Rightarrow> None
      | Some s \<Rightarrow> Some ((leave_channel e h)\<lparr>h_cluster := s\<rparr>))"
| "harness_step (Read_Message i) h =
     (if i < cfg_n (h_cfg h) \<and> h_read h i < length (applyCh (nodes (h_cluster h) (int i))) then
        Some ((feed i (applyCh (nodes (h_cluster h) (int i)) ! h_read h i) h)
          \<lparr>h_read := (h_read h)(i := Suc (h_read h i))\<rparr>)
      else None)"
| "harness_step (Read_Old k) h =
     (if k < length (h_old h) then
        case h_old h ! k of
          (i, m # ms) \<Rightarrow> Some ((feed i m h)\<lparr>h_old := (h_old h)[k := (i, ms)]\<rparr>)
        | _ \<Rightarrow> None
      else None)"

fun harness_run :: "'c harness_event list \<Rightarrow> 'c harness \<Rightarrow> 'c harness option" where
  "harness_run [] h = Some h"
| "harness_run (e # es) h =
     (if h_err h \<noteq> None then None
      else case harness_step e h of None \<Rightarrow> None | Some h' \<Rightarrow> harness_run es h')"

subsection \<open>What the records contain\<close>

text \<open>\<open>D\<close> is the set of all messages that were ever sent on an apply channel.\<close>

definition sent_ok :: "int \<Rightarrow> 'c cluster \<Rightarrow> 'c ApplyMsg set \<Rightarrow> bool" where
  "sent_ok n s D \<longleftrightarrow>
     (\<forall>m \<in> D. CommandValid m \<and>
        (\<exists>s0 i. reachable n s0 \<and> cluster_steps s0 s \<and> i \<in> members n \<and> m \<in> set (applyCh (nodes s0 i)))) \<and>
     (\<forall>m \<in> D. \<forall>m' \<in> D. CommandIndex m = CommandIndex m' \<longrightarrow> m = m') \<and>
     (\<forall>i \<in> members n. set (applyCh (nodes s i)) \<subseteq> D)"

definition recorded :: "'c ApplyMsg set \<Rightarrow> 'c config \<Rightarrow> bool" where
  "recorded D cfg \<longleftrightarrow>
     (\<forall>j < length (logs cfg). \<forall>k v. (logs cfg ! j) k = Some v \<longrightarrow>
        (\<exists>m \<in> D. CommandIndex m = k \<and> msg_Command m = v))"

definition filled :: "'c config \<Rightarrow> nat \<Rightarrow> nat \<Rightarrow> bool" where
  "filled cfg i a \<longleftrightarrow> (\<forall>k. 1 \<le> k \<and> k \<le> int a \<longrightarrow> (logs cfg ! i) k \<noteq> None)"

definition harness_inv :: "nat \<Rightarrow> 'c harness \<Rightarrow> bool" where
  "harness_inv n h \<longleftrightarrow>
     h_err h = None \<and> reachable (int n) (h_cluster h) \<and>
     cfg_n (h_cfg h) = n \<and> length (logs (h_cfg h)) = n \<and> length (rafts (h_cfg h)) = n \<and>
     applyErr (h_cfg h) = replicate n '''' \<and>
     (\<exists>D. sent_ok (int n) (h_cluster h) D \<and> recorded D (h_cfg h) \<and>
        (\<forall>i < n. filled (h_cfg h) i (h_read h i)) \<and>
        (\<forall>(i, ms) \<in> set (h_old h). i < n \<and> set ms \<subseteq> D \<and>
           (\<exists>a. filled (h_cfg h) i a \<and> map CommandIndex ms = map (\<lambda>k. int (a + k) + 1) [0..<length ms])))"

lemma sent_ok_step:
  assumes "sent_ok n s D" and "reachable n s" and "cluster_steps s s'"
  shows "sent_ok n s' (D \<union> (\<Union>i \<in> members n. set (applyCh (nodes s' i))))"
proof -
  let ?D = "D \<union> (\<Union>i \<in> members n. set (applyCh (nodes s' i)))"
  have r: "reachable n s'" by (rule reachable_steps [OF assms(3,2)])
  have origin: "\<exists>s0 i. reachable n s0 \<and> cluster_steps s0 s' \<and> i \<in> members n \<and> m \<in> set (applyCh (nodes s0 i))"
    if "m \<in> ?D" for m
    using that assms(1,3) r unfolding sent_ok_def by (blast intro: rtranclp_trans)
  have new: "m = m'" if "m \<in> ?D" "i \<in> members n" "m' \<in> set (applyCh (nodes s' i))" "CommandIndex m = CommandIndex m'"
    for m m' i
    using origin [OF that(1)] that(2-4) by (blast intro: deliveries_agree)
  have valid: "CommandValid m" if "i \<in> members n" "m \<in> set (applyCh (nodes s' i))" for m i
  proof -
    obtain e L A where "raft_inv n s' e L A" using reachable_raft_inv [OF r] by blast
    from raft_inv_commit(2) [OF this that(1)] that(2) show ?thesis by (auto simp: delivered_def entry_msg_def)
  qed
  have agree: "m = m'" if m: "m \<in> ?D" and m': "m' \<in> ?D" and idx: "CommandIndex m = CommandIndex m'" for m m'
  proof (cases "m' \<in> D")
    case False
    with m' obtain i where "i \<in> members n" "m' \<in> set (applyCh (nodes s' i))" by blast
    with new m idx show ?thesis by blast
  next
    case True
    show ?thesis
    proof (cases "m \<in> D")
      case False
      with m obtain i where "i \<in> members n" "m \<in> set (applyCh (nodes s' i))" by blast
      from new [OF m' this idx [symmetric]] show ?thesis by simp
    qed (use True idx assms(1) in \<open>simp add: sent_ok_def\<close>)
  qed
  have "\<forall>m \<in> D. CommandValid m" using assms(1) by (simp add: sent_ok_def)
  with valid have "\<forall>m \<in> ?D. CommandValid m" by blast
  with origin agree show ?thesis unfolding sent_ok_def by blast
qed

lemma channel_index:
  assumes "reachable n s" and "i \<in> members n" and "k < length (applyCh (nodes s i))"
  shows "CommandIndex (applyCh (nodes s i) ! k) = int k + 1"
proof -
  obtain e L A where "raft_inv n s e L A" using reachable_raft_inv [OF assms(1)] by blast
  from raft_inv_commit(2) [OF this assms(2)] assms(3) show ?thesis by (auto simp: delivered_def)
qed

text \<open>A message of the set, in its place, passes the check and is recorded.\<close>

lemma find_mismatch_None:
  assumes "recorded D cfg" and "m \<in> D" and "\<forall>m \<in> D. \<forall>m' \<in> D. CommandIndex m = CommandIndex m' \<longrightarrow> m = m'"
  shows "find_mismatch i m cfg = None"
proof -
  have old: "old = msg_Command m" if "(logs cfg ! j) (CommandIndex m) = Some old" "j < length (logs cfg)" for j old
    using assms that unfolding recorded_def by metis
  have "foldl (\<lambda>err j.
       case (logs cfg ! j) (CommandIndex m) of
         Some old \<Rightarrow> if old \<noteq> msg_Command m then Some (Commit_Mismatch (CommandIndex m) i j) else err
       | None \<Rightarrow> err) None js = None" if "\<forall>j \<in> set js. j < length (logs cfg)" for js
    using that by (induction js) (auto simp: old split: option.split)
  then show ?thesis unfolding find_mismatch_def by simp
qed

lemma feed_ok:
  assumes "recorded D (h_cfg h)" and m: "m \<in> D" and D: "\<forall>m \<in> D. CommandValid m"
      "\<forall>m \<in> D. \<forall>m' \<in> D. CommandIndex m = CommandIndex m' \<longrightarrow> m = m'"
    and i: "i < length (logs (h_cfg h))" and idx: "CommandIndex m = int a + 1" and filled: "filled (h_cfg h) i a"
  obtains cfg where "feed i m h = h\<lparr>h_cfg := cfg\<rparr>" "recorded D cfg" "filled cfg i (Suc a)"
    "\<And>j b. filled (h_cfg h) j b \<Longrightarrow> filled cfg j b" "cfg_n cfg = cfg_n (h_cfg h)"
    "length (logs cfg) = length (logs (h_cfg h))" "rafts cfg = rafts (h_cfg h)" "applyErr cfg = applyErr (h_cfg h)"
proof -
  let ?cfg = "snd (snd (checkLogs i m (h_cfg h)))"
  have logs: "logs ?cfg = (logs (h_cfg h))[i := (logs (h_cfg h) ! i)(CommandIndex m \<mapsto> msg_Command m)]"
    and same: "cfg_n ?cfg = cfg_n (h_cfg h)" "rafts ?cfg = rafts (h_cfg h)" "applyErr ?cfg = applyErr (h_cfg h)"
    by (simp_all add: checkLogs_def Let_def)
  have none: "find_mismatch i m (h_cfg h) = None" by (rule find_mismatch_None [OF assms(1) m D(2)])
  have prev: "CommandIndex m > 1 \<Longrightarrow> (logs (h_cfg h) ! i) (CommandIndex m - 1) \<noteq> None"
    using filled idx by (auto simp: filled_def)
  have "applier_body i m (h_cfg h) = Inr ?cfg"
    using D(1) m none prev by (auto simp: applier_body_def checkLogs_def Let_def)
  then have "feed i m h = h\<lparr>h_cfg := ?cfg\<rparr>" by (simp add: feed_def)
  moreover have "recorded D ?cfg"
    using assms(1) m i unfolding recorded_def logs by (auto simp: nth_list_update split: if_splits)
  moreover have keep: "filled ?cfg j b" if "filled (h_cfg h) j b" for j b
    using that i unfolding filled_def logs by (auto simp: nth_list_update)
  moreover have "filled ?cfg i (Suc a)"
    using filled i idx unfolding filled_def logs by (auto simp: nth_list_update)
  ultimately show ?thesis using that same by (simp add: logs)
qed

text \<open>A reader that finds its message in place keeps the invariant.\<close>

lemma Read_Message_inv:
  assumes inv: "harness_inv n h" and "harness_step (Read_Message i) h = Some h'"
  shows "harness_inv n h'"
proof -
  let ?ch = "applyCh (nodes (h_cluster h) (int i))" and ?r = "h_read h i"
  from assms have i: "i < n" "?r < length ?ch" and
    h': "h' = (feed i (?ch ! ?r) h)\<lparr>h_read := (h_read h)(i := Suc ?r)\<rparr>"
    by (auto simp: harness_inv_def split: if_splits)
  from inv obtain D where D: "sent_ok (int n) (h_cluster h) D" "recorded D (h_cfg h)"
      "\<forall>i < n. filled (h_cfg h) i (h_read h i)"
      "\<forall>(i, ms) \<in> set (h_old h). i < n \<and> set ms \<subseteq> D \<and>
         (\<exists>a. filled (h_cfg h) i a \<and> map CommandIndex ms = map (\<lambda>k. int (a + k) + 1) [0..<length ms])"
    and r: "reachable (int n) (h_cluster h)" and len: "length (logs (h_cfg h)) = n"
    unfolding harness_inv_def by blast
  have mem: "int i \<in> members (int n)" using i(1) by simp
  have m: "?ch ! ?r \<in> D" using D(1) mem i(2) unfolding sent_ok_def by (blast intro: nth_mem)
  have valid: "\<forall>m \<in> D. CommandValid m"
    and agree: "\<forall>m \<in> D. \<forall>m' \<in> D. CommandIndex m = CommandIndex m' \<longrightarrow> m = m'"
    using D(1) by (simp_all add: sent_ok_def)
  obtain cfg where cfg: "feed i (?ch ! ?r) h = h\<lparr>h_cfg := cfg\<rparr>" "recorded D cfg" "filled cfg i (Suc ?r)"
    "\<And>j b. filled (h_cfg h) j b \<Longrightarrow> filled cfg j b" "cfg_n cfg = cfg_n (h_cfg h)"
    "length (logs cfg) = length (logs (h_cfg h))" "rafts cfg = rafts (h_cfg h)" "applyErr cfg = applyErr (h_cfg h)"
    using feed_ok [OF D(2) m valid agree, of i ?r] i len D(3) channel_index [OF r mem i(2)] by metis
  have "\<forall>j < n. filled cfg j (h_read h' j)" using cfg(3,4) D(3) by (simp add: h')
  moreover have "\<forall>(i, ms) \<in> set (h_old h'). i < n \<and> set ms \<subseteq> D \<and>
      (\<exists>a. filled cfg i a \<and> map CommandIndex ms = map (\<lambda>k. int (a + k) + 1) [0..<length ms])"
    using D(4) cfg(4) by (fastforce simp: h' cfg(1))
  ultimately show ?thesis
    using inv D(1) cfg(2,5-8) unfolding harness_inv_def by (auto simp: h' cfg(1) intro!: exI [of _ D])
qed

lemma Read_Old_inv:
  assumes inv: "harness_inv n h" and "harness_step (Read_Old k) h = Some h'"
  shows "harness_inv n h'"
proof -
  from assms(2) obtain i m ms where k: "k < length (h_old h)" "h_old h ! k = (i, m # ms)" and
    h': "h' = (feed i m h)\<lparr>h_old := (h_old h)[k := (i, ms)]\<rparr>"
    by (auto split: if_splits prod.splits list.splits)
  from inv obtain D where D: "sent_ok (int n) (h_cluster h) D" "recorded D (h_cfg h)"
      "\<forall>i < n. filled (h_cfg h) i (h_read h i)"
      "\<forall>(i, ms) \<in> set (h_old h). i < n \<and> set ms \<subseteq> D \<and>
         (\<exists>a. filled (h_cfg h) i a \<and> map CommandIndex ms = map (\<lambda>k. int (a + k) + 1) [0..<length ms])"
    and len: "length (logs (h_cfg h)) = n"
    unfolding harness_inv_def by blast
  have "(i, m # ms) \<in> set (h_old h)" using k by (metis nth_mem)
  with D(4) obtain a where i: "i < n" "m \<in> D" "set ms \<subseteq> D" "filled (h_cfg h) i a"
    and idxs: "map CommandIndex (m # ms) = map (\<lambda>k. int (a + k) + 1) [0..<Suc (length ms)]"
    by fastforce
  from idxs have idx: "CommandIndex m = int a + 1"
    and rest: "map CommandIndex ms = map (\<lambda>k. int (Suc a + k) + 1) [0..<length ms]"
    by (simp_all add: upt_conv_Cons map_Suc_upt [symmetric] o_def del: upt_Suc)
  have valid: "\<forall>m \<in> D. CommandValid m"
    and agree: "\<forall>m \<in> D. \<forall>m' \<in> D. CommandIndex m = CommandIndex m' \<longrightarrow> m = m'"
    using D(1) by (simp_all add: sent_ok_def)
  obtain cfg where cfg: "feed i m h = h\<lparr>h_cfg := cfg\<rparr>" "recorded D cfg" "filled cfg i (Suc a)"
    "\<And>j b. filled (h_cfg h) j b \<Longrightarrow> filled cfg j b" "cfg_n cfg = cfg_n (h_cfg h)"
    "length (logs cfg) = length (logs (h_cfg h))" "rafts cfg = rafts (h_cfg h)" "applyErr cfg = applyErr (h_cfg h)"
    using feed_ok [OF D(2) i(2) valid agree, of i a] i len idx by metis
  have "\<forall>(i, ms) \<in> set (h_old h'). i < n \<and> set ms \<subseteq> D \<and>
      (\<exists>a. filled cfg i a \<and> map CommandIndex ms = map (\<lambda>k. int (a + k) + 1) [0..<length ms])"
  proof
    fix p assume "p \<in> set (h_old h')"
    then consider "p = (i, ms)" | "p \<in> set (h_old h)"
      using k set_update_subset_insert by (fastforce simp: h' cfg(1))
    then show "case p of (i, ms) \<Rightarrow> i < n \<and> set ms \<subseteq> D \<and>
        (\<exists>a. filled cfg i a \<and> map CommandIndex ms = map (\<lambda>k. int (a + k) + 1) [0..<length ms])"
    proof cases
      case 1
      with i rest cfg(3) show ?thesis by blast
    next
      case 2
      with D(4) cfg(4) show ?thesis by fastforce
    qed
  qed
  then show ?thesis
    using inv D(1,3) cfg(2,4-8) unfolding harness_inv_def by (auto simp: h' cfg(1) intro!: exI [of _ D])
qed

lemma Cluster_Event_inv:
  assumes inv: "harness_inv n h" and "harness_step (Cluster_Event e) h = Some h'"
  shows "harness_inv n h'"
proof -
  from assms(2) obtain s where s: "Raft_Cluster.exec e (h_cluster h) = Some s"
    and h': "h' = (leave_channel e h)\<lparr>h_cluster := s\<rparr>" by (auto split: option.splits)
  from inv obtain D where D: "sent_ok (int n) (h_cluster h) D" "recorded D (h_cfg h)"
      "\<forall>i < n. filled (h_cfg h) i (h_read h i)"
      "\<forall>(i, ms) \<in> set (h_old h). i < n \<and> set ms \<subseteq> D \<and>
         (\<exists>a. filled (h_cfg h) i a \<and> map CommandIndex ms = map (\<lambda>k. int (a + k) + 1) [0..<length ms])"
    and r: "reachable (int n) (h_cluster h)"
    unfolding harness_inv_def by blast
  have steps: "cluster_steps (h_cluster h) s" using exec_cluster_step [OF s] by blast
  let ?D = "D \<union> (\<Union>i \<in> members (int n). set (applyCh (nodes s i)))"
  have "sent_ok (int n) s ?D" by (rule sent_ok_step [OF D(1) r steps])
  moreover have "recorded ?D (h_cfg h)" using D(2) unfolding recorded_def by blast
  moreover have "reachable (int n) s" by (rule reachable_steps [OF steps r])
  moreover have "\<forall>i < n. filled (h_cfg h) i (h_read h' i)"
    using D(3) by (cases e) (auto simp: h' Let_def filled_def)
  moreover have "\<forall>(i, ms) \<in> set (h_old h'). i < n \<and> set ms \<subseteq> ?D \<and>
      (\<exists>a. filled (h_cfg h) i a \<and> map CommandIndex ms = map (\<lambda>k. int (a + k) + 1) [0..<length ms])"
  proof (cases "\<exists>i now r. e = Restart i now r")
    case True
    then obtain i now r' where e: "e = Restart i now r'" by blast
    with s have i: "i \<in> members (csize (h_cluster h))" by (auto split: if_splits)
    have size: "csize (h_cluster h) = int n"
      using reachable_raft_inv [OF r] raft_invD(2) by blast
    let ?ms = "drop (h_read h (nat i)) (applyCh (nodes (h_cluster h) i))"
    have i': "i \<in> members (int n)" "nat i < n" using i size by auto
    have "set (applyCh (nodes (h_cluster h) i)) \<subseteq> D" using D(1) i'(1) unfolding sent_ok_def by blast
    then have "set ?ms \<subseteq> ?D" using set_drop_subset [of "h_read h (nat i)" "applyCh (nodes (h_cluster h) i)"] by blast
    moreover have "map CommandIndex ?ms = map (\<lambda>k. int (h_read h (nat i) + k) + 1) [0..<length ?ms]"
      using channel_index [OF r i'(1)] by (intro nth_equalityI) (auto simp: add.commute)
    ultimately show ?thesis
      using D(3,4) i'(2) by (fastforce simp: h' e Let_def)
  next
    case False
    then have "leave_channel e h = h" by (cases e) auto
    with D(4) show ?thesis by (fastforce simp: h')
  qed
  moreover have "h_err h' = None" "h_cfg h' = h_cfg h" using inv by (cases e; simp add: h' harness_inv_def Let_def)+
  ultimately show ?thesis
    using inv unfolding harness_inv_def by (auto simp: h' intro!: exI [of _ ?D])
qed

lemma harness_step_inv: "harness_inv n h \<Longrightarrow> harness_step e h = Some h' \<Longrightarrow> harness_inv n h'"
  by (cases e) (blast intro: Cluster_Event_inv Read_Message_inv Read_Old_inv)+

lemma harness_init_inv: "harness_inv n (harness_init n r :: 'c harness)"
proof -
  have "applyCh (nodes (cluster_init (int n) r :: 'c cluster) i) = []" for i :: int
    by (simp add: cluster_init_def Make_def readPersist_def ReadRaftState_def MakePersister_def clone_def Let_def)
  then have "sent_ok (int n) (cluster_init (int n) r :: 'c cluster) {}" by (simp add: sent_ok_def)
  moreover have "recorded {} (blank_config n False :: 'c config)" by (simp add: recorded_def blank_config_def)
  ultimately show ?thesis
    unfolding harness_inv_def harness_init_def
    by (auto simp: filled_def blank_config_def intro: reachable.start)
qed

lemma harness_run_inv: "harness_run es h = Some h' \<Longrightarrow> harness_inv n h \<Longrightarrow> harness_inv n h'"
proof (induction es arbitrary: h)
  case (Cons e es)
  then obtain u where "harness_step e h = Some u" "harness_run es u = Some h'"
    by (auto split: if_splits option.splits)
  with Cons harness_step_inv show ?case by blast
qed simp

text \<open>Counting never fails when the records agree.\<close>

lemma nCommitted_agree:
  assumes "\<forall>i < k. applyErr cfg ! i = ''''"
    and "\<forall>i < k. \<forall>j < k. \<forall>u v. (logs cfg ! i) index = Some u \<longrightarrow> (logs cfg ! j) index = Some v \<longrightarrow> u = v"
  shows "\<exists>num cmd. fold (nCommitted_body index cfg) [0..<k] (Inr (0, None)) = Inr (num, cmd) \<and>
     num = int (card {i. i < k \<and> (logs cfg ! i) index \<noteq> None}) \<and>
     (\<forall>i < k. \<forall>v. (logs cfg ! i) index = Some v \<longrightarrow> cmd = Some v)"
  using assms
proof (induction k)
  case 0
  then show ?case by simp
next
  case (Suc k)
  from Suc.prems have "\<forall>i < k. applyErr cfg ! i = ''''"
    "\<forall>i < k. \<forall>j < k. \<forall>u v. (logs cfg ! i) index = Some u \<longrightarrow> (logs cfg ! j) index = Some v \<longrightarrow> u = v"
    by (meson less_SucI)+
  from Suc.IH [OF this] obtain num cmd where
    IH: "fold (nCommitted_body index cfg) [0..<k] (Inr (0, None)) = Inr (num, cmd)"
    "num = int (card {i. i < k \<and> (logs cfg ! i) index \<noteq> None})"
    "\<forall>i < k. \<forall>v. (logs cfg ! i) index = Some v \<longrightarrow> cmd = Some v" by blast
  have err: "applyErr cfg ! k = ''''" using Suc.prems(1) by simp
  show ?case
  proof (cases "(logs cfg ! k) index")
    case None
    then have "{i. i < Suc k \<and> (logs cfg ! i) index \<noteq> None} = {i. i < k \<and> (logs cfg ! i) index \<noteq> None}"
      by (intro Collect_cong) (metis less_Suc_eq)
    moreover have "nCommitted_body index cfg k (Inr (num, cmd)) = Inr (num, cmd)"
      using None err by (simp add: nCommitted_body_def)
    moreover have "\<forall>i < Suc k. \<forall>v. (logs cfg ! i) index = Some v \<longrightarrow> cmd = Some v"
      using IH(3) None by (simp add: less_Suc_eq)
    ultimately show ?thesis using IH(1,2) by simp
  next
    case (Some v)
    have set: "{i. i < Suc k \<and> (logs cfg ! i) index \<noteq> None} = insert k {i. i < k \<and> (logs cfg ! i) index \<noteq> None}"
      using Some by (intro set_eqI) (auto simp: less_Suc_eq)
    have "num > 0 \<Longrightarrow> cmd = Some v"
    proof -
      assume pos: "num > 0"
      have "\<exists>j < k. (logs cfg ! j) index \<noteq> None"
      proof (rule ccontr)
        assume "\<not> ?thesis"
        then have "{i. i < k \<and> (logs cfg ! i) index \<noteq> None} = {}" by blast
        with IH(2) pos show False by (simp only: card.empty)
      qed
      then obtain j u where j: "j < k" "(logs cfg ! j) index = Some u" by blast
      then have "u = v" using Suc.prems(2) [rule_format, of j k u v] Some by simp
      with IH(3) j show "cmd = Some v" by blast
    qed
    then have "nCommitted_body index cfg k (Inr (num, cmd)) = Inr (num + 1, Some v)"
      using Some err by (auto simp: nCommitted_body_def)
    moreover have "\<forall>i < Suc k. \<forall>w. (logs cfg ! i) index = Some w \<longrightarrow> Some v = Some w"
      using Suc.prems(2) [rule_format, of k] Some by simp
    ultimately show ?thesis
      using IH(1,2) set by simp
  qed
qed

text \<open>The records of a running test agree, and counting them never fails.\<close>

definition agreed :: "nat \<Rightarrow> int \<Rightarrow> 'c config \<Rightarrow> bool" where
  "agreed n index cfg \<longleftrightarrow>
     (\<forall>i < n. \<forall>j < n. \<forall>k u v. (logs cfg ! i) k = Some u \<longrightarrow> (logs cfg ! j) k = Some v \<longrightarrow> u = v) \<and>
     (\<exists>cmd. nCommitted index cfg = Inr (int (card {i. i < n \<and> (logs cfg ! i) index \<noteq> None}), cmd) \<and>
        (\<forall>i < n. \<forall>v. (logs cfg ! i) index = Some v \<longrightarrow> cmd = Some v))"

lemma harness_inv_agreed:
  assumes "harness_inv n h"
  shows "agreed n index (h_cfg h)"
proof -
  from assms obtain D where D: "sent_ok (int n) (h_cluster h) D" "recorded D (h_cfg h)" and
    len: "length (logs (h_cfg h)) = n" "length (rafts (h_cfg h)) = n" and
    err: "applyErr (h_cfg h) = replicate n ''''"
    unfolding harness_inv_def by blast
  have agree: "u = v" if "i < n" "j < n" "(logs (h_cfg h) ! i) k = Some u" "(logs (h_cfg h) ! j) k = Some v" for i j k u v
  proof -
    from that D(2) len obtain m m' where "m \<in> D" "CommandIndex m = k" "msg_Command m = u"
      "m' \<in> D" "CommandIndex m' = k" "msg_Command m' = v" unfolding recorded_def by metis
    with D(1) show "u = v" unfolding sent_ok_def by metis
  qed
  have "\<forall>i < n. applyErr (h_cfg h) ! i = ''''" using err by simp
  from nCommitted_agree [OF this, of index] agree show ?thesis
    unfolding agreed_def nCommitted_def len(2) by blast
qed

text \<open>C32. The checks that read the apply channels never fail. In every run of a test beside its
  cluster - messages lost, delayed and reordered, peers crashing and restarting, the readers of the
  channels lagging behind by any amount and in any order - the configuration never reports an
  apply error: no two servers' records differ at an index, no server applies out of order, and
  \<open>nCommitted\<close> returns for every index the number of servers that have applied it, with the command
  they agree on.\<close>

theorem harness_never_fails:
  assumes "harness_run es (harness_init n r) = Some h"
  shows "h_err h = None \<and>
    (\<forall>i < n. \<forall>j < n. \<forall>k u v. (logs (h_cfg h) ! i) k = Some u \<longrightarrow> (logs (h_cfg h) ! j) k = Some v \<longrightarrow> u = v) \<and>
    (\<exists>cmd. nCommitted index (h_cfg h) = Inr (int (card {i. i < n \<and> (logs (h_cfg h) ! i) index \<noteq> None}), cmd) \<and>
       (\<forall>i < n. \<forall>v. (logs (h_cfg h) ! i) index = Some v \<longrightarrow> cmd = Some v))"
proof -
  have inv: "harness_inv n h" by (rule harness_run_inv [OF assms harness_init_inv])
  then have "h_err h = None" by (simp add: harness_inv_def)
  with harness_inv_agreed [OF inv, of index] show ?thesis unfolding agreed_def by blast
qed

text \<open>A run with a peer's election and one command replicated to a second peer; the readers of both
  take the message.\<close>

lemma harness_cluster_run:
  assumes "Raft_Cluster.run es (h_cluster h) = Some s" and "h_err h = None"
    and "\<forall>e \<in> set es. \<forall>i now r. e \<noteq> Restart i now r"
  shows "harness_run (map Cluster_Event es @ fs) h = harness_run fs (h\<lparr>h_cluster := s\<rparr>)"
  using assms
proof (induction es arbitrary: h)
  case (Cons e es)
  have stay: "leave_channel e h = h" using Cons.prems(3) by (cases e) auto
  from Cons.prems(1) obtain u where u: "Raft_Cluster.exec e (h_cluster h) = Some u" "Raft_Cluster.run es u = Some s"
    by (auto split: option.splits)
  have "harness_run (map Cluster_Event es @ fs) (h\<lparr>h_cluster := u\<rparr>) = harness_run fs (h\<lparr>h_cluster := s\<rparr>)"
    using Cons.IH [of "h\<lparr>h_cluster := u\<rparr>"] u(2) Cons.prems(2,3) by simp
  with u(1) stay Cons.prems(2) show ?case by simp
next
  case Nil
  then have "h\<lparr>h_cluster := s\<rparr> = h" by (cases h) simp
  then show ?case by simp
qed

definition test_events :: "nat Raft_Cluster.event list" where
  "test_events = election_run @ replication_run @ notify_run"

lemma cluster_run_append: "Raft_Cluster.run (es @ fs) s = (case Raft_Cluster.run es s of None \<Rightarrow> None | Some u \<Rightarrow> Raft_Cluster.run fs u)"
  by (induction es arbitrary: s) (auto split: option.splits)

lemma test_events_run: "Raft_Cluster.run test_events three_peers = Some notified_cluster"
  by (simp add: test_events_def cluster_run_append elected_run committed_run notified_run)

theorem harness_never_fails_witness:
  "\<exists>h. harness_run (map Cluster_Event test_events @ [Read_Message 0, Read_Message 1])
       (harness_init 3 (\<lambda>i. 10 * i)) = Some h \<and> nCommitted 1 (h_cfg h) = Inr (2, Some 42)"
proof -
  let ?h0 = "harness_init 3 (\<lambda>i. 10 * i) :: nat harness"
  have "harness_run (map Cluster_Event test_events @ [Read_Message 0, Read_Message 1]) ?h0 =
      harness_run [Read_Message 0, Read_Message 1] (?h0\<lparr>h_cluster := notified_cluster\<rparr>)"
  proof (rule harness_cluster_run)
    have "h_cluster ?h0 = three_peers" by (simp add: harness_init_def three_peers_def)
    then show "Raft_Cluster.run test_events (h_cluster ?h0) = Some notified_cluster" by (simp only: test_events_run)
  qed (simp_all add: harness_init_def test_events_def election_run_def replication_run_def notify_run_def)
  also have "\<dots> = Some (?h0\<lparr>h_cluster := notified_cluster, h_read := (\<lambda>_. 0)(0 := 1, 1 := 1),
      h_cfg := (blank_config 3 False)\<lparr>logs := [[1 \<mapsto> 42], [1 \<mapsto> 42], Map.empty], maxIndex := 1\<rparr>\<rparr>)"
    by (simp add: harness_init_def blank_config_def notified_state feed_def applier_body_def checkLogs_def
        find_mismatch_def Let_def numeral_3_eq_3 upt_rec)
  finally obtain h where h: "harness_run (map Cluster_Event test_events @ [Read_Message 0, Read_Message 1]) ?h0 = Some h"
    "logs (h_cfg h) = [[1 \<mapsto> 42], [1 \<mapsto> 42], Map.empty]" by simp
  have "{i. i < (3 :: nat) \<and> (logs (h_cfg h) ! i) 1 \<noteq> None} = {0, 1}"
    unfolding h(2) by (auto simp: numeral_3_eq_3 less_Suc_eq)
  then have "int (card {i. i < (3 :: nat) \<and> (logs (h_cfg h) ! i) 1 \<noteq> None}) = 2" by simp
  with harness_never_fails [OF h(1), of 1] obtain cmd where cmd:
    "nCommitted 1 (h_cfg h) = Inr (2, cmd)" "\<forall>i < 3. \<forall>v. (logs (h_cfg h) ! i) 1 = Some v \<longrightarrow> cmd = Some v"
    by metis
  from cmd(2) have "(logs (h_cfg h) ! 0) 1 = Some 42 \<longrightarrow> cmd = Some 42" by (meson zero_less_numeral)
  then have "cmd = Some 42" by (simp add: h(2))
  with h(1) cmd(1) show ?thesis by blast
qed

subsection \<open>One leader per term\<close>

text \<open>A reading of a connected peer that claims to lead.\<close>

definition claims :: "bool \<times> 'c raft \<Rightarrow> int \<Rightarrow> bool" where
  "claims p t \<longleftrightarrow> fst p \<and> myRole (snd p) = Leader \<and> currentTerm (snd p) = t"

definition leaders_ok :: "(bool \<times> 'c raft) list \<Rightarrow> leaders \<Rightarrow> bool" where
  "leaders_ok rs ls \<longleftrightarrow> distinct (map fst ls) \<and>
     (\<forall>(t, is) \<in> set ls. is \<noteq> [] \<and> distinct is \<and> (\<forall>i \<in> set is. i < length rs \<and> claims (rs ! i) t)) \<and>
     (\<forall>i < length rs. \<forall>t. claims (rs ! i) t \<longrightarrow> (\<exists>is. (t, is) \<in> set ls \<and> i \<in> set is))"

lemma set_add_leader:
  "distinct (map fst ls) \<Longrightarrow> (t', is) \<in> set (add_leader t i ls) \<longleftrightarrow>
     (if t' = t then (\<exists>js. (t, js) \<in> set ls \<and> is = js @ [i]) \<or> (t \<notin> fst ` set ls \<and> is = [i])
      else (t', is) \<in> set ls)"
proof (induction t i ls rule: add_leader.induct)
  case (2 t i u js ls)
  show ?case
  proof (cases "u = t")
    case True
    have "(t, ks) \<notin> set ls" for ks using 2(2) True by (force simp: image_iff)
    with True show ?thesis by auto
  next
    case False
    with 2 show ?thesis by auto
  qed
qed auto

lemma fst_add_leader: "fst ` set (add_leader t i ls) = insert t (fst ` set ls)"
  by (induction t i ls rule: add_leader.induct) auto

lemma distinct_add_leader: "distinct (map fst ls) \<Longrightarrow> distinct (map fst (add_leader t i ls))"
  by (induction t i ls rule: add_leader.induct) (auto simp: fst_add_leader)

lemma leaders_ok_add:
  assumes "leaders_ok rs ls" and "claims p t"
  shows "leaders_ok (rs @ [p]) (add_leader t (length rs) ls)"
proof -
  have d: "distinct (map fst ls)" using assms(1) by (simp add: leaders_ok_def)
  have old: "is \<noteq> [] \<and> distinct is \<and> (\<forall>i \<in> set is. i < length rs \<and> claims (rs ! i) t')" if "(t', is) \<in> set ls" for t' "is"
    using assms(1) that unfolding leaders_ok_def by blast
  have 1: "is \<noteq> [] \<and> distinct is \<and> (\<forall>i \<in> set is. i < length (rs @ [p]) \<and> claims ((rs @ [p]) ! i) t')"
    if "(t', is) \<in> set (add_leader t (length rs) ls)" for t' "is"
    using that old assms(2) unfolding set_add_leader [OF d]
    by (fastforce simp: nth_append less_Suc_eq split: if_splits)
  have 2: "\<exists>is. (t', is) \<in> set (add_leader t (length rs) ls) \<and> i \<in> set is"
    if i: "i < length (rs @ [p])" and c: "claims ((rs @ [p]) ! i) t'" for i t'
  proof (cases "i = length rs")
    case True
    with c assms(2) have "t' = t" by (simp add: claims_def)
    with True show ?thesis
      unfolding set_add_leader [OF d] by (cases "t \<in> fst ` set ls") force+
  next
    case False
    with i c have "i < length rs" "claims (rs ! i) t'" by (simp_all add: nth_append)
    then obtain js where "(t', js) \<in> set ls" "i \<in> set js" using assms(1) unfolding leaders_ok_def by blast
    then show ?thesis unfolding set_add_leader [OF d] by (cases "t' = t") auto
  qed
  from 1 2 distinct_add_leader [OF d] show ?thesis unfolding leaders_ok_def by blast
qed

lemma leaders_ok_skip:
  assumes "leaders_ok rs ls" and "\<And>t. \<not> claims p t"
  shows "leaders_ok (rs @ [p]) ls"
  using assms unfolding leaders_ok_def by (fastforce simp: nth_append less_Suc_eq)

lemma collect_leaders_ok: "leaders_ok rs (collect_leaders rs)"
proof (induction rs rule: rev_induct)
  case Nil
  show ?case by (simp add: leaders_ok_def collect_leaders_def)
next
  case (snoc p rs)
  obtain c rf where p: "p = (c, rf)" by fastforce
  have "collect_leaders (rs @ [p]) =
      (if c \<and> myRole rf = Leader then add_leader (currentTerm rf) (length rs) (collect_leaders rs) else collect_leaders rs)"
    by (simp add: collect_leaders_def enumerate_append_eq p GetState_def)
  with snoc leaders_ok_add [of rs "collect_leaders rs" p "currentTerm rf"] leaders_ok_skip [of rs "collect_leaders rs" p]
  show ?case by (auto simp: claims_def p)
qed

lemma last_term:
  "fold (\<lambda>(t, _) last. if t > last then t else last) ls a = Max (insert a (fst ` set ls))" for a :: int
proof (induction ls arbitrary: a)
  case (Cons p ls)
  obtain t x where p: "p = (t, x)" by fastforce
  let ?S = "fst ` set ls"
  have "(if t > a then t else a) = max a t" by simp
  with Cons.IH [of "max a t"] have "fold (\<lambda>(t, _) last. if t > last then t else last) (p # ls) a = Max (insert (max a t) ?S)"
    by (simp add: p)
  also have "\<dots> = Max (insert a (insert t ?S))" by (cases "?S = {}") (simp_all add: max.assoc)
  finally show ?case by (simp add: p)
qed simp

text \<open>Peer \<open>i\<close> is connected and leads when it is read, in the state \<open>ss i\<close>.\<close>

definition leads_in :: "nat \<Rightarrow> (nat \<Rightarrow> bool) \<Rightarrow> (nat \<Rightarrow> 'c cluster) \<Rightarrow> nat \<Rightarrow> bool" where
  "leads_in n conn ss i \<longleftrightarrow> i < n \<and> conn i \<and> myRole (nodes (ss i) (int i)) = Leader"

text \<open>What the readings of a running cluster contain: every entry names peers that led its term, at
  most one for a term, and the terms are not negative.\<close>

definition steady :: "nat \<Rightarrow> (nat \<Rightarrow> 'c cluster) \<Rightarrow> bool" where
  "steady n ss \<longleftrightarrow> (\<forall>i < n. reachable (int n) (ss i)) \<and> (\<forall>i j. i \<le> j \<and> j < n \<longrightarrow> cluster_steps (ss i) (ss j))"

abbreviation readings_of :: "nat \<Rightarrow> (nat \<Rightarrow> bool) \<Rightarrow> (nat \<Rightarrow> 'c cluster) \<Rightarrow> (bool \<times> 'c raft) list" where
  "readings_of n conn ss \<equiv> map (\<lambda>i. (conn i, nodes (ss i) (int i))) [0..<n]"

lemma claims_reading:
  "i < n \<Longrightarrow> claims (readings_of n conn ss ! i) t \<longleftrightarrow> leads_in n conn ss i \<and> currentTerm (nodes (ss i) (int i)) = t"
  by (simp add: claims_def leads_in_def)

lemma collected_entry:
  assumes "(t, is) \<in> set (collect_leaders (readings_of n conn ss))"
  shows "is \<noteq> [] \<and> distinct is \<and> (\<forall>i \<in> set is. leads_in n conn ss i \<and> currentTerm (nodes (ss i) (int i)) = t)"
  using collect_leaders_ok [of "readings_of n conn ss"] assms claims_reading unfolding leaders_ok_def by fastforce

lemma collected_all:
  assumes "leads_in n conn ss i"
  shows "\<exists>is. (currentTerm (nodes (ss i) (int i)), is) \<in> set (collect_leaders (readings_of n conn ss)) \<and> i \<in> set is"
  using collect_leaders_ok [of "readings_of n conn ss"] assms claims_reading [of i n conn ss]
  unfolding leaders_ok_def by (auto simp: leads_in_def)

lemma collected_single:
  assumes "steady n ss" and "(t, is) \<in> set (collect_leaders (readings_of n conn ss))"
  shows "length is \<le> 1"
proof (rule ccontr)
  have same: "i = j" if "leads_in n conn ss i" "leads_in n conn ss j"
      "currentTerm (nodes (ss i) (int i)) = currentTerm (nodes (ss j) (int j))" "i \<le> j" for i j
    using one_leader_per_term [of "int n" "ss i" "ss j" "int i" "int j"] assms(1) that
    by (simp add: leads_in_def steady_def)
  assume "\<not> length is \<le> 1"
  then have "length is > 1" by simp
  then have "is ! 0 \<in> set is" "is ! 1 \<in> set is" "is ! 0 \<noteq> is ! 1"
    using collected_entry [OF assms(2)] by (auto simp: nth_eq_iff_index_eq)
  with collected_entry [OF assms(2)] same show False by (metis nat_le_linear)
qed

lemma collected_term_nonneg:
  assumes "steady n ss" and "t \<in> fst ` set (collect_leaders (readings_of n conn ss))"
  shows "0 \<le> t"
proof -
  from assms(2) obtain "is" where "(t, is) \<in> set (collect_leaders (readings_of n conn ss))" by force
  from collected_entry [OF this] obtain i where i: "leads_in n conn ss i" "currentTerm (nodes (ss i) (int i)) = t"
    using last_in_set by blast
  then have "reachable (int n) (ss i)" using assms(1) by (simp add: leads_in_def steady_def)
  then obtain e L A where "raft_inv (int n) (ss i) e L A" using reachable_raft_inv by blast
  from raft_inv_node(5) [OF this, of "int i"] i show "0 \<le> t" by (simp add: leads_in_def node_commit_def)
qed

lemma collected_last_term:
  assumes "steady n ss" and "ls = collect_leaders (readings_of n conn ss)" and "ls \<noteq> []"
  obtains i js where "(Max (insert (- 1) (fst ` set ls)), i # js) \<in> set ls"
proof -
  let ?T = "Max (insert (- 1) (fst ` set ls))"
  from assms(3) obtain t0 where t0: "t0 \<in> fst ` set ls" by (cases ls) auto
  have "?T \<in> insert (- 1) (fst ` set ls)" by (rule Max_in) simp_all
  moreover have "t0 \<le> ?T" using t0 by (intro Max_ge) simp_all
  ultimately have "?T \<in> fst ` set ls" using collected_term_nonneg [OF assms(1)] t0 assms(2) by fastforce
  then obtain "is" where T: "(?T, is) \<in> set ls" by force
  then have "is \<noteq> []" unfolding assms(2) by (blast dest: collected_entry)
  with T that show ?thesis by (cases "is") auto
qed

text \<open>C33. A test never sees two leaders of one term. When a round of \<open>checkOneLeader\<close> reads the peers
  one after the other while the cluster runs on, it does not fail; it asks for another round exactly
  when no connected peer claimed to lead, and otherwise returns a connected peer that led the
  highest term of all those that claimed to lead.\<close>

theorem one_leader_check:
  assumes "steady n ss"
  shows "\<exists>r. checkOneLeader_round (readings_of n conn ss) = Inr r \<and>
    (case r of None \<Rightarrow> \<forall>i. \<not> leads_in n conn ss i
     | Some i \<Rightarrow> leads_in n conn ss i \<and>
         (\<forall>j. leads_in n conn ss j \<longrightarrow> currentTerm (nodes (ss j) (int j)) \<le> currentTerm (nodes (ss i) (int i))))"
proof -
  let ?ls = "collect_leaders (readings_of n conn ss)"
  have no: "find (\<lambda>(t, is). length is > 1) ?ls = None"
    unfolding find_None_iff using collected_single [OF assms] by fastforce
  show ?thesis
  proof (cases "?ls = []")
    case True
    have "\<not> leads_in n conn ss i" for i
      using collected_all [of n conn ss i] unfolding True by auto
    with True no show ?thesis by (intro exI [of _ None]) (simp add: checkOneLeader_round_def)
  next
    case False
    from collected_last_term [OF assms refl False] obtain i js where
      T: "(Max (insert (- 1) (fst ` set ?ls)), i # js) \<in> set ?ls" by blast
    with collected_entry have i: "leads_in n conn ss i"
      "currentTerm (nodes (ss i) (int i)) = Max (insert (- 1) (fst ` set ?ls))" by fastforce+
    have "distinct (map fst ?ls)" using collect_leaders_ok [of "readings_of n conn ss"] by (simp add: leaders_ok_def)
    with no False T have "checkOneLeader_round (readings_of n conn ss) = Inr (Some i)"
      unfolding checkOneLeader_round_def last_term Let_def by (simp add: map_of_is_SomeI)
    moreover have "currentTerm (nodes (ss j) (int j)) \<le> currentTerm (nodes (ss i) (int i))" if "leads_in n conn ss j" for j
      using collected_all [OF that] unfolding i(2) by (force intro: Max_ge)
    ultimately show ?thesis using i(1) by auto
  qed
qed

theorem one_leader_check_witness:
  "\<exists>i. checkOneLeader [map (\<lambda>i. (True, nodes three_peers (int i))) [0..<3],
      map (\<lambda>i. (True, nodes (if i = 0 then elected else committed_cluster) (int i))) [0..<3]] = Inr i \<and>
    (i = 0 \<or> myRole (nodes committed_cluster (int i)) = Leader)"
proof -
  let ?ss = "\<lambda>i :: nat. if i = 0 then elected else committed_cluster"
  have "steady 3 ?ss"
    using reachable_elected reachable_committed run_steps [OF committed_run] by (simp add: steady_def)
  then obtain r where r: "checkOneLeader_round (map (\<lambda>i. (True, nodes (?ss i) (int i))) [0..<3]) = Inr r"
    "case r of None \<Rightarrow> \<forall>i. \<not> leads_in 3 (\<lambda>_. True) ?ss i
     | Some i \<Rightarrow> leads_in 3 (\<lambda>_. True) ?ss i \<and> (\<forall>j. leads_in 3 (\<lambda>_. True) ?ss j \<longrightarrow>
         currentTerm (nodes (?ss j) (int j)) \<le> currentTerm (nodes (?ss i) (int i)))"
    using one_leader_check [of 3 ?ss "\<lambda>_. True"] by blast
  have "leads_in 3 (\<lambda>_. True) ?ss 0" using elected_leader(1) by (simp add: leads_in_def)
  with r(2) obtain i where i: "r = Some i" "leads_in 3 (\<lambda>_. True) ?ss i" by (cases r) auto
  have "checkOneLeader_round (map (\<lambda>i. (True, nodes three_peers (int i))) [0..<3]) = Inr None"
    by (simp add: checkOneLeader_round_def collect_leaders_def GetState_def numeral_3_eq_3 run_eval)
  with r(1) i show ?thesis by (auto simp: leads_in_def split: if_splits)
qed

end
