(* ===== verification/Raft_Tester.thy ===== *)
theory Raft_Tester
  imports Raft_Checks
begin

section \<open>Driving a test: wait and one\<close>

text \<open>
  The loops of \<open>lab3/raft/config.go\<close> that drive a test by the wall clock: \<open>wait\<close> polls until enough
  servers have committed an index, \<open>one\<close> submits a command to whoever claims to lead and polls for
  agreement on it, again and again for 25 seconds. They run beside the cluster and the readers of
  \<open>Raft_Checks\<close>: before every access and during every sleep an interlude of the rest of the system
  takes place, which a plan fixes in advance. The theorems hold for all plans. Times are in
  milliseconds.
\<close>

subsection \<open>The rest of the system\<close>

text \<open>What happens during one interlude: how much longer than asked it takes, the events of the cluster
  and the readers, and which peers can be used afterwards: connected, and not nil in \<open>cfg.rafts\<close>.\<close>

record 'c interlude =
  delay :: int
  happens :: "'c harness_event list"
  up_then :: "nat \<Rightarrow> bool"

record 'c test =
  t_harness :: "'c harness"
  t_now :: int
  t_up :: "nat \<Rightarrow> bool"
  t_plan :: "'c interlude list"

text \<open>An event that is not enabled does not happen.\<close>

definition perform :: "'c harness_event \<Rightarrow> 'c harness \<Rightarrow> 'c harness" where
  "perform e h = (case harness_step e h of Some h' \<Rightarrow> h' | None \<Rightarrow> h)"

definition Sleep :: "int \<Rightarrow> 'c test \<Rightarrow> 'c test" where
  "Sleep d s =
     (case t_plan s of
        [] \<Rightarrow> s\<lparr>t_now := t_now s + d\<rparr>
      | p # ps \<Rightarrow> s\<lparr>t_now := t_now s + d + max 0 (delay p), t_harness := fold perform (happens p) (t_harness s),
                   t_up := up_then p, t_plan := ps\<rparr>)"

abbreviation meanwhile :: "'c test \<Rightarrow> 'c test" where
  "meanwhile s \<equiv> Sleep 0 s"

abbreviation committed_now :: "int \<Rightarrow> 'c test \<Rightarrow> check_error + int \<times> 'c option" where
  "committed_now index s \<equiv> nCommitted index (h_cfg (t_harness s))"

definition Start_at :: "nat \<Rightarrow> 'c \<Rightarrow> 'c test \<Rightarrow> (int \<times> int \<times> bool) \<times> 'c test" where
  "Start_at i cmd s =
     (let h = t_harness s; res = fst (Start cmd (nodes (h_cluster h) (int i)))
      in (res, s\<lparr>t_harness := perform (Cluster_Event (Client (int i) cmd)) h\<rparr>))"

datatype test_error = Check check_error | Only_Decided int | No_Agreement | Test_Timeout

subsection \<open>wait\<close>

text \<open>The loop over \<open>cfg.rafts\<close>: whether some peer is in a later term. Nobody is nil: \<open>wait\<close> with a start
  term is called while no peer is crashed.\<close>

fun moved_on :: "int \<Rightarrow> nat list \<Rightarrow> 'c test \<Rightarrow> bool \<times> 'c test" where
  "moved_on startTerm [] s = (False, s)"
| "moved_on startTerm (i # is) s =
     (let s = meanwhile s in
      if fst (GetState (nodes (h_cluster (t_harness s)) (int i))) > startTerm then (True, s)
      else moved_on startTerm is s)"

text \<open>The loop, for the iterations that are left; the result is the error or whether a peer has moved on.\<close>

fun wait_loop :: "nat \<Rightarrow> int \<Rightarrow> int \<Rightarrow> int \<Rightarrow> int \<Rightarrow> 'c test \<Rightarrow> (test_error + bool) \<times> 'c test" where
  "wait_loop 0 to index n startTerm s = (Inr False, s)"
| "wait_loop (Suc iters) to index n startTerm s =
     (let s = meanwhile s in
      case committed_now index s of
        Inl e \<Rightarrow> (Inl (Check e), s)
      | Inr (nd, _) \<Rightarrow>
          if nd \<ge> n then (Inr False, s)
          else
            let s = Sleep to s;
                to = (if to < 1000 then to * 2 else to);
                (later, s) = (if startTerm > - 1 then moved_on startTerm [0..<cfg_n (h_cfg (t_harness s))] s
                              else (False, s))
            in if later then (Inr True, s) else wait_loop iters to index n startTerm s)"

text \<open>\<open>Inr None\<close> is the answer \<open>-1\<close>; the command is nil when no server has committed the index.\<close>

definition wait :: "int \<Rightarrow> int \<Rightarrow> int \<Rightarrow> 'c test \<Rightarrow> (test_error + 'c option option) \<times> 'c test" where
  "wait index n startTerm s =
     (case wait_loop 30 10 index n startTerm s of
        (Inl e, s) \<Rightarrow> (Inl e, s)
      | (Inr True, s) \<Rightarrow> (Inr None, s)
      | (Inr False, s) \<Rightarrow>
          (let s = meanwhile s in
           case committed_now index s of
             Inl e \<Rightarrow> (Inl (Check e), s)
           | Inr (nd, cmd) \<Rightarrow> if nd < n then (Inl (Only_Decided nd), s) else (Inr (Some cmd), s)))"

subsection \<open>one\<close>

text \<open>One pass over the servers, starting behind \<open>starts\<close>; the index is \<open>-1\<close> when nobody accepts.\<close>

fun try_servers :: "nat \<Rightarrow> 'c \<Rightarrow> nat \<Rightarrow> 'c test \<Rightarrow> int \<times> nat \<times> 'c test" where
  "try_servers 0 cmd starts s = (- 1, starts, s)"
| "try_servers (Suc left) cmd starts s =
     (let starts = (starts + 1) mod cfg_n (h_cfg (t_harness s));
          s = meanwhile s in
      if t_up s starts then
        let s = meanwhile s; ((index1, _, ok), s) = Start_at starts cmd s
        in if ok then (index1, starts, s) else try_servers left cmd starts s
      else try_servers left cmd starts s)"

lemma Sleep_now: "t_now s + d \<le> t_now (Sleep d s)"
  by (simp add: Sleep_def split: list.split)

text \<open>Polling for agreement for five seconds; \<open>Inr False\<close>: none was reached.\<close>

function poll_agreement :: "int \<Rightarrow> int \<Rightarrow> 'c \<Rightarrow> int \<Rightarrow> 'c test \<Rightarrow> (test_error + bool) \<times> 'c test" where
  "poll_agreement t1 index cmd expectedServers s =
     (if t_now s - t1 < 5000 then
        let s = meanwhile s in
        case committed_now index s of
          Inl e \<Rightarrow> (Inl (Check e), s)
        | Inr (nd, cmd1) \<Rightarrow>
            if nd > 0 \<and> nd \<ge> expectedServers \<and> cmd1 = Some cmd then (Inr True, s)
            else poll_agreement t1 index cmd expectedServers (Sleep 20 s)
      else (Inr False, s))"
  by pat_completeness auto
termination poll_agreement
proof (relation "measure (\<lambda>(t1, index, cmd, k, s). nat (t1 + 5000 - t_now s))", goal_cases)
  case (2 t1 index cmd k s s' p nd cmd1)
  with Sleep_now [of s 0] Sleep_now [of s' 20] show ?case by simp
qed simp

declare poll_agreement.simps [simp del]

lemma Start_at_now: "t_now (snd (Start_at i cmd s)) = t_now s"
  by (simp add: Start_at_def Let_def)

lemma try_servers_now: "t_now s \<le> t_now (snd (snd (try_servers left cmd starts s)))"
proof (induction left arbitrary: starts s)
  case (Suc left)
  let ?st = "(starts + 1) mod cfg_n (h_cfg (t_harness s))"
  note 1 = Sleep_now [of s 0] and 2 = Sleep_now [of "meanwhile s" 0]
  show ?case
  proof (cases "t_up (meanwhile s) ?st")
    case False
    with 1 Suc.IH [of "meanwhile s" ?st] show ?thesis by (simp add: Let_def)
  next
    case True
    obtain i t ok s2 where s2: "Start_at ?st cmd (meanwhile (meanwhile s)) = ((i, t, ok), s2)"
      by (metis prod.exhaust)
    with Start_at_now [of ?st cmd "meanwhile (meanwhile s)"] have "t_now s2 = t_now (meanwhile (meanwhile s))" by simp
    with True s2 1 2 Suc.IH [of s2 ?st] show ?thesis by (simp add: Let_def)
  qed
qed simp

lemma poll_agreement_now:
  "poll_agreement t1 index cmd k s = (r, s') \<Longrightarrow> t_now s \<le> t_now s' \<and> (r = Inr False \<longrightarrow> t1 + 5000 \<le> t_now s')"
proof (induction t1 index cmd k s arbitrary: r s' rule: poll_agreement.induct)
  case (1 t1 index cmd k s)
  show ?case
  proof (cases "t_now s - t1 < 5000")
    case False
    with "1.prems" show ?thesis by (simp add: poll_agreement.simps [of t1 index cmd k s])
  next
    case True
    show ?thesis
    proof (cases "\<exists>nd cmd1. committed_now index (meanwhile s) = Inr (nd, cmd1) \<and>
        \<not> (nd > 0 \<and> nd \<ge> k \<and> cmd1 = Some cmd)")
      case False
      with "1.prems" True Sleep_now [of s 0] show ?thesis
        by (auto simp: poll_agreement.simps [of t1 index cmd k s] Let_def split: sum.splits prod.splits if_splits)
    next
      case again: True
      then obtain nd cmd1 where c: "committed_now index (meanwhile s) = Inr (nd, cmd1)"
        "\<not> (nd > 0 \<and> nd \<ge> k \<and> cmd1 = Some cmd)" by blast
      with "1.prems" True have "poll_agreement t1 index cmd k (Sleep 20 (meanwhile s)) = (r, s')"
        by (simp add: poll_agreement.simps [of t1 index cmd k s] Let_def)
      from "1.IH" [OF True refl c(1) refl c(2) this] Sleep_now [of s 0] Sleep_now [of "meanwhile s" 20]
      show ?thesis by linarith
    qed
  qed
qed

text \<open>The outer loop; \<open>starts\<close> is kept from one round to the next.\<close>

function one_loop :: "int \<Rightarrow> 'c \<Rightarrow> int \<Rightarrow> bool \<Rightarrow> nat \<Rightarrow> 'c test \<Rightarrow> (test_error + int) \<times> 'c test" where
  "one_loop t0 cmd expectedServers retry starts s =
     (if t_now s - t0 < 25000 then
        case try_servers (cfg_n (h_cfg (t_harness s))) cmd starts s of
          (index, starts, s) \<Rightarrow>
            if index \<noteq> - 1 then
              (case poll_agreement (t_now s) index cmd expectedServers s of
                 (Inl e, s) \<Rightarrow> (Inl e, s)
               | (Inr True, s) \<Rightarrow> (Inr index, s)
               | (Inr False, s) \<Rightarrow>
                   if \<not> retry then (Inl No_Agreement, s)
                   else one_loop t0 cmd expectedServers retry starts s)
            else one_loop t0 cmd expectedServers retry starts (Sleep 50 s)
      else (Inl No_Agreement, s))"
  by pat_completeness auto
termination one_loop
proof (relation "measure (\<lambda>(t0, cmd, k, retry, starts, s). nat (t0 + 25000 - t_now s))", goal_cases)
  case (2 t0 cmd k retry starts s index q starts' s1 r s2 found)
  have "t_now s \<le> t_now s1" using try_servers_now [of s "cfg_n (h_cfg (t_harness s))" cmd starts] 2(2,3) by (metis snd_conv)
  moreover have "t_now s1 + 5000 \<le> t_now s2" using poll_agreement_now [of "t_now s1" index cmd k s1 r s2] 2(5-7) by simp
  ultimately show ?case using 2(1) by simp
next
  case (3 t0 cmd k retry starts s index q starts' s1)
  have "t_now s \<le> t_now s1" using try_servers_now [of s "cfg_n (h_cfg (t_harness s))" cmd starts] 3(2,3) by (metis snd_conv)
  with Sleep_now [of s1 50] 3(1) show ?case by simp
qed simp

declare one_loop.simps [simp del]

definition one :: "'c \<Rightarrow> int \<Rightarrow> bool \<Rightarrow> 'c test \<Rightarrow> (test_error + int) \<times> 'c test" where
  "one cmd expectedServers retry s = one_loop (t_now s) cmd expectedServers retry 0 s"

subsection \<open>begin and end\<close>

text \<open>The statistics of a test, and what \<open>end\<close> prints: time, peers, calls, bytes and agreements. A test
  that runs longer than two minutes fails.\<close>

record test_stats =
  st_t0 :: int
  rpcs0 :: int
  bytes0 :: int
  cmds0 :: int
  maxIndex0 :: int

definition begin_test :: "int \<Rightarrow> 'c config \<Rightarrow> test_stats" where
  "begin_test now cfg = \<lparr>st_t0 = now, rpcs0 = rpcTotal cfg, bytes0 = bytesTotal cfg, cmds0 = 0, maxIndex0 = maxIndex cfg\<rparr>"

definition checkTimeout :: "bool \<Rightarrow> int \<Rightarrow> int \<Rightarrow> test_error option" where
  "checkTimeout failed start now = (if \<not> failed \<and> now - start > 120 * 1000 then Some Test_Timeout else None)"

definition end_test ::
  "bool \<Rightarrow> int \<Rightarrow> int \<Rightarrow> test_stats \<Rightarrow> 'c config \<Rightarrow> test_error + (int \<times> nat \<times> int \<times> int \<times> int) option" where
  "end_test failed start now st cfg =
     (case checkTimeout failed start now of
        Some e \<Rightarrow> Inl e
      | None \<Rightarrow>
          if \<not> failed then
            let t = now - st_t0 st; npeers = cfg_n cfg; nrpc = rpcTotal cfg - rpcs0 st;
                nbytes = bytesTotal cfg - bytes0 st; ncmds = maxIndex cfg - maxIndex0 st
            in Inr (Some (t, npeers, nrpc, nbytes, ncmds))
          else Inr None)"

subsection \<open>The invariant of the test is kept\<close>

definition test_inv :: "nat \<Rightarrow> 'c test \<Rightarrow> bool" where
  "test_inv n s \<longleftrightarrow> harness_inv n (t_harness s)"

lemma perform_inv: "harness_inv n h \<Longrightarrow> harness_inv n (perform e h)"
  by (auto simp: perform_def harness_step_inv split: option.split)

lemma fold_perform_inv: "harness_inv n h \<Longrightarrow> harness_inv n (fold perform es h)"
  by (induction es arbitrary: h) (simp_all add: perform_inv)

lemma Sleep_inv: "test_inv n s \<Longrightarrow> test_inv n (Sleep d s)"
  by (simp add: test_inv_def Sleep_def fold_perform_inv split: list.split)

lemma Start_at_inv: "test_inv n s \<Longrightarrow> Start_at i cmd s = (res, s') \<Longrightarrow> test_inv n s'"
  by (auto simp: test_inv_def Start_at_def Let_def perform_inv)

lemma try_servers_inv: "test_inv n s \<Longrightarrow> try_servers left cmd starts s = (index, starts', s') \<Longrightarrow> test_inv n s'"
proof (induction left arbitrary: starts s)
  case (Suc left)
  let ?st = "(starts + 1) mod cfg_n (h_cfg (t_harness s))"
  have m: "test_inv n (meanwhile s)" "test_inv n (meanwhile (meanwhile s))" using Suc.prems(1) by (simp_all add: Sleep_inv)
  obtain i t ok s2 where s2: "Start_at ?st cmd (meanwhile (meanwhile s)) = ((i, t, ok), s2)" by (metis prod.exhaust)
  have "test_inv n s2" by (rule Start_at_inv [OF m(2) s2])
  with Suc.prems(2) s2 Suc.IH m(1) show ?case
    by (auto simp: Let_def split: if_splits)
qed simp

text \<open>What the polling of a command finds is the records of the servers.\<close>

lemma committed_count:
  assumes "test_inv n s" and "committed_now index s = Inr (nd, cmd)"
  shows "nd = int (card {i. i < n \<and> (logs (h_cfg (t_harness s)) ! i) index \<noteq> None})"
    and "i < n \<Longrightarrow> (logs (h_cfg (t_harness s)) ! i) index = Some v \<Longrightarrow> cmd = Some v"
  using harness_inv_agreed [of n "t_harness s" index] assms by (auto simp: test_inv_def agreed_def)

lemma committed_no_error: "test_inv n s \<Longrightarrow> committed_now index s \<noteq> Inl e"
  using harness_inv_agreed [of n "t_harness s" index] by (auto simp: test_inv_def agreed_def)

definition servers_with :: "nat \<Rightarrow> int \<Rightarrow> 'c \<Rightarrow> 'c test \<Rightarrow> nat set" where
  "servers_with n index cmd s = {i. i < n \<and> (logs (h_cfg (t_harness s)) ! i) index = Some cmd}"

lemma committed_servers:
  assumes "test_inv n s" and "committed_now index s = Inr (nd, Some cmd)"
  shows "nd = int (card (servers_with n index cmd s))"
proof -
  have "{i. i < n \<and> (logs (h_cfg (t_harness s)) ! i) index \<noteq> None} = servers_with n index cmd s"
    using committed_count(2) [OF assms] by (auto simp: servers_with_def)
  with committed_count(1) [OF assms] show ?thesis by simp
qed

subsection \<open>What the loops report\<close>

lemma poll_agreement_sound:
  "poll_agreement t1 index cmd k s = (r, s') \<Longrightarrow> test_inv n s \<Longrightarrow>
   test_inv n s' \<and> (\<exists>b. r = Inr b) \<and>
   (r = Inr True \<longrightarrow> 0 < card (servers_with n index cmd s') \<and> k \<le> int (card (servers_with n index cmd s')))"
proof (induction t1 index cmd k s arbitrary: r s' rule: poll_agreement.induct)
  case (1 t1 index cmd k s)
  have m: "test_inv n (meanwhile s)" using "1.prems"(2) by (rule Sleep_inv)
  show ?case
  proof (cases "t_now s - t1 < 5000")
    case False
    with "1.prems" show ?thesis by (auto simp: poll_agreement.simps [of t1 index cmd k s])
  next
    case True
    obtain nd cmd1 where c: "committed_now index (meanwhile s) = Inr (nd, cmd1)"
      using committed_no_error [OF m] by (cases "committed_now index (meanwhile s)") auto
    show ?thesis
    proof (cases "nd > 0 \<and> nd \<ge> k \<and> cmd1 = Some cmd")
      case reached: True
      with "1.prems"(1) True c have "r = Inr True" "s' = meanwhile s"
        by (simp_all add: poll_agreement.simps [of t1 index cmd k s] Let_def)
      with m c reached committed_servers [of n "meanwhile s" index nd cmd] show ?thesis by auto
    next
      case again: False
      with "1.prems" True c have p: "poll_agreement t1 index cmd k (Sleep 20 (meanwhile s)) = (r, s')"
        by (auto simp: poll_agreement.simps [of t1 index cmd k s] Let_def)
      from "1.IH" [OF True refl c refl again p Sleep_inv [OF m]] show ?thesis .
    qed
  qed
qed

lemma one_loop_sound:
  "one_loop t0 cmd k retry starts s = (r, s') \<Longrightarrow> test_inv n s \<Longrightarrow>
   test_inv n s' \<and>
   (case r of
      Inl e \<Rightarrow> e = No_Agreement
    | Inr index \<Rightarrow> 0 < card (servers_with n index cmd s') \<and> k \<le> int (card (servers_with n index cmd s')))"
proof (induction t0 cmd k retry starts s arbitrary: r s' rule: one_loop.induct)
  case (1 t0 cmd k retry starts s)
  show ?case
  proof (cases "t_now s - t0 < 25000")
    case False
    with "1.prems" show ?thesis by (auto simp: one_loop.simps [of t0 cmd k retry starts s])
  next
    case True
    obtain index starts' s1 where t: "try_servers (cfg_n (h_cfg (t_harness s))) cmd starts s = (index, starts', s1)"
      by (metis prod.exhaust)
    have s1: "test_inv n s1" by (rule try_servers_inv [OF "1.prems"(2) t])
    show ?thesis
    proof (cases "index = - 1")
      case none: True
      with "1.prems"(1) True t have o: "one_loop t0 cmd k retry starts' (Sleep 50 s1) = (r, s')"
        by (simp add: one_loop.simps [of t0 cmd k retry starts s])
      show ?thesis by (rule "1.IH"(2) [OF True t [symmetric] refl _ o Sleep_inv [OF s1]]) (simp add: none)
    next
      case accepted: False
      obtain q s2 where q: "poll_agreement (t_now s1) index cmd k s1 = (q, s2)" by (metis prod.exhaust)
      from poll_agreement_sound [OF q s1] obtain b where b: "q = Inr b" "test_inv n s2"
        "b \<longrightarrow> 0 < card (servers_with n index cmd s2) \<and> k \<le> int (card (servers_with n index cmd s2))" by blast
      show ?thesis
      proof (cases "b \<or> \<not> retry")
        case ended: True
        with "1.prems"(1) True t accepted q b have "r = (if b then Inr index else Inl No_Agreement) \<and> s' = s2"
          by (cases b) (auto simp: one_loop.simps [of t0 cmd k retry starts s])
        with b(2,3) show ?thesis by simp
      next
        case retried: False
        with "1.prems"(1) True t accepted q b have o: "one_loop t0 cmd k retry starts' s2 = (r, s')"
          by (simp add: one_loop.simps [of t0 cmd k retry starts s])
        show ?thesis
          by (rule "1.IH"(1) [OF True t [symmetric] refl accepted q [symmetric] b(1) _ _ o b(2)]) (use retried in auto)
      qed
    qed
  qed
qed

lemma moved_on_inv: "moved_on startTerm is s = (b, s') \<Longrightarrow> test_inv n s \<Longrightarrow> test_inv n s'"
  by (induction startTerm "is" s rule: moved_on.induct) (auto simp: Let_def Sleep_inv split: if_splits)

lemma wait_loop_sound:
  "wait_loop iters to index k startTerm s = (r, s') \<Longrightarrow> test_inv n s \<Longrightarrow> test_inv n s' \<and> (\<exists>b. r = Inr b)"
proof (induction iters arbitrary: to s)
  case (Suc iters)
  have m: "test_inv n (meanwhile s)" using Suc.prems(2) by (rule Sleep_inv)
  obtain nd cmd where c: "committed_now index (meanwhile s) = Inr (nd, cmd)"
    using committed_no_error [OF m] by (cases "committed_now index (meanwhile s)") auto
  let ?s = "Sleep to (meanwhile s)"
  obtain later s2 where l: "(if startTerm > - 1 then moved_on startTerm [0..<cfg_n (h_cfg (t_harness ?s))] ?s
      else (False, ?s)) = (later, s2)" by fastforce
  have "test_inv n s2" using l Sleep_inv [OF m] by (auto split: if_splits intro: moved_on_inv)
  with Suc.prems(1) c l m Suc.IH [of _ s2] show ?case
    by (auto simp: Let_def split: if_splits)
qed auto

text \<open>\<open>wait\<close> fails only when too few servers have committed the index; the command it returns otherwise
  is the one that at least \<open>n\<close> servers have recorded.\<close>

lemma wait_sound:
  assumes "wait index k startTerm s = (r, s')" and "test_inv n s"
  shows "case r of
      Inl e \<Rightarrow> \<exists>nd. e = Only_Decided nd \<and> nd < k
    | Inr None \<Rightarrow> True
    | Inr (Some cmd) \<Rightarrow> (case cmd of Some c \<Rightarrow> k \<le> int (card (servers_with n index c s')) | None \<Rightarrow> k \<le> 0)"
proof -
  obtain q s1 where q: "wait_loop 30 10 index k startTerm s = (q, s1)" by fastforce
  from wait_loop_sound [OF q assms(2)] obtain b where b: "q = Inr b" "test_inv n s1" by blast
  show ?thesis
  proof (cases b)
    case True
    with assms(1) q b show ?thesis by (auto simp: wait_def)
  next
    case False
    have m: "test_inv n (meanwhile s1)" using b(2) by (rule Sleep_inv)
    obtain nd cmd where c: "committed_now index (meanwhile s1) = Inr (nd, cmd)"
      using committed_no_error [OF m] by (cases "committed_now index (meanwhile s1)") auto
    have "r = (if nd < k then Inl (Only_Decided nd) else Inr (Some cmd)) \<and> s' = meanwhile s1"
      using assms(1) q b c False by (auto simp: wait_def Let_def split: if_splits)
    then have r: "r = (if nd < k then Inl (Only_Decided nd) else Inr (Some cmd))" "s' = meanwhile s1" by blast+
    show ?thesis
    proof (cases cmd)
      case None
      then have "{i. i < n \<and> (logs (h_cfg (t_harness (meanwhile s1))) ! i) index \<noteq> None} = {}"
        using committed_count(2) [OF m c] by blast
      with committed_count(1) [OF m c] have "nd = 0" by (simp only: card.empty of_nat_0)
      with r None show ?thesis by simp
    next
      case (Some v)
      with committed_servers [OF m] c r show ?thesis by simp
    qed
  qed
qed

text \<open>C34. Agreement as a test sees it. Called at any point of a test on a cluster of \<open>n\<close> peers, whatever
  happens while it runs, \<open>one\<close> returns: an index at which at least the expected number of servers,
  and at least one, have applied exactly the command that it submitted; or the report that no
  agreement was reached, which is the only error: the records never differ.\<close>

theorem one_reaches_agreement:
  assumes "harness_run es (harness_init n r0) = Some (t_harness s)"
  shows "\<exists>r s'. one cmd expectedServers retry s = (r, s') \<and>
    (case r of
       Inl e \<Rightarrow> e = No_Agreement
     | Inr index \<Rightarrow> 0 < card (servers_with n index cmd s') \<and>
         expectedServers \<le> int (card (servers_with n index cmd s')))"
proof -
  have "test_inv n s" using harness_run_inv [OF assms harness_init_inv] by (simp add: test_inv_def)
  moreover obtain r s' where r: "one_loop (t_now s) cmd expectedServers retry 0 s = (r, s')" by fastforce
  ultimately have "case r of Inl e \<Rightarrow> e = No_Agreement
    | Inr index \<Rightarrow> 0 < card (servers_with n index cmd s') \<and> expectedServers \<le> int (card (servers_with n index cmd s'))"
    using one_loop_sound [OF r] by blast
  with r show ?thesis by (auto simp: one_def)
qed

text \<open>A test in which peer 0 leads; the servers are tried in the order 1, 2, 0, and while the test looks for
  agreement the command is replicated, committed and read from the channel.\<close>

definition idle :: "nat interlude" where
  "idle = \<lparr>delay = 3, happens = [], up_then = (\<lambda>_. True)\<rparr>"

definition busy :: "nat interlude" where
  "busy = \<lparr>delay = 20, happens = map Cluster_Event (tl replication_run) @ [Read_Message 0], up_then = (\<lambda>_. True)\<rparr>"

definition led_harness :: "nat harness" where
  "led_harness = (harness_init 3 (\<lambda>i. 10 * i))\<lparr>h_cluster := elected\<rparr>"

definition led_test :: "nat test" where
  "led_test = \<lparr>t_harness = led_harness, t_now = 0, t_up = (\<lambda>_. True), t_plan = replicate 6 idle @ [busy]\<rparr>"

lemma led_harness_run: "harness_run (map Cluster_Event election_run) (harness_init 3 (\<lambda>i. 10 * i)) = Some led_harness"
proof -
  have "Raft_Cluster.run election_run (h_cluster (harness_init 3 (\<lambda>i. 10 * i))) = Some elected"
    using elected_run by (simp add: harness_init_def three_peers_def)
  from harness_cluster_run [OF this, of "[]"] show ?thesis
    by (simp add: harness_init_def led_harness_def election_run_def)
qed

lemma fold_perform_cluster:
  assumes "Raft_Cluster.run es (h_cluster h) = Some s" and "\<forall>e \<in> set es. \<forall>i now r. e \<noteq> Restart i now r"
  shows "fold perform (map Cluster_Event es) h = h\<lparr>h_cluster := s\<rparr>"
  using assms
proof (induction es arbitrary: h)
  case (Cons e es)
  have "leave_channel e h = h" using Cons.prems(2) by (cases e) auto
  with Cons show ?case by (auto simp: perform_def split: option.splits)
qed simp

lemma led_state:
  "myRole (nodes elected 1) \<noteq> Leader" "myRole (nodes elected 2) \<noteq> Leader" "myRole (nodes elected 0) = Leader"
  "csize elected = 3" "log (nodes elected 0) = []"
  by (simp_all add: elected_eval)

lemma try_servers_step:
  assumes "t_plan s = idle # idle # ps" and "st = (starts + 1) mod cfg_n (h_cfg (t_harness s))"
  shows "try_servers (Suc left) cmd starts s =
    (case Start_at st cmd (s\<lparr>t_now := t_now s + 6, t_up := (\<lambda>_. True), t_plan := ps\<rparr>) of
       ((index, t, accepted), s') \<Rightarrow> if accepted then (index, st, s') else try_servers left cmd st s')"
  using assms by (simp add: Sleep_def idle_def Let_def add.commute [of _ 6] split: prod.split)

theorem one_reaches_agreement_witness:
  "\<exists>s'. one 42 1 True led_test = (Inr 1, s') \<and> 0 < card (servers_with 3 1 42 s')"
proof -
  obtain cl where cl: "Raft_Cluster.exec (Client 0 42) elected = Some cl" "Raft_Cluster.run (tl replication_run) cl = Some committed_cluster"
    using committed_run by (auto simp: replication_run_def split: option.splits)
  have start: "perform (Cluster_Event (Client 0 42)) led_harness = led_harness\<lparr>h_cluster := cl\<rparr>"
    using cl(1) by (simp add: perform_def led_harness_def)
  have idle_start: "perform (Cluster_Event (Client i 42)) led_harness = led_harness" if "i \<in> {1, 2}" for i
    using that led_state by (auto simp: perform_def led_harness_def Start_def set_node_def)
  let ?done = "led_harness\<lparr>h_cluster := committed_cluster\<rparr>"
  have replicated: "fold perform (happens busy) (led_harness\<lparr>h_cluster := cl\<rparr>) = perform (Read_Message 0) ?done"
    using fold_perform_cluster [of "tl replication_run" "led_harness\<lparr>h_cluster := cl\<rparr>" committed_cluster] cl(2)
    by (simp add: busy_def replication_run_def)
  have read: "h_cfg (perform (Read_Message 0) ?done) = (blank_config 3 False)\<lparr>logs := [[1 \<mapsto> 42], Map.empty, Map.empty], maxIndex := 1\<rparr>"
    by (simp add: perform_def led_harness_def harness_init_def blank_config_def committed_state feed_def applier_body_def
        checkLogs_def find_mismatch_def Let_def numeral_3_eq_3 upt_rec)
  have committed: "nCommitted 1 (h_cfg (perform (Read_Message 0) ?done)) = Inr (1, Some 42)"
    unfolding read by (simp add: nCommitted_def nCommitted_body_def blank_config_def numeral_3_eq_3 upt_rec)
  have led: "cfg_n (h_cfg led_harness) = 3" "h_cluster led_harness = elected"
    by (simp_all add: led_harness_def harness_init_def blank_config_def)
  let ?s = "\<lambda>h now ps. \<lparr>t_harness = h, t_now = now, t_up = (\<lambda>_. True), t_plan = ps\<rparr>"
  let ?s1 = "?s (led_harness\<lparr>h_cluster := cl\<rparr>) 18 [busy]"
  have 1: "Start_at 1 42 (?s led_harness now ps) = ((- 1, - 1, False), ?s led_harness now ps)" for now ps
    using led_state(1) idle_start [of 1] by (simp add: Start_at_def Start_def led)
  have 2: "Start_at 2 42 (?s led_harness now ps) = ((- 1, - 1, False), ?s led_harness now ps)" for now ps
    using led_state(2) idle_start [of 2] by (simp add: Start_at_def Start_def led)
  have 0: "Start_at 0 42 (?s led_harness now ps) =
      ((1, currentTerm (nodes elected 0), True), ?s (led_harness\<lparr>h_cluster := cl\<rparr>) now ps)" for now ps
    using led_state(3,5) by (simp add: Start_at_def Start_def led start Let_def)
  have plans: "replicate 6 idle @ [busy] = idle # idle # replicate 4 idle @ [busy]"
    "replicate 4 idle @ [busy] = idle # idle # replicate 2 idle @ [busy]"
    "replicate 2 idle @ [busy] = idle # idle # [busy]"
    by (simp_all add: eval_nat_numeral)
  have "try_servers (Suc 2) 42 0 led_test = try_servers 2 42 1 (?s led_harness 6 (replicate 4 idle @ [busy]))"
    by (subst try_servers_step [of _ "replicate 4 idle @ [busy]" 1]) (simp_all add: led_test_def led plans(1) 1 [unfolded One_nat_def] del: replicate.simps)
  also have "\<dots> = try_servers (Suc 1) 42 1 (?s led_harness 6 (replicate 4 idle @ [busy]))"
    by (simp only: Suc_1)
  also have "\<dots> = try_servers 1 42 2 (?s led_harness 12 (replicate 2 idle @ [busy]))"
    by (subst try_servers_step [of _ "replicate 2 idle @ [busy]" 2]) (simp_all only: plans(2) test.simps led 2, simp_all)
  also have "\<dots> = try_servers (Suc 0) 42 2 (?s led_harness 12 (replicate 2 idle @ [busy]))"
    by (simp only: One_nat_def)
  also have "\<dots> = (1, 0, ?s1)"
    by (subst try_servers_step [of _ "[busy]" 0]) (simp_all only: plans(3) test.simps led 0, simp_all)
  finally have tried: "try_servers 3 42 0 led_test = (1, 0, ?s1)" by simp
  have "\<exists>s'. poll_agreement 18 1 42 1 ?s1 = (Inr True, s')"
    by (subst poll_agreement.simps) (simp add: Sleep_def replicated committed Let_def)
  then obtain s' where "poll_agreement 18 1 42 1 ?s1 = (Inr True, s')" by blast
  then have s': "one 42 1 True led_test = (Inr 1, s')"
    unfolding one_def by (subst one_loop.simps) (simp add: led_test_def led tried [unfolded led_test_def])
  have "harness_run (map Cluster_Event election_run) (harness_init 3 (\<lambda>i. 10 * i)) = Some (t_harness led_test)"
    using led_harness_run by (simp add: led_test_def)
  from one_reaches_agreement [OF this, of 42 1 True] s' show ?thesis by auto
qed

end
