(* ===== verification/Labgob.thy ===== *)
theory Labgob
  imports Go_Prelude "HOL-Library.Multiset"
begin

section \<open>The checks around the encoder\<close>

text \<open>
  \<open>lab3/labgob/labgob.go\<close> wraps \<open>encoding/gob\<close> and warns, through two traversals, about what the
  encoder would silently drop: fields that are not exported, and variables that are not zero when a
  value is decoded into them. Types may refer to themselves, so the traversal of types remembers in
  the package variable \<open>checked\<close> what it has seen.
  A program's types are a finite association list from names to descriptions; whether the first
  rune of a field's name is an upper-case letter is an argument, because the tables of Unicode are
  not part of the repository. The encoder's own work is in the codec of \<open>Labrpc\<close>.
\<close>

subsection \<open>Types\<close>

text \<open>Slices, arrays and pointers are \<open>Holder\<close>s of their element type; all other kinds have no
  parts.\<close>

datatype description =
    Struct "(string \<times> string) list"
  | Holder string
  | Map_Of string string
  | Plain

type_synonym types = "(string \<times> description) list"

definition describe :: "types \<Rightarrow> string \<Rightarrow> description" where
  "describe U t = (case map_of U t of Some d \<Rightarrow> d | None \<Rightarrow> Plain)"

text \<open>The package's variables; a printed message names the field and its struct.\<close>

record gob_state =
  checked :: "string list"
  errorCount :: int
  printed :: "(string \<times> string) list"

definition gob_init :: gob_state where
  "gob_init = \<lparr>checked = [], errorCount = 0, printed = []\<rparr>"

text \<open>One turn of the loop over the fields of struct \<open>t\<close>, up to the recursive call.\<close>

definition check_field :: "(string \<Rightarrow> bool) \<Rightarrow> (string \<times> string) option \<Rightarrow> gob_state \<Rightarrow> gob_state" where
  "check_field upper field st =
     (case field of
        None \<Rightarrow> st
      | Some (f, t) \<Rightarrow>
          if \<not> upper f then st\<lparr>printed := printed st @ [(f, t)], errorCount := errorCount st + 1\<rparr> else st)"

text \<open>The recursive calls that \<open>checkType\<close> makes for a type, in order, with the field that each is for.\<close>

definition parts :: "types \<Rightarrow> string \<Rightarrow> ((string \<times> string) option \<times> string) list" where
  "parts U t =
     (case describe U t of
        Struct fs \<Rightarrow> map (\<lambda>(f, ft). (Some (f, t), ft)) fs
      | Holder e \<Rightarrow> [(None, e)]
      | Map_Of k e \<Rightarrow> [(None, e), (None, k)]
      | Plain \<Rightarrow> [])"

text \<open>The calls of \<open>checkType\<close> for a list of parts, one after the other.\<close>

function check_parts ::
  "(string \<Rightarrow> bool) \<Rightarrow> types \<Rightarrow> ((string \<times> string) option \<times> string) list \<Rightarrow> gob_state \<Rightarrow> gob_state" where
  "check_parts upper U [] st = st"
| "check_parts upper U ((field, t) # ps) st =
     (let st = check_field upper field st in
      if t \<in> set (checked st) then check_parts upper U ps st
      else check_parts upper U ps (check_parts upper U (parts U t) (st\<lparr>checked := t # checked st\<rparr>)))"
  by pat_completeness auto

lemma checked_check_field [simp]: "checked (check_field upper field st) = checked st"
  by (simp add: check_field_def split: option.split)

lemma parts_outside: "t \<notin> fst ` set U \<Longrightarrow> parts U t = []"
  by (simp add: parts_def describe_def map_of_eq_None_iff [symmetric])

lemma check_parts_grows:
  "check_parts_dom (upper, U, ps, st) \<Longrightarrow> set (checked st) \<subseteq> set (checked (check_parts upper U ps st))"
  by (induction upper U ps st rule: check_parts.pinduct) (auto simp: check_parts.psimps Let_def split: if_splits)

text \<open>Every recursive call checks one more type of the program, or one part less.\<close>

termination check_parts
proof (relation "inv_image (finite_psubset <*lex*> less_than)
    (\<lambda>(upper, U, ps, st). (fst ` set U - set (checked st), length ps))", goal_cases)
  case 1
  then show ?case by auto
next
  case (2 upper U field t ps st)
  then show ?case by simp
next
  case (3 upper U field t ps st st')
  then show ?case
    by (cases "t \<in> fst ` set U") (auto simp: finite_psubset_def parts_outside)
next
  case (4 upper U field t ps st st')
  from check_parts_grows [OF this(3)] 4(1,2) show ?case
    by (auto simp: finite_psubset_def)
qed

definition checkType :: "(string \<Rightarrow> bool) \<Rightarrow> types \<Rightarrow> string \<Rightarrow> gob_state \<Rightarrow> gob_state" where
  "checkType upper U t st =
     (if t \<in> set (checked st) then st
      else check_parts upper U (parts U t) (st\<lparr>checked := t # checked st\<rparr>))"

subsection \<open>Values that are not zero\<close>

text \<open>What the traversal sees of a value: structs with their fields, nil and other pointers, basic
  values that are or are not the zero of their type, named after it, and the kinds it ignores.\<close>

datatype gob_value =
    Struct_Value "(string \<times> gob_value) list"
  | Nil_Pointer
  | Pointer gob_value
  | Basic string bool
  | Ignored

text \<open>Only the first warning of the whole package is printed: the count is shared with the errors of
  \<open>checkType\<close>.\<close>

definition warn_default :: "string \<Rightarrow> string \<Rightarrow> gob_state \<Rightarrow> gob_state" where
  "warn_default what tname st =
     (let st = (if errorCount st < 1
                then st\<lparr>printed := printed st @ [(if what = [] then tname else what, [])]\<rparr> else st)
      in st\<lparr>errorCount := errorCount st + 1\<rparr>)"

text \<open>The result is \<open>None\<close> when the code panics: \<open>Interface\<close> refuses a value that was reached through
  a field that is not exported, which the argument \<open>ro\<close> records as \<open>reflect\<close> does in the value. No
  field is embedded.\<close>

fun checkDefault1 :: "(string \<Rightarrow> bool) \<Rightarrow> bool \<Rightarrow> gob_value \<Rightarrow> int \<Rightarrow> string \<Rightarrow> gob_state \<Rightarrow> gob_state option" where
  "checkDefault1 upper ro (Struct_Value fs) depth fname st =
     (if depth > 3 then Some st
      else fold (\<lambda>(f, v) out. case out of None \<Rightarrow> None
        | Some st \<Rightarrow> checkDefault1 upper (ro \<or> \<not> upper f) v (depth + 1) (if fname \<noteq> [] then fname @ ''.'' @ f else f) st)
        fs (Some st))"
| "checkDefault1 upper ro Nil_Pointer depth fname st = Some st"
| "checkDefault1 upper ro (Pointer v) depth fname st =
     (if depth > 3 then Some st else checkDefault1 upper ro v (depth + 1) fname st)"
| "checkDefault1 upper ro (Basic tname is_zero) depth fname st =
     (if depth > 3 then Some st else if ro then None
      else if is_zero then Some st else Some (warn_default fname tname st))"
| "checkDefault1 upper ro Ignored depth fname st = Some st"

text \<open>\<open>None\<close> is the nil interface.\<close>

definition checkDefault :: "(string \<Rightarrow> bool) \<Rightarrow> gob_value option \<Rightarrow> gob_state \<Rightarrow> gob_state option" where
  "checkDefault upper val st = (case val of None \<Rightarrow> Some st | Some v \<Rightarrow> checkDefault1 upper False v 1 [] st)"

text \<open>\<open>checkValue\<close>, for a value of some type or nil: the type of nil is nil, and its \<open>Kind\<close> panics.\<close>

definition checkValue :: "(string \<Rightarrow> bool) \<Rightarrow> types \<Rightarrow> (string \<times> gob_value) option \<Rightarrow> gob_state \<Rightarrow> gob_state option" where
  "checkValue upper U val st = (case val of None \<Rightarrow> None | Some (t, v) \<Rightarrow> Some (checkType upper U t st))"

text \<open>The checks of \<open>Decode\<close>.\<close>

definition Decode_checks :: "(string \<Rightarrow> bool) \<Rightarrow> types \<Rightarrow> (string \<times> gob_value) option \<Rightarrow> gob_state \<Rightarrow> gob_state option" where
  "Decode_checks upper U val st =
     (case checkValue upper U val st of
        None \<Rightarrow> None
      | Some st \<Rightarrow> checkDefault upper (map_option snd val) st)"

subsection \<open>What the traversal of types reports\<close>

text \<open>The types that a type is made of, and the fields among parts that are not exported.\<close>

definition part_rel :: "types \<Rightarrow> (string \<times> string) set" where
  "part_rel U = {(t, u). u \<in> snd ` set (parts U t)}"

definition made_of :: "types \<Rightarrow> string set \<Rightarrow> string set" where
  "made_of U ts = (part_rel U)\<^sup>* `` ts"

fun hidden :: "(string \<Rightarrow> bool) \<Rightarrow> ((string \<times> string) option \<times> string) list \<Rightarrow> (string \<times> string) list" where
  "hidden upper [] = []"
| "hidden upper ((None, _) # ps) = hidden upper ps"
| "hidden upper ((Some (f, t), _) # ps) = (if upper f then [] else [(f, t)]) @ hidden upper ps"

text \<open>What a list of calls adds: new types whose parts are all checked, and the messages for the
  parts themselves and for the fields of each new type, once.\<close>

definition adds ::
  "(string \<Rightarrow> bool) \<Rightarrow> types \<Rightarrow> ((string \<times> string) option \<times> string) list \<Rightarrow> gob_state \<Rightarrow> gob_state \<Rightarrow> bool" where
  "adds upper U ps st st' \<longleftrightarrow>
     (\<exists>new. distinct new \<and> set new \<inter> set (checked st) = {} \<and> set (checked st') = set new \<union> set (checked st) \<and>
        snd ` set ps \<subseteq> set (checked st') \<and> set new \<subseteq> made_of U (snd ` set ps) \<and>
        (\<forall>u \<in> set new. snd ` set (parts U u) \<subseteq> set (checked st')) \<and>
        mset (printed st') = mset (printed st) + mset (hidden upper ps) +
          (\<Sum>u \<leftarrow> new. mset (hidden upper (parts U u))) \<and>
        errorCount st' - int (length (printed st')) = errorCount st - int (length (printed st)))"

lemma made_of_self: "ts \<subseteq> made_of U ts"
  by (auto simp: made_of_def)

lemma made_of_mono: "ts \<subseteq> us \<Longrightarrow> made_of U ts \<subseteq> made_of U us"
  by (auto simp: made_of_def)

lemma made_of_parts: "t \<in> ts \<Longrightarrow> made_of U (snd ` set (parts U t)) \<subseteq> made_of U ts"
proof
  fix u assume t: "t \<in> ts" and "u \<in> made_of U (snd ` set (parts U t))"
  then obtain v where "(t, v) \<in> part_rel U" "(v, u) \<in> (part_rel U)\<^sup>*" by (auto simp: made_of_def part_rel_def)
  with t show "u \<in> made_of U ts" by (auto simp: made_of_def intro: converse_rtrancl_into_rtrancl)
qed

lemma hidden_Cons: "hidden upper (p # ps) = hidden upper [p] @ hidden upper ps"
  by (cases p; cases "fst p") auto

lemma check_field_printed:
  "printed (check_field upper field st) = printed st @ hidden upper [(field, t)]"
  "errorCount (check_field upper field st) = errorCount st + int (length (hidden upper [(field, t)]))"
  by (auto simp: check_field_def split: option.split)

lemma check_parts_adds: "adds upper U ps st (check_parts upper U ps st)"
proof (induction upper U ps st rule: check_parts.induct)
  case (1 upper U st)
  show ?case unfolding adds_def by (intro exI [of _ "[]"]) simp
next
  case (2 upper U field t ps st)
  let ?st = "check_field upper field st"
  let ?mark = "?st\<lparr>checked := t # checked ?st\<rparr>"
  let ?in = "check_parts upper U (parts U t) ?mark"
  show ?case
  proof (cases "t \<in> set (checked ?st)")
    case True
    from 2(1) [OF refl True] obtain new where "distinct new" "set new \<inter> set (checked st) = {}"
      "set (checked (check_parts upper U ps ?st)) = set new \<union> set (checked st)"
      "snd ` set ps \<subseteq> set (checked (check_parts upper U ps ?st))" "set new \<subseteq> made_of U (snd ` set ps)"
      "\<forall>u \<in> set new. snd ` set (parts U u) \<subseteq> set (checked (check_parts upper U ps ?st))"
      "mset (printed (check_parts upper U ps ?st)) = mset (printed ?st) + mset (hidden upper ps) +
          (\<Sum>u \<leftarrow> new. mset (hidden upper (parts U u)))"
      "errorCount (check_parts upper U ps ?st) - int (length (printed (check_parts upper U ps ?st))) =
         errorCount ?st - int (length (printed ?st))"
      unfolding adds_def by auto
    moreover have "made_of U (snd ` set ps) \<subseteq> made_of U (snd ` set ((field, t) # ps))" by (rule made_of_mono) auto
    ultimately show ?thesis
      unfolding adds_def using True
      by (intro exI [of _ new]) (auto simp: Let_def check_field_printed [of _ _ _ t] hidden_Cons [of _ "(field, t)" ps])
  next
    case False
    from 2(2) [OF refl False] obtain new1 where n1: "distinct new1" "set new1 \<inter> set (checked ?mark) = {}"
      "set (checked ?in) = set new1 \<union> set (checked ?mark)"
      "snd ` set (parts U t) \<subseteq> set (checked ?in)" "set new1 \<subseteq> made_of U (snd ` set (parts U t))"
      "\<forall>u \<in> set new1. snd ` set (parts U u) \<subseteq> set (checked ?in)"
      "mset (printed ?in) = mset (printed ?mark) + mset (hidden upper (parts U t)) +
          (\<Sum>u \<leftarrow> new1. mset (hidden upper (parts U u)))"
      "errorCount ?in - int (length (printed ?in)) = errorCount ?mark - int (length (printed ?mark))"
      unfolding adds_def by auto
    let ?out = "check_parts upper U ps ?in"
    from 2(3) [OF refl False] obtain new2 where n2: "distinct new2" "set new2 \<inter> set (checked ?in) = {}"
      "set (checked ?out) = set new2 \<union> set (checked ?in)"
      "snd ` set ps \<subseteq> set (checked ?out)" "set new2 \<subseteq> made_of U (snd ` set ps)"
      "\<forall>u \<in> set new2. snd ` set (parts U u) \<subseteq> set (checked ?out)"
      "mset (printed ?out) = mset (printed ?in) + mset (hidden upper ps) +
          (\<Sum>u \<leftarrow> new2. mset (hidden upper (parts U u)))"
      "errorCount ?out - int (length (printed ?out)) = errorCount ?in - int (length (printed ?in))"
      unfolding adds_def by auto
    have out: "check_parts upper U ((field, t) # ps) st = ?out" using False by (simp add: Let_def)
    have sub: "set (checked ?in) \<subseteq> set (checked ?out)" using n2(3) by blast
    have reach: "made_of U (snd ` set ps) \<subseteq> made_of U (snd ` set ((field, t) # ps))"
      "made_of U (snd ` set (parts U t)) \<subseteq> made_of U (snd ` set ((field, t) # ps))"
      "t \<in> made_of U (snd ` set ((field, t) # ps))"
      by (rule made_of_mono, force) (rule made_of_parts, simp, rule made_of_self [THEN subsetD], simp)
    show ?thesis
      unfolding adds_def out
    proof (intro exI [of _ "t # new1 @ new2"] conjI)
      show "distinct (t # new1 @ new2)" using n1(1-3) n2(1,2) by auto
      show "set (t # new1 @ new2) \<inter> set (checked st) = {}" using n1(2,3) n2(2) False by auto
      show "set (checked ?out) = set (t # new1 @ new2) \<union> set (checked st)" using n1(3) n2(3) by auto
      show "snd ` set ((field, t) # ps) \<subseteq> set (checked ?out)" using n1(3) n2(3,4) by auto
      show "set (t # new1 @ new2) \<subseteq> made_of U (snd ` set ((field, t) # ps))" using n1(5) n2(5) reach by auto
      show "\<forall>u \<in> set (t # new1 @ new2). snd ` set (parts U u) \<subseteq> set (checked ?out)"
        using n1(4,6) n2(6) sub by (simp only: list.set set_append) blast
      show "mset (printed ?out) = mset (printed st) + mset (hidden upper ((field, t) # ps)) +
          (\<Sum>u \<leftarrow> t # new1 @ new2. mset (hidden upper (parts U u)))"
        using n1(7) n2(7) by (simp add: check_field_printed [of _ _ _ t] hidden_Cons [of _ "(field, t)" ps] ac_simps)
      show "errorCount ?out - int (length (printed ?out)) = errorCount st - int (length (printed st))"
        using n1(8) n2(8) by (simp add: check_field_printed [of _ _ _ t])
    qed
  qed
qed

subsection \<open>All hidden fields, each once\<close>

text \<open>The types that a description mentions, all types that given types contain at any depth, and the
  lower-case fields of a struct.\<close>

fun mentioned :: "description \<Rightarrow> string set" where
  "mentioned (Struct fs) = snd ` set fs"
| "mentioned (Holder e) = {e}"
| "mentioned (Map_Of k e) = {k, e}"
| "mentioned Plain = {}"

definition contained :: "types \<Rightarrow> string set \<Rightarrow> string set" where
  "contained U ts = {(t, u). u \<in> mentioned (describe U t)}\<^sup>* `` ts"

fun hidden_fields :: "(string \<Rightarrow> bool) \<Rightarrow> string \<Rightarrow> description \<Rightarrow> (string \<times> string) list" where
  "hidden_fields upper t (Struct fs) = [(f, t). (f, _) \<leftarrow> fs, \<not> upper f]"
| "hidden_fields upper t _ = []"

lemma made_of_contained: "made_of U ts = contained U ts"
proof -
  have "snd ` set (parts U t) = mentioned (describe U t)" for t
    by (cases "describe U t") (force simp: parts_def)+
  then show ?thesis by (simp add: made_of_def contained_def part_rel_def)
qed

lemma hidden_parts: "hidden upper (parts U t) = hidden_fields upper t (describe U t)"
proof -
  have "hidden upper (map (\<lambda>(f, ft). (Some (f, t), ft)) fs) = [(f, t). (f, _) \<leftarrow> fs, \<not> upper f]" for fs
    by (induction fs) auto
  then show ?thesis by (simp add: parts_def split: description.split)
qed

lemma checkType_check_parts: "checkType upper U t st = check_parts upper U [(None, t)] st"
  by (simp add: checkType_def check_field_def Let_def)

text \<open>The types checked so far are those contained in the given ones; the printed messages are, as a
  multiset, their lower-case fields; and each was counted.\<close>

definition reported :: "(string \<Rightarrow> bool) \<Rightarrow> types \<Rightarrow> string set \<Rightarrow> gob_state \<Rightarrow> bool" where
  "reported upper U ts st \<longleftrightarrow>
     set (checked st) = contained U ts \<and>
     mset (printed st) = (\<Sum>u \<in> contained U ts. mset (hidden_fields upper u (describe U u))) \<and>
     errorCount st = int (length (printed st))"

lemma made_of_closed: "u \<in> made_of U ts \<Longrightarrow> snd ` set (parts U u) \<subseteq> made_of U ts"
  by (auto simp: made_of_def part_rel_def intro: rtrancl_into_rtrancl)

lemma made_of_least:
  assumes "ts \<subseteq> C" and "\<forall>u \<in> C. snd ` set (parts U u) \<subseteq> C"
  shows "made_of U ts \<subseteq> C"
proof
  fix u assume "u \<in> made_of U ts"
  then obtain t where "t \<in> ts" "(t, u) \<in> (part_rel U)\<^sup>*" by (auto simp: made_of_def)
  from this(2,1) show "u \<in> C"
    by (induction rule: rtrancl_induct) (use assms in \<open>auto simp: part_rel_def\<close>)
qed

lemma made_of_insert: "made_of U (insert t ts) = made_of U {t} \<union> made_of U ts"
  by (auto simp: made_of_def)

lemma checkType_reported:
  assumes "reported upper U ts st"
  shows "reported upper U (insert t ts) (checkType upper U t st)"
proof -
  let ?st = "checkType upper U t st"
  have "adds upper U [(None, t)] st ?st" unfolding checkType_check_parts by (rule check_parts_adds)
  then obtain new where new: "distinct new" "set new \<inter> set (checked st) = {}"
    "set (checked ?st) = set new \<union> set (checked st)" "snd ` set [(None :: (string \<times> string) option, t)] \<subseteq> set (checked ?st)"
    "set new \<subseteq> made_of U (snd ` set [(None :: (string \<times> string) option, t)])"
    "\<forall>u \<in> set new. snd ` set (parts U u) \<subseteq> set (checked ?st)"
    "mset (printed ?st) = mset (printed st) + mset (hidden upper [(None, t)]) + (\<Sum>u \<leftarrow> new. mset (hidden upper (parts U u)))"
    "errorCount ?st - int (length (printed ?st)) = errorCount st - int (length (printed st))"
    unfolding adds_def by blast
  have old: "set (checked st) = made_of U ts" using assms by (simp add: reported_def made_of_contained)
  have "set (checked ?st) \<subseteq> made_of U (insert t ts)"
    using new(3,5) old unfolding made_of_insert [of U t ts] by auto
  moreover have "made_of U (insert t ts) \<subseteq> set (checked ?st)"
  proof (rule made_of_least)
    show "insert t ts \<subseteq> set (checked ?st)" using new(3,4) old made_of_self [of ts U] by auto
    have "snd ` set (parts U u) \<subseteq> set (checked ?st)" if "u \<in> made_of U ts" for u
      unfolding new(3) old using made_of_closed [OF that] by (rule le_supI2)
    then show "\<forall>u \<in> set (checked ?st). snd ` set (parts U u) \<subseteq> set (checked ?st)"
      using new(6) unfolding new(3) old by (simp only: Un_iff ball_Un) blast
  qed
  ultimately have checked: "set (checked ?st) = made_of U (insert t ts)" by blast
  have "(\<Sum>u \<leftarrow> new. mset (hidden upper (parts U u))) = (\<Sum>u \<in> set new. mset (hidden upper (parts U u)))"
    using new(1) by (rule sum_list_distinct_conv_sum_set)
  moreover have "made_of U (insert t ts) = made_of U ts \<union> set new" using checked new(3) old by blast
  moreover have "made_of U ts \<inter> set new = {}" using new(2) old by blast
  moreover have "finite (made_of U ts)" using finite_set [of "checked st"] unfolding old .
  ultimately have "mset (printed ?st) = (\<Sum>u \<in> made_of U (insert t ts). mset (hidden upper (parts U u)))"
    using assms new(7) by (simp add: reported_def made_of_contained hidden_parts sum.union_disjoint)
  with checked new(8) assms show ?thesis by (simp add: reported_def made_of_contained hidden_parts)
qed

text \<open>A value none of whose structs hides a field never panics, however deep it is; \<open>Decode\<close> prints at
  most one warning about it, and none once anything was reported.\<close>

fun exposed :: "(string \<Rightarrow> bool) \<Rightarrow> gob_value \<Rightarrow> bool" where
  "exposed upper (Struct_Value fs) \<longleftrightarrow> (\<forall>(f, v) \<in> set fs. upper f \<and> exposed upper v)"
| "exposed upper (Pointer v) \<longleftrightarrow> exposed upper v"
| "exposed upper _ \<longleftrightarrow> True"

definition warned_once :: "gob_state \<Rightarrow> gob_state \<Rightarrow> bool" where
  "warned_once st st' \<longleftrightarrow> checked st' = checked st \<and> errorCount st \<le> errorCount st' \<and>
     (\<exists>ws. printed st' = printed st @ ws \<and>
        length ws = (if errorCount st < 1 \<and> errorCount st < errorCount st' then 1 else 0))"

lemma warned_once_refl: "warned_once st st"
  by (simp add: warned_once_def)

lemma warned_once_trans:
  assumes "0 \<le> errorCount st" and "warned_once st st'" and "warned_once st' st''"
  shows "warned_once st st''"
proof -
  from assms(2) obtain ws where 1: "printed st' = printed st @ ws" "checked st' = checked st"
    "errorCount st \<le> errorCount st'" "length ws = (if errorCount st < 1 \<and> errorCount st < errorCount st' then 1 else 0)"
    unfolding warned_once_def by blast
  from assms(3) obtain ws' where 2: "printed st'' = printed st' @ ws'" "checked st'' = checked st'"
    "errorCount st' \<le> errorCount st''" "length ws' = (if errorCount st' < 1 \<and> errorCount st' < errorCount st'' then 1 else 0)"
    unfolding warned_once_def by blast
  have "length (ws @ ws') = (if errorCount st < 1 \<and> errorCount st < errorCount st'' then 1 else 0)"
    unfolding length_append 1(4) 2(4) using assms(1) 1(3) 2(3) by (simp only: split: if_splits) linarith
  then show ?thesis
    unfolding warned_once_def using 1(1-3) 2(1-3) by (metis append_assoc order_trans)
qed

lemma warned_once_warn_default: "0 \<le> errorCount st \<Longrightarrow> warned_once st (warn_default what tname st)"
  by (auto simp: warned_once_def warn_default_def Let_def)

lemma checkDefault1_fold:
  assumes "\<And>f v st. (f, v) \<in> set fs \<Longrightarrow> 0 \<le> errorCount st \<Longrightarrow>
      \<exists>st'. g f v st = Some st' \<and> warned_once st st'"
    and "0 \<le> errorCount st"
  shows "\<exists>st'. fold (\<lambda>(f, v) out. case out of None \<Rightarrow> None | Some st \<Rightarrow> g f v st) fs (Some st) = Some st' \<and>
    warned_once st st'"
  using assms
proof (induction fs arbitrary: st)
  case Nil
  then show ?case by (simp add: warned_once_refl)
next
  case (Cons p fs)
  obtain f v where p: "p = (f, v)" by (cases p)
  from Cons.prems(1) [of f v] Cons.prems(2) p obtain st1 where st1: "g f v st = Some st1" "warned_once st st1"
    by auto
  then have "0 \<le> errorCount st1" using Cons.prems(2) by (simp add: warned_once_def)
  from Cons.IH [OF Cons.prems(1) this] obtain st' where
    "fold (\<lambda>(f, v) out. case out of None \<Rightarrow> None | Some st \<Rightarrow> g f v st) fs (Some st1) = Some st'" "warned_once st1 st'"
    by auto
  with st1 warned_once_trans [OF Cons.prems(2)] show ?case by (auto simp: p)
qed

lemma checkDefault1_exposed:
  assumes "exposed upper v" and "0 \<le> errorCount st"
  shows "\<exists>st'. checkDefault1 upper False v depth fname st = Some st' \<and> warned_once st st'"
  using assms
proof (induction v arbitrary: depth fname st)
  case (Struct_Value fs)
  have "\<exists>st'. checkDefault1 upper (False \<or> \<not> upper f) v (depth + 1) (if fname \<noteq> [] then fname @ ''.'' @ f else f) st = Some st' \<and>
      warned_once st st'" if "(f, v) \<in> set fs" "0 \<le> errorCount st" for f v st
    using Struct_Value.IH [OF that(1), of v st] Struct_Value.prems(1) that by auto
  from checkDefault1_fold [where g = "\<lambda>f v. checkDefault1 upper (False \<or> \<not> upper f) v (depth + 1)
      (if fname \<noteq> [] then fname @ ''.'' @ f else f)", OF this Struct_Value.prems(2)] show ?case
    by (auto simp: warned_once_refl)
qed (auto simp: warned_once_refl warned_once_warn_default)

text \<open>A nil panics, and so does a value with a basic field that is not exported, whatever it holds:
  the warning that the check is there for is never reached.\<close>

lemma Decode_checks_nil: "Decode_checks upper U None st = None"
  by (simp add: Decode_checks_def checkValue_def)

lemma Decode_checks_hidden:
  assumes "\<not> upper f"
  shows "Decode_checks upper U (Some (t, Pointer (Struct_Value [(f, Basic tname is_zero)]))) st = None"
  using assms by (simp add: Decode_checks_def checkValue_def checkDefault_def)

text \<open>C40. The traversal of types terminates for every program, with types that contain themselves
  too, and after any sequence of \<open>checkType\<close> calls from the start of the program it has seen
  exactly the types that the given ones are made of, and has reported every lower-case field of
  every struct among them exactly once.\<close>

theorem hidden_fields_reported:
  "reported upper U (set ts) (fold (checkType upper U) ts gob_init)"
proof (induction ts rule: rev_induct)
  case Nil
  show ?case by (simp add: reported_def gob_init_def contained_def)
next
  case (snoc t ts)
  from checkType_reported [OF this, of t] show ?case by simp
qed

end
