(* ===== verification/Go_Strings.thy ===== *)
theory Go_Strings
  imports Go_Prelude "HOL-Library.Word" "HOL-Library.Char_ord"
begin

section \<open>What the code uses of Go's string, hash and encoding packages\<close>

text \<open>
  The parts of the Go standard library that more than one component calls: decimal formatting
  and parsing (\<open>strconv.FormatUint\<close>, \<open>strconv.Atoi\<close>, the verb \<open>%0wd\<close> of \<open>fmt\<close>), the
  FNV-1 hashes of \<open>hash/fnv\<close> and \<open>encoding/base64\<close> over an arbitrary alphabet. A byte is a
  HOL \<open>char\<close>, a byte slice and a string are lists of them.
\<close>

unbundle bit_operations_syntax

lemma sint_of_nat_small: "n < 2 ^ 31 \<Longrightarrow> sint (of_nat n :: 32 word) = int n"
  by (simp add: signed_of_nat signed_take_bit_int_eq_self)

subsection \<open>Decimal numbers\<close>

definition digit :: "nat \<Rightarrow> char" where
  "digit d = char_of (48 + d)"

fun format_nat :: "nat \<Rightarrow> string" where
  "format_nat n = (if n < 10 then [digit n] else format_nat (n div 10) @ [digit (n mod 10)])"

declare format_nat.simps [simp del]

definition format_int :: "int \<Rightarrow> string" where
  "format_int i = (if i < 0 then CHR ''-'' # format_nat (nat (- i)) else format_nat (nat i))"

text \<open>\<open>fmt.Sprintf("%0wd", i)\<close>: the sign counts towards the width.\<close>

definition format_padded :: "nat \<Rightarrow> int \<Rightarrow> string" where
  "format_padded w i =
     (let ds = format_nat (nat \<bar>i\<bar>); sign = (if i < 0 then ''-'' else []) in
      sign @ replicate (w - length sign - length ds) (CHR ''0'') @ ds)"

fun parse_digits :: "nat \<Rightarrow> string \<Rightarrow> nat option" where
  "parse_digits acc [] = Some acc"
| "parse_digits acc (c # cs) =
     (let d = (of_char c :: nat) in
      if 48 \<le> d \<and> d \<le> 57 then parse_digits (10 * acc + (d - 48)) cs else None)"

text \<open>\<open>strconv.Atoi\<close>; \<open>None\<close> is \<open>ErrSyntax\<close> or \<open>ErrRange\<close>.\<close>

definition Atoi :: "string \<Rightarrow> int option" where
  "Atoi s =
     (let (neg, ds) = (case s of
          [] \<Rightarrow> (False, [])
        | c # cs \<Rightarrow> if c = CHR ''-'' then (True, cs) else if c = CHR ''+'' then (False, cs) else (False, s)) in
      if ds = [] then None
      else case parse_digits 0 ds of
          None \<Rightarrow> None
        | Some n \<Rightarrow> let i = (if neg then - int n else int n) in
            if - (2 ^ 63) \<le> i \<and> i < 2 ^ 63 then Some i else None)"

lemma of_char_digit: "d < 10 \<Longrightarrow> (of_char (digit d) :: nat) = 48 + d"
  by (simp add: digit_def)

lemma parse_digit: "d < 10 \<Longrightarrow> parse_digits acc (digit d # cs) = parse_digits (10 * acc + d) cs"
  by (simp add: of_char_digit)

lemma parse_digits_append:
  "parse_digits acc (xs @ ys) = (case parse_digits acc xs of None \<Rightarrow> None | Some n \<Rightarrow> parse_digits n ys)"
  by (induction acc xs rule: parse_digits.induct) (simp_all add: Let_def)

lemma parse_zeros: "parse_digits 0 (replicate k (CHR ''0'')) = Some 0"
  by (induction k) simp_all

lemma parse_format: "parse_digits 0 (format_nat n) = Some n"
proof (induction n rule: format_nat.induct)
  case (1 n)
  show ?case
  proof (cases "n < 10")
    case True
    then show ?thesis using parse_digit [of n 0 "[]"] by (simp add: format_nat.simps [of n])
  next
    case False
    with 1 have "parse_digits 0 (format_nat (n div 10)) = Some (n div 10)" by simp
    then show ?thesis
      using False parse_digit [of "n mod 10" "n div 10" "[]"]
      by (simp add: format_nat.simps [of n] parse_digits_append del: parse_digits.simps) simp
  qed
qed

lemma format_nat_nonempty [simp]: "format_nat n \<noteq> []"
  by (simp add: format_nat.simps [of n])

lemma format_nat_digits: "c \<in> set (format_nat n) \<Longrightarrow> \<exists>d < 10. c = digit d"
proof (induction n rule: format_nat.induct)
  case (1 n)
  have "\<exists>d < 10. digit (n mod 10) = digit d" by (intro exI [of _ "n mod 10"]) simp
  with 1 show ?case by (cases "n < 10") (auto simp: format_nat.simps [of n])
qed

lemma digit_no_sign: "d < 10 \<Longrightarrow> digit d \<noteq> CHR ''-'' \<and> digit d \<noteq> CHR ''+''"
  using of_char_digit [of d] by auto

lemma zero_is_digit: "CHR ''0'' = digit 0"
  by (rule of_char_eqI [where 'a = nat]) (simp add: digit_def)

lemma Atoi_format_padded:
  assumes "0 \<le> i" and "i < 2 ^ 63"
  shows "Atoi (format_padded w i) = Some i"
proof -
  let ?s = "format_padded w i"
  have s: "?s = replicate (w - length (format_nat (nat i))) (CHR ''0'') @ format_nat (nat i)"
    using assms(1) by (simp add: format_padded_def Let_def)
  have digits: "\<forall>c \<in> set ?s. \<exists>d < 10. c = digit d"
    using format_nat_digits unfolding s zero_is_digit by fastforce
  have "?s \<noteq> []" by (simp add: s)
  then obtain c cs where c: "?s = c # cs" by (cases ?s) auto
  with digits digit_no_sign have "c \<noteq> CHR ''-''" "c \<noteq> CHR ''+''" by (metis list.set_intros(1))+
  moreover have "parse_digits 0 ?s = Some (nat i)"
    by (simp add: s parse_digits_append parse_zeros parse_format)
  ultimately show ?thesis using assms c by (simp add: Atoi_def)
qed

lemma length_format_nat: "0 < k \<Longrightarrow> n < 10 ^ k \<Longrightarrow> length (format_nat n) \<le> k"
proof (induction n arbitrary: k rule: format_nat.induct)
  case (1 n)
  show ?case
  proof (cases "n < 10")
    case True with "1.prems" show ?thesis by (simp add: format_nat.simps [of n])
  next
    case False
    then obtain j where j: "k = Suc j" "0 < j" using "1.prems" by (cases k; cases "k - 1") auto
    then have "n div 10 < 10 ^ j" using "1.prems" by (simp add: less_mult_imp_div_less mult.commute)
    with 1(1) [OF False j(2)] j show ?thesis using False by (simp add: format_nat.simps [of n])
  qed
qed

lemma length_format_padded:
  assumes "0 \<le> i" and "i < 10 ^ w" and "0 < w"
  shows "length (format_padded w i) = w"
proof -
  have "nat i < 10 ^ w" using assms by (simp add: nat_less_iff)
  with length_format_nat [OF assms(3)] assms(1) show ?thesis by (simp add: format_padded_def Let_def)
qed

subsection \<open>FNV-1\<close>

definition New32_Sum32 :: "string \<Rightarrow> 32 word" where
  "New32_Sum32 bytes = fold (\<lambda>b h. (h * 16777619) XOR of_char b) bytes 2166136261"

definition New64_Sum64 :: "string \<Rightarrow> 64 word" where
  "New64_Sum64 bytes = fold (\<lambda>b h. (h * 1099511628211) XOR of_char b) bytes 14695981039346656037"

subsection \<open>Base 64\<close>

definition sextet :: "string \<Rightarrow> char \<Rightarrow> nat option" where
  "sextet enc c = (let n = length (takeWhile (\<lambda>x. x \<noteq> c) enc) in if n < length enc then Some n else None)"

definition byte_of :: "nat \<Rightarrow> char" where
  "byte_of n = char_of (n mod 256)"

text \<open>\<open>Encoding.Encode\<close> with the standard padding.\<close>

fun base64_Encode :: "string \<Rightarrow> string \<Rightarrow> string" where
  "base64_Encode enc [] = []"
| "base64_Encode enc [a] =
     (let v = of_char a * 65536 in
      [enc ! (v div 262144), enc ! (v div 4096 mod 64), CHR ''='', CHR ''=''])"
| "base64_Encode enc [a, b] =
     (let v = of_char a * 65536 + of_char b * 256 in
      [enc ! (v div 262144), enc ! (v div 4096 mod 64), enc ! (v div 64 mod 64), CHR ''=''])"
| "base64_Encode enc (a # b # c # rest) =
     (let v = of_char a * 65536 + of_char b * 256 + of_char c in
      [enc ! (v div 262144), enc ! (v div 4096 mod 64), enc ! (v div 64 mod 64), enc ! (v mod 64)] @
      base64_Encode enc rest)"

definition newline :: "char \<Rightarrow> bool" where
  "newline c \<longleftrightarrow> c = CHR 0x0A \<or> c = CHR 0x0D"

text \<open>\<open>decodeQuantum\<close> reads up to four digits, skipping newlines; padding must end the input.
  \<open>None\<close> is \<open>CorruptInputError\<close>.\<close>

fun quantum :: "string \<Rightarrow> string \<Rightarrow> nat list \<Rightarrow> (nat list \<times> string) option" where
  "quantum enc [] acc = (if acc = [] \<or> length acc = 4 then Some (acc, []) else None)"
| "quantum enc (c # cs) acc =
     (if length acc = 4 then Some (acc, c # cs)
      else case sextet enc c of
          Some d \<Rightarrow> quantum enc cs (acc @ [d])
        | None \<Rightarrow>
            if newline c then quantum enc cs acc
            else if c \<noteq> CHR ''='' \<or> length acc < 2 then None
            else if length acc = 2 then
              (case dropWhile newline cs of
                 [] \<Rightarrow> None
               | e # es \<Rightarrow> if e = CHR ''='' \<and> dropWhile newline es = [] then Some (acc, []) else None)
            else if dropWhile newline cs = [] then Some (acc, []) else None)"

text \<open>Two digits make one byte, three make two, four make three.\<close>

fun bytes_of_sextets :: "nat list \<Rightarrow> string" where
  "bytes_of_sextets [a, b] = [byte_of ((a * 262144 + b * 4096) div 65536)]"
| "bytes_of_sextets [a, b, c] =
     (let v = a * 262144 + b * 4096 + c * 64 in [byte_of (v div 65536), byte_of (v div 256)])"
| "bytes_of_sextets [a, b, c, d] =
     (let v = a * 262144 + b * 4096 + c * 64 + d in
      [byte_of (v div 65536), byte_of (v div 256), byte_of v])"
| "bytes_of_sextets _ = []"

lemma quantum_progress:
  "quantum enc src acc = Some (acc', rest) \<Longrightarrow> length rest \<le> length src \<and>
     (src \<noteq> [] \<and> length acc \<noteq> 4 \<longrightarrow> length rest < length src)"
  by (induction enc src acc rule: quantum.induct) (auto split: if_splits option.splits list.splits)

function base64_Decode :: "string \<Rightarrow> string \<Rightarrow> string option" where
  "base64_Decode enc src =
     (if src = [] then Some []
      else case quantum enc src [] of
          None \<Rightarrow> None
        | Some (ds, rest) \<Rightarrow>
            (case base64_Decode enc rest of None \<Rightarrow> None | Some bs \<Rightarrow> Some (bytes_of_sextets ds @ bs)))"
  by pat_completeness auto
termination
  by (relation "measure (\<lambda>(enc, src). length src)") (auto dest: quantum_progress)

declare base64_Decode.simps [simp del]

definition good_alphabet :: "string \<Rightarrow> bool" where
  "good_alphabet enc \<longleftrightarrow> length enc = 64 \<and> distinct enc \<and>
     CHR ''='' \<notin> set enc \<and> CHR 0x0A \<notin> set enc \<and> CHR 0x0D \<notin> set enc"

lemma sextet_nth:
  assumes "distinct enc" and "i < length enc"
  shows "sextet enc (enc ! i) = Some i"
proof -
  have "takeWhile (\<lambda>x. x \<noteq> enc ! i) enc = take i enc"
    using assms by (intro takeWhile_eq_take_P_nth) (auto simp: nth_eq_iff_index_eq)
  with assms(2) show ?thesis by (simp add: sextet_def)
qed

lemma sextet_None:
  assumes "c \<notin> set enc"
  shows "sextet enc c = None"
proof -
  from assms have "takeWhile (\<lambda>x. x \<noteq> c) enc = enc" by (auto simp: takeWhile_eq_all_conv)
  then show ?thesis by (simp only: sextet_def Let_def) simp
qed

lemma byte_of_char [simp]: "n = of_char c \<Longrightarrow> byte_of n = c"
  by (simp add: byte_of_def)

text \<open>Four digits of the alphabet are one quantum, whatever follows.\<close>

lemma quantum_4:
  assumes "good_alphabet enc" and "a < 64" "b < 64" "c < 64" "d < 64"
  shows "quantum enc (enc ! a # enc ! b # enc ! c # enc ! d # rest) [] = Some ([a, b, c, d], rest)"
  using assms by (cases rest) (simp_all add: sextet_nth good_alphabet_def)

lemma quantum_padded:
  assumes "good_alphabet enc" and "a < 64" "b < 64" "c < 64"
  shows "quantum enc [enc ! a, enc ! b, enc ! c, CHR ''=''] [] = Some ([a, b, c], [])"
    and "quantum enc [enc ! a, enc ! b, CHR ''='', CHR ''=''] [] = Some ([a, b], [])"
  using assms by (simp_all add: sextet_nth sextet_None good_alphabet_def newline_def)

lemma sextets_of_triple:
  fixes a b c :: nat
  assumes "a < 256" "b < 256" "c < 256" and v: "v = a * 65536 + b * 256 + c"
  shows "v div 262144 < 64" "(v div 262144) * 262144 + (v div 4096 mod 64) * 4096 + (v div 64 mod 64) * 64 + v mod 64 = v"
    "v div 65536 = a" "v div 256 = a * 256 + b"
proof -
  have mod: "v div 64 = v div 4096 * 64 + v div 64 mod 64" "v div 4096 = v div 262144 * 64 + v div 4096 mod 64"
    using div_mult_mod_eq [of "v div 64" 64] div_mult_mod_eq [of "v div 4096" 64]
    by (simp_all add: div_mult2_eq [symmetric])
  show "v div 262144 < 64" using assms by simp
  show "v div 65536 = a" "v div 256 = a * 256 + b" using assms by simp_all
  show "(v div 262144) * 262144 + (v div 4096 mod 64) * 4096 + (v div 64 mod 64) * 64 + v mod 64 = v"
    using mod div_mult_mod_eq [of v 64] by linarith
qed

lemma byte_of_mod: "byte_of (k * 256 + of_char c) = c"
  by (simp add: byte_of_def)

lemma sextets_decode:
  fixes a b c :: char
  defines "v \<equiv> of_char a * 65536 + of_char b * 256 + of_char c :: nat"
  shows "bytes_of_sextets [v div 262144, v div 4096 mod 64, v div 64 mod 64, v mod 64] = [a, b, c]"
    and "of_char c = (0 :: nat) \<Longrightarrow> bytes_of_sextets [v div 262144, v div 4096 mod 64, v div 64 mod 64] = [a, b]"
    and "of_char c = (0 :: nat) \<Longrightarrow> of_char b = (0 :: nat) \<Longrightarrow>
      bytes_of_sextets [v div 262144, v div 4096 mod 64] = [a]"
proof -
  note s = sextets_of_triple [OF nat_of_char_less_256 nat_of_char_less_256 nat_of_char_less_256,
    OF meta_eq_to_obj_eq [OF v_def]]
  have "v = (of_char a * 256 + of_char b) * 256 + of_char c" by (simp add: v_def)
  then have "byte_of v = c" by (simp only: byte_of_mod)
  then have b: "byte_of (v div 65536) = a" "byte_of (v div 256) = b" "byte_of v = c"
    unfolding s(3,4) by (simp_all add: byte_of_mod)
  show "bytes_of_sextets [v div 262144, v div 4096 mod 64, v div 64 mod 64, v mod 64] = [a, b, c]"
    using b by (simp only: bytes_of_sextets.simps Let_def s(2))
  show "bytes_of_sextets [v div 262144, v div 4096 mod 64, v div 64 mod 64] = [a, b]"
    if "of_char c = (0 :: nat)"
  proof -
    have "v mod 64 = 0" using that unfolding v_def by presburger
    with s(2) b show ?thesis by (simp only: bytes_of_sextets.simps Let_def) simp
  qed
  show "bytes_of_sextets [v div 262144, v div 4096 mod 64] = [a]"
    if "of_char c = (0 :: nat)" "of_char b = (0 :: nat)"
  proof -
    have "v mod 64 = 0" "v div 64 mod 64 = 0" using that by (simp_all add: v_def)
    with s(2) b show ?thesis by (simp only: bytes_of_sextets.simps Let_def) simp
  qed
qed

text \<open>Decoding inverts encoding.\<close>

lemma base64_roundtrip:
  assumes "good_alphabet enc"
  shows "base64_Decode enc (base64_Encode enc src) = Some src"
  using assms
proof (induction enc src rule: base64_Encode.induct)
  case (1 enc)
  then show ?case by (simp add: base64_Decode.simps)
next
  case (2 enc a)
  let ?v = "of_char a * 65536 :: nat"
  have "?v div 262144 < 64"
    using sextets_of_triple(1) [of "of_char a" 0 0 ?v] by simp
  from quantum_padded(2) [OF 2 this, of "?v div 4096 mod 64" 0] sextets_decode(3) [of "CHR 0x00" "CHR 0x00" a]
  show ?case
    by (simp add: base64_Decode.simps [of enc "_ # _"] base64_Decode.simps [of enc "[]"] Let_def
        del: quantum.simps bytes_of_sextets.simps)
next
  case (3 enc a b)
  let ?v = "of_char a * 65536 + of_char b * 256 :: nat"
  have "?v div 262144 < 64"
    using sextets_of_triple(1) [of "of_char a" "of_char b" 0 ?v] by simp
  from quantum_padded(1) [OF 3 this, of "?v div 4096 mod 64" "?v div 64 mod 64"]
    sextets_decode(2) [of "CHR 0x00" a b]
  show ?case
    by (simp add: base64_Decode.simps [of enc "_ # _"] base64_Decode.simps [of enc "[]"] Let_def
        del: quantum.simps bytes_of_sextets.simps)
next
  case (4 enc a b c rest)
  let ?v = "of_char a * 65536 + of_char b * 256 + of_char c :: nat"
  have "?v div 262144 < 64"
    by (rule sextets_of_triple(1) [OF nat_of_char_less_256 nat_of_char_less_256 nat_of_char_less_256 refl])
  from quantum_4 [OF 4(2) this, of "?v div 4096 mod 64" "?v div 64 mod 64" "?v mod 64"]
    4 sextets_decode(1) [of a b c]
  show ?case by (simp add: base64_Decode.simps [of enc "_ # _"] Let_def del: quantum.simps bytes_of_sextets.simps)
qed

end
