(* ===== verification/String_Set.thy ===== *)
theory String_Set
  imports Go_Strings "HOL-Library.List_Lexorder"
begin

section \<open>String sets: one lock, or one lock per stripe\<close>

text \<open>
  The two implementations of the interface \<open>StringSet\<close> of \<open>lab0\<close>: \<open>LockedStringSet\<close>
  (\<open>lab0/string_set.go\<close>) and \<open>StripedStringSet\<close> (\<open>lab0/striped_string_set.go\<close>). The
  interface is the locale \<open>string_set\<close>, whose laws say what \<open>Add\<close>, \<open>Count\<close> and
  \<open>PredRange\<close> promise of the set of keys; both implementations interpret it.

  A Go string is its list of bytes, compared lexicographically. A Go map is a HOL map; the order
  in which \<open>range\<close> visits it, which Go leaves open, is an argument of \<open>PredRange\<close>, as is the
  order in which the goroutines of the striped version send their results. \<open>regexp.MustCompile\<close>
  is an argument too: \<open>None\<close> is its panic on a malformed pattern. The counters are 32-bit.
\<close>

unbundle bit_operations_syntax

subsection \<open>LockedStringSet\<close>

record LockedStringSet =
  lss_set :: "string \<rightharpoonup> bool"
  lss_count :: "32 word"

definition MakeLockedStringSet :: LockedStringSet where
  "MakeLockedStringSet = \<lparr>lss_set = Map.empty, lss_count = 0\<rparr>"

definition locked_Add :: "string \<Rightarrow> LockedStringSet \<Rightarrow> bool \<times> LockedStringSet" where
  "locked_Add key s =
     (case lss_set s key of
        Some _ \<Rightarrow> (False, s)
      | None \<Rightarrow> (True, s\<lparr>lss_set := (lss_set s)(key \<mapsto> True), lss_count := lss_count s + 1\<rparr>))"

definition locked_Count :: "LockedStringSet \<Rightarrow> int" where
  "locked_Count s = sint (lss_count s)"

text \<open>The loop over the keys of one map, which compiles the pattern in every round.\<close>

type_synonym regexp = "string \<Rightarrow> (string \<Rightarrow> bool) option"

fun scan_range :: "regexp \<Rightarrow> string \<Rightarrow> string \<Rightarrow> string \<Rightarrow> string list \<Rightarrow> string list \<Rightarrow> string list option" where
  "scan_range MustCompile b e pattern [] results = Some results"
| "scan_range MustCompile b e pattern (key # keys) results =
     (case MustCompile pattern of
        None \<Rightarrow> None
      | Some re \<Rightarrow>
          scan_range MustCompile b e pattern keys
            (if re key \<and> b \<le> key \<and> key < e then results @ [key] else results))"

definition locked_PredRange ::
  "regexp \<Rightarrow> string list \<Rightarrow> string \<Rightarrow> string \<Rightarrow> string \<Rightarrow> LockedStringSet \<Rightarrow> string list option" where
  "locked_PredRange MustCompile order b e pattern s = scan_range MustCompile b e pattern order []"

subsection \<open>StripedStringSet\<close>

text \<open>The set of a stripe is a nil map until the first \<open>Add\<close> to it.\<close>

record StringSetStripe =
  stripe_set :: "(string \<rightharpoonup> bool) option"

record StripedStringSet =
  stripes :: "StringSetStripe list"
  stripeCount :: int
  sss_count :: "32 word"

fun fnv32_loop :: "32 word \<Rightarrow> string \<Rightarrow> 32 word" where
  "fnv32_loop hash [] = hash"
| "fnv32_loop hash (c # key) = fnv32_loop ((hash * 16777619) XOR of_char c) key"

definition fnv32 :: "string \<Rightarrow> 32 word" where
  "fnv32 key = fnv32_loop 2166136261 key"

text \<open>\<open>make\<close> panics on a negative length.\<close>

definition MakeStripedStringSet :: "int \<Rightarrow> StripedStringSet option" where
  "MakeStripedStringSet n =
     (if n < 0 then None
      else Some \<lparr>stripes = replicate (nat n) \<lparr>stripe_set = None\<rparr>, stripeCount = n, sss_count = 0\<rparr>)"

text \<open>Step (a) of \<open>Add\<close>: the stripe of a key; dividing by a stripe count that is 0 as a
  \<open>uint32\<close> panics.\<close>

definition stripe_index :: "string \<Rightarrow> StripedStringSet \<Rightarrow> int option" where
  "stripe_index key s =
     (if (of_int (stripeCount s) :: 32 word) = 0 then None
      else Some (uint (fnv32 key mod of_int (stripeCount s))))"

text \<open>Step (c), under the lock of the stripe: initialise the map, look the key up, insert it.\<close>

definition stripe_insert :: "string \<Rightarrow> StringSetStripe \<Rightarrow> bool \<times> StringSetStripe" where
  "stripe_insert key t =
     (let m = (case stripe_set t of None \<Rightarrow> Map.empty | Some m \<Rightarrow> m) in
      case m key of
        Some _ \<Rightarrow> (False, \<lparr>stripe_set = Some m\<rparr>)
      | None \<Rightarrow> (True, \<lparr>stripe_set = Some (m(key \<mapsto> True))\<rparr>))"

definition insert_at :: "int \<Rightarrow> string \<Rightarrow> StripedStringSet \<Rightarrow> (bool \<times> StripedStringSet) option" where
  "insert_at index key s = do {
     targetStripe \<leftarrow> go_index (stripes s) index;
     let (new, t) = stripe_insert key targetStripe;
     ts \<leftarrow> go_update (stripes s) index t;
     Some (new, s\<lparr>stripes := ts\<rparr>)
   }"

definition striped_Add :: "string \<Rightarrow> StripedStringSet \<Rightarrow> (bool \<times> StripedStringSet) option" where
  "striped_Add key s = do {
     index \<leftarrow> stripe_index key s;
     (new, s) \<leftarrow> insert_at index key s;
     Some (new, if new then s\<lparr>sss_count := sss_count s + 1\<rparr> else s)
   }"

definition striped_Count :: "StripedStringSet \<Rightarrow> int" where
  "striped_Count s = sint (sss_count s)"

text \<open>\<open>arrival\<close> lists the stripes in the order in which their goroutines send on the channel;
  \<open>order v\<close> is the order in which the keys of stripe \<open>v\<close> are visited. The channel holds
  \<open>stripeCount\<close> results, so no goroutine blocks on its send before \<open>wg.Wait\<close>.\<close>

fun collect_stripes ::
  "regexp \<Rightarrow> (int \<Rightarrow> string list) \<Rightarrow> string \<Rightarrow> string \<Rightarrow> string \<Rightarrow> StripedStringSet \<Rightarrow> int list \<Rightarrow>
   string list \<Rightarrow> string list option" where
  "collect_stripes MustCompile order b e pattern s [] results = Some results"
| "collect_stripes MustCompile order b e pattern s (v # vs) results =
     (case go_index (stripes s) v of
        None \<Rightarrow> None
      | Some _ \<Rightarrow>
          (case scan_range MustCompile b e pattern (order v) [] of
             None \<Rightarrow> None
           | Some stripe_results \<Rightarrow>
               collect_stripes MustCompile order b e pattern s vs (results @ stripe_results)))"

definition striped_PredRange ::
  "regexp \<Rightarrow> int list \<Rightarrow> (int \<Rightarrow> string list) \<Rightarrow> string \<Rightarrow> string \<Rightarrow> string \<Rightarrow> StripedStringSet \<Rightarrow>
   string list option" where
  "striped_PredRange MustCompile arrival order b e pattern s =
     collect_stripes MustCompile order b e pattern s arrival []"


subsection \<open>The contract of a string set\<close>

text \<open>Adding a list of keys one by one, with the answers of the calls; and what the answers
  should be: true at the first occurrence of a key that was not in the set before.\<close>

fun add_all :: "(string \<Rightarrow> 's \<Rightarrow> (bool \<times> 's) option) \<Rightarrow> string list \<Rightarrow> 's \<Rightarrow> (bool list \<times> 's) option" where
  "add_all add [] s = Some ([], s)"
| "add_all add (k # ks) s =
     (case add k s of
        None \<Rightarrow> None
      | Some (b, s) \<Rightarrow> (case add_all add ks s of None \<Rightarrow> None | Some (bs, s) \<Rightarrow> Some (b # bs, s)))"

fun first_seen :: "string set \<Rightarrow> string list \<Rightarrow> bool list" where
  "first_seen S [] = []"
| "first_seen S (k # ks) = (k \<notin> S) # first_seen (insert k S) ks"

text \<open>\<open>range_of s mc b e p r\<close> says that \<open>r\<close> is a possible outcome of \<open>PredRange\<close>.\<close>

locale string_set =
  fixes ok :: "'s \<Rightarrow> bool"
    and elems :: "'s \<Rightarrow> string set"
    and add :: "string \<Rightarrow> 's \<Rightarrow> (bool \<times> 's) option"
    and count :: "'s \<Rightarrow> int"
    and range_of :: "'s \<Rightarrow> regexp \<Rightarrow> string \<Rightarrow> string \<Rightarrow> string \<Rightarrow> string list option \<Rightarrow> bool"
  assumes finite_elems: "ok s \<Longrightarrow> finite (elems s)"
    and add_law: "ok s \<Longrightarrow> \<exists>s'. add k s = Some (k \<notin> elems s, s') \<and> ok s' \<and> elems s' = insert k (elems s)"
    and count_law: "ok s \<Longrightarrow> card (elems s) < 2 ^ 31 \<Longrightarrow> count s = int (card (elems s))"
    and range_law: "ok s \<Longrightarrow> range_of s mc b e p r \<Longrightarrow> mc p = Some re \<Longrightarrow>
       \<exists>l. r = Some l \<and> distinct l \<and> set l = {k \<in> elems s. re k \<and> b \<le> k \<and> k < e}"
    and range_panic: "ok s \<Longrightarrow> range_of s mc b e p r \<Longrightarrow> mc p = None \<Longrightarrow> r = None \<longleftrightarrow> elems s \<noteq> {}"
begin

lemma add_all_law:
  "ok s \<Longrightarrow> \<exists>s'. add_all add ks s = Some (first_seen (elems s) ks, s') \<and> ok s' \<and>
     elems s' = elems s \<union> set ks"
proof (induction ks arbitrary: s)
  case (Cons k ks)
  from add_law [OF Cons.prems, of k] obtain s1
    where s1: "add k s = Some (k \<notin> elems s, s1)" "ok s1" "elems s1 = insert k (elems s)" by blast
  from Cons.IH [OF s1(2)] s1 show ?case by auto
qed simp

lemma count_after_adds:
  assumes "ok s" "elems s = {}" "add_all add ks s = Some (bs, s')" "length ks < 2 ^ 31"
  shows "count s' = int (card (set ks))" "bs = first_seen {} ks"
proof -
  from add_all_law [OF assms(1), of ks] assms(2,3)
  have *: "bs = first_seen {} ks" "ok s'" "elems s' = set ks" by auto
  then show "bs = first_seen {} ks" by simp
  from * card_length [of ks] assms(4) show "count s' = int (card (set ks))"
    by (simp add: count_law)
qed

end

subsection \<open>The locked set meets the contract\<close>

lemma scan_range_Some:
  "MustCompile pattern = Some re \<Longrightarrow>
   scan_range MustCompile b e pattern keys results =
     Some (results @ filter (\<lambda>k. re k \<and> b \<le> k \<and> k < e) keys)"
  by (induction keys arbitrary: results) simp_all

lemma scan_range_None_iff:
  "MustCompile pattern = None \<Longrightarrow>
   scan_range MustCompile b e pattern keys results = (if keys = [] then Some results else None)"
  by (cases keys) simp_all

definition locked_ok :: "LockedStringSet \<Rightarrow> bool" where
  "locked_ok s \<longleftrightarrow> finite (dom (lss_set s)) \<and> lss_count s = of_nat (card (dom (lss_set s)))"

definition locked_range_of ::
  "LockedStringSet \<Rightarrow> regexp \<Rightarrow> string \<Rightarrow> string \<Rightarrow> string \<Rightarrow> string list option \<Rightarrow> bool" where
  "locked_range_of s mc b e p r \<longleftrightarrow> (\<exists>order. distinct order \<and> set order = dom (lss_set s) \<and>
     r = locked_PredRange mc order b e p s)"

interpretation locked: string_set locked_ok "dom \<circ> lss_set" "\<lambda>k s. Some (locked_Add k s)"
  locked_Count locked_range_of
proof
  fix s k
  assume "locked_ok s"
  then show "\<exists>s'. Some (locked_Add k s) = Some (k \<notin> (dom \<circ> lss_set) s, s') \<and> locked_ok s' \<and>
      (dom \<circ> lss_set) s' = insert k ((dom \<circ> lss_set) s)"
    by (auto simp: locked_Add_def locked_ok_def domIff insert_absorb split: option.splits)
next
  fix s :: LockedStringSet and mc :: regexp and b e p r re
  assume "locked_ok s" "locked_range_of s mc b e p r" "mc p = Some re"
  then show "\<exists>l. r = Some l \<and> distinct l \<and> set l = {k \<in> (dom \<circ> lss_set) s. re k \<and> b \<le> k \<and> k < e}"
    by (auto simp: locked_range_of_def locked_PredRange_def scan_range_Some)
next
  fix s :: LockedStringSet and mc :: regexp and b e p r
  assume "locked_ok s" "locked_range_of s mc b e p r" "mc p = None"
  then obtain order where "set order = dom (lss_set s)" "r = (if order = [] then Some [] else None)"
    by (auto simp: locked_range_of_def locked_PredRange_def scan_range_None_iff)
  then show "r = None \<longleftrightarrow> (dom \<circ> lss_set) s \<noteq> {}"
    by (metis comp_apply option.distinct(1) set_empty2)
qed (auto simp: locked_ok_def locked_Count_def sint_of_nat_small)

subsection \<open>The striped set meets the contract\<close>

definition stripe_keys :: "StringSetStripe \<Rightarrow> string set" where
  "stripe_keys t = (case stripe_set t of None \<Rightarrow> {} | Some m \<Rightarrow> dom m)"

definition striped_elems :: "StripedStringSet \<Rightarrow> string set" where
  "striped_elems s = (\<Union>t \<in> set (stripes s). stripe_keys t)"

text \<open>Every stripe only holds keys that hash to it, so that no key is in two stripes.\<close>

definition well_striped :: "StripedStringSet \<Rightarrow> bool" where
  "well_striped s \<longleftrightarrow> 0 < stripeCount s \<and> (of_int (stripeCount s) :: 32 word) \<noteq> 0 \<and>
     len (stripes s) = stripeCount s \<and>
     (\<forall>i < length (stripes s). finite (stripe_keys (stripes s ! i)) \<and>
        (\<forall>k \<in> stripe_keys (stripes s ! i). stripe_index k s = Some (int i)))"

definition striped_ok :: "StripedStringSet \<Rightarrow> bool" where
  "striped_ok s \<longleftrightarrow> well_striped s \<and> sss_count s = of_nat (card (striped_elems s))"

lemma stripe_index_bounds:
  assumes "well_striped s"
  shows "\<exists>i. stripe_index k s = Some i \<and> 0 \<le> i \<and> i < len (stripes s)"
proof -
  let ?w = "of_int (stripeCount s) :: 32 word"
  from assms have pos: "0 < stripeCount s" "?w \<noteq> 0" "len (stripes s) = stripeCount s"
    by (auto simp: well_striped_def)
  from pos(2) have "fnv32 k mod ?w < ?w" by (simp add: word_mod_less_divisor word_gt_0)
  then have "uint (fnv32 k mod ?w) < uint ?w" by (simp add: word_less_def)
  also have "uint ?w \<le> stripeCount s"
    using pos(1) by (simp add: uint_word_of_int zmod_le_nonneg_dividend)
  finally show ?thesis using pos by (simp add: stripe_index_def)
qed

lemma stripe_index_cong: "stripeCount s' = stripeCount s \<Longrightarrow> stripe_index k s' = stripe_index k s"
  by (simp add: stripe_index_def)

lemma stripe_insert_keys:
  "fst (stripe_insert k t) \<longleftrightarrow> k \<notin> stripe_keys t"
  "stripe_keys (snd (stripe_insert k t)) = insert k (stripe_keys t)"
  by (auto simp: stripe_insert_def stripe_keys_def Let_def split: option.splits)

lemma key_in_its_stripe:
  assumes "well_striped s" and "stripe_index k s = Some (int i)" and "i < length (stripes s)"
  shows "k \<in> striped_elems s \<longleftrightarrow> k \<in> stripe_keys (stripes s ! i)"
proof
  assume "k \<in> striped_elems s"
  then obtain j where j: "j < length (stripes s)" "k \<in> stripe_keys (stripes s ! j)"
    by (auto simp: striped_elems_def in_set_conv_nth)
  with assms(1) have "stripe_index k s = Some (int j)" by (auto simp: well_striped_def)
  with assms(2) have "j = i" by simp
  with j show "k \<in> stripe_keys (stripes s ! i)" by simp
next
  assume "k \<in> stripe_keys (stripes s ! i)"
  with assms(3) show "k \<in> striped_elems s" by (auto simp: striped_elems_def)
qed

lemma finite_striped_elems: "well_striped s \<Longrightarrow> finite (striped_elems s)"
  by (auto simp: striped_elems_def well_striped_def in_set_conv_nth)

lemma elems_update_stripe:
  assumes "i < length ts" and "stripe_keys t = insert k (stripe_keys (ts ! i))"
  shows "(\<Union>t \<in> set (ts[i := t]). stripe_keys t) = insert k (\<Union>t \<in> set ts. stripe_keys t)"
proof -
  have "ts = take i ts @ ts ! i # drop (Suc i) ts" using assms(1) by (rule id_take_nth_drop)
  moreover have "ts[i := t] = take i ts @ t # drop (Suc i) ts"
    using assms(1) by (rule upd_conv_take_nth_drop)
  ultimately have "set ts = set (take i ts) \<union> {ts ! i} \<union> set (drop (Suc i) ts)"
    "set (ts[i := t]) = set (take i ts) \<union> {t} \<union> set (drop (Suc i) ts)"
    by (metis Un_insert_right list.simps(15) set_append sup_bot_right Un_insert_left)+
  with assms(2) show ?thesis by auto
qed

lemma insert_at_law:
  assumes "well_striped s" and "stripe_index k s = Some (int i)" and "i < length (stripes s)"
  obtains s' where "insert_at (int i) k s = Some (k \<notin> striped_elems s, s')" "well_striped s'"
    "striped_elems s' = insert k (striped_elems s)" "sss_count s' = sss_count s"
    "stripeCount s' = stripeCount s" "length (stripes s') = length (stripes s)"
proof -
  let ?t = "snd (stripe_insert k (stripes s ! i))"
  let ?s = "s\<lparr>stripes := (stripes s)[i := ?t]\<rparr>"
  have "insert_at (int i) k s = Some (k \<notin> striped_elems s, ?s)"
    using assms(3) stripe_insert_keys(1) [of k "stripes s ! i"] key_in_its_stripe [OF assms]
    by (simp add: insert_at_def go_simps go_update_def case_prod_beta)
  moreover have "well_striped ?s"
    using assms by (auto simp: well_striped_def nth_list_update stripe_insert_keys stripe_index_def)
  moreover have "striped_elems ?s = insert k (striped_elems s)"
    using elems_update_stripe [OF assms(3) stripe_insert_keys(2)] by (simp add: striped_elems_def)
  ultimately show thesis using that by simp
qed

lemma striped_Add_law:
  assumes "striped_ok s"
  shows "\<exists>s'. striped_Add k s = Some (k \<notin> striped_elems s, s') \<and> striped_ok s' \<and>
    striped_elems s' = insert k (striped_elems s)"
proof -
  from assms have ws: "well_striped s" by (simp add: striped_ok_def)
  then obtain i where i: "stripe_index k s = Some (int i)" "i < length (stripes s)"
    using stripe_index_bounds [of s k] by (metis nat_0_le nat_less_iff of_nat_less_iff)
  from ws i obtain s1 where s1: "insert_at (int i) k s = Some (k \<notin> striped_elems s, s1)"
    "well_striped s1" "striped_elems s1 = insert k (striped_elems s)" "sss_count s1 = sss_count s"
    by (rule insert_at_law)
  let ?s = "if k \<notin> striped_elems s then s1\<lparr>sss_count := sss_count s1 + 1\<rparr> else s1"
  have "striped_Add k s = Some (k \<notin> striped_elems s, ?s)"
    by (simp add: striped_Add_def i(1) s1(1))
  moreover have "well_striped ?s" "striped_elems ?s = insert k (striped_elems s)"
    using s1 by (auto simp: well_striped_def striped_elems_def stripe_index_def)
  moreover have "sss_count ?s = of_nat (card (insert k (striped_elems s)))"
    using assms s1(4) finite_striped_elems [OF ws]
    by (simp add: striped_ok_def insert_absorb)
  ultimately show ?thesis by (auto simp: striped_ok_def)
qed

lemma MakeStripedStringSet_ok:
  assumes "0 < n" and "(of_int n :: 32 word) \<noteq> 0"
  shows "\<exists>s. MakeStripedStringSet n = Some s \<and> striped_ok s \<and> striped_elems s = {}"
  using assms
  by (auto simp: MakeStripedStringSet_def striped_ok_def well_striped_def striped_elems_def stripe_keys_def)

text \<open>A possible outcome of \<open>PredRange\<close>: some arrival order of the stripes and some visiting
  order of each stripe's keys give it.\<close>

definition striped_range_of ::
  "StripedStringSet \<Rightarrow> regexp \<Rightarrow> string \<Rightarrow> string \<Rightarrow> string \<Rightarrow> string list option \<Rightarrow> bool" where
  "striped_range_of s mc b e p r \<longleftrightarrow> (\<exists>arrival order.
     distinct arrival \<and> set arrival = {0..<stripeCount s} \<and>
     (\<forall>v \<in> {0..<stripeCount s}. distinct (order v) \<and> set (order v) = stripe_keys (stripes s ! nat v)) \<and>
     r = striped_PredRange mc arrival order b e p s)"

lemma collect_stripes_Some:
  "\<lbrakk>MustCompile pattern = Some re; \<forall>v \<in> set vs. 0 \<le> v \<and> v < len (stripes s)\<rbrakk> \<Longrightarrow>
   collect_stripes MustCompile order b e pattern s vs results =
     Some (results @ concat (map (\<lambda>v. filter (\<lambda>k. re k \<and> b \<le> k \<and> k < e) (order v)) vs))"
  by (induction vs arbitrary: results) (simp_all add: go_simps scan_range_Some)

lemma collect_stripes_None_iff:
  "\<lbrakk>MustCompile pattern = None; \<forall>v \<in> set vs. 0 \<le> v \<and> v < len (stripes s)\<rbrakk> \<Longrightarrow>
   collect_stripes MustCompile order b e pattern s vs results = None \<longleftrightarrow> (\<exists>v \<in> set vs. order v \<noteq> [])"
  by (induction vs arbitrary: results) (simp_all add: go_simps scan_range_None_iff)

lemma striped_elems_at:
  assumes "len (stripes s) = n"
  shows "striped_elems s = (\<Union>v \<in> {0..<n}. stripe_keys (stripes s ! nat v))"
proof -
  have "set (stripes s) = (\<lambda>v. stripes s ! nat v) ` {0..<n}"
  proof (intro set_eqI iffI)
    fix x assume "x \<in> set (stripes s)"
    then obtain i where "i < length (stripes s)" "x = stripes s ! i" by (auto simp: in_set_conv_nth)
    with assms show "x \<in> (\<lambda>v. stripes s ! nat v) ` {0..<n}" by (intro image_eqI [of _ _ "int i"]) auto
  qed (use assms in \<open>auto simp: zless_nat_eq_int_zless\<close>)
  then show ?thesis by (simp add: striped_elems_def)
qed

lemma distinct_stripes:
  assumes "well_striped s" and "v \<in> {0..<stripeCount s}" "w \<in> {0..<stripeCount s}" "v \<noteq> w"
  shows "stripe_keys (stripes s ! nat v) \<inter> stripe_keys (stripes s ! nat w) = {}"
proof -
  have *: "stripe_index k s = Some v"
    if "v \<in> {0..<stripeCount s}" "k \<in> stripe_keys (stripes s ! nat v)" for v k
  proof -
    have "nat v < length (stripes s)"
      using assms(1) that(1) by (simp add: well_striped_def nat_less_iff)
    with assms(1) that(2) have "stripe_index k s = Some (int (nat v))"
      by (simp only: well_striped_def)
    with that show ?thesis by simp
  qed
  show ?thesis using * [OF assms(2)] * [OF assms(3)] assms(4) by fastforce
qed

lemma distinct_concat_map:
  assumes "distinct vs" and "\<And>v. v \<in> set vs \<Longrightarrow> distinct (f v)"
    and "\<And>v w. \<lbrakk>v \<in> set vs; w \<in> set vs; v \<noteq> w\<rbrakk> \<Longrightarrow> set (f v) \<inter> set (f w) = {}"
  shows "distinct (concat (map f vs))"
  using assms by (induction vs) fastforce+

lemma striped_range_law:
  assumes ws: "well_striped s" and "striped_range_of s mc b e p r" and "mc p = Some re"
  shows "\<exists>l. r = Some l \<and> distinct l \<and> set l = {k \<in> striped_elems s. re k \<and> b \<le> k \<and> k < e}"
proof -
  let ?P = "\<lambda>k. re k \<and> b \<le> k \<and> k < e"
  from ws have n: "len (stripes s) = stripeCount s" by (simp add: well_striped_def)
  from assms(2) obtain arrival order where o: "distinct arrival" "set arrival = {0..<stripeCount s}"
    "\<forall>v \<in> {0..<stripeCount s}. distinct (order v) \<and> set (order v) = stripe_keys (stripes s ! nat v)"
    "r = striped_PredRange mc arrival order b e p s"
    unfolding striped_range_of_def by blast
  let ?l = "concat (map (\<lambda>v. filter ?P (order v)) arrival)"
  have "r = Some ?l"
    using o(2,4) n by (simp add: striped_PredRange_def collect_stripes_Some [of mc p re, OF assms(3)])
  moreover have "set ?l = {k \<in> striped_elems s. ?P k}"
    using o(2,3) by (auto simp: striped_elems_at [OF n])
  moreover have "distinct ?l"
  proof (rule distinct_concat_map [OF o(1)])
    fix v w assume "v \<in> set arrival" "w \<in> set arrival" "v \<noteq> w"
    with distinct_stripes [OF ws, of v w] o(2,3)
    show "set (filter ?P (order v)) \<inter> set (filter ?P (order w)) = {}" by fastforce
  qed (use o(2,3) in simp)
  ultimately show ?thesis by blast
qed

lemma striped_range_panic:
  assumes ws: "well_striped s" and "striped_range_of s mc b e p r" and "mc p = None"
  shows "r = None \<longleftrightarrow> striped_elems s \<noteq> {}"
proof -
  from ws have n: "len (stripes s) = stripeCount s" by (simp add: well_striped_def)
  from assms(2) obtain arrival order where o: "set arrival = {0..<stripeCount s}"
    "\<forall>v \<in> {0..<stripeCount s}. set (order v) = stripe_keys (stripes s ! nat v)"
    "r = striped_PredRange mc arrival order b e p s"
    unfolding striped_range_of_def by blast
  have "r = None \<longleftrightarrow> (\<exists>v \<in> {0..<stripeCount s}. order v \<noteq> [])"
    using collect_stripes_None_iff [of mc p arrival s order b e "[]", OF assms(3)] o(1,3) n
    by (simp add: striped_PredRange_def)
  also have "\<dots> \<longleftrightarrow> (\<exists>v \<in> {0..<stripeCount s}. stripe_keys (stripes s ! nat v) \<noteq> {})"
    using o(2) by (metis set_empty2)
  also have "\<dots> \<longleftrightarrow> striped_elems s \<noteq> {}"
    using n by (auto simp: striped_elems_at [OF n])
  finally show ?thesis .
qed

interpretation striped: string_set striped_ok striped_elems striped_Add striped_Count striped_range_of
proof
  show "striped_ok s \<Longrightarrow> card (striped_elems s) < 2 ^ 31 \<Longrightarrow> striped_Count s = int (card (striped_elems s))" for s
    by (simp add: striped_ok_def striped_Count_def sint_of_nat_small)
qed (use striped_Add_law striped_range_law striped_range_panic finite_striped_elems
     in \<open>simp_all add: striped_ok_def\<close>)

end
