(* ===== verification/String_Set_Concurrent.thy ===== *)
theory String_Set_Concurrent
  imports String_Set "HOL-Library.Multiset"
begin

section \<open>Concurrent calls of Add on a striped set\<close>

text \<open>
  Any number of goroutines call \<open>StripedStringSet.Add\<close>. Every access of a call to shared memory is a
  step of its own, so that calls interleave between any two of them: lock the stripe of the key,
  compare its map with nil, make the map, look the key up, store it, add one to the atomic counter,
  unlock and return. Calls are numbered; a goroutine that calls again does so under a new
  number. Two history variables: \<open>hist\<close> is the sequence of calls and returns as the callers see it,
  and \<open>lin\<close> lists the calls in the order in which they took effect, with their keys and answers.

  The lock of the stripe is what makes this work: between the look-up and the store nobody else may
  touch the map. The results are that the calls are linearizable, in the sense of Herlihy and Wing
  with the real-time order of calls, that \<open>Count\<close> is behind by at most one per stripe, and that no
  call blocks another for ever.
\<close>

subsection \<open>The steps of a call\<close>

text \<open>\<open>stripes[i].set\<close>, read and written; nil is \<open>None\<close>.\<close>

definition stripe_map :: "int \<Rightarrow> StripedStringSet \<Rightarrow> (string \<rightharpoonup> bool) option option" where
  "stripe_map i s = map_option stripe_set (go_index (stripes s) i)"

definition set_stripe ::
  "int \<Rightarrow> (string \<rightharpoonup> bool) option \<Rightarrow> StripedStringSet \<Rightarrow> StripedStringSet option" where
  "set_stripe i m s = map_option (\<lambda>ts. s\<lparr>stripes := ts\<rparr>) (go_update (stripes s) i \<lparr>stripe_set = m\<rparr>)"

text \<open>Where a call is: before the lock, before the test for nil, before \<open>make\<close>, before the look-up,
  before the store, before the counter, before the unlocking and the return.\<close>

datatype pc = Idle | Waiting string | Entered string int | Unset string int | Ready string int
  | Missing string int | Inserted string int | Returning string int bool

datatype add_event = Called nat string | Answered nat bool

record adders =
  shared :: StripedStringSet
  holder :: "int \<Rightarrow> nat option"
  pc :: "nat \<Rightarrow> pc"
  hist :: "add_event list"
  lin :: "(nat \<times> string \<times> bool) list"

inductive add_step :: "adders \<Rightarrow> adders \<Rightarrow> bool" where
  call: "\<lbrakk>pc c t = Idle; \<forall>k'. Called t k' \<notin> set (hist c)\<rbrakk> \<Longrightarrow>
    add_step c (c\<lparr>pc := (pc c)(t := Waiting k), hist := hist c @ [Called t k]\<rparr>)"
| lock: "\<lbrakk>pc c t = Waiting k; stripe_index k (shared c) = Some i; holder c i = None\<rbrakk> \<Longrightarrow>
    add_step c (c\<lparr>holder := (holder c)(i \<mapsto> t), pc := (pc c)(t := Entered k i)\<rparr>)"
| test: "\<lbrakk>pc c t = Entered k i; stripe_map i (shared c) = Some m\<rbrakk> \<Longrightarrow>
    add_step c (c\<lparr>pc := (pc c)(t := if m = None then Unset k i else Ready k i)\<rparr>)"
| make: "\<lbrakk>pc c t = Unset k i; set_stripe i (Some Map.empty) (shared c) = Some s\<rbrakk> \<Longrightarrow>
    add_step c (c\<lparr>shared := s, pc := (pc c)(t := Ready k i)\<rparr>)"
| found: "\<lbrakk>pc c t = Ready k i; stripe_map i (shared c) = Some (Some m); m k \<noteq> None\<rbrakk> \<Longrightarrow>
    add_step c (c\<lparr>pc := (pc c)(t := Returning k i False), lin := lin c @ [(t, k, False)]\<rparr>)"
| absent: "\<lbrakk>pc c t = Ready k i; stripe_map i (shared c) = Some (Some m); m k = None\<rbrakk> \<Longrightarrow>
    add_step c (c\<lparr>pc := (pc c)(t := Missing k i)\<rparr>)"
| store: "\<lbrakk>pc c t = Missing k i; stripe_map i (shared c) = Some (Some m);
      set_stripe i (Some (m(k \<mapsto> True))) (shared c) = Some s\<rbrakk> \<Longrightarrow>
    add_step c (c\<lparr>shared := s, pc := (pc c)(t := Inserted k i), lin := lin c @ [(t, k, True)]\<rparr>)"
| count: "pc c t = Inserted k i \<Longrightarrow>
    add_step c (c\<lparr>shared := (shared c)\<lparr>sss_count := sss_count (shared c) + 1\<rparr>,
      pc := (pc c)(t := Returning k i True)\<rparr>)"
| unlock: "pc c t = Returning k i b \<Longrightarrow>
    add_step c (c\<lparr>holder := (holder c)(i := None), pc := (pc c)(t := Idle),
      hist := hist c @ [Answered t b]\<rparr>)"

definition adders_init :: "StripedStringSet \<Rightarrow> adders" where
  "adders_init s = \<lparr>shared = s, holder = \<lambda>_. None, pc = \<lambda>_. Idle, hist = [], lin = []\<rparr>"

inductive adders_reachable :: "int \<Rightarrow> adders \<Rightarrow> bool" where
  start: "MakeStripedStringSet n = Some s \<Longrightarrow> adders_reachable n (adders_init s)"
| step: "adders_reachable n c \<Longrightarrow> add_step c c' \<Longrightarrow> adders_reachable n c'"

subsection \<open>What linearizable means\<close>

text \<open>\<open>x\<close> comes before \<open>y\<close> in a list.\<close>

definition before :: "'a \<Rightarrow> 'a \<Rightarrow> 'a list \<Rightarrow> bool" where
  "before x y xs \<longleftrightarrow> (\<exists>as bs cs. xs = as @ x # bs @ y # cs)"

text \<open>A sequential run of calls explains a history when its answers are those of a set that is empty at the
  start, every call occurs at most once and with its own key, every call that has returned occurs
  with the answer it returned, and a call that had returned before another one began comes before it.\<close>

definition explains :: "(nat \<times> string \<times> bool) list \<Rightarrow> add_event list \<Rightarrow> bool" where
  "explains l h \<longleftrightarrow>
     map (snd \<circ> snd) l = first_seen {} (map (fst \<circ> snd) l) \<and>
     distinct (map fst l) \<and>
     (\<forall>t k b. (t, k, b) \<in> set l \<longrightarrow> Called t k \<in> set h) \<and>
     (\<forall>t k b. Called t k \<in> set h \<and> Answered t b \<in> set h \<longrightarrow> (t, k, b) \<in> set l) \<and>
     (\<forall>t b u k b'. before (Answered t b) (Called u k) h \<and> (u, k, b') \<in> set l \<longrightarrow> before t u (map fst l))"

lemma before_in: "before x y xs \<Longrightarrow> x \<in> set xs \<and> y \<in> set xs"
  by (auto simp: before_def)

lemma before_append: "before x y xs \<Longrightarrow> before x y (xs @ ys)"
  by (auto simp: before_def) (metis append_Cons append_assoc)

lemma before_snoc:
  "before x y (xs @ [z]) \<longleftrightarrow> before x y xs \<or> x \<in> set xs \<and> y = z"
proof
  assume "before x y (xs @ [z])"
  then obtain as bs cs where s: "xs @ [z] = as @ x # bs @ y # cs" by (auto simp: before_def)
  show "before x y xs \<or> x \<in> set xs \<and> y = z"
  proof (cases cs rule: rev_cases)
    case Nil
    with s have "xs @ [z] = (as @ x # bs) @ [y]" by simp
    then have "xs = as @ x # bs" "z = y" by (simp_all only: append1_eq_conv)
    then show ?thesis by simp
  next
    case (snoc cs' w)
    with s have "xs @ [z] = (as @ x # bs @ y # cs') @ [w]" by simp
    then have "xs = as @ x # bs @ y # cs'" by (simp only: append1_eq_conv)
    then show ?thesis by (auto simp: before_def)
  qed
next
  assume "before x y xs \<or> x \<in> set xs \<and> y = z"
  then show "before x y (xs @ [z])"
  proof
    assume "x \<in> set xs \<and> y = z"
    then obtain as bs where "xs = as @ x # bs" "y = z" by (auto simp: in_set_conv_decomp)
    then have "xs @ [z] = as @ x # bs @ y # []" by simp
    then show ?thesis unfolding before_def by blast
  qed (rule before_append)
qed

lemma first_seen_append:
  "first_seen S (xs @ ys) = first_seen S xs @ first_seen (S \<union> set xs) ys"
  by (induction xs arbitrary: S) simp_all


subsection \<open>Stripes\<close>

definition keys_of :: "(string \<rightharpoonup> bool) option \<Rightarrow> string set" where
  "keys_of m = (case m of None \<Rightarrow> {} | Some f \<Rightarrow> dom f)"

lemma keys_of_simps [simp]: "keys_of None = {}" "keys_of (Some f) = dom f"
  by (simp_all add: keys_of_def)

lemma stripe_keys_of: "stripe_keys t = keys_of (stripe_set t)"
  by (simp add: stripe_keys_def keys_of_def)

lemma stripe_in_range:
  assumes "well_striped s" and "stripe_index k s = Some i"
  obtains j where "i = int j" "j < length (stripes s)" "stripe_index k s = Some (int j)"
  using stripe_index_bounds [OF assms(1), of k] assms(2) that [of "nat i"] by (auto simp: nat_less_iff)

lemma stripe_map_at: "j < length (stripes s) \<Longrightarrow> stripe_map (int j) s = Some (stripe_set (stripes s ! j))"
  by (simp add: stripe_map_def go_simps)

lemma set_stripe_at:
  "j < length (stripes s) \<Longrightarrow> set_stripe (int j) m s = Some (s\<lparr>stripes := (stripes s)[j := \<lparr>stripe_set = m\<rparr>]\<rparr>)"
  by (simp add: set_stripe_def go_update_in)

lemma set_stripe_other: "set_stripe i m s = Some s' \<Longrightarrow> i' \<noteq> i \<Longrightarrow> stripe_map i' s' = stripe_map i' s"
  by (auto simp: set_stripe_def stripe_map_def go_update_Some_iff go_index_def)

lemma set_stripe_same: "set_stripe i m s = Some s' \<Longrightarrow> stripe_map i s' = Some m"
  by (auto simp: set_stripe_def stripe_map_def go_update_Some_iff go_index_def)

lemma set_stripe_frame:
  "set_stripe i m s = Some s' \<Longrightarrow> stripeCount s' = stripeCount s \<and> sss_count s' = sss_count s"
  by (auto simp: set_stripe_def)

lemma counted [simp]:
  "well_striped (s\<lparr>sss_count := n\<rparr>) = well_striped s" "stripe_index k (s\<lparr>sss_count := n\<rparr>) = stripe_index k s"
  "stripe_map i (s\<lparr>sss_count := n\<rparr>) = stripe_map i s" "striped_elems (s\<lparr>sss_count := n\<rparr>) = striped_elems s"
  by (simp_all add: well_striped_def stripe_index_def stripe_map_def striped_elems_def)

text \<open>Writing a map that has the old keys, and perhaps one more that belongs to the stripe.\<close>

lemma set_stripe_law:
  assumes ws: "well_striped s" and i: "stripe_index k s = Some i" and old: "stripe_map i s = Some m"
    and new: "set_stripe i m' s = Some s'"
    and keys: "keys_of m \<subseteq> keys_of m'" "keys_of m' \<subseteq> insert k (keys_of m)"
  shows "well_striped s'" "striped_elems s' = striped_elems s \<union> (keys_of m' - keys_of m)"
proof -
  obtain j where j: "i = int j" "j < length (stripes s)" "stripe_index k s = Some (int j)"
    using stripe_in_range [OF ws i] .
  have m: "m = stripe_set (stripes s ! j)" using old j by (simp add: stripe_map_at)
  have s': "s' = s\<lparr>stripes := (stripes s)[j := \<lparr>stripe_set = m'\<rparr>]\<rparr>" using new j by (simp add: set_stripe_at)
  show "well_striped s'"
    using ws keys j(2,3) unfolding s' m
    by (auto simp: well_striped_def nth_list_update stripe_keys_of stripe_index_def intro: finite_subset)
  have "set (stripes s') = insert \<lparr>stripe_set = m'\<rparr> (set (take j (stripes s)) \<union> set (drop (Suc j) (stripes s)))"
    using j(2) by (simp add: s' upd_conv_take_nth_drop)
  moreover have "set (stripes s) = insert (stripes s ! j) (set (take j (stripes s)) \<union> set (drop (Suc j) (stripes s)))"
    using id_take_nth_drop [OF j(2)] by (metis Un_insert_right list.simps(15) set_append)
  ultimately show "striped_elems s' = striped_elems s \<union> (keys_of m' - keys_of m)"
    using keys(1) unfolding striped_elems_def m by (auto simp: stripe_keys_of)
qed

lemma key_in_stripe_map:
  assumes "well_striped s" and "stripe_index k s = Some i" and "stripe_map i s = Some m"
  shows "k \<in> striped_elems s \<longleftrightarrow> k \<in> keys_of m"
proof -
  obtain j where "i = int j" "j < length (stripes s)" "stripe_index k s = Some (int j)"
    using stripe_in_range [OF assms(1,2)] .
  with key_in_its_stripe [OF assms(1), of k j] assms(3) show ?thesis by (simp add: stripe_map_at stripe_keys_of)
qed

subsection \<open>The invariants\<close>

text \<open>Where a call is: the stripe whose lock it holds, its key, its effect, whether the counter still
  lacks it, and what it knows of its stripe.\<close>

fun stripe_of :: "pc \<Rightarrow> (string \<times> int) option" where
  "stripe_of Idle = None"
| "stripe_of (Waiting k) = None"
| "stripe_of (Entered k i) = Some (k, i)"
| "stripe_of (Unset k i) = Some (k, i)"
| "stripe_of (Ready k i) = Some (k, i)"
| "stripe_of (Missing k i) = Some (k, i)"
| "stripe_of (Inserted k i) = Some (k, i)"
| "stripe_of (Returning k i b) = Some (k, i)"

fun key_of :: "pc \<Rightarrow> string option" where
  "key_of (Waiting k) = Some k"
| "key_of p = map_option fst (stripe_of p)"

fun outcome :: "pc \<Rightarrow> (string \<times> bool) option" where
  "outcome (Inserted k i) = Some (k, True)"
| "outcome (Returning k i b) = Some (k, b)"
| "outcome _ = None"

fun uncounted :: "pc \<Rightarrow> bool" where
  "uncounted (Inserted k i) = True"
| "uncounted _ = False"

fun knows :: "pc \<Rightarrow> StripedStringSet \<Rightarrow> bool" where
  "knows (Unset k i) s = (stripe_map i s = Some None)"
| "knows (Ready k i) s = (\<exists>m. stripe_map i s = Some (Some m))"
| "knows (Missing k i) s = (\<exists>m. stripe_map i s = Some (Some m) \<and> m k = None)"
| "knows _ s = True"

definition behind :: "adders \<Rightarrow> nat set" where
  "behind c = {t. uncounted (pc c t)}"

text \<open>The lock is held exactly by the call that is in the stripe, so what that call knows stays true.\<close>

definition lock_inv :: "adders \<Rightarrow> bool" where
  "lock_inv c \<longleftrightarrow> well_striped (shared c) \<and>
     (\<forall>t k i. stripe_of (pc c t) = Some (k, i) \<longrightarrow> holder c i = Some t \<and> stripe_index k (shared c) = Some i) \<and>
     (\<forall>i t. holder c i = Some t \<longrightarrow> (\<exists>k. stripe_of (pc c t) = Some (k, i))) \<and>
     (\<forall>t. knows (pc c t) (shared c))"

definition count_inv :: "adders \<Rightarrow> bool" where
  "count_inv c \<longleftrightarrow> finite {t. pc c t \<noteq> Idle} \<and>
     sss_count (shared c) + of_nat (card (behind c)) = of_nat (card (striped_elems (shared c)))"

definition hist_inv :: "adders \<Rightarrow> bool" where
  "hist_inv c \<longleftrightarrow> explains (lin c) (hist c) \<and>
     striped_elems (shared c) = (fst \<circ> snd) ` set (lin c) \<and>
     (\<forall>t k k'. Called t k \<in> set (hist c) \<and> Called t k' \<in> set (hist c) \<longrightarrow> k = k') \<and>
     (\<forall>t b. Answered t b \<in> set (hist c) \<longrightarrow> pc c t = Idle \<and> (\<exists>k. Called t k \<in> set (hist c))) \<and>
     (\<forall>t k. key_of (pc c t) = Some k \<longrightarrow> Called t k \<in> set (hist c)) \<and>
     (\<forall>t k b. outcome (pc c t) = Some (k, b) \<longrightarrow> (t, k, b) \<in> set (lin c)) \<and>
     (\<forall>t k b. (t, k, b) \<in> set (lin c) \<longrightarrow> outcome (pc c t) = Some (k, b) \<or> Answered t b \<in> set (hist c))"

lemma lock_invD:
  assumes "lock_inv c"
  shows "well_striped (shared c)"
    "\<And>t k i. stripe_of (pc c t) = Some (k, i) \<Longrightarrow> holder c i = Some t \<and> stripe_index k (shared c) = Some i"
    "\<And>t i. holder c i = Some t \<Longrightarrow> \<exists>k. stripe_of (pc c t) = Some (k, i)"
    "\<And>t. knows (pc c t) (shared c)"
  using assms unfolding lock_inv_def by blast+

lemma knows_cong:
  "(\<And>k i. stripe_of p = Some (k, i) \<Longrightarrow> stripe_map i s' = stripe_map i s) \<Longrightarrow> knows p s' = knows p s"
  by (cases p) auto

text \<open>A step of the call \<open>t\<close> keeps the lock invariant when it takes or gives up only its own lock and
  touches no other stripe.\<close>

lemma lock_inv_step:
  assumes inv: "lock_inv c" and upd: "pc c' = (pc c)(t := p)"
    and ws: "well_striped (shared c')" "stripeCount (shared c') = stripeCount (shared c)"
    and mine: "\<And>k i. stripe_of p = Some (k, i) \<Longrightarrow> holder c' i = Some t \<and> stripe_index k (shared c') = Some i"
    and others: "\<And>i t'. t' \<noteq> t \<Longrightarrow> holder c' i = Some t' \<longleftrightarrow> holder c i = Some t'"
    and owned: "\<And>i. holder c' i = Some t \<Longrightarrow> \<exists>k. stripe_of p = Some (k, i)"
    and known: "knows p (shared c')"
    and apart: "\<And>i t'. t' \<noteq> t \<Longrightarrow> holder c i = Some t' \<Longrightarrow> stripe_map i (shared c') = stripe_map i (shared c)"
  shows "lock_inv c'"
proof -
  note I = lock_invD [OF inv]
  have "holder c' i = Some t' \<and> stripe_index k (shared c') = Some i"
    if "stripe_of (pc c' t') = Some (k, i)" for t' k i
  proof (cases "t' = t")
    case False
    with that upd have "stripe_of (pc c t') = Some (k, i)" by simp
    from I(2) [OF this] others [OF False] stripe_index_cong [OF ws(2)] show ?thesis by simp
  qed (use that upd mine in auto)
  moreover have "\<exists>k. stripe_of (pc c' t') = Some (k, i)" if "holder c' i = Some t'" for t' i
  proof (cases "t' = t")
    case False
    with that others have "holder c i = Some t'" by blast
    from I(3) [OF this] False upd show ?thesis by simp
  qed (use that upd owned in auto)
  moreover have "knows (pc c' t') (shared c')" for t'
  proof (cases "t' = t")
    case False
    have "knows (pc c t') (shared c') = knows (pc c t') (shared c)"
      using I(2) [of t'] apart [OF False] by (intro knows_cong) blast
    with I(4) [of t'] False upd show ?thesis by simp
  qed (use upd known in auto)
  ultimately show ?thesis unfolding lock_inv_def using ws(1) by blast
qed

lemma inside:
  assumes "lock_inv c" and "stripe_of (pc c t) = Some (k, i)"
  shows "stripe_index k (shared c) = Some i" "\<And>j. holder c j = Some t \<longleftrightarrow> j = i"
    "\<And>j t'. t' \<noteq> t \<Longrightarrow> holder c j = Some t' \<Longrightarrow> j \<noteq> i"
proof -
  note own = lock_invD(2) [OF assms]
  then show "stripe_index k (shared c) = Some i" by blast
  show "holder c j = Some t \<longleftrightarrow> j = i" for j
    using own lock_invD(3) [OF assms(1), of j t] assms(2) by auto
  show "j \<noteq> i" if "t' \<noteq> t" "holder c j = Some t'" for j t' using own that by auto
qed

lemma add_step_lock_inv:
  assumes "add_step c c'" and inv: "lock_inv c"
  shows "lock_inv c'"
  using assms(1)
proof cases
  case (call t k)
  have "holder c i \<noteq> Some t" for i using lock_invD(3) [OF inv, of i t] call(2) by auto
  with lock_invD(1) [OF inv] show ?thesis
    by (intro lock_inv_step [OF inv, of c' t "Waiting k"]) (simp_all add: call(1))
next
  case (lock t k i)
  have "holder c j \<noteq> Some t" for j using lock_invD(3) [OF inv, of j t] lock(2) by auto
  with lock lock_invD(1) [OF inv] show ?thesis
    by (intro lock_inv_step [OF inv, of c' t "Entered k i"]) (simp_all split: if_splits)
next
  case (test t k i m)
  have at: "stripe_of (pc c t) = Some (k, i)" by (simp add: test)
  show ?thesis
    using test inside [OF inv at] lock_invD(1) [OF inv]
    by (intro lock_inv_step [OF inv, of c' t "if m = None then Unset k i else Ready k i"])
      (simp_all split: if_splits)
next
  case (make t k i s)
  have at: "stripe_of (pc c t) = Some (k, i)" by (simp add: make)
  have nil: "stripe_map i (shared c) = Some None" using lock_invD(4) [OF inv, of t] make(2) by simp
  note law = set_stripe_law [OF lock_invD(1) [OF inv] inside(1) [OF inv at] nil make(3)]
  show ?thesis
    using inside [OF inv at] law set_stripe_frame [OF make(3)] set_stripe_same [OF make(3)]
      set_stripe_other [OF make(3)]
    by (intro lock_inv_step [OF inv, of c' t "Ready k i"]) (auto simp: make(1,2) stripe_index_def)
next
  case (found t k i m)
  have at: "stripe_of (pc c t) = Some (k, i)" by (simp add: found)
  show ?thesis
    using inside [OF inv at] lock_invD(1) [OF inv]
    by (intro lock_inv_step [OF inv, of c' t "Returning k i False"]) (simp_all add: found(1))
next
  case (absent t k i m)
  have at: "stripe_of (pc c t) = Some (k, i)" by (simp add: absent)
  show ?thesis
    using absent inside [OF inv at] lock_invD(1) [OF inv]
    by (intro lock_inv_step [OF inv, of c' t "Missing k i"]) simp_all
next
  case (store t k i m s)
  have at: "stripe_of (pc c t) = Some (k, i)" by (simp add: store)
  note law = set_stripe_law [OF lock_invD(1) [OF inv] inside(1) [OF inv at] store(3,4)]
  show ?thesis
    using inside [OF inv at] law set_stripe_frame [OF store(4)] set_stripe_other [OF store(4)]
    by (intro lock_inv_step [OF inv, of c' t "Inserted k i"]) (auto simp: store(1,2) stripe_index_def)
next
  case (count t k i)
  have at: "stripe_of (pc c t) = Some (k, i)" by (simp add: count)
  show ?thesis
    using inside [OF inv at] lock_invD(1) [OF inv]
    by (intro lock_inv_step [OF inv, of c' t "Returning k i True"])
      (simp_all add: count(1))
next
  case (unlock t k i b)
  have at: "stripe_of (pc c t) = Some (k, i)" by (simp add: unlock)
  show ?thesis
    using inside [OF inv at] lock_invD(1) [OF inv]
    by (intro lock_inv_step [OF inv, of c' t Idle]) (auto simp: unlock(1) split: if_splits)
qed

lemma card_update:
  assumes "finite {t. P (f t)}"
  shows "card {u. P ((f(t := p)) u)} + (if P (f t) then 1 else 0) = card {u. P (f u)} + (if P p then 1 else 0)"
proof -
  have "{u. P ((f(t := p)) u)} = (if P p then insert t {u. P (f u)} else {u. P (f u)} - {t})" by auto
  with assms card_Suc_Diff1 [OF assms, of t] show ?thesis by (auto simp: card_insert_if)
qed

lemma finite_busy_update: "finite {t. f t \<noteq> Idle} \<Longrightarrow> finite {u. (f(t := p)) u \<noteq> Idle}"
  by (rule finite_subset [of _ "insert t {t. f t \<noteq> Idle}"]) auto

lemma finite_behind: "finite {t. pc c t \<noteq> Idle} \<Longrightarrow> finite (behind c)"
  unfolding behind_def by (rule rev_finite_subset) auto

text \<open>The counter and the calls that still have to add to it balance the number of keys.\<close>

lemma balance:
  fixes n :: "'a::comm_ring_1"
  assumes "n + b = e" and "n' + e + p = n + e' + u" and "b' + u = b + p"
  shows "n' + b' = e'"
proof -
  have "(n' + b') + (e + p + u) = (n' + e + p) + (b' + u)" by (simp add: algebra_simps)
  also have "\<dots> = (n + b) + (e' + u + p)" unfolding assms(2,3) by (simp add: algebra_simps)
  also have "\<dots> = e' + (e + p + u)" unfolding assms(1) by (simp add: algebra_simps)
  finally show ?thesis by (simp only: add_right_cancel)
qed

lemma count_inv_step:
  assumes inv: "count_inv c" and upd: "pc c' = (pc c)(t := p)"
    and bal: "sss_count (shared c') + of_nat (card (striped_elems (shared c))) + (if uncounted p then 1 else 0) =
      sss_count (shared c) + of_nat (card (striped_elems (shared c'))) + (if uncounted (pc c t) then 1 else 0)"
  shows "count_inv c'"
proof -
  have fin: "finite {t. pc c t \<noteq> Idle}" using inv by (simp add: count_inv_def)
  then have "finite {t. uncounted (pc c t)}" using finite_behind [of c] by (simp add: behind_def)
  from card_update [of uncounted, OF this, of t p]
  have "card (behind c') + (if uncounted (pc c t) then 1 else 0) = card (behind c) + (if uncounted p then 1 else 0)"
    by (simp add: behind_def upd)
  then have "(of_nat (card (behind c') + (if uncounted (pc c t) then 1 else 0)) :: 32 word) =
      of_nat (card (behind c) + (if uncounted p then 1 else 0))"
    by (simp only:)
  then have b: "(of_nat (card (behind c')) + (if uncounted (pc c t) then 1 else 0) :: 32 word) =
      of_nat (card (behind c)) + (if uncounted p then 1 else 0)"
    by (cases "uncounted p"; cases "uncounted (pc c t)")
      (simp_all only: if_True if_False of_nat_add semiring_1_class.of_nat_1 semiring_1_class.of_nat_0)
  have e: "sss_count (shared c) + of_nat (card (behind c)) = of_nat (card (striped_elems (shared c)))"
    using inv by (simp add: count_inv_def)
  note balance [OF e bal b]
  with finite_busy_update [OF fin, of t p] upd show ?thesis by (simp add: count_inv_def)
qed

lemma add_step_count_inv:
  assumes "add_step c c'" and lock: "lock_inv c" and inv: "count_inv c"
  shows "count_inv c'"
  using assms(1)
proof cases
  case (make t k i s)
  have at: "stripe_of (pc c t) = Some (k, i)" by (simp add: make)
  have nil: "stripe_map i (shared c) = Some None" using lock_invD(4) [OF lock, of t] make(2) by simp
  note law = set_stripe_law [OF lock_invD(1) [OF lock] inside(1) [OF lock at] nil make(3)]
  show ?thesis
    using law(2) set_stripe_frame [OF make(3)] by (intro count_inv_step [OF inv, of c' t "Ready k i"]) (simp_all add: make(1,2))
next
  case (store t k i m s)
  have at: "stripe_of (pc c t) = Some (k, i)" by (simp add: store)
  note law = set_stripe_law [OF lock_invD(1) [OF lock] inside(1) [OF lock at] store(3,4)]
  have new: "k \<notin> striped_elems (shared c)"
    using lock_invD(4) [OF lock, of t] key_in_stripe_map [OF lock_invD(1) [OF lock] inside(1) [OF lock at] store(3)]
    by (auto simp: store(2,3))
  have "m k = None" using lock_invD(4) [OF lock, of t] store(2,3) by simp
  then have "striped_elems s = insert k (striped_elems (shared c))" using law(2) by auto
  then show ?thesis
    using new finite_striped_elems [OF lock_invD(1) [OF lock]] set_stripe_frame [OF store(4)]
    by (intro count_inv_step [OF inv, of c' t "Inserted k i"]) (simp_all add: store(1,2))
next
  case (test t k i m)
  then show ?thesis by (intro count_inv_step [OF inv, of c' t "if m = None then Unset k i else Ready k i"]) simp_all
next
  case (call t k)
  then show ?thesis by (intro count_inv_step [OF inv, of c' t "Waiting k"]) simp_all
next
  case (lock t k i)
  then show ?thesis by (intro count_inv_step [OF inv, of c' t "Entered k i"]) simp_all
next
  case (found t k i m)
  then show ?thesis by (intro count_inv_step [OF inv, of c' t "Returning k i False"]) simp_all
next
  case (absent t k i m)
  then show ?thesis by (intro count_inv_step [OF inv, of c' t "Missing k i"]) simp_all
next
  case (count t k i)
  then show ?thesis by (intro count_inv_step [OF inv, of c' t "Returning k i True"]) simp_all
next
  case (unlock t k i b)
  then show ?thesis by (intro count_inv_step [OF inv, of c' t Idle]) simp_all
qed

subsection \<open>The history is explained\<close>

lemma explainsD:
  assumes "explains l h"
  shows "map (snd \<circ> snd) l = first_seen {} (map (fst \<circ> snd) l)" "distinct (map fst l)"
    "\<And>t k b. (t, k, b) \<in> set l \<Longrightarrow> Called t k \<in> set h"
    "\<And>t k b. Called t k \<in> set h \<Longrightarrow> Answered t b \<in> set h \<Longrightarrow> (t, k, b) \<in> set l"
    "\<And>t b u k b'. before (Answered t b) (Called u k) h \<Longrightarrow> (u, k, b') \<in> set l \<Longrightarrow> before t u (map fst l)"
  using assms unfolding explains_def by blast+

text \<open>A new call has not taken effect, and nothing is known of calls after it.\<close>

lemma explains_call:
  assumes "explains l h" and "\<forall>k'. Called t k' \<notin> set h" and "\<forall>b. Answered t b \<notin> set h"
  shows "explains l (h @ [Called t k])"
  unfolding explains_def
proof (intro conjI allI impI)
  show "before x u (map fst l)"
    if "before (Answered x b) (Called u k') (h @ [Called t k]) \<and> (u, k', b') \<in> set l" for x b u k' b'
  proof -
    from that explainsD(3) [OF assms(1)] assms(2) have "u \<noteq> t" by blast
    with that have "before (Answered x b) (Called u k') h" by (simp add: before_snoc)
    with that explainsD(5) [OF assms(1)] show ?thesis by blast
  qed
qed (use assms explainsD(1-4) [OF assms(1)] in auto)

text \<open>A call takes effect: its answer is that of the set, and all calls that have returned are before it.\<close>

lemma explains_effect:
  assumes "explains l h" and "t \<notin> set (map fst l)" and "Called t k \<in> set h"
    and "b = (k \<notin> (fst \<circ> snd) ` set l)" and "\<And>u b. Answered u b \<in> set h \<Longrightarrow> u \<in> set (map fst l)"
  shows "explains (l @ [(t, k, b)]) h"
  unfolding explains_def
proof (intro conjI allI impI)
  show "map (snd \<circ> snd) (l @ [(t, k, b)]) = first_seen {} (map (fst \<circ> snd) (l @ [(t, k, b)]))"
    using explainsD(1) [OF assms(1)] assms(4) by (simp add: first_seen_append)
  show "distinct (map fst (l @ [(t, k, b)]))" using explainsD(2) [OF assms(1)] assms(2) by simp
  show "before x u (map fst (l @ [(t, k, b)]))"
    if h: "before (Answered x a) (Called u k') h \<and> (u, k', a') \<in> set (l @ [(t, k, b)])" for x a u k' a'
  proof (cases "(u, k', a') \<in> set l")
    case True
    with h explainsD(5) [OF assms(1)] have "before x u (map fst l)" by blast
    then show ?thesis by (simp add: before_append)
  next
    case False
    with h have "u = t" by simp
    moreover have "x \<in> set (map fst l)" using h before_in assms(5) by fast
    ultimately show ?thesis by (simp add: before_snoc)
  qed
qed (use assms(3) explainsD(3,4) [OF assms(1)] in auto)

lemma explains_return:
  assumes "explains l h" and "(t, k, b) \<in> set l" and "\<And>k'. Called t k' \<in> set h \<Longrightarrow> k' = k"
  shows "explains l (h @ [Answered t b])"
  unfolding explains_def
proof (intro conjI allI impI)
  show "before x u (map fst l)"
    if "before (Answered x a) (Called u k') (h @ [Answered t b]) \<and> (u, k', a') \<in> set l" for x a u k' a'
  proof -
    from that have "before (Answered x a) (Called u k') h" by (simp add: before_snoc)
    with that explainsD(5) [OF assms(1)] show ?thesis by blast
  qed
qed (use assms explainsD(1-4) [OF assms(1)] in auto)

lemma hist_invD:
  assumes "hist_inv c"
  shows "explains (lin c) (hist c)" "striped_elems (shared c) = (fst \<circ> snd) ` set (lin c)"
    "\<And>t k k'. Called t k \<in> set (hist c) \<Longrightarrow> Called t k' \<in> set (hist c) \<Longrightarrow> k = k'"
    "\<And>t b. Answered t b \<in> set (hist c) \<Longrightarrow> pc c t = Idle \<and> (\<exists>k. Called t k \<in> set (hist c))"
    "\<And>t k. key_of (pc c t) = Some k \<Longrightarrow> Called t k \<in> set (hist c)"
    "\<And>t k b. outcome (pc c t) = Some (k, b) \<Longrightarrow> (t, k, b) \<in> set (lin c)"
    "\<And>t k b. (t, k, b) \<in> set (lin c) \<Longrightarrow> outcome (pc c t) = Some (k, b) \<or> Answered t b \<in> set (hist c)"
  using assms unfolding hist_inv_def by blast+

lemma key_of_None: "key_of p = None \<longleftrightarrow> p = Idle"
  by (cases p) auto

lemma outcome_key: "outcome p = Some (k, b) \<Longrightarrow> key_of p = Some k"
  by (cases p) auto

text \<open>A call moves on without an effect.\<close>

lemma hist_inv_quiet:
  assumes inv: "hist_inv c" and upd: "pc c' = (pc c)(t := p)" and same: "hist c' = hist c" "lin c' = lin c"
    and elems: "striped_elems (shared c') = striped_elems (shared c)"
    and p: "key_of p = key_of (pc c t)" "outcome p = outcome (pc c t)" "pc c t \<noteq> Idle"
  shows "hist_inv c'"
proof -
  have "key_of (pc c' u) = key_of (pc c u)" "outcome (pc c' u) = outcome (pc c u)"
    "pc c' u = Idle \<longleftrightarrow> pc c u = Idle" for u
    using p key_of_None [of p] key_of_None [of "pc c t"] by (simp_all add: upd)
  with inv show ?thesis unfolding hist_inv_def same elems by simp
qed

lemma hist_inv_effect:
  assumes inv: "hist_inv c" and upd: "pc c' = (pc c)(t := p)"
    and same: "hist c' = hist c" "lin c' = lin c @ [(t, k, b)]"
    and at: "key_of (pc c t) = Some k" "outcome (pc c t) = None" "outcome p = Some (k, b)"
    and elems: "b = (k \<notin> striped_elems (shared c))" "striped_elems (shared c') = insert k (striped_elems (shared c))"
  shows "hist_inv c'"
proof -
  note I = hist_invD [OF inv]
  have busy: "pc c t \<noteq> Idle" using at(1) by auto
  then have silent: "Answered t b' \<notin> set (hist c)" for b' using I(4) by blast
  have new: "t \<notin> set (map fst (lin c))"
  proof
    assume "t \<in> set (map fst (lin c))"
    then obtain k' b' where "(t, k', b') \<in> set (lin c)" by auto
    from I(7) [OF this] silent at(2) show False by simp
  qed
  have effective: "u \<in> set (map fst (lin c))" if a: "Answered u b' \<in> set (hist c)" for u b'
  proof -
    from I(4) [OF a] obtain k' where "Called u k' \<in> set (hist c)" by blast
    from explainsD(4) [OF I(1) this a] show ?thesis by force
  qed
  have b: "b = (k \<notin> (fst \<circ> snd) ` set (lin c))" using elems(1) I(2) by simp
  have "explains (lin c') (hist c')"
    unfolding same using explains_effect [OF I(1) new I(5) [OF at(1)] b effective] .
  moreover have "striped_elems (shared c') = (fst \<circ> snd) ` set (lin c')" by (simp add: same elems(2) I(2))
  moreover have "key_of p = Some k" using outcome_key [OF at(3)] .
  moreover have "p \<noteq> Idle" using at(3) by auto
  ultimately show ?thesis
    unfolding hist_inv_def same(1) upd
  proof (intro conjI allI impI)
    fix u k' b' assume "outcome (((pc c)(t := p)) u) = Some (k', b')"
    with I(6) at(3) show "(u, k', b') \<in> set (lin c')" by (cases "u = t") (auto simp: same(2))
  next
    fix u k' b' assume "(u, k', b') \<in> set (lin c')"
    with I(7) [of u k' b'] new at(3)
    show "outcome (((pc c)(t := p)) u) = Some (k', b') \<or> Answered u b' \<in> set (hist c)"
      by (cases "u = t") (force simp: same(2))+
  next
    fix u k' assume "key_of p = Some k" "key_of (((pc c)(t := p)) u) = Some k'"
    with I(5) at(1) show "Called u k' \<in> set (hist c)" by (cases "u = t") auto
  next
    fix u b' assume "Answered u b' \<in> set (hist c)"
    with I(4) silent show "((pc c)(t := p)) u = Idle" "\<exists>k. Called u k \<in> set (hist c)"
      by (cases "u = t"; auto)+
  qed (use I(3) in blast)+
qed

lemma add_step_hist_inv:
  assumes "add_step c c'" and lock: "lock_inv c" and inv: "hist_inv c"
  shows "hist_inv c'"
  using assms(1)
proof cases
  case (call t k)
  note I = hist_invD [OF inv]
  have silent: "Answered t b \<notin> set (hist c)" for b using I(4) call(3) by blast
  then have "explains (lin c') (hist c')" using explains_call [OF I(1) call(3)] by (simp add: call(1))
  moreover have "(t, k', b) \<notin> set (lin c)" for k' b using explainsD(3) [OF I(1)] call(3) by blast
  moreover have "outcome (pc c t) = None" by (simp add: call)
  ultimately show ?thesis using I silent call(3) unfolding hist_inv_def by (auto simp: call(1,2))
next
  case (lock t k i)
  then show ?thesis by (intro hist_inv_quiet [OF inv, of c' t "Entered k i"]) simp_all
next
  case (test t k i m)
  then show ?thesis by (intro hist_inv_quiet [OF inv, of c' t "if m = None then Unset k i else Ready k i"]) simp_all
next
  case (make t k i s)
  have at: "stripe_of (pc c t) = Some (k, i)" by (simp add: make)
  have nil: "stripe_map i (shared c) = Some None" using lock_invD(4) [OF lock, of t] make(2) by simp
  note law = set_stripe_law [OF lock_invD(1) [OF lock] inside(1) [OF lock at] nil make(3)]
  from make law(2) show ?thesis by (intro hist_inv_quiet [OF inv, of c' t "Ready k i"]) simp_all
next
  case (found t k i m)
  have at: "stripe_of (pc c t) = Some (k, i)" by (simp add: found)
  have "k \<in> striped_elems (shared c)"
    using key_in_stripe_map [OF lock_invD(1) [OF lock] inside(1) [OF lock at] found(3)] found(4) by auto
  with found show ?thesis
    by (intro hist_inv_effect [OF inv, of c' t "Returning k i False" k False]) (simp_all add: insert_absorb)
next
  case (absent t k i m)
  then show ?thesis by (intro hist_inv_quiet [OF inv, of c' t "Missing k i"]) simp_all
next
  case (store t k i m s)
  have at: "stripe_of (pc c t) = Some (k, i)" by (simp add: store)
  note law = set_stripe_law [OF lock_invD(1) [OF lock] inside(1) [OF lock at] store(3,4)]
  have m: "m k = None" using lock_invD(4) [OF lock, of t] store(2,3) by simp
  have "k \<notin> striped_elems (shared c)"
    using key_in_stripe_map [OF lock_invD(1) [OF lock] inside(1) [OF lock at] store(3)] m by auto
  moreover have "striped_elems s = insert k (striped_elems (shared c))" using law(2) m by auto
  ultimately show ?thesis
    using store by (intro hist_inv_effect [OF inv, of c' t "Inserted k i" k True]) simp_all
next
  case (count t k i)
  then show ?thesis by (intro hist_inv_quiet [OF inv, of c' t "Returning k i True"]) simp_all
next
  case (unlock t k i b)
  note I = hist_invD [OF inv]
  have lin: "(t, k, b) \<in> set (lin c)" and called: "Called t k \<in> set (hist c)"
    using I(5,6) [of t k] unlock(2) by simp_all
  have "explains (lin c') (hist c')"
    using I(3) called by (auto simp: unlock(1) intro: explains_return [OF I(1) lin])
  then show ?thesis
    unfolding hist_inv_def
  proof (intro conjI allI impI)
    fix u b' assume "Answered u b' \<in> set (hist c')"
    with I(4) called show "pc c' u = Idle" "\<exists>k. Called u k \<in> set (hist c')" by (auto simp: unlock(1))
  next
    fix u k' assume "key_of (pc c' u) = Some k'"
    with I(5) show "Called u k' \<in> set (hist c')" by (auto simp: unlock(1) split: if_splits)
  next
    fix u k' b' assume "outcome (pc c' u) = Some (k', b')"
    with I(6) show "(u, k', b') \<in> set (lin c')" by (auto simp: unlock(1) split: if_splits)
  next
    fix u k' b' assume "(u, k', b') \<in> set (lin c')"
    with I(7) [of u k' b'] unlock(2)
    show "outcome (pc c' u) = Some (k', b') \<or> Answered u b' \<in> set (hist c')"
      by (cases "u = t") (auto simp: unlock(1))
  next
    fix u k' k'' assume "Called u k' \<in> set (hist c') \<and> Called u k'' \<in> set (hist c')"
    then show "k' = k''" using I(3) [of u k' k''] by (simp add: unlock(1))
  qed (use I(2) in \<open>simp_all add: unlock(1)\<close>)
qed

subsection \<open>Reachable states\<close>

definition adders_inv :: "adders \<Rightarrow> bool" where
  "adders_inv c \<longleftrightarrow> lock_inv c \<and> count_inv c \<and> hist_inv c"

lemma adders_init_inv:
  assumes "MakeStripedStringSet n = Some s" and "0 < n" and "(of_int n :: 32 word) \<noteq> 0"
  shows "adders_inv (adders_init s)"
  using MakeStripedStringSet_ok [OF assms(2,3)] assms(1)
  by (auto simp: adders_inv_def adders_init_def lock_inv_def count_inv_def hist_inv_def explains_def before_def
      striped_ok_def behind_def)

lemma add_step_inv: "add_step c c' \<Longrightarrow> adders_inv c \<Longrightarrow> adders_inv c'"
  unfolding adders_inv_def using add_step_lock_inv add_step_count_inv add_step_hist_inv by blast

lemma adders_reachable_inv:
  "\<lbrakk>adders_reachable n c; 0 < n; (of_int n :: 32 word) \<noteq> 0\<rbrakk> \<Longrightarrow> adders_inv c \<and> stripeCount (shared c) = n"
proof (induction rule: adders_reachable.induct)
  case (start n s)
  then show ?case
    using adders_init_inv by (auto simp: adders_init_def MakeStripedStringSet_def split: if_splits)
next
  case (step n c c')
  then have inv: "adders_inv c" "stripeCount (shared c) = n" by blast+
  from step(2) have "stripeCount (shared c') = stripeCount (shared c)"
    by cases (auto dest: set_stripe_frame)
  with add_step_inv [OF step(2) inv(1)] inv(2) show ?case by simp
qed

text \<open>At most one call is behind in each stripe, since it holds the stripe's lock.\<close>

lemma behind_le_stripes:
  assumes "adders_inv c"
  shows "int (card (behind c)) \<le> stripeCount (shared c)"
proof -
  have inv: "lock_inv c" using assms by (simp add: adders_inv_def)
  define f where "f t = snd (the (stripe_of (pc c t)))" for t
  have holds: "holder c (f t) = Some t" "f t \<in> {0..<stripeCount (shared c)}" if t: "t \<in> behind c" for t
  proof -
    from t obtain k i where "pc c t = Inserted k i" by (cases "pc c t") (auto simp: behind_def)
    then have at: "stripe_of (pc c t) = Some (k, i)" "f t = i" by (simp_all add: f_def)
    from inside [OF inv at(1)] stripe_index_bounds [OF lock_invD(1) [OF inv], of k] lock_invD(1) [OF inv] at(2)
    show "holder c (f t) = Some t" "f t \<in> {0..<stripeCount (shared c)}" by (auto simp: well_striped_def)
  qed
  have "inj_on f (behind c)" by (rule inj_onI) (metis holds(1) option.inject)
  moreover have "f ` behind c \<subseteq> {0..<stripeCount (shared c)}" using holds(2) by blast
  ultimately have "card (behind c) \<le> card {0..<stripeCount (shared c)}"
    by (intro card_inj_on_le) simp_all
  then show ?thesis using lock_invD(1) [OF inv] unfolding well_striped_def by simp linarith
qed

lemma behind_le_elems:
  assumes "adders_inv c"
  shows "card (behind c) \<le> card (striped_elems (shared c))"
proof -
  have inv: "lock_inv c" "hist_inv c" using assms by (simp_all add: adders_inv_def)
  define f where "f t = fst (the (stripe_of (pc c t)))" for t
  have at: "\<exists>i. pc c t = Inserted (f t) i" if "t \<in> behind c" for t
    using that by (cases "pc c t") (auto simp: behind_def f_def)
  have "t = t'" if "t \<in> behind c" "t' \<in> behind c" "f t = f t'" for t t'
  proof -
    from at [OF that(1)] at [OF that(2)] that(3) obtain k i j
      where "pc c t = Inserted k i" "pc c t' = Inserted k j" by metis
    then show ?thesis using lock_invD(2) [OF inv(1), of t k i] lock_invD(2) [OF inv(1), of t' k j] by auto
  qed
  then have "inj_on f (behind c)" by (rule inj_onI)
  moreover have "f t \<in> striped_elems (shared c)" if t: "t \<in> behind c" for t
    using at [OF t] hist_invD(6) [OF inv(2), of t "f t" True] hist_invD(2) [OF inv(2)] by force
  ultimately show ?thesis
    using finite_striped_elems [OF lock_invD(1) [OF inv(1)]] by (intro card_inj_on_le [of f]) auto
qed

text \<open>A call that holds a lock can always move.\<close>

lemma holder_moves:
  assumes inv: "adders_inv c" and at: "stripe_of (pc c t) = Some (k, i)"
  shows "\<exists>c'. add_step c c' \<and> pc c' t \<noteq> pc c t"
proof -
  have lock: "lock_inv c" using inv by (simp add: adders_inv_def)
  obtain j where j: "i = int j" "j < length (stripes (shared c))"
    using stripe_in_range [OF lock_invD(1) [OF lock] inside(1) [OF lock at]] .
  have r: "stripe_map i (shared c) = Some (stripe_set (stripes (shared c) ! j))"
    and w: "set_stripe i m (shared c) \<noteq> None" for m
    using j by (simp_all add: stripe_map_at set_stripe_at)
  show ?thesis
  proof (cases "pc c t")
    case (Entered k' i')
    with at r have "stripe_map i' (shared c) = Some (stripe_set (stripes (shared c) ! j))" by simp
    from test [OF Entered this] show ?thesis by (intro exI conjI) (auto simp: Entered split: if_splits)
  next
    case (Unset k' i')
    with at w obtain s where "set_stripe i' (Some Map.empty) (shared c) = Some s" by fastforce
    from make [OF Unset this] show ?thesis by (intro exI conjI) (auto simp: Unset)
  next
    case (Ready k' i')
    with lock_invD(4) [OF lock, of t] obtain m where m: "stripe_map i' (shared c) = Some (Some m)" by auto
    show ?thesis
    proof (cases "m k' = None")
      case True
      from absent [OF Ready m True] show ?thesis by (intro exI conjI) (auto simp: Ready)
    next
      case False
      from found [OF Ready m False] show ?thesis by (intro exI conjI) (auto simp: Ready)
    qed
  next
    case (Missing k' i')
    with lock_invD(4) [OF lock, of t] obtain m where m: "stripe_map i' (shared c) = Some (Some m)" by auto
    from Missing at w obtain s where "set_stripe i' (Some (m(k' \<mapsto> True))) (shared c) = Some s" by fastforce
    from store [OF Missing m this] show ?thesis by (intro exI conjI) (auto simp: Missing)
  next
    case (Inserted k' i')
    from add_step.count [OF Inserted] show ?thesis by (intro exI conjI) (auto simp: Inserted)
  next
    case (Returning k' i' b)
    from unlock [OF Returning] show ?thesis by (intro exI conjI) (auto simp: Returning)
  qed (use at in simp_all)
qed

subsection \<open>A call that runs alone\<close>

text \<open>The steps of a call that nobody interrupts add up to the sequential \<open>striped_Add\<close>.\<close>

lemma stripe_eta: "\<lparr>stripe_set = stripe_set t\<rparr> = (t :: StringSetStripe)"
  by simp

lemma striped_Add_at:
  assumes "stripe_index k s = Some (int j)" and "j < length (stripes s)"
  shows "striped_Add k s =
    (let m = (case stripe_set (stripes s ! j) of None \<Rightarrow> Map.empty | Some m \<Rightarrow> m) in
     case m k of
       Some _ \<Rightarrow> Some (False, s\<lparr>stripes := (stripes s)[j := \<lparr>stripe_set = Some m\<rparr>]\<rparr>)
     | None \<Rightarrow> Some (True, s\<lparr>stripes := (stripes s)[j := \<lparr>stripe_set = Some (m(k \<mapsto> True))\<rparr>],
                               sss_count := sss_count s + 1\<rparr>))"
  using assms by (auto simp: striped_Add_def insert_at_def stripe_insert_def go_simps go_update_in Let_def split: option.splits)

lemma add_alone:
  assumes idle: "pc c t = Idle" "\<forall>k'. Called t k' \<notin> set (hist c)"
    and j: "stripe_index k (shared c) = Some (int j)" "j < length (stripes (shared c))"
    and free: "holder c (int j) = None"
  shows "\<exists>b s. striped_Add k (shared c) = Some (b, s) \<and>
    add_step\<^sup>*\<^sup>* c (c\<lparr>shared := s, hist := hist c @ [Called t k, Answered t b], lin := lin c @ [(t, k, b)]\<rparr>)"
proof -
  obtain S H P L M where c: "c = \<lparr>shared = S, holder = H, pc = P, hist = L, lin = M\<rparr>" by (cases c)
  let ?i = "int j"
  let ?at = "\<lambda>p s l. \<lparr>shared = s, holder = H(?i \<mapsto> t), pc = P(t := p), hist = L @ [Called t k], lin = l\<rparr>"
  let ?final = "\<lambda>b s. \<lparr>shared = s, holder = H, pc = P, hist = L @ [Called t k, Answered t b], lin = M @ [(t, k, b)]\<rparr>"
  from idle j free have P: "P t = Idle" "\<forall>k'. Called t k' \<notin> set L" "H ?i = None"
    "stripe_index k S = Some ?i" "j < length (stripes S)" by (simp_all add: c)
  have same: "P(t := Idle) = P" "H(?i := None) = H" using P(1,3) by (simp_all add: fun_upd_idem)
  have "add_step c (c\<lparr>pc := P(t := Waiting k), hist := L @ [Called t k]\<rparr>)"
    using call [of c t k] P by (simp add: c)
  moreover have "add_step (c\<lparr>pc := P(t := Waiting k), hist := L @ [Called t k]\<rparr>) (?at (Entered k ?i) S M)"
    using lock [of "c\<lparr>pc := P(t := Waiting k), hist := L @ [Called t k]\<rparr>" t k ?i] P by (simp add: c)
  ultimately have enter: "add_step\<^sup>*\<^sup>* c (?at (Entered k ?i) S M)" by simp
  have leave: "add_step (?at (Returning k ?i b) s (M @ [(t, k, b)])) (?final b s)" for b s
    using unlock [of "?at (Returning k ?i b) s (M @ [(t, k, b)])" t k ?i b] same by simp
  have ready: "\<exists>b s'. striped_Add k S = Some (b, s') \<and> add_step\<^sup>*\<^sup>* (?at (Ready k ?i) s M) (?final b s')"
    if s: "s = S\<lparr>stripes := (stripes S)[j := \<lparr>stripe_set = Some m\<rparr>]\<rparr>"
      and m: "m = (case stripe_set (stripes S ! j) of None \<Rightarrow> Map.empty | Some m \<Rightarrow> m)" for s m
  proof -
    have at: "stripe_map ?i s = Some (Some m)" using s P(5) by (simp add: stripe_map_at)
    show ?thesis
    proof (cases "m k = None")
      case True
      let ?s = "s\<lparr>stripes := (stripes s)[j := \<lparr>stripe_set = Some (m(k \<mapsto> True))\<rparr>]\<rparr>"
      let ?s' = "?s\<lparr>sss_count := sss_count s + 1\<rparr>"
      have "add_step (?at (Ready k ?i) s M) (?at (Missing k ?i) s M)"
        using absent [of "?at (Ready k ?i) s M" t k ?i m] at True by simp
      moreover have "add_step (?at (Missing k ?i) s M) (?at (Inserted k ?i) ?s (M @ [(t, k, True)]))"
        using store [of "?at (Missing k ?i) s M" t k ?i m ?s] at s P(5) by (simp add: set_stripe_at)
      moreover have "add_step (?at (Inserted k ?i) ?s (M @ [(t, k, True)])) (?at (Returning k ?i True) ?s' (M @ [(t, k, True)]))"
        using add_step.count [of "?at (Inserted k ?i) ?s (M @ [(t, k, True)])" t k ?i] by simp
      moreover note leave [of ?s' True]
      ultimately have "add_step\<^sup>*\<^sup>* (?at (Ready k ?i) s M) (?final True ?s')" by (meson converse_rtranclp_into_rtranclp rtranclp.rtrancl_refl)
      moreover have "striped_Add k S = Some (True, ?s')" using striped_Add_at [OF P(4,5)] m True s by (simp add: Let_def)
      ultimately show ?thesis by blast
    next
      case False
      then have "add_step (?at (Ready k ?i) s M) (?at (Returning k ?i False) s (M @ [(t, k, False)]))"
        using found [of "?at (Ready k ?i) s M" t k ?i m] at by simp
      with leave [of s False] have "add_step\<^sup>*\<^sup>* (?at (Ready k ?i) s M) (?final False s)"
        by (meson converse_rtranclp_into_rtranclp rtranclp.rtrancl_refl)
      moreover have "striped_Add k S = Some (False, s)" using striped_Add_at [OF P(4,5)] m False s by (auto simp: Let_def)
      ultimately show ?thesis by blast
    qed
  qed
  have "\<exists>b s'. striped_Add k S = Some (b, s') \<and> add_step\<^sup>*\<^sup>* c (?final b s')"
  proof (cases "stripe_set (stripes S ! j)")
    case None
    let ?s = "S\<lparr>stripes := (stripes S)[j := \<lparr>stripe_set = Some Map.empty\<rparr>]\<rparr>"
    have "add_step (?at (Entered k ?i) S M) (?at (Unset k ?i) S M)"
      using test [of "?at (Entered k ?i) S M" t k ?i None] None P(5) by (simp add: stripe_map_at)
    moreover have "add_step (?at (Unset k ?i) S M) (?at (Ready k ?i) ?s M)"
      using make [of "?at (Unset k ?i) S M" t k ?i ?s] P(5) by (simp add: set_stripe_at)
    ultimately have "add_step\<^sup>*\<^sup>* c (?at (Ready k ?i) ?s M)" using enter by (meson rtranclp.rtrancl_into_rtrancl)
    moreover obtain b s' where "striped_Add k S = Some (b, s')" "add_step\<^sup>*\<^sup>* (?at (Ready k ?i) ?s M) (?final b s')"
      using ready [of ?s Map.empty] None by auto
    ultimately show ?thesis by (meson rtranclp_trans)
  next
    case (Some m)
    have "add_step (?at (Entered k ?i) S M) (?at (Ready k ?i) S M)"
      using test [of "?at (Entered k ?i) S M" t k ?i "Some m"] Some P(5) by (simp add: stripe_map_at)
    with enter have "add_step\<^sup>*\<^sup>* c (?at (Ready k ?i) S M)" by (meson rtranclp.rtrancl_into_rtrancl)
    moreover have "(stripes S)[j := \<lparr>stripe_set = Some m\<rparr>] = stripes S"
      using Some by (metis list_update_id stripe_eta)
    then have "S = S\<lparr>stripes := (stripes S)[j := \<lparr>stripe_set = Some m\<rparr>]\<rparr>" by simp
    moreover from ready [OF this] Some obtain b s' where "striped_Add k S = Some (b, s')"
      "add_step\<^sup>*\<^sup>* (?at (Ready k ?i) S M) (?final b s')" by auto
    ultimately show ?thesis by (meson rtranclp_trans)
  qed
  then show ?thesis by (simp add: c)
qed

subsection \<open>A concrete interleaving\<close>

text \<open>Two calls with the same key: call 0 has stored it and not yet counted it, and call 1 waits for the
  stripe. Later both have returned.\<close>

definition two_stripes :: StripedStringSet where
  "two_stripes = \<lparr>stripes = [\<lparr>stripe_set = None\<rparr>, \<lparr>stripe_set = None\<rparr>], stripeCount = 2, sss_count = 0\<rparr>"

definition with_a :: StripedStringSet where
  "with_a = two_stripes\<lparr>stripes := [\<lparr>stripe_set = Some [''a'' \<mapsto> True]\<rparr>, \<lparr>stripe_set = None\<rparr>]\<rparr>"

definition behind_by_one :: adders where
  "behind_by_one =
     \<lparr>shared = with_a, holder = [0 \<mapsto> 0], pc = (\<lambda>_. Idle)(0 := Inserted ''a'' 0, 1 := Waiting ''a''),
      hist = [Called 0 ''a'', Called 1 ''a''], lin = [(0, ''a'', True)]\<rparr>"

definition both_answered :: adders where
  "both_answered =
     \<lparr>shared = with_a\<lparr>sss_count := 1\<rparr>, holder = Map.empty, pc = (\<lambda>_. Idle),
      hist = [Called 0 ''a'', Called 1 ''a'', Answered 0 True, Answered 1 False],
      lin = [(0, ''a'', True), (1, ''a'', False)]\<rparr>"

lemma index_a: "stripeCount s = 2 \<Longrightarrow> stripe_index ''a'' s = Some 0"
  by (simp add: stripe_index_def fnv32_def)

lemmas interleaving_eval = adders_init_def two_stripes_def with_a_def index_a stripe_map_def set_stripe_def
  go_index_def go_update_def

lemma reachable_behind_by_one: "adders_reachable 2 behind_by_one"
proof -
  let ?c0 = "adders_init two_stripes"
  let ?c1 = "?c0\<lparr>pc := (pc ?c0)(0 := Waiting ''a''), hist := hist ?c0 @ [Called 0 ''a'']\<rparr>"
  let ?c2 = "?c1\<lparr>pc := (pc ?c1)(1 := Waiting ''a''), hist := hist ?c1 @ [Called 1 ''a'']\<rparr>"
  let ?c3 = "?c2\<lparr>holder := (holder ?c2)(0 \<mapsto> 0), pc := (pc ?c2)(0 := Entered ''a'' 0)\<rparr>"
  let ?c4 = "?c3\<lparr>pc := (pc ?c3)(0 := Unset ''a'' 0)\<rparr>"
  let ?s5 = "two_stripes\<lparr>stripes := [\<lparr>stripe_set = Some Map.empty\<rparr>, \<lparr>stripe_set = None\<rparr>]\<rparr>"
  let ?c5 = "?c4\<lparr>shared := ?s5, pc := (pc ?c4)(0 := Ready ''a'' 0)\<rparr>"
  let ?c6 = "?c5\<lparr>pc := (pc ?c5)(0 := Missing ''a'' 0)\<rparr>"
  have "MakeStripedStringSet 2 = Some two_stripes"
    by (simp add: MakeStripedStringSet_def two_stripes_def eval_nat_numeral)
  then have "adders_reachable 2 ?c0" by (rule adders_reachable.start)
  moreover have "add_step ?c0 ?c1" by (rule call) (simp_all add: interleaving_eval)
  moreover have "add_step ?c1 ?c2" by (rule call) (simp_all add: interleaving_eval)
  moreover have "add_step ?c2 ?c3" by (rule lock) (simp_all add: interleaving_eval)
  moreover have "add_step ?c3 ?c4"
    using test [of ?c3 0 "''a''" 0 None] by (simp add: interleaving_eval)
  moreover have "add_step ?c4 ?c5" by (rule make) (simp_all add: interleaving_eval)
  moreover have "add_step ?c5 ?c6" by (rule absent [where m = Map.empty]) (simp_all add: interleaving_eval)
  moreover have "add_step ?c6 behind_by_one"
    using store [of ?c6 0 "''a''" 0 Map.empty with_a]
    by (simp add: interleaving_eval behind_by_one_def fun_upd_twist)
  ultimately show ?thesis by (meson adders_reachable.step)
qed

lemma reachable_both_answered: "adders_reachable 2 both_answered"
proof -
  let ?c0 = "behind_by_one"
  let ?c1 = "?c0\<lparr>shared := (shared ?c0)\<lparr>sss_count := sss_count (shared ?c0) + 1\<rparr>, pc := (pc ?c0)(0 := Returning ''a'' 0 True)\<rparr>"
  let ?c2 = "?c1\<lparr>holder := (holder ?c1)(0 := None), pc := (pc ?c1)(0 := Idle), hist := hist ?c1 @ [Answered 0 True]\<rparr>"
  let ?c3 = "?c2\<lparr>holder := (holder ?c2)(0 \<mapsto> 1), pc := (pc ?c2)(1 := Entered ''a'' 0)\<rparr>"
  let ?c4 = "?c3\<lparr>pc := (pc ?c3)(1 := Ready ''a'' 0)\<rparr>"
  let ?c5 = "?c4\<lparr>pc := (pc ?c4)(1 := Returning ''a'' 0 False), lin := lin ?c4 @ [(1, ''a'', False)]\<rparr>"
  note reachable_behind_by_one
  moreover have "add_step ?c0 ?c1" by (rule add_step.count) (simp add: behind_by_one_def)
  moreover have "add_step ?c1 ?c2" by (rule unlock) simp
  moreover have "add_step ?c2 ?c3" by (rule lock) (simp_all add: interleaving_eval behind_by_one_def)
  moreover have "add_step ?c3 ?c4"
    using test [of ?c3 1 "''a''" 0 "Some [''a'' \<mapsto> True]"] by (simp add: interleaving_eval behind_by_one_def)
  moreover have "add_step ?c4 ?c5"
    by (rule found [where m = "[''a'' \<mapsto> True]"]) (simp_all add: interleaving_eval behind_by_one_def)
  moreover have "add_step ?c5 both_answered"
    using unlock [of ?c5 1 "''a''" 0 False]
    by (simp add: behind_by_one_def both_answered_def interleaving_eval fun_upd_idem)
  ultimately show ?thesis by (meson adders_reachable.step)
qed

subsection \<open>Properties of the string sets\<close>

text \<open>C16. The two implementations are interchangeable: after the same calls of \<open>Add\<close> they have
  given the same answers (true exactly at the first occurrence of each key), they hold the same
  keys, and both counters are the number of keys; every possible result of \<open>PredRange\<close> of one is
  a permutation of every possible result of the other, without duplicates.\<close>

theorem striped_equals_locked:
  assumes "0 < n" and "(of_int n :: 32 word) \<noteq> 0" and "length keys < 2 ^ 31"
  shows "\<exists>s0 s l. MakeStripedStringSet n = Some s0 \<and>
    add_all striped_Add keys s0 = Some (first_seen {} keys, s) \<and>
    add_all (\<lambda>k s. Some (locked_Add k s)) keys MakeLockedStringSet = Some (first_seen {} keys, l) \<and>
    striped_Count s = int (card (set keys)) \<and> locked_Count l = int (card (set keys)) \<and>
    (\<forall>mc b e p re r r'. mc p = Some re \<and> striped_range_of s mc b e p r \<and> locked_range_of l mc b e p r' \<longrightarrow>
      (\<exists>xs ys. r = Some xs \<and> r' = Some ys \<and> distinct xs \<and> mset xs = mset ys \<and>
        set xs = {k \<in> set keys. re k \<and> b \<le> k \<and> k < e}))"
proof -
  obtain s0 where s0: "MakeStripedStringSet n = Some s0" "striped_ok s0" "striped_elems s0 = {}"
    using MakeStripedStringSet_ok [OF assms(1,2)] by blast
  have l0: "locked_ok MakeLockedStringSet" "(dom \<circ> lss_set) MakeLockedStringSet = {}"
    by (simp_all add: locked_ok_def MakeLockedStringSet_def)
  from striped.add_all_law [OF s0(2), of keys] s0(3)
  obtain s where s: "add_all striped_Add keys s0 = Some (first_seen {} keys, s)" "striped_ok s"
    "striped_elems s = set keys" by auto
  from locked.add_all_law [OF l0(1), of keys] l0(2)
  obtain l where l: "add_all (\<lambda>k s. Some (locked_Add k s)) keys MakeLockedStringSet =
      Some (first_seen {} keys, l)" "locked_ok l" "(dom \<circ> lss_set) l = set keys" by auto
  have "\<exists>xs ys. r = Some xs \<and> r' = Some ys \<and> distinct xs \<and> mset xs = mset ys \<and>
      set xs = {k \<in> set keys. re k \<and> b \<le> k \<and> k < e}"
    if "mc p = Some re" "striped_range_of s mc b e p r" "locked_range_of l mc b e p r'"
    for mc b e p re r r'
    using striped.range_law [OF s(2) that(2,1)] locked.range_law [OF l(2) that(3,1)]
    unfolding s(3) l(3) by (metis set_eq_iff_mset_eq_distinct)
  with s0(1) s(1) l(1) striped.count_after_adds(1) [OF s0(2,3) s(1) assms(3)]
    locked.count_after_adds(1) [OF l0 l(1) assms(3)]
  show ?thesis by blast
qed

theorem striped_equals_locked_witness:
  "\<exists>s0 s. MakeStripedStringSet 4 = Some s0 \<and>
     add_all striped_Add [''a'', ''b'', ''a''] s0 = Some ([True, True, False], s) \<and> striped_Count s = 2"
proof -
  have "card (set [''a'', ''b'', ''a'']) = 2" "first_seen {} [''a'', ''b'', ''a''] = [True, True, False]"
    by (simp_all add: card_insert_if)
  then show ?thesis
    using striped_equals_locked [of 4 "[''a'', ''b'', ''a'']"]
    by (simp only:) fastforce
qed

text \<open>C17. Concurrent calls of \<open>Add\<close> on a striped set are linearizable: however their accesses to memory
  interleave, the history of calls and returns is explained by one sequential run of a string set, which has
  the same answers, respects the order of calls that do not overlap in time, and leaves the keys that
  the stripes hold.\<close>

theorem adds_linearizable:
  assumes "adders_reachable n c" and "0 < n" and "(of_int n :: 32 word) \<noteq> 0"
  shows "\<exists>l. explains l (hist c) \<and> striped_elems (shared c) = (fst \<circ> snd) ` set l"
  using adders_reachable_inv [OF assms] hist_invD(1,2) unfolding adders_inv_def by blast

theorem adds_linearizable_witness:
  "\<exists>l. explains l [Called 0 ''a'', Called 1 ''a'', Answered 0 True, Answered 1 False] \<and>
     (0, ''a'', True) \<in> set l \<and> (1, ''a'', False) \<in> set l"
proof -
  from adds_linearizable [OF reachable_both_answered] obtain l where
    l: "explains l [Called 0 ''a'', Called 1 ''a'', Answered 0 True, Answered 1 False]"
    by (auto simp: both_answered_def)
  from explainsD(4) [OF this, of 0 "''a''" True] explainsD(4) [OF this, of 1 "''a''" False] l show ?thesis by auto
qed

text \<open>The atomic counter is behind the stripes by the calls between insertion and increment, at
  most one per stripe: \<open>Count\<close> never exceeds the number of keys, is at most \<open>stripeCount\<close> short
  of it, and is exact when no call is between the two.\<close>

theorem count_lag:
  assumes "adders_reachable n c" and "0 < n" and "(of_int n :: 32 word) \<noteq> 0"
    and "card (striped_elems (shared c)) < 2 ^ 31"
  shows "striped_Count (shared c) = int (card (striped_elems (shared c))) - int (card (behind c)) \<and>
    0 \<le> striped_Count (shared c) \<and> int (card (behind c)) \<le> n"
proof -
  from adders_reachable_inv [OF assms(1-3)] have inv: "adders_inv c" and n: "stripeCount (shared c) = n"
    by blast+
  note le = behind_le_elems [OF inv]
  have "sss_count (shared c) = of_nat (card (striped_elems (shared c)) - card (behind c))"
    using inv le by (simp add: adders_inv_def count_inv_def eq_diff_eq)
  then have "striped_Count (shared c) = int (card (striped_elems (shared c)) - card (behind c))"
    using assms(4) unfolding striped_Count_def by (simp only:) (rule sint_of_nat_small, linarith)
  with le behind_le_stripes [OF inv] n show ?thesis by (simp add: of_nat_diff)
qed

theorem count_lag_witness: "striped_Count (shared behind_by_one) = 0"
proof -
  have "striped_elems (shared behind_by_one) = {''a''}" "behind behind_by_one = {0}"
    by (auto simp: behind_by_one_def with_a_def two_stripes_def striped_elems_def stripe_keys_def behind_def)
  with count_lag [OF reachable_behind_by_one] show ?thesis by simp
qed

text \<open>C18. \<open>Add\<close> does not deadlock: whenever a call is under way, some call under way can take
  its next step.\<close>

theorem adds_never_deadlock:
  assumes "adders_reachable n c" and "0 < n" and "(of_int n :: 32 word) \<noteq> 0" and "pc c t \<noteq> Idle"
  shows "\<exists>c' t'. add_step c c' \<and> pc c t' \<noteq> Idle \<and> pc c' t' \<noteq> pc c t'"
proof (cases "stripe_of (pc c t)")
  case (Some ki)
  then show ?thesis
    using holder_moves [of c t "fst ki" "snd ki"] adders_reachable_inv [OF assms(1-3)] assms(4) by auto
next
  case None
  with assms(4) obtain k where k: "pc c t = Waiting k" by (cases "pc c t") auto
  from adders_reachable_inv [OF assms(1-3)] have inv: "adders_inv c" by blast
  then have lock: "lock_inv c" by (simp add: adders_inv_def)
  from stripe_index_bounds [OF lock_invD(1) [OF lock], of k] obtain i where i: "stripe_index k (shared c) = Some i"
    by blast
  show ?thesis
  proof (cases "holder c i")
    case None
    from add_step.lock [OF k i None] k show ?thesis by (intro exI [of _ t] exI conjI) auto
  next
    case (Some t')
    from lock_invD(3) [OF lock Some] obtain k' where "stripe_of (pc c t') = Some (k', i)" by blast
    with holder_moves [OF inv this] show ?thesis by (metis option.distinct(1) stripe_of.simps(1))
  qed
qed

theorem adds_never_deadlock_witness:
  "\<exists>c' t'. add_step behind_by_one c' \<and> pc behind_by_one t' \<noteq> Idle \<and> pc c' t' \<noteq> pc behind_by_one t'"
  by (rule adds_never_deadlock [OF reachable_behind_by_one, of 1]) (simp_all add: behind_by_one_def)

end
