(* ===== verification/Video_Rec_Stats.thy ===== *)
theory Video_Rec_Stats
  imports Main "HOL-Library.Word"
begin

section \<open>The counter of active requests under concurrency\<close>

text \<open>
  \<open>numActiveRequests\<close> of \<open>lab2/video_rec_service/server_lib/server_lib.go\<close> is incremented
  with \<open>atomic.AddUint64\<close>, outside the lock, when a request begins, and decremented with a plain
  \<open>-= 1\<close> under \<open>server.lock\<close> in \<open>updateStats\<close>. The decrement is a read and a write; the
  lock keeps other decrements out, but not the increments. This is the interleaving of any number of
  requests at that granularity.
\<close>

datatype request_pc = Not_begun | Running | Locked | Read "64 word" | Finished

record stats_state =
  active :: "64 word"
  stats_lock :: "nat option"
  rpc :: "nat \<Rightarrow> request_pc"

inductive stats_step :: "stats_state \<Rightarrow> stats_state \<Rightarrow> bool" where
  begin_request: "rpc s t = Not_begun \<Longrightarrow>
    stats_step s (s\<lparr>active := active s + 1, rpc := (rpc s)(t := Running)\<rparr>)"
| lock_stats: "rpc s t = Running \<Longrightarrow> stats_lock s = None \<Longrightarrow>
    stats_step s (s\<lparr>stats_lock := Some t, rpc := (rpc s)(t := Locked)\<rparr>)"
| read_active: "rpc s t = Locked \<Longrightarrow> stats_step s (s\<lparr>rpc := (rpc s)(t := Read (active s))\<rparr>)"
| write_active: "rpc s t = Read v \<Longrightarrow>
    stats_step s (s\<lparr>active := v - 1, stats_lock := None, rpc := (rpc s)(t := Finished)\<rparr>)"

definition stats_init :: stats_state where
  "stats_init = \<lparr>active = 0, stats_lock = None, rpc = \<lambda>_. Not_begun\<rparr>"

abbreviation stats_steps :: "stats_state \<Rightarrow> stats_state \<Rightarrow> bool" where
  "stats_steps \<equiv> rtranclp stats_step"

definition in_progress :: "stats_state \<Rightarrow> nat set" where
  "in_progress s = {t. rpc s t \<noteq> Not_begun \<and> rpc s t \<noteq> Finished}"

text \<open>The counter is not reliable: a request that begins between the read and the write of
  another request's decrement is lost. In a run of two requests that have both finished, the number
  of active requests is \<open>2 ^ 64 - 1\<close>.\<close>

theorem active_requests_lost_update:
  "\<exists>s. stats_steps stats_init s \<and> (\<exists>t u. t \<noteq> u \<and> rpc s t = Finished \<and> rpc s u = Finished) \<and>
     in_progress s = {} \<and> active s = 2 ^ 64 - 1"
proof -
  note steps = begin_request lock_stats read_active write_active
  define s1 where "s1 = stats_init\<lparr>active := active stats_init + 1, rpc := (rpc stats_init)(0 := Running)\<rparr>"
  define s2 where "s2 = s1\<lparr>stats_lock := Some 0, rpc := (rpc s1)(0 := Locked)\<rparr>"
  define s3 where "s3 = s2\<lparr>rpc := (rpc s2)(0 := Read (active s2))\<rparr>"
  define s4 where "s4 = s3\<lparr>active := active s3 + 1, rpc := (rpc s3)(1 := Running)\<rparr>"
  define s5 where "s5 = s4\<lparr>active := 1 - 1, stats_lock := None, rpc := (rpc s4)(0 := Finished)\<rparr>"
  define s6 where "s6 = s5\<lparr>stats_lock := Some 1, rpc := (rpc s5)(1 := Locked)\<rparr>"
  define s7 where "s7 = s6\<lparr>rpc := (rpc s6)(1 := Read (active s6))\<rparr>"
  define s8 where "s8 = s7\<lparr>active := 0 - 1, stats_lock := None, rpc := (rpc s7)(1 := Finished)\<rparr>"
  note defs = s1_def s2_def s3_def s4_def s5_def s6_def s7_def s8_def stats_init_def
  have go: "stats_steps stats_init u" if "stats_steps stats_init t" "stats_step t u" for t u
    using that by (rule rtranclp.rtrancl_into_rtrancl)
  have "stats_steps stats_init stats_init" ..
  then have "stats_steps stats_init s1"
    by (rule go) (unfold s1_def, rule begin_request, simp add: stats_init_def)
  then have "stats_steps stats_init s2"
    by (rule go) (unfold s2_def, rule lock_stats, simp_all add: defs)
  then have "stats_steps stats_init s3"
    by (rule go) (unfold s3_def, rule read_active, simp add: defs)
  then have "stats_steps stats_init s4"
    by (rule go) (unfold s4_def, rule begin_request, simp add: defs)
  then have "stats_steps stats_init s5"
    by (rule go) (unfold s5_def, rule write_active, simp add: defs)
  then have "stats_steps stats_init s6"
    by (rule go) (unfold s6_def, rule lock_stats, simp_all add: defs)
  then have "stats_steps stats_init s7"
    by (rule go) (unfold s7_def, rule read_active, simp add: defs)
  then have "stats_steps stats_init s8"
    by (rule go) (unfold s8_def, rule write_active, simp add: defs)
  moreover have "rpc s8 0 = Finished" "rpc s8 1 = Finished" "in_progress s8 = {}" "active s8 = 2 ^ 64 - 1"
    by (auto simp: defs in_progress_def)
  ultimately show ?thesis by (metis zero_neq_one)
qed

end
