(* ===== verification/Failure_Injection.thy ===== *)
theory Failure_Injection
  imports Go_Strings "HOL-Library.State_Monad"
begin

section \<open>Random sources and failure injection\<close>

text \<open>
  \<open>lab2/failure_injection/failure_injection.go\<close> (the copy in \<open>lab1\<close> is identical), and the
  vocabulary that the backend services share. Random numbers come from \<open>math/rand\<close> and made-up
  names from \<open>gofakeit\<close>; both are arguments, a record of state transformers over the state
  \<open>'r\<close> of the one and \<open>'f\<close> of the other. A call of a handler returns, blocks forever or
  panics (\<open>outcome\<close>). Sleeping only delays a call and is not modelled.
\<close>

subsection \<open>Random sources\<close>

record ('r, 'f) sources =
  Intn :: "int \<Rightarrow> ('r, int) state"
  Int63n :: "int \<Rightarrow> ('r, int) state"
  rand_Seed :: "int \<Rightarrow> 'r"
  fake_Seed :: "int \<Rightarrow> 'f"
  Email :: "('f, string) state"
  Username :: "('f, string) state"
  FullName :: "('f, string) state"
  AdjectiveDescriptive :: "('f, string) state"
  Vegetable :: "('f, string) state"
  Animal :: "('f, string) state"
  NounUncountable :: "('f, string) state"
  AppName :: "('f, string) state"
  HackerVerb :: "('f, string) state"
  AdverbPlace :: "('f, string) state"

text \<open>What the code relies on: \<open>rand.Intn(n)\<close> and \<open>rand.Int63n(n)\<close> return a number in
  \<open>[0, n)\<close> for positive \<open>n\<close>.\<close>

definition sources_ok :: "('r, 'f) sources \<Rightarrow> bool" where
  "sources_ok src \<longleftrightarrow> (\<forall>n g. 0 < n \<longrightarrow>
     fst (run_state (Intn src n) g) \<in> {0..<n} \<and> fst (run_state (Int63n src n) g) \<in> {0..<n})"

definition rand :: "('r, 'a) state \<Rightarrow> ('r \<times> 'f, 'a) state" where
  "rand m = State (\<lambda>(r, f). let (a, r') = run_state m r in (a, (r', f)))"

definition fake :: "('f, 'a) state \<Rightarrow> ('r \<times> 'f, 'a) state" where
  "fake m = State (\<lambda>(r, f). let (a, f') = run_state m f in (a, (r, f')))"

text \<open>A loop that runs its body \<open>n\<close> times and collects the results.\<close>

primrec times :: "nat \<Rightarrow> ('s, 'a) state \<Rightarrow> ('s, 'a list) state" where
  "times 0 m = State_Monad.return []"
| "times (Suc n) m = do { a \<leftarrow> m; as \<leftarrow> times n m; State_Monad.return (a # as) }"

named_theorems yields_intros \<open>what the results of a random computation satisfy\<close>

definition yields :: "('s, 'a) state \<Rightarrow> ('a \<Rightarrow> bool) \<Rightarrow> bool" where
  "yields m P \<longleftrightarrow> (\<forall>s. P (fst (run_state m s)))"

lemma yields_return: "P a \<Longrightarrow> yields (State_Monad.return a) P"
  by (simp add: yields_def)

lemma run_state_bind:
  "run_state (State_Monad.bind m f) s = (case run_state m s of (a, s') \<Rightarrow> run_state (f a) s')"
  by (simp add: State_Monad.bind_def)

lemma yields_bind: "yields m P \<Longrightarrow> (\<And>a. P a \<Longrightarrow> yields (f a) Q) \<Longrightarrow> yields (State_Monad.bind m f) Q"
  unfolding yields_def run_state_bind by (metis (mono_tags, lifting) case_prod_beta)

lemma yields_mono: "yields m P \<Longrightarrow> (\<And>a. P a \<Longrightarrow> Q a) \<Longrightarrow> yields m Q"
  by (simp add: yields_def)

lemma yields_any: "yields m (\<lambda>_. True)"
  by (simp add: yields_def)

lemma yields_times: "yields m P \<Longrightarrow> yields (times n m) (\<lambda>xs. length xs = n \<and> (\<forall>x \<in> set xs. P x))"
proof (induction n)
  case 0
  then show ?case by (simp add: yields_return)
next
  case (Suc n)
  from Suc.IH [OF Suc.prems] show ?case
    by (auto intro!: yields_bind [OF Suc.prems] yields_bind [OF Suc.IH [OF Suc.prems]] yields_return)
qed

lemma yields_rand: "yields m P \<Longrightarrow> yields (rand m) P"
  by (auto simp: yields_def rand_def split_beta Let_def)

lemma yields_Intn: "sources_ok src \<Longrightarrow> 0 < n \<Longrightarrow> yields (rand (Intn src n)) (\<lambda>k. 0 \<le> k \<and> k < n)"
  by (intro yields_rand) (auto simp: yields_def sources_ok_def)

subsection \<open>Outcomes and errors\<close>

datatype 'a outcome = Returns 'a | Blocks | Panics

datatype code = Internal | InvalidArgument | NotFound | Unavailable

record status =
  status_code :: code
  status_message :: string

text \<open>What a gRPC handler returns: an error status or a response.\<close>

type_synonym 'a reply = "status + 'a"

definition status_Error :: "code \<Rightarrow> string \<Rightarrow> 'a reply" where
  "status_Error c m = Inl \<lparr>status_code = c, status_message = m\<rparr>"

subsection \<open>The failure injector\<close>

record InjectionConfig =
  SleepNs :: int
  FailureRate :: int
  ResponseOmissionRate :: int

text \<open>The stored pointer may be nil, when a request carries no configuration.\<close>

record FailureInjector =
  Config :: "InjectionConfig option"

definition MakeFailureInjector :: FailureInjector where
  "MakeFailureInjector =
     \<lparr>Config = Some \<lparr>SleepNs = 0, FailureRate = 0, ResponseOmissionRate = 0\<rparr>\<rparr>"

definition SetInjectionConfig :: "int \<Rightarrow> int \<Rightarrow> int \<Rightarrow> FailureInjector \<Rightarrow> FailureInjector" where
  "SetInjectionConfig sleepNs failureRate responseOmissionRate fi =
     fi\<lparr>Config := Some \<lparr>SleepNs = sleepNs, FailureRate = failureRate,
                        ResponseOmissionRate = responseOmissionRate\<rparr>\<rparr>"

definition ClearInjectionConfig :: "FailureInjector \<Rightarrow> FailureInjector" where
  "ClearInjectionConfig fi = SetInjectionConfig 0 0 0 fi"

definition SetInjectionConfigPb :: "InjectionConfig option \<Rightarrow> FailureInjector \<Rightarrow> FailureInjector" where
  "SetInjectionConfigPb config fi = fi\<lparr>Config := config\<rparr>"

definition GetInjectionConfig :: "FailureInjector \<Rightarrow> InjectionConfig option" where
  "GetInjectionConfig fi = Config fi"

text \<open>\<open>rand.Int63n\<close> panics on an argument that is not positive.\<close>

definition oneIn :: "('r, 'f) sources \<Rightarrow> int \<Rightarrow> ('r, bool outcome) state" where
  "oneIn src n =
     (if n = 0 then State_Monad.return (Returns False)
      else if n < 0 then State_Monad.return Panics
      else do { k \<leftarrow> Int63n src n; State_Monad.return (Returns (k = 0)) })"

definition MaybeInject :: "('r, 'f) sources \<Rightarrow> FailureInjector \<Rightarrow> ('r, bool outcome) state" where
  "MaybeInject src fi =
     (case GetInjectionConfig fi of
        None \<Rightarrow> State_Monad.return Panics
      | Some config \<Rightarrow> do {
          e \<leftarrow> oneIn src (FailureRate config);
          (case e of
             Returns shouldError \<Rightarrow> do {
               om \<leftarrow> oneIn src (ResponseOmissionRate config);
               State_Monad.return
                 (case om of
                    Returns shouldOmitResponse \<Rightarrow> (if shouldOmitResponse then Blocks else Returns shouldError)
                  | Blocks \<Rightarrow> Blocks | Panics \<Rightarrow> Panics)
             }
           | Blocks \<Rightarrow> State_Monad.return Blocks
           | Panics \<Rightarrow> State_Monad.return Panics)
        })"

subsection \<open>What a configuration does\<close>

definition config_ok :: "InjectionConfig \<Rightarrow> bool" where
  "config_ok c \<longleftrightarrow> 0 \<le> FailureRate c \<and> 0 \<le> ResponseOmissionRate c"

lemma oneIn_off: "run_state (oneIn src 0) r = (Returns False, r)"
  by (simp add: oneIn_def)

lemma oneIn_negative: "n < 0 \<Longrightarrow> run_state (oneIn src n) r = (Panics, r)"
  by (simp add: oneIn_def)

lemma oneIn_positive:
  assumes "sources_ok src" and "0 < n"
  shows "\<exists>k r'. run_state (oneIn src n) r = (Returns (k = 0), r') \<and> 0 \<le> k \<and> k < n"
proof -
  obtain k r' where k: "run_state (Int63n src n) r = (k, r')" by (cases "run_state (Int63n src n) r")
  with assms have "k \<in> {0..<n}" unfolding sources_ok_def by (metis fst_conv)
  with k assms(2) show ?thesis by (auto simp: oneIn_def run_state_bind)
qed

lemmas oneIn_cases = oneIn_off oneIn_negative oneIn_positive

lemma MaybeInject_off:
  "\<lbrakk>Config fi = Some c; FailureRate c = 0; ResponseOmissionRate c = 0\<rbrakk> \<Longrightarrow>
   run_state (MaybeInject src fi) r = (Returns False, r)"
  by (simp add: MaybeInject_def GetInjectionConfig_def oneIn_off run_state_bind)

text \<open>C21. The injector panics exactly when one of its rates is negative, and blocks only if responses
  are to be omitted; a rate of 0 injects nothing and draws nothing, a rate of 1 fails (or omits)
  every request.\<close>

theorem injection_contract:
  assumes "sources_ok src" and "Config fi = Some c"
  shows "(fst (run_state (MaybeInject src fi) r) = Panics \<longleftrightarrow>
       FailureRate c < 0 \<or> ResponseOmissionRate c < 0) \<and>
    (fst (run_state (MaybeInject src fi) r) = Blocks \<longrightarrow> 0 < ResponseOmissionRate c) \<and>
    (config_ok c \<and> ResponseOmissionRate c = 1 \<longrightarrow> fst (run_state (MaybeInject src fi) r) = Blocks) \<and>
    (FailureRate c = 1 \<and> ResponseOmissionRate c = 0 \<longrightarrow>
       fst (run_state (MaybeInject src fi) r) = Returns True) \<and>
    (FailureRate c = 0 \<and> ResponseOmissionRate c = 0 \<longrightarrow>
       run_state (MaybeInject src fi) r = (Returns False, r))"
proof -
  let ?f = "FailureRate c" and ?o = "ResponseOmissionRate c"
  let ?m = "run_state (MaybeInject src fi) r"
  obtain b1 r1 where 1: "run_state (oneIn src ?f) r = (b1, r1)" by (cases "run_state (oneIn src ?f) r")
  obtain b2 r2 where 2: "run_state (oneIn src ?o) r1 = (b2, r2)" by (cases "run_state (oneIn src ?o) r1")
  have f: "?f < 0 \<and> b1 = Panics \<or> ?f = 0 \<and> b1 = Returns False \<and> r1 = r \<or>
      0 < ?f \<and> (\<exists>k. b1 = Returns (k = 0) \<and> 0 \<le> k \<and> k < ?f)"
    using oneIn_positive [OF assms(1), of ?f r] oneIn_off [of src r] oneIn_negative [of ?f src r] 1
    by (cases ?f "0 :: int" rule: linorder_cases) auto
  have o: "?o < 0 \<and> b2 = Panics \<or> ?o = 0 \<and> b2 = Returns False \<and> r2 = r1 \<or>
      0 < ?o \<and> (\<exists>k. b2 = Returns (k = 0) \<and> 0 \<le> k \<and> k < ?o)"
    using oneIn_positive [OF assms(1), of ?o r1] oneIn_off [of src r1] oneIn_negative [of ?o src r1] 2
    by (cases ?o "0 :: int" rule: linorder_cases) auto
  have m: "?m = (case b1 of
      Returns e \<Rightarrow> (case b2 of Returns om \<Rightarrow> if om then Blocks else Returns e | x \<Rightarrow> x, r2)
    | x \<Rightarrow> (x, r1))"
    using assms(2) 1 2
    by (simp add: MaybeInject_def GetInjectionConfig_def run_state_bind split: outcome.split)
  show ?thesis
    using f o unfolding m by (auto simp: config_ok_def split: if_splits)
qed

definition fixed_sources :: "(int, int) sources" where
  "fixed_sources = \<lparr>Intn = (\<lambda>n. State (\<lambda>r. (r mod n, r + 1))),
     Int63n = (\<lambda>n. State (\<lambda>r. (r mod n, r + 2))), rand_Seed = (\<lambda>s. s), fake_Seed = (\<lambda>s. s),
     Email = State (Pair ''e''), Username = State (Pair ''u''), FullName = State (Pair ''n''),
     AdjectiveDescriptive = State (Pair ''a''), Vegetable = State (Pair ''v''),
     Animal = State (Pair ''c''), NounUncountable = State (Pair ''w''), AppName = State (Pair ''p''),
     HackerVerb = State (Pair ''h''), AdverbPlace = State (Pair ''b'')\<rparr>"

lemma fixed_sources_ok: "sources_ok fixed_sources"
  by (simp add: sources_ok_def fixed_sources_def)

theorem injection_contract_witness:
  "fst (run_state (MaybeInject fixed_sources (SetInjectionConfig 0 (-1) 0 MakeFailureInjector)) 7) = Panics"
  using injection_contract [OF fixed_sources_ok, of "SetInjectionConfig 0 (-1) 0 MakeFailureInjector" _ 7]
  by (simp add: SetInjectionConfig_def)

end
