(* ===== verification/Det_Bcrypt.thy ===== *)
theory Det_Bcrypt
  imports Go_Strings
begin

section \<open>The deterministic bcrypt package\<close>

text \<open>
  \<open>lab2/det_bcrypt/det_bcrypt.go\<close> (the copy in \<open>lab1\<close> is identical): bcrypt with a
  constant salt. The block cipher is \<open>golang.org/x/crypto/blowfish\<close>, an argument of the
  definitions that use it: a record of its three functions. An error value is the left summand,
  and a run-time panic is the error \<open>Panicked\<close>.
\<close>

datatype bcrypt_error =
    ErrHashTooShort
  | ErrMismatchedHashAndPassword
  | HashVersionTooNewError char
  | InvalidHashPrefixError char
  | InvalidCostError int
  | CorruptInputError
  | NumError
  | KeySizeError
  | Panicked

definition and_then :: "'e + 'a \<Rightarrow> ('a \<Rightarrow> 'e + 'b) \<Rightarrow> 'e + 'b" where
  "and_then r f = (case r of Inl e \<Rightarrow> Inl e | Inr a \<Rightarrow> f a)"

lemma and_then_simps [simp]: "and_then (Inl e) f = Inl e" "and_then (Inr a) f = f a"
  by (simp_all add: and_then_def)

definition or_fail :: "'e \<Rightarrow> 'a option \<Rightarrow> 'e + 'a" where
  "or_fail e r = (case r of None \<Rightarrow> Inl e | Some a \<Rightarrow> Inr a)"

lemma or_fail_simps [simp]: "or_fail e None = Inl e" "or_fail e (Some a) = Inr a"
  by (simp_all add: or_fail_def)

record 'c blowfish =
  NewSaltedCipher :: "string \<Rightarrow> string \<Rightarrow> 'c option"
  ExpandKey :: "string \<Rightarrow> 'c \<Rightarrow> 'c"
  Encrypt :: "'c \<Rightarrow> string \<Rightarrow> string"

subsection \<open>Base 64 without padding\<close>

definition alphabet :: string where
  "alphabet = ''./ABCDEFGHIJKLMNOPQRSTUVWXYZabcdefghijklmnopqrstuvwxyz0123456789''"

text \<open>\<open>dst[n-1]\<close> panics when nothing was encoded.\<close>

definition strip_padding :: "string \<Rightarrow> string" where
  "strip_padding dst = rev (dropWhile (\<lambda>c. c = CHR ''='') (rev dst))"

definition base64Encode :: "string \<Rightarrow> bcrypt_error + string" where
  "base64Encode src =
     (let dst = base64_Encode alphabet src in
      if dst = [] then Inl Panicked else Inr (strip_padding dst))"

definition base64Decode :: "string \<Rightarrow> bcrypt_error + string" where
  "base64Decode src =
     (let numOfEquals = 4 - length src mod 4 in
      or_fail CorruptInputError (base64_Decode alphabet (src @ replicate numOfEquals (CHR ''=''))))"

subsection \<open>Constants and the hashed record\<close>

definition MinCost :: int where "MinCost = 1"
definition MaxCost :: int where "MaxCost = 31"
definition DefaultCost :: int where "DefaultCost = 10"

definition majorVersion :: char where "majorVersion = CHR ''2''"
definition minorVersion :: char where "minorVersion = CHR ''a''"
definition maxSaltSize :: nat where "maxSaltSize = 16"
definition maxCryptedHashSize :: nat where "maxCryptedHashSize = 23"
definition encodedSaltSize :: nat where "encodedSaltSize = 22"
definition encodedHashSize :: nat where "encodedHashSize = 31"
definition minHashSize :: nat where "minHashSize = 59"

lemmas sizes = maxSaltSize_def maxCryptedHashSize_def encodedSaltSize_def encodedHashSize_def
  minHashSize_def

definition magicCipherData :: string where
  "magicCipherData = ''OrpheanBeholderScryDoubt''"

record hashed =
  h_hash :: string
  h_salt :: string
  h_cost :: int
  h_major :: char
  h_minor :: char

definition checkCost :: "int \<Rightarrow> bcrypt_error + unit" where
  "checkCost cost = (if cost < MinCost \<or> cost > MaxCost then Inl (InvalidCostError cost) else Inr ())"

subsection \<open>The hash function\<close>

text \<open>\<open>1 << cost\<close> on \<open>uint64\<close>; the loop runs that many rounds.\<close>

definition expensiveBlowfishSetup ::
  "'c blowfish \<Rightarrow> string \<Rightarrow> 32 word \<Rightarrow> string \<Rightarrow> bcrypt_error + 'c" where
  "expensiveBlowfishSetup bf key cost salt =
     and_then (base64Decode salt) (\<lambda>csalt.
       let ckey = key @ [CHR 0x00] in
       and_then (or_fail KeySizeError (NewSaltedCipher bf ckey csalt)) (\<lambda>c.
         let rounds = (push_bit (unat cost) 1 :: 64 word) in
         Inr (((\<lambda>c. ExpandKey bf csalt (ExpandKey bf ckey c)) ^^ unat rounds) c)))"

definition encrypt_block :: "'c blowfish \<Rightarrow> 'c \<Rightarrow> string \<Rightarrow> string" where
  "encrypt_block bf c block = (Encrypt bf c ^^ 64) block"

definition bcrypt :: "'c blowfish \<Rightarrow> string \<Rightarrow> int \<Rightarrow> string \<Rightarrow> bcrypt_error + string" where
  "bcrypt bf password cost salt =
     and_then (expensiveBlowfishSetup bf password (of_int cost) salt) (\<lambda>c.
       let cipherData = concat (map (\<lambda>i. encrypt_block bf c (take 8 (drop i magicCipherData))) [0, 8, 16]) in
       base64Encode (take maxCryptedHashSize cipherData))"

definition newFromPassword :: "'c blowfish \<Rightarrow> string \<Rightarrow> int \<Rightarrow> bcrypt_error + hashed" where
  "newFromPassword bf password cost =
     (let cost = (if cost < MinCost then DefaultCost else cost) in
      and_then (checkCost cost) (\<lambda>_.
        let unencodedSalt = replicate maxSaltSize (CHR ''a'') in
        and_then (base64Encode unencodedSalt) (\<lambda>salt.
          and_then (bcrypt bf password cost salt) (\<lambda>hash.
            Inr \<lparr>h_hash = hash, h_salt = salt, h_cost = cost, h_major = majorVersion,
                 h_minor = minorVersion\<rparr>))))"

subsection \<open>The printed form\<close>

text \<open>\<open>copy(arr[n:], src)\<close>.\<close>

definition copy_at :: "string \<Rightarrow> nat \<Rightarrow> string \<Rightarrow> string" where
  "copy_at arr n src = take n arr @ go_copy (drop n arr) src"

definition Hash :: "hashed \<Rightarrow> string" where
  "Hash p =
     (let arr = (replicate 60 (CHR 0x00)) [0 := CHR ''$'', 1 := h_major p];
          (arr, n) = (if h_minor p \<noteq> CHR 0x00 then (arr[2 := h_minor p], 3) else (arr, 2));
          arr = arr[n := CHR ''$''];
          n = n + 1;
          arr = copy_at arr n (format_padded 2 (h_cost p));
          n = n + 2;
          arr = arr[n := CHR ''$''];
          n = n + 1;
          arr = copy_at arr n (h_salt p);
          n = n + encodedSaltSize;
          arr = copy_at arr n (h_hash p);
          n = n + encodedHashSize
      in take n arr)"

definition byte_at :: "string \<Rightarrow> int \<Rightarrow> bcrypt_error + char" where
  "byte_at s i = or_fail Panicked (go_index s i)"

text \<open>The number of bytes read, the major and the minor version (0 when there is none).\<close>

definition decodeVersion :: "string \<Rightarrow> bcrypt_error + (int \<times> char \<times> char)" where
  "decodeVersion sbytes =
     and_then (byte_at sbytes 0) (\<lambda>b0.
       if b0 \<noteq> CHR ''$'' then Inl (InvalidHashPrefixError b0)
       else and_then (byte_at sbytes 1) (\<lambda>b1.
         if b1 > majorVersion then Inl (HashVersionTooNewError b1)
         else and_then (byte_at sbytes 2) (\<lambda>b2.
           if b2 \<noteq> CHR ''$'' then Inr (4, b1, b2) else Inr (3, b1, CHR 0x00))))"

definition decodeCost :: "string \<Rightarrow> bcrypt_error + (int \<times> int)" where
  "decodeCost sbytes =
     and_then (or_fail Panicked (go_upto sbytes 2)) (\<lambda>two.
       and_then (or_fail NumError (Atoi two)) (\<lambda>cost.
         and_then (checkCost cost) (\<lambda>_. Inr (3, cost))))"

definition newFromHash :: "string \<Rightarrow> bcrypt_error + hashed" where
  "newFromHash hashedSecret =
     (if length hashedSecret < minHashSize then Inl ErrHashTooShort
      else and_then (decodeVersion hashedSecret) (\<lambda>(n, major, minor).
        and_then (or_fail Panicked (go_from hashedSecret n)) (\<lambda>hashedSecret.
          and_then (decodeCost hashedSecret) (\<lambda>(n, cost).
            and_then (or_fail Panicked (go_from hashedSecret n)) (\<lambda>hashedSecret.
              and_then (or_fail Panicked (go_upto hashedSecret (int encodedSaltSize))) (\<lambda>salt.
                and_then (or_fail Panicked (go_from hashedSecret (int encodedSaltSize))) (\<lambda>hash.
                  Inr \<lparr>h_hash = hash, h_salt = salt, h_cost = cost, h_major = major, h_minor = minor\<rparr>)))))))"

subsection \<open>The exported functions\<close>

definition GenerateFromPassword :: "'c blowfish \<Rightarrow> string \<Rightarrow> int \<Rightarrow> bcrypt_error + string" where
  "GenerateFromPassword bf password cost =
     and_then (newFromPassword bf password cost) (\<lambda>p. Inr (Hash p))"

text \<open>\<open>None\<close> is the nil error: the password matches.\<close>

definition CompareHashAndPassword :: "'c blowfish \<Rightarrow> string \<Rightarrow> string \<Rightarrow> bcrypt_error option" where
  "CompareHashAndPassword bf hashedPassword password =
     (case newFromHash hashedPassword of
        Inl e \<Rightarrow> Some e
      | Inr p \<Rightarrow>
          (case bcrypt bf password (h_cost p) (h_salt p) of
             Inl e \<Rightarrow> Some e
           | Inr otherHash \<Rightarrow>
               let otherP = \<lparr>h_hash = otherHash, h_salt = h_salt p, h_cost = h_cost p,
                     h_major = h_major p, h_minor = h_minor p\<rparr> in
               if Hash p = Hash otherP then None else Some ErrMismatchedHashAndPassword))"

definition Cost :: "string \<Rightarrow> bcrypt_error + int" where
  "Cost hashedPassword = and_then (newFromHash hashedPassword) (\<lambda>p. Inr (h_cost p))"

subsection \<open>Base 64\<close>

lemma good_alphabet [simp]: "good_alphabet alphabet"
  by (simp add: good_alphabet_def alphabet_def)

lemma strip_padding_simps [simp]:
  "strip_padding [] = []"
  "strip_padding (xs @ [CHR ''='']) = strip_padding xs"
  "c \<noteq> CHR ''='' \<Longrightarrow> strip_padding (xs @ [c]) = xs @ [c]"
  by (simp_all add: strip_padding_def)

lemma strip_padding_append: "strip_padding ys \<noteq> [] \<Longrightarrow> strip_padding (xs @ ys) = xs @ strip_padding ys"
  by (auto simp: strip_padding_def dropWhile_append)

lemma alphabet_no_padding: "good_alphabet enc \<Longrightarrow> i < 64 \<Longrightarrow> enc ! i \<noteq> CHR ''=''"
  using nth_mem [of i enc] by (force simp: good_alphabet_def)

lemma replicate_2_4: "replicate 2 c = [c, c]" "replicate 4 c = [c, c, c, c]"
  by (simp_all add: eval_nat_numeral)

text \<open>What the padding of an encoding looks like.\<close>

lemma encode_padding:
  assumes "good_alphabet enc"
  shows "\<exists>body. base64_Encode enc src = body @ replicate ((3 - length src mod 3) mod 3) (CHR ''='') \<and>
    strip_padding (base64_Encode enc src) = body \<and> length body = (4 * length src + 2) div 3"
  using assms
proof (induction enc src rule: base64_Encode.induct)
  case (2 enc a)
  have "(of_char a :: nat) * 65536 div 262144 < 64"
    using sextets_of_triple(1) [of "of_char a" 0 0] by simp
  with alphabet_no_padding [OF 2] show ?case
    by (simp add: Let_def strip_padding_def replicate_2_4)
next
  case (3 enc a b)
  have "enc ! ((of_char a * 65536 + of_char b * 256) div 64 mod 64) \<noteq> CHR ''=''"
    by (rule alphabet_no_padding [OF 3]) simp
  then show ?case by (simp add: Let_def strip_padding_def)
next
  case (4 enc a b c rest)
  let ?v = "of_char a * 65536 + of_char b * 256 + of_char c :: nat"
  let ?q = "[enc ! (?v div 262144), enc ! (?v div 4096 mod 64), enc ! (?v div 64 mod 64), enc ! (?v mod 64)]"
  have last: "enc ! (?v mod 64) \<noteq> CHR ''=''" by (rule alphabet_no_padding [OF 4(2)]) simp
  from 4 obtain body where body: "base64_Encode enc rest = body @ replicate ((3 - length rest mod 3) mod 3) (CHR ''='')"
    "strip_padding (base64_Encode enc rest) = body" "length body = (4 * length rest + 2) div 3" by blast
  have e: "base64_Encode enc (a # b # c # rest) = ?q @ base64_Encode enc rest" by (simp add: Let_def)
  have "strip_padding (?q @ base64_Encode enc rest) = ?q @ body"
  proof (cases rest)
    case Nil
    with last body(2) show ?thesis by (simp add: strip_padding_def)
  next
    case Cons
    with body(3) have "body \<noteq> []" by auto
    with body(2) show ?thesis by (metis strip_padding_append)
  qed
  with e body(1,3) show ?case by (intro exI [of _ "?q @ body"]) simp
qed simp

lemma base64Encode_length:
  assumes "src \<noteq> []"
  shows "\<exists>e. base64Encode src = Inr e \<and> length e = (4 * length src + 2) div 3"
proof -
  from encode_padding [OF good_alphabet, of src] obtain body
    where body: "base64_Encode alphabet src = body @ replicate ((3 - length src mod 3) mod 3) (CHR ''='')"
      "strip_padding (base64_Encode alphabet src) = body" "length body = (4 * length src + 2) div 3" by blast
  moreover from assms body(3) have "body \<noteq> []" by (cases src) auto
  ultimately show ?thesis by (simp add: base64Encode_def Let_def)
qed

lemma decode_extra_padding:
  assumes "good_alphabet enc" and "length src mod 3 = 0"
  shows "base64_Decode enc (base64_Encode enc src @ replicate 4 (CHR ''='')) = None"
  using assms
proof (induction enc src rule: base64_Encode.induct)
  case (1 enc)
  then show ?case
    by (simp add: replicate_2_4 base64_Decode.simps [of enc "_ # _"] sextet_None good_alphabet_def newline_def)
next
  case (4 enc a b c rest)
  let ?v = "of_char a * 65536 + of_char b * 256 + of_char c :: nat"
  have "?v div 262144 < 64"
    by (rule sextets_of_triple(1) [OF nat_of_char_less_256 nat_of_char_less_256 nat_of_char_less_256 refl])
  from quantum_4 [OF 4(2) this, of "?v div 4096 mod 64" "?v div 64 mod 64" "?v mod 64"] 4
  show ?case
    by (simp add: base64_Decode.simps [of enc "_ # _"] Let_def del: quantum.simps)
qed simp_all

text \<open>Decoding restores what was encoded, and the four padding characters that \<open>base64Decode\<close>
  appends to an input whose length is a multiple of 4 make it fail there.\<close>

lemma base64Decode_Encode:
  assumes "src \<noteq> []" and e: "base64Encode src = Inr e"
  shows "base64Decode e = (if length src mod 3 = 0 then Inl CorruptInputError else Inr src)"
proof -
  from encode_padding [OF good_alphabet, of src] obtain body
    where body: "base64_Encode alphabet src = body @ replicate ((3 - length src mod 3) mod 3) (CHR ''='')"
      "strip_padding (base64_Encode alphabet src) = body" "length body = (4 * length src + 2) div 3" by blast
  with e have "e = body" by (auto simp: base64Encode_def Let_def split: if_splits)
  show ?thesis
  proof (cases "length src mod 3 = 0")
    case True
    then obtain k where "length src = 3 * k" by auto
    then have "length body = 4 * k" unfolding body(3) by presburger
    then have "length body mod 4 = 0" by simp
    moreover from True body(1) have "base64_Encode alphabet src = body" by simp
    ultimately show ?thesis
      using decode_extra_padding [OF good_alphabet True] True \<open>e = body\<close>
      by (simp add: base64Decode_def)
  next
    case False
    then have "length src mod 3 = 1 \<or> length src mod 3 = 2" by linarith
    then obtain k where "length src = 3 * k + 1 \<or> length src = 3 * k + 2"
      by (metis mult_div_mod_eq)
    then have "length src mod 3 = 1 \<and> length body = 4 * k + 2 \<or>
      length src mod 3 = 2 \<and> length body = 4 * k + 3"
      unfolding body(3) by (elim disjE) (simp_all, presburger+)
    moreover have "(4 * k + 2) mod 4 = 2" "(4 * k + 3) mod 4 = 3" by presburger+
    ultimately have "4 - length body mod 4 = (3 - length src mod 3) mod 3"
      by (elim disjE conjE) (simp_all only: numeral_eq_iff, simp_all)
    with body(1) \<open>e = body\<close> have "base64Decode e = or_fail CorruptInputError (base64_Decode alphabet (base64_Encode alphabet src))"
      by (simp only: base64Decode_def Let_def)
    with False show ?thesis by (simp add: base64_roundtrip [OF good_alphabet])
  qed
qed

subsection \<open>The printed form\<close>

text \<open>The values that \<open>Hash\<close> prints without loss.\<close>

definition wf_hashed :: "hashed \<Rightarrow> bool" where
  "wf_hashed p \<longleftrightarrow> h_major p \<le> majorVersion \<and> h_minor p \<noteq> CHR 0x00 \<and> h_minor p \<noteq> CHR ''$'' \<and>
     MinCost \<le> h_cost p \<and> h_cost p \<le> MaxCost \<and>
     length (h_salt p) = encodedSaltSize \<and> length (h_hash p) = encodedHashSize"

lemma copy_at_append:
  "n = length xs \<Longrightarrow> length src \<le> k \<Longrightarrow>
   copy_at (xs @ replicate k z) n src = (xs @ src) @ replicate (k - length src) z"
  by (simp add: copy_at_def go_copy_def)

lemma Hash_form:
  assumes "wf_hashed p"
  shows "Hash p = [CHR ''$'', h_major p, h_minor p, CHR ''$''] @ format_padded 2 (h_cost p) @
    [CHR ''$''] @ h_salt p @ h_hash p"
proof -
  from assms have w: "h_minor p \<noteq> CHR 0x00" "length (h_salt p) = 22" "length (h_hash p) = 31"
    by (simp_all add: wf_hashed_def sizes)
  have c: "length (format_padded 2 (h_cost p)) = 2"
    using assms by (intro length_format_padded) (simp_all add: wf_hashed_def MinCost_def MaxCost_def)
  let ?z = "CHR 0x00"
  have start: "(replicate 60 ?z) [0 := CHR ''$'', 1 := h_major p, 2 := h_minor p, 3 := CHR ''$''] =
      [CHR ''$'', h_major p, h_minor p, CHR ''$''] @ replicate 56 ?z"
    by (simp add: numeral_eq_Suc)
  let ?A = "[CHR ''$'', h_major p, h_minor p, CHR ''$'']"
  let ?B = "?A @ format_padded 2 (h_cost p)"
  have b: "copy_at (?A @ replicate 56 ?z) 4 (format_padded 2 (h_cost p)) = ?B @ replicate 54 ?z"
    by (subst copy_at_append) (simp_all add: c)
  have b': "(?B @ replicate 54 ?z) [6 := CHR ''$''] = (?B @ [CHR ''$'']) @ replicate 53 ?z"
  proof -
    have "replicate 54 ?z = ?z # replicate 53 ?z" by (simp add: numeral_eq_Suc)
    moreover have "length ?B = 6" by (simp add: c)
    ultimately show ?thesis by (metis append.assoc append_Cons append_Nil list_update_length)
  qed
  have d: "copy_at ((?B @ [CHR ''$'']) @ replicate 53 ?z) 7 (h_salt p) =
      (?B @ [CHR ''$''] @ h_salt p) @ replicate 31 ?z"
    by (subst copy_at_append) (simp_all add: c w)
  have e: "copy_at ((?B @ [CHR ''$''] @ h_salt p) @ replicate 31 ?z) 29 (h_hash p) =
      ?B @ [CHR ''$''] @ h_salt p @ h_hash p"
    by (subst copy_at_append) (simp_all add: c w)
  have "take 60 (?B @ [CHR ''$''] @ h_salt p @ h_hash p) = ?B @ [CHR ''$''] @ h_salt p @ h_hash p"
    by (simp add: c w)
  with w(1) start b b' d e show ?thesis
    by (simp add: Hash_def Let_def sizes)
qed

lemma decodeVersion_printed:
  "b \<le> majorVersion \<Longrightarrow> c \<noteq> CHR ''$'' \<Longrightarrow> decodeVersion (CHR ''$'' # b # c # rest) = Inr (4, b, c)"
  by (simp add: decodeVersion_def byte_at_def go_index_def)

lemma decodeCost_printed:
  assumes "MinCost \<le> c" "c \<le> MaxCost"
  shows "decodeCost (format_padded 2 c @ rest) = Inr (3, c)"
proof -
  from assms have "0 \<le> c" "c < 2 ^ 63" by (simp_all add: MinCost_def MaxCost_def)
  then have "Atoi (format_padded 2 c) = Some c" by (rule Atoi_format_padded)
  moreover have "length (format_padded 2 c) = 2"
    using assms by (intro length_format_padded) (simp_all add: MinCost_def MaxCost_def)
  ultimately show ?thesis
    using assms by (simp add: decodeCost_def go_upto_def checkCost_def)
qed

lemma drop_at: "n = length xs \<Longrightarrow> go_from (xs @ ys) (int n) = Some ys"
  "n = length xs \<Longrightarrow> go_upto (xs @ ys) (int n) = Some xs"
  by (simp_all add: go_from_def go_upto_def)

lemma newFromHash_Hash:
  assumes "wf_hashed p"
  shows "newFromHash (Hash p) = Inr p"
proof -
  from assms have w: "h_major p \<le> majorVersion" "h_minor p \<noteq> CHR ''$''" "MinCost \<le> h_cost p"
    "h_cost p \<le> MaxCost" "length (h_salt p) = encodedSaltSize" "length (h_hash p) = 31"
    by (simp_all add: wf_hashed_def sizes)
  have c: "length (format_padded 2 (h_cost p)) = 2"
    using w by (intro length_format_padded) (simp_all add: MinCost_def MaxCost_def)
  let ?A = "[CHR ''$'', h_major p, h_minor p, CHR ''$'']"
  let ?C = "format_padded 2 (h_cost p) @ [CHR ''$'']"
  have H: "Hash p = ?A @ ?C @ h_salt p @ h_hash p" by (simp add: Hash_form [OF assms])
  then have "\<not> length (Hash p) < minHashSize" using c w by (simp add: sizes)
  moreover have "decodeVersion (Hash p) = Inr (4, h_major p, h_minor p)"
    using w decodeVersion_printed by (simp add: H)
  moreover have "go_from (Hash p) 4 = Some (?C @ h_salt p @ h_hash p)"
    unfolding H using drop_at(1) [of 4 ?A] by simp
  moreover have "decodeCost (?C @ h_salt p @ h_hash p) = Inr (3, h_cost p)"
    using decodeCost_printed [OF w(3,4)] by simp
  moreover have "go_from (?C @ h_salt p @ h_hash p) 3 = Some (h_salt p @ h_hash p)"
    using drop_at(1) [of 3 ?C] c by simp
  ultimately show ?thesis
    by (simp add: newFromHash_def drop_at [OF w(5) [symmetric]])
qed

subsection \<open>The hash function\<close>

text \<open>What the package relies on: the cipher can be set up with every non-empty key and non-empty salt, and
  it encrypts blocks of 8 bytes. With an empty salt the library behaves as \<open>NewCipher\<close>, which limits
  the key to 56 bytes; the constant salt of the package is not empty.\<close>

definition blowfish_ok :: "'c blowfish \<Rightarrow> bool" where
  "blowfish_ok bf \<longleftrightarrow> (\<forall>key salt. key \<noteq> [] \<and> salt \<noteq> [] \<longrightarrow> NewSaltedCipher bf key salt \<noteq> None) \<and>
     (\<forall>c b. length b = 8 \<longrightarrow> length (Encrypt bf c b) = 8)"

lemma encrypt_block_length:
  assumes "blowfish_ok bf" and "length b = 8"
  shows "length (encrypt_block bf c b) = 8"
proof -
  have "length ((Encrypt bf c ^^ k) b) = 8" for k
    using assms by (induction k) (simp_all add: blowfish_ok_def)
  then show ?thesis by (simp add: encrypt_block_def)
qed

lemma bcrypt_returns:
  assumes bf: "blowfish_ok bf" and salt: "base64Decode salt = Inr csalt" "csalt \<noteq> []"
  shows "\<exists>h. bcrypt bf password cost salt = Inr h \<and> length h = encodedHashSize"
proof -
  from bf obtain c0 where "NewSaltedCipher bf (password @ [CHR 0x00]) csalt = Some c0"
    unfolding blowfish_ok_def using salt(2) by (metis append_is_Nil_conv list.distinct(1) not_Some_eq)
  then obtain c where c: "expensiveBlowfishSetup bf password (of_int cost) salt = Inr c"
    by (simp add: expensiveBlowfishSetup_def salt(1) Let_def)
  define data where "data = concat (map (\<lambda>i. encrypt_block bf c (take 8 (drop i magicCipherData))) [0, 8, 16])"
  have "length data = 24"
    by (simp add: data_def encrypt_block_length [OF bf] magicCipherData_def)
  then have len: "length (take maxCryptedHashSize data) = 23" by (simp add: sizes)
  then have "take maxCryptedHashSize data \<noteq> []" by (metis list.size(3) zero_neq_numeral)
  from base64Encode_length [OF this] len obtain e
    where "base64Encode (take maxCryptedHashSize data) = Inr e" "length e = 31" by auto
  then show ?thesis
    by (simp only: bcrypt_def c and_then_simps Let_def data_def [symmetric]) (simp add: sizes)
qed

text \<open>The constant salt decodes to sixteen bytes \<open>a\<close>.\<close>

lemma constant_salt:
  obtains salt where "base64Encode (replicate maxSaltSize (CHR ''a'')) = Inr salt"
    "length salt = encodedSaltSize" "base64Decode salt = Inr (replicate maxSaltSize (CHR ''a''))"
proof -
  have "replicate maxSaltSize (CHR ''a'') \<noteq> []" by (simp add: sizes)
  from base64Encode_length [OF this] base64Decode_Encode [OF this] that show thesis
    by (auto simp: sizes)
qed

definition hashed_with :: "string \<Rightarrow> int \<Rightarrow> string \<Rightarrow> hashed" where
  "hashed_with salt cost h =
     \<lparr>h_hash = h, h_salt = salt, h_cost = (if cost < MinCost then DefaultCost else cost),
      h_major = majorVersion, h_minor = minorVersion\<rparr>"

lemma newFromPassword_returns:
  assumes "blowfish_ok bf" and "cost \<le> MaxCost"
    and salt: "base64Encode (replicate maxSaltSize (CHR ''a'')) = Inr salt"
      "length salt = encodedSaltSize" "base64Decode salt = Inr (replicate maxSaltSize (CHR ''a''))"
  obtains h where "newFromPassword bf password cost = Inr (hashed_with salt cost h)"
    "wf_hashed (hashed_with salt cost h)"
    "bcrypt bf password (h_cost (hashed_with salt cost h)) salt = Inr h"
proof -
  let ?cost = "if cost < MinCost then DefaultCost else cost"
  have "replicate maxSaltSize (CHR ''a'') \<noteq> []" by (simp add: sizes)
  from bcrypt_returns [OF assms(1) salt(3) this] obtain h
    where h: "bcrypt bf password ?cost salt = Inr h" "length h = encodedHashSize" by blast
  have "checkCost ?cost = Inr ()"
    using assms(2) by (simp add: checkCost_def MinCost_def MaxCost_def DefaultCost_def)
  with salt(1) h have "newFromPassword bf password cost = Inr (hashed_with salt cost h)"
    by (simp add: newFromPassword_def hashed_with_def Let_def)
  with salt h assms(2) show thesis
    by (intro that) (auto simp: hashed_with_def wf_hashed_def majorVersion_def minorVersion_def
      MinCost_def MaxCost_def DefaultCost_def)
qed

subsection \<open>Properties\<close>

text \<open>\<open>base64Decode\<close> inverts \<open>base64Encode\<close> on every input whose length is not a multiple of
  3 (the 16 bytes of a salt, the 23 of a hash); on the others, whose encoding needs no padding, it
  appends a fourth padding character too many and fails; encoding nothing panics.\<close>

theorem unpadded_base64:
  "base64Encode [] = Inl Panicked \<and>
   (src \<noteq> [] \<longrightarrow> (\<exists>e. base64Encode src = Inr e \<and>
      base64Decode e = (if length src mod 3 = 0 then Inl CorruptInputError else Inr src)))"
  using base64Encode_length [of src] base64Decode_Encode [of src]
  by (auto simp: base64Encode_def)

theorem unpadded_base64_witness: "\<exists>e. base64Encode ''ab'' = Inr e \<and> base64Decode e = Inr ''ab''"
  using unpadded_base64 [of "''ab''"] by simp

text \<open>Parsing a printed hash gives back every field of it, for every version that is not newer,
  every cost in range and every salt and hash of the right lengths; the printed form has 60
  characters.\<close>

theorem hash_roundtrip:
  assumes "wf_hashed p"
  shows "newFromHash (Hash p) = Inr p \<and> length (Hash p) = 60 \<and> Cost (Hash p) = Inr (h_cost p)"
proof -
  have "length (format_padded 2 (h_cost p)) = 2"
    using assms by (intro length_format_padded) (simp_all add: wf_hashed_def MinCost_def MaxCost_def)
  with assms newFromHash_Hash [OF assms] show ?thesis
    by (simp add: Hash_form Cost_def wf_hashed_def sizes)
qed

definition sample_hash :: hashed where
  "sample_hash = \<lparr>h_hash = replicate 31 (CHR ''x''), h_salt = replicate 22 (CHR ''y''), h_cost = 7,
     h_major = CHR ''2'', h_minor = CHR ''a''\<rparr>"

theorem hash_roundtrip_witness: "newFromHash (Hash sample_hash) = Inr sample_hash"
  using hash_roundtrip [of sample_hash]
  by (simp add: wf_hashed_def sample_hash_def sizes majorVersion_def MinCost_def MaxCost_def)

text \<open>Parsing never panics: no index or slice of \<open>newFromHash\<close>, \<open>decodeVersion\<close> or
  \<open>decodeCost\<close> is out of range, whatever the input; what is accepted has a cost between
  \<open>MinCost\<close> and \<open>MaxCost\<close> and a salt of 22 bytes, and a short input is refused.\<close>

theorem newFromHash_errors:
  "newFromHash s \<noteq> Inl Panicked \<and>
   (length s < minHashSize \<longrightarrow> newFromHash s = Inl ErrHashTooShort) \<and>
   (\<forall>p. newFromHash s = Inr p \<longrightarrow> MinCost \<le> h_cost p \<and> h_cost p \<le> MaxCost \<and>
      length (h_salt p) = encodedSaltSize)"
proof (cases "length s < minHashSize")
  case True
  then show ?thesis by (simp add: newFromHash_def)
next
  case False
  then have len: "59 \<le> length s" by (simp add: sizes)
  have v: "decodeVersion s \<noteq> Inl Panicked \<and> (\<forall>n b c. decodeVersion s = Inr (n, b, c) \<longrightarrow> n = 3 \<or> n = 4)"
    using len by (auto simp: decodeVersion_def byte_at_def go_index_def)
  have c: "decodeCost t \<noteq> Inl Panicked \<and> (\<forall>n c. decodeCost t = Inr (n, c) \<longrightarrow> n = 3 \<and> MinCost \<le> c \<and> c \<le> MaxCost)"
    if "2 \<le> length t" for t
    using that by (cases "Atoi (take 2 t)") (auto simp: decodeCost_def go_upto_def checkCost_def)
  show ?thesis
  proof (cases "decodeVersion s")
    case (Inl e)
    with False v show ?thesis by (auto simp: newFromHash_def)
  next
    case (Inr r)
    then obtain n b m where r: "decodeVersion s = Inr (n, b, m)" by (cases r) auto
    with v have n: "n = 3 \<or> n = 4" by blast
    then have t: "go_from s n = Some (drop (nat n) s)" "55 \<le> length (drop (nat n) s)"
      using len by (auto simp: go_from_def)
    show ?thesis
    proof (cases "decodeCost (drop (nat n) s)")
      case (Inl e)
      with False r t c [of "drop (nat n) s"] show ?thesis by (auto simp: newFromHash_def)
    next
      case (Inr q)
      then obtain m' cost where q: "decodeCost (drop (nat n) s) = Inr (m', cost)" by (cases q) auto
      with c [of "drop (nat n) s"] t have "m' = 3" "MinCost \<le> cost" "cost \<le> MaxCost" by auto
      with False r t q show ?thesis by (auto simp: newFromHash_def go_from_def go_upto_def sizes)
    qed
  qed
qed

theorem newFromHash_errors_witness: "newFromHash ''abc'' = Inl ErrHashTooShort"
  using newFromHash_errors [of "''abc''"] by (simp add: sizes)

lemma GenerateFromPassword_returns:
  assumes "blowfish_ok bf" and "cost \<le> MaxCost"
  shows "\<exists>h. GenerateFromPassword bf password cost = Inr h"
proof -
  from constant_salt obtain salt where "base64Encode (replicate maxSaltSize (CHR ''a'')) = Inr salt"
    "length salt = encodedSaltSize" "base64Decode salt = Inr (replicate maxSaltSize (CHR ''a''))" .
  from newFromPassword_returns [OF assms this, of password] show ?thesis
    by (metis GenerateFromPassword_def and_then_simps(2))
qed

text \<open>C19. The contract of the package: a cost below \<open>MinCost\<close> becomes \<open>DefaultCost\<close>, one above
  \<open>MaxCost\<close> is refused, and otherwise a hash of 60 characters is generated, which carries the
  cost, is accepted for the password it was made from, and is accepted for another password exactly
  when that password generates the same hash (the salt being constant); every other password is
  reported as a mismatch.\<close>

theorem generate_and_compare:
  assumes "blowfish_ok bf"
  shows "MaxCost < cost \<and> GenerateFromPassword bf password cost = Inl (InvalidCostError cost) \<or>
    cost \<le> MaxCost \<and> (\<exists>h. GenerateFromPassword bf password cost = Inr h \<and> length h = 60 \<and>
      Cost h = Inr (if cost < MinCost then DefaultCost else cost) \<and>
      CompareHashAndPassword bf h password = None \<and>
      (\<forall>other. CompareHashAndPassword bf h other =
         (if GenerateFromPassword bf other cost = Inr h then None else Some ErrMismatchedHashAndPassword)))"
proof (cases "MaxCost < cost")
  case True
  then show ?thesis
    by (simp add: GenerateFromPassword_def newFromPassword_def checkCost_def MinCost_def MaxCost_def)
next
  case False
  then have le: "cost \<le> MaxCost" by simp
  from constant_salt obtain salt where salt: "base64Encode (replicate maxSaltSize (CHR ''a'')) = Inr salt"
    "length salt = encodedSaltSize" "base64Decode salt = Inr (replicate maxSaltSize (CHR ''a''))" .
  note new = newFromPassword_returns [OF assms le salt]
  obtain h where h: "newFromPassword bf password cost = Inr (hashed_with salt cost h)"
    "wf_hashed (hashed_with salt cost h)"
    "bcrypt bf password (h_cost (hashed_with salt cost h)) salt = Inr h"
    by (rule new)
  let ?p = "hashed_with salt cost h"
  have cmp: "CompareHashAndPassword bf (Hash ?p) other =
      (if GenerateFromPassword bf other cost = Inr (Hash ?p) then None else Some ErrMismatchedHashAndPassword)"
    for other
  proof -
    obtain h' where h': "newFromPassword bf other cost = Inr (hashed_with salt cost h')"
      "bcrypt bf other (h_cost (hashed_with salt cost h')) salt = Inr h'"
      by (rule new)
    have same: "h_salt ?p = salt" "h_cost ?p = h_cost (hashed_with salt cost h')"
      "\<lparr>h_hash = h', h_salt = salt, h_cost = h_cost (hashed_with salt cost h'),
        h_major = h_major ?p, h_minor = h_minor ?p\<rparr> = hashed_with salt cost h'"
      by (simp_all add: hashed_with_def)
    show ?thesis
      using newFromHash_Hash [OF h(2)] h'
      by (simp add: CompareHashAndPassword_def GenerateFromPassword_def same eq_commute [of "Hash ?p"])
  qed
  have "GenerateFromPassword bf password cost = Inr (Hash ?p)"
    by (simp add: GenerateFromPassword_def h(1))
  moreover have "length (Hash ?p) = 60"
    using h(2) length_format_padded [of "h_cost ?p" 2]
    by (simp add: Hash_form wf_hashed_def sizes MinCost_def MaxCost_def)
  moreover have "Cost (Hash ?p) = Inr (if cost < MinCost then DefaultCost else cost)"
    using newFromHash_Hash [OF h(2)] by (simp add: Cost_def) (simp add: hashed_with_def)
  ultimately show ?thesis using le cmp by auto
qed

text \<open>A cipher to apply it to: it leaves its blocks as they are.\<close>

definition plain_cipher :: "string blowfish" where
  "plain_cipher = \<lparr>NewSaltedCipher = (\<lambda>key salt.
       if key = [] \<or> salt = [] \<and> 56 < length key then None else Some (key @ salt)),
     ExpandKey = (\<lambda>key c. c), Encrypt = (\<lambda>c b. b)\<rparr>"

lemma plain_cipher_ok: "blowfish_ok plain_cipher"
  by (simp add: blowfish_ok_def plain_cipher_def)

theorem generate_and_compare_witness:
  "\<exists>h. GenerateFromPassword plain_cipher ''secret'' 0 = Inr h \<and> Cost h = Inr 10 \<and>
     CompareHashAndPassword plain_cipher h ''secret'' = None"
  using generate_and_compare [OF plain_cipher_ok, of 0 "''secret''"]
  by (auto simp: MaxCost_def MinCost_def DefaultCost_def)

end
