(* ===== verification/Ranker.thy ===== *)
theory Ranker
  imports Det_Bcrypt
begin

section \<open>The ranker\<close>

text \<open>
  \<open>lab2/ranker/ranker.go\<close> (the copy in \<open>lab1\<close> is identical): the score of a video for a
  user is the FNV-1 hash of the bcrypt hash of the dot product of their sparse coefficient vectors,
  computed modulo \<open>2 ^ 64\<close>. A protobuf map is a HOL map; the order in which \<open>range\<close> visits the
  user's coefficients is an argument.
\<close>

type_synonym coefficients = "32 word \<rightharpoonup> 64 word"

definition costHash :: "64 word \<Rightarrow> int" where
  "costHash n = uint (New32_Sum32 (format_nat (unat n))) mod (4 - MinCost) + MinCost"

fun dotProduct :: "coefficients \<Rightarrow> coefficients \<Rightarrow> 32 word list \<Rightarrow> 64 word \<Rightarrow> 64 word" where
  "dotProduct u v [] acc = acc"
| "dotProduct u v (featureId # ids) acc =
     (case (u featureId, v featureId) of
        (Some userCoeff, Some videoCoeff) \<Rightarrow> dotProduct u v ids (acc + userCoeff * videoCoeff)
      | _ \<Rightarrow> dotProduct u v ids acc)"

text \<open>The error of \<open>GenerateFromPassword\<close> is dropped, which leaves nil bytes.\<close>

definition Rank :: "'c blowfish \<Rightarrow> 32 word list \<Rightarrow> coefficients \<Rightarrow> coefficients \<Rightarrow> 64 word" where
  "Rank bf order u v =
     (let d = dotProduct u v order 0;
          pw = format_padded 20 (uint d);
          bytes = (case GenerateFromPassword bf pw (costHash d) of Inl _ \<Rightarrow> [] | Inr h \<Rightarrow> h)
      in New64_Sum64 bytes)"

definition product_at :: "coefficients \<Rightarrow> coefficients \<Rightarrow> 32 word \<Rightarrow> 64 word" where
  "product_at u v k = (case (u k, v k) of (Some a, Some b) \<Rightarrow> a * b | _ \<Rightarrow> 0)"

lemma dotProduct_sum:
  "distinct order \<Longrightarrow> dotProduct u v order acc = acc + (\<Sum>k \<in> set order. product_at u v k)"
  by (induction order arbitrary: acc) (auto simp: product_at_def ac_simps split: option.splits)

lemma dotProduct_order:
  assumes "distinct order" and "set order = dom u"
  shows "dotProduct u v order 0 = (\<Sum>k \<in> dom u. product_at u v k)"
  using dotProduct_sum [OF assms(1), of u v 0] assms(2) by simp

lemma costHash_bounds: "1 \<le> costHash n" "costHash n \<le> 3"
proof -
  have "0 \<le> uint (New32_Sum32 (format_nat (unat n))) mod 3"
    "uint (New32_Sum32 (format_nat (unat n))) mod 3 < 3" by simp_all
  then show "1 \<le> costHash n" "costHash n \<le> 3" by (simp_all add: costHash_def MinCost_def)
qed

text \<open>The score does not depend on the order in which the coefficients are visited, although
  the sum wraps around: it is the hash of the bcrypt hash of the 20 digits of the wrapped dot
  product; the error that \<open>Rank\<close> drops never occurs, since \<open>costHash\<close> is between 1 and 3.\<close>

theorem rank_deterministic:
  assumes "blowfish_ok bf" and "distinct order" and "set order = dom u"
  shows "\<exists>h. GenerateFromPassword bf (format_padded 20 (uint (\<Sum>k \<in> dom u. product_at u v k)))
      (costHash (\<Sum>k \<in> dom u. product_at u v k)) = Inr h \<and> Rank bf order u v = New64_Sum64 h \<and>
    length (format_padded 20 (uint (\<Sum>k \<in> dom u. product_at u v k))) = 20"
proof -
  define d where "d = (\<Sum>k \<in> dom u. product_at u v k)"
  have d: "dotProduct u v order 0 = d" using dotProduct_order [OF assms(2,3)] by (simp add: d_def)
  have "costHash d \<le> MaxCost" using costHash_bounds(2) [of d] by (simp add: MaxCost_def)
  from GenerateFromPassword_returns [OF assms(1) this, of "format_padded 20 (uint d)"]
  obtain h where h: "GenerateFromPassword bf (format_padded 20 (uint d)) (costHash d) = Inr h" by blast
  moreover have "Rank bf order u v = New64_Sum64 h"
    by (simp add: Rank_def d h)
  moreover have "length (format_padded 20 (uint d)) = 20"
    using uint_lt2p [of d] by (intro length_format_padded) simp_all
  ultimately show ?thesis unfolding d_def by blast
qed

definition user_coeffs :: coefficients where "user_coeffs = [1 \<mapsto> 3, 2 \<mapsto> 5]"

theorem rank_deterministic_witness:
  "\<exists>h. GenerateFromPassword plain_cipher ''00000000000000000021'' 1 = Inr h \<and>
     Rank plain_cipher [2, 1] user_coeffs [1 \<mapsto> 7] = New64_Sum64 h"
proof -
  have "(\<Sum>k \<in> dom user_coeffs. product_at user_coeffs [1 \<mapsto> 7] k) = 21"
    by (simp add: user_coeffs_def product_at_def)
  moreover have "costHash 21 = 1" "format_padded 20 21 = ''00000000000000000021''"
    by code_simp+
  ultimately show ?thesis
    using rank_deterministic [OF plain_cipher_ok, of "[2, 1]" user_coeffs "[1 \<mapsto> 7]"]
    by (auto simp: user_coeffs_def)
qed

end
