(* ===== verification/User_Service.thy ===== *)
theory User_Service
  imports Failure_Injection Ranker
begin

section \<open>The user service\<close>

text \<open>
  \<open>lab2/user_service/server_lib/server_lib.go\<close> and the in-memory client of
  \<open>lab2/user_service/mock_client\<close> (the copies in \<open>lab1\<close> are identical). The generated
  protobuf structs are records; a handler runs in the state of the random source, from which the
  failure injector draws.
\<close>

record UserInfo =
  UserId :: "64 word"
  u_Username :: string
  u_Email :: string
  ProfileUrl :: string
  SubscribedTo :: "64 word list"
  UserCoefficients :: coefficients
  LikedVideos :: "64 word list"

record UserServiceOptions =
  uso_Seed :: int
  uso_SleepNs :: int
  uso_FailureRate :: int
  uso_ResponseOmissionRate :: int
  uso_MaxBatchSize :: int

definition DefaultUserServiceOptions :: UserServiceOptions where
  "DefaultUserServiceOptions = \<lparr>uso_Seed = 42, uso_SleepNs = 0, uso_FailureRate = 0,
     uso_ResponseOmissionRate = 0, uso_MaxBatchSize = 50\<rparr>"

definition USER_ID_OFFSET :: int where "USER_ID_OFFSET = 200000"
definition VIDEO_ID_OFFSET :: int where "VIDEO_ID_OFFSET = 1000"

subsection \<open>The generated database\<close>

text \<open>A sparse vector: later draws of the same feature overwrite earlier ones.\<close>

definition put_all :: "('k \<times> 'v) list \<Rightarrow> 'k \<rightharpoonup> 'v" where
  "put_all kvs = foldl (\<lambda>m (k, v). m(k \<mapsto> v)) Map.empty kvs"

definition random_coefficients :: "('r, 'f) sources \<Rightarrow> ('r \<times> 'f, coefficients) state" where
  "random_coefficients src = do {
     n \<leftarrow> rand (Intn src 10);
     let coeffCount = n + 10;
     kvs \<leftarrow> times (nat coeffCount) (do {
       k \<leftarrow> rand (Intn src 20);
       v \<leftarrow> rand (Intn src 500);
       State_Monad.return (of_int k, of_int v) });
     State_Monad.return (put_all kvs)
   }"

definition makeRandomUser :: "('r, 'f) sources \<Rightarrow> 64 word \<Rightarrow> int \<Rightarrow> int \<Rightarrow> ('r \<times> 'f, UserInfo) state" where
  "makeRandomUser src userId maxUsers maxVideos = do {
     email \<leftarrow> fake (Email src);
     let url = ''https://user-service.localhost/profile/'' @ format_nat (unat userId);
     username \<leftarrow> fake (Username src);
     coeffs \<leftarrow> random_coefficients src;
     n \<leftarrow> rand (Intn src 50);
     let subscribeCount = n + 10;
     subscribed \<leftarrow> times (nat subscribeCount) (do {
       k \<leftarrow> rand (Intn src maxUsers);
       State_Monad.return (of_int (k + USER_ID_OFFSET)) });
     n \<leftarrow> rand (Intn src 20);
     let likeCount = n + 5;
     liked \<leftarrow> times (nat likeCount) (do {
       k \<leftarrow> rand (Intn src maxVideos);
       State_Monad.return (of_int (k + VIDEO_ID_OFFSET)) });
     State_Monad.return \<lparr>UserId = userId, u_Username = username, u_Email = email, ProfileUrl = url,
       SubscribedTo = filter (\<lambda>s. s \<noteq> userId) subscribed, UserCoefficients = coeffs,
       LikedVideos = liked\<rparr>
   }"

text \<open>The loop over the user ids \<open>userId, userId + 1, ...\<close>.\<close>

primrec make_users ::
  "('r, 'f) sources \<Rightarrow> int \<Rightarrow> int \<Rightarrow> nat \<Rightarrow> int \<Rightarrow> (64 word \<rightharpoonup> UserInfo) \<Rightarrow>
   ('r \<times> 'f, 64 word \<rightharpoonup> UserInfo) state" where
  "make_users src userCount videoCount 0 userId users = State_Monad.return users"
| "make_users src userCount videoCount (Suc n) userId users = do {
     u \<leftarrow> makeRandomUser src (of_int userId) userCount videoCount;
     make_users src userCount videoCount n (userId + 1) (users(of_int userId \<mapsto> u))
   }"

definition makeRandomUsers :: "('r, 'f) sources \<Rightarrow> ('r \<times> 'f, 64 word \<rightharpoonup> UserInfo) state" where
  "makeRandomUsers src = do {
     v \<leftarrow> rand (Intn src 500);
     let videoCount = v + 100;
     u \<leftarrow> rand (Intn src 5000);
     let userCount = u + 5000;
     make_users src userCount videoCount (nat userCount) USER_ID_OFFSET Map.empty
   }"

subsection \<open>The server\<close>

record UserServiceServer =
  us_options :: UserServiceOptions
  us_fi :: FailureInjector
  us_users :: "64 word \<rightharpoonup> UserInfo"

text \<open>\<open>rand.Seed\<close> and \<open>gofakeit.Seed\<close> reset both sources.\<close>

definition MakeUserServiceServer ::
  "('r, 'f) sources \<Rightarrow> UserServiceOptions \<Rightarrow> UserServiceServer \<times> ('r \<times> 'f)" where
  "MakeUserServiceServer src options =
     (let g = (rand_Seed src (uso_Seed options), fake_Seed src (uso_Seed options));
          fi = SetInjectionConfig (uso_SleepNs options) (uso_FailureRate options)
                 (uso_ResponseOmissionRate options) MakeFailureInjector;
          (users, g) = run_state (makeRandomUsers src) g
      in (\<lparr>us_options = options, us_fi = fi, us_users = users\<rparr>, g))"

text \<open>The loop that looks the users up; the first missing one ends the request.\<close>

definition user_not_found :: "64 word \<Rightarrow> string" where
  "user_not_found userId = ''UserService: user '' @ format_nat (unat userId) @
     '' cannot be found, it may have been deleted or never existed in the first place.''"

fun find_users :: "(64 word \<rightharpoonup> UserInfo) \<Rightarrow> 64 word list \<Rightarrow> UserInfo list \<Rightarrow> UserInfo list reply" where
  "find_users db [] users = Inr users"
| "find_users db (userId # ids) users =
     (case db userId of
        Some info \<Rightarrow> find_users db ids (users @ [info])
      | None \<Rightarrow> status_Error NotFound (user_not_found userId))"

definition GetUser_checked :: "UserServiceServer \<Rightarrow> 64 word list \<Rightarrow> UserInfo list reply" where
  "GetUser_checked db userIds =
     (if len userIds = 0 then
        status_Error InvalidArgument ''UserService: user_ids in GetUserRequest should not be empty''
      else if len userIds > uso_MaxBatchSize (us_options db) then
        status_Error InvalidArgument
          (''UserService: user_ids exceeded the max batch size '' @ format_int (uso_MaxBatchSize (us_options db)))
      else find_users (us_users db) userIds [])"

definition GetUser ::
  "('r, 'f) sources \<Rightarrow> UserServiceServer \<Rightarrow> 64 word list \<Rightarrow> ('r, UserInfo list reply outcome) state" where
  "GetUser src db userIds = do {
     inj \<leftarrow> MaybeInject src (us_fi db);
     State_Monad.return
       (case inj of
          Blocks \<Rightarrow> Blocks
        | Panics \<Rightarrow> Panics
        | Returns shouldError \<Rightarrow> Returns
            (if shouldError then status_Error Internal ''UserService: (injected) internal error!''
             else GetUser_checked db userIds))
   }"

text \<open>The handler stores the pointer it is given and then reads through it to log it: a request
  without a configuration panics after the store.\<close>

definition user_SetInjectionConfig ::
  "UserServiceServer \<Rightarrow> InjectionConfig option \<Rightarrow> unit outcome \<times> UserServiceServer" where
  "user_SetInjectionConfig db config =
     (let db = db\<lparr>us_fi := SetInjectionConfigPb config (us_fi db)\<rparr> in
      (case config of None \<Rightarrow> Panics | Some _ \<Rightarrow> Returns (), db))"

subsection \<open>The in-memory client\<close>

record MockUserServiceClient =
  inMemServer :: UserServiceServer

definition MakeMockUserServiceClient ::
  "('r, 'f) sources \<Rightarrow> UserServiceOptions \<Rightarrow> MockUserServiceClient \<times> ('r \<times> 'f)" where
  "MakeMockUserServiceClient src options =
     (let (s, g) = MakeUserServiceServer src options in (\<lparr>inMemServer = s\<rparr>, g))"

definition mock_GetUser ::
  "('r, 'f) sources \<Rightarrow> MockUserServiceClient \<Rightarrow> 64 word list \<Rightarrow> ('r, UserInfo list reply outcome) state" where
  "mock_GetUser src client req = GetUser src (inMemServer client) req"

definition mock_user_SetInjectionConfig ::
  "MockUserServiceClient \<Rightarrow> InjectionConfig option \<Rightarrow> unit outcome \<times> MockUserServiceClient" where
  "mock_user_SetInjectionConfig client req =
     (let (r, s) = user_SetInjectionConfig (inMemServer client) req in (r, client\<lparr>inMemServer := s\<rparr>))"

end
