(* ===== verification/Video_Service.thy ===== *)
theory Video_Service
  imports User_Service
begin

section \<open>The video service\<close>

text \<open>
  \<open>lab2/video_service/server_lib/server_lib.go\<close> and the in-memory client of
  \<open>lab2/video_service/mock_client\<close> (the copies in \<open>lab1\<close> are identical). The clock is an
  argument of \<open>GetTrendingVideos\<close>: \<open>time.Now().Unix()\<close> at the moment of the call.
\<close>

record VideoInfo =
  VideoId :: "64 word"
  Title :: string
  Author :: string
  Url :: string
  VideoCoefficients :: coefficients

record VideoServiceOptions =
  vso_Seed :: int
  vso_TtlSeconds :: int
  vso_SleepNs :: int
  vso_FailureRate :: int
  vso_ResponseOmissionRate :: int
  vso_MaxBatchSize :: int

definition DefaultVideoServiceOptions :: VideoServiceOptions where
  "DefaultVideoServiceOptions = \<lparr>vso_Seed = 42, vso_TtlSeconds = 60, vso_SleepNs = 0,
     vso_FailureRate = 0, vso_ResponseOmissionRate = 0, vso_MaxBatchSize = 50\<rparr>"

subsection \<open>The generated database\<close>

definition random_title :: "('r, 'f) sources \<Rightarrow> int \<Rightarrow> ('r \<times> 'f, string) state" where
  "random_title src titleCase =
     (if titleCase = 0 then do {
        a \<leftarrow> fake (AdjectiveDescriptive src);
        v \<leftarrow> fake (Vegetable src);
        State_Monad.return (a @ '' '' @ v)
      } else if titleCase = 1 then do {
        a \<leftarrow> fake (AdjectiveDescriptive src);
        c \<leftarrow> fake (Animal src);
        w \<leftarrow> fake (NounUncountable src);
        State_Monad.return (''The '' @ a @ '' '' @ c @ [CHR 0x27] @ ''s '' @ w)
      } else if titleCase = 2 then do {
        p \<leftarrow> fake (AppName src);
        h \<leftarrow> fake (HackerVerb src);
        State_Monad.return (p @ '': '' @ h)
      } else do {
        a \<leftarrow> fake (AdjectiveDescriptive src);
        b \<leftarrow> fake (AdverbPlace src);
        State_Monad.return (a @ '' '' @ b)
      })"

text \<open>The parameter \<open>maxVideos\<close> of the source is not used there.\<close>

definition makeRandomVideo :: "('r, 'f) sources \<Rightarrow> 64 word \<Rightarrow> ('r \<times> 'f, VideoInfo) state" where
  "makeRandomVideo src videoId = do {
     titleCase \<leftarrow> rand (Intn src 4);
     title \<leftarrow> random_title src titleCase;
     let url = ''https://video-data.localhost/blob/'' @ format_nat (unat videoId);
     author \<leftarrow> fake (FullName src);
     coeffs \<leftarrow> random_coefficients src;
     State_Monad.return \<lparr>VideoId = videoId, Title = title, Author = author, Url = url,
       VideoCoefficients = coeffs\<rparr>
   }"

fun dedup_loop :: "'a list \<Rightarrow> 'a set \<Rightarrow> 'a list \<Rightarrow> 'a list" where
  "dedup_loop [] seen deduped = deduped"
| "dedup_loop (i # ids) seen deduped =
     (if i \<notin> seen then dedup_loop ids (insert i seen) (deduped @ [i]) else dedup_loop ids seen deduped)"

definition deduplicateIds :: "'a list \<Rightarrow> 'a list" where
  "deduplicateIds ids = dedup_loop ids {} []"

primrec make_videos ::
  "('r, 'f) sources \<Rightarrow> nat \<Rightarrow> int \<Rightarrow> (64 word \<rightharpoonup> VideoInfo) \<Rightarrow> ('r \<times> 'f, 64 word \<rightharpoonup> VideoInfo) state" where
  "make_videos src 0 videoId videos = State_Monad.return videos"
| "make_videos src (Suc n) videoId videos = do {
     v \<leftarrow> makeRandomVideo src (of_int videoId);
     make_videos src n (videoId + 1) (videos(of_int videoId \<mapsto> v))
   }"

definition makeRandomVideos ::
  "('r, 'f) sources \<Rightarrow> ('r \<times> 'f, (64 word \<rightharpoonup> VideoInfo) \<times> 64 word list) state" where
  "makeRandomVideos src = do {
     v \<leftarrow> rand (Intn src 500);
     let videoCount = v + 100;
     videos \<leftarrow> make_videos src (nat videoCount) VIDEO_ID_OFFSET Map.empty;
     n \<leftarrow> rand (Intn src 10);
     let topVideoCount = n + 10;
     topVideos \<leftarrow> times (nat topVideoCount) (do {
       k \<leftarrow> rand (Intn src videoCount);
       State_Monad.return (of_int (k + VIDEO_ID_OFFSET)) });
     State_Monad.return (videos, deduplicateIds topVideos)
   }"

subsection \<open>The server\<close>

record VideoServiceServer =
  vs_options :: VideoServiceOptions
  vs_fi :: FailureInjector
  vs_videos :: "64 word \<rightharpoonup> VideoInfo"
  vs_topVideos :: "64 word list"

definition MakeVideoServiceServer ::
  "('r, 'f) sources \<Rightarrow> VideoServiceOptions \<Rightarrow> VideoServiceServer \<times> ('r \<times> 'f)" where
  "MakeVideoServiceServer src options =
     (let g = (rand_Seed src (vso_Seed options), fake_Seed src (vso_Seed options));
          fi = SetInjectionConfig (vso_SleepNs options) (vso_FailureRate options)
                 (vso_ResponseOmissionRate options) MakeFailureInjector;
          ((videos, topVideos), g) = run_state (makeRandomVideos src) g
      in (\<lparr>vs_options = options, vs_fi = fi, vs_videos = videos, vs_topVideos = topVideos\<rparr>, g))"

definition video_not_found :: "64 word \<Rightarrow> string" where
  "video_not_found videoId = ''VideoService: video '' @ format_nat (unat videoId) @
     '' cannot be found, it may have been deleted or never existed in the first place.''"

fun find_videos :: "(64 word \<rightharpoonup> VideoInfo) \<Rightarrow> 64 word list \<Rightarrow> VideoInfo list \<Rightarrow> VideoInfo list reply" where
  "find_videos db [] videos = Inr videos"
| "find_videos db (videoId # ids) videos =
     (case db videoId of
        Some info \<Rightarrow> find_videos db ids (videos @ [info])
      | None \<Rightarrow> status_Error NotFound (video_not_found videoId))"

definition GetVideo_checked :: "VideoServiceServer \<Rightarrow> 64 word list \<Rightarrow> VideoInfo list reply" where
  "GetVideo_checked db videoIds =
     (if len videoIds = 0 then
        status_Error InvalidArgument ''VideoService: video_ids in GetVideoRequest should not be empty''
      else if len videoIds > vso_MaxBatchSize (vs_options db) then
        status_Error InvalidArgument
          (''VideoService: video_ids exceeded the max batch size '' @ format_int (vso_MaxBatchSize (vs_options db)))
      else if len (deduplicateIds videoIds) \<noteq> len videoIds then
        status_Error InvalidArgument ''VideoService: duplicate IDs found in video_ids''
      else find_videos (vs_videos db) videoIds [])"

definition injected ::
  "('r, 'f) sources \<Rightarrow> FailureInjector \<Rightarrow> 'a reply \<Rightarrow> ('r, 'a reply outcome) state" where
  "injected src fi answer = do {
     inj \<leftarrow> MaybeInject src fi;
     State_Monad.return
       (case inj of
          Blocks \<Rightarrow> Blocks
        | Panics \<Rightarrow> Panics
        | Returns shouldError \<Rightarrow> Returns
            (if shouldError then status_Error Internal ''VideoService: (injected) internal error!''
             else answer))
   }"

definition GetVideo ::
  "('r, 'f) sources \<Rightarrow> VideoServiceServer \<Rightarrow> 64 word list \<Rightarrow> ('r, VideoInfo list reply outcome) state" where
  "GetVideo src db videoIds = injected src (vs_fi db) (GetVideo_checked db videoIds)"

record GetTrendingVideosResponse =
  trending_Videos :: "64 word list"
  ExpirationTimeS :: "64 word"

definition GetTrendingVideos ::
  "('r, 'f) sources \<Rightarrow> VideoServiceServer \<Rightarrow> int \<Rightarrow> ('r, GetTrendingVideosResponse reply outcome) state" where
  "GetTrendingVideos src db now =
     injected src (vs_fi db) (Inr \<lparr>trending_Videos = vs_topVideos db,
       ExpirationTimeS = of_int (now + vso_TtlSeconds (vs_options db))\<rparr>)"

definition video_SetInjectionConfig ::
  "VideoServiceServer \<Rightarrow> InjectionConfig option \<Rightarrow> unit outcome \<times> VideoServiceServer" where
  "video_SetInjectionConfig db config =
     (let db = db\<lparr>vs_fi := SetInjectionConfigPb config (vs_fi db)\<rparr> in
      (case config of None \<Rightarrow> Panics | Some _ \<Rightarrow> Returns (), db))"

subsection \<open>The in-memory client\<close>

record MockVideoServiceClient =
  v_inMemServer :: VideoServiceServer

definition MakeMockVideoServiceClient ::
  "('r, 'f) sources \<Rightarrow> VideoServiceOptions \<Rightarrow> MockVideoServiceClient \<times> ('r \<times> 'f)" where
  "MakeMockVideoServiceClient src options =
     (let (s, g) = MakeVideoServiceServer src options in (\<lparr>v_inMemServer = s\<rparr>, g))"

definition mock_GetVideo ::
  "('r, 'f) sources \<Rightarrow> MockVideoServiceClient \<Rightarrow> 64 word list \<Rightarrow> ('r, VideoInfo list reply outcome) state" where
  "mock_GetVideo src client req = GetVideo src (v_inMemServer client) req"

definition mock_GetTrendingVideos ::
  "('r, 'f) sources \<Rightarrow> MockVideoServiceClient \<Rightarrow> int \<Rightarrow> ('r, GetTrendingVideosResponse reply outcome) state" where
  "mock_GetTrendingVideos src client now = GetTrendingVideos src (v_inMemServer client) now"

definition mock_video_SetInjectionConfig ::
  "MockVideoServiceClient \<Rightarrow> InjectionConfig option \<Rightarrow> unit outcome \<times> MockVideoServiceClient" where
  "mock_video_SetInjectionConfig client req =
     (let (r, s) = video_SetInjectionConfig (v_inMemServer client) req in (r, client\<lparr>v_inMemServer := s\<rparr>))"

end
