(* ===== verification/Backend_Services.thy ===== *)
theory Backend_Services
  imports Video_Service
begin

section \<open>What the backend services promise\<close>

text \<open>
  Both services answer a batch of ids from a table: an empty, oversized or (videos only) repetitive
  batch is an invalid argument, a missing id is reported as not found, and otherwise the answer is
  the table's entries in the order of the request. The locale \<open>batch_service\<close> is this contract,
  interpreted by \<open>GetUser\<close> and \<open>GetVideo\<close>; it is what the recommendation service needs of them.
\<close>

subsection \<open>The contract of a batch lookup\<close>

locale batch_service =
  fixes serve :: "'k list \<Rightarrow> 'i list reply"
    and lookup :: "'k \<rightharpoonup> 'i"
    and batch_ok :: "'k list \<Rightarrow> bool"
  assumes serve_found: "batch_ok ids \<Longrightarrow> set ids \<subseteq> dom lookup \<Longrightarrow> serve ids = Inr (map (the \<circ> lookup) ids)"
    and serve_missing: "batch_ok ids \<Longrightarrow> \<not> set ids \<subseteq> dom lookup \<Longrightarrow>
      \<exists>m. serve ids = Inl \<lparr>status_code = NotFound, status_message = m\<rparr>"
    and serve_rejected: "\<not> batch_ok ids \<Longrightarrow>
      \<exists>m. serve ids = Inl \<lparr>status_code = InvalidArgument, status_message = m\<rparr>"
begin

lemma serve_Inr_iff:
  "serve ids = Inr infos \<longleftrightarrow> batch_ok ids \<and> set ids \<subseteq> dom lookup \<and> infos = map (the \<circ> lookup) ids"
  using serve_found serve_missing serve_rejected by (metis Inl_Inr_False Inr_inject)

lemma serve_error_code:
  "serve ids = Inl st \<Longrightarrow> status_code st = (if batch_ok ids then NotFound else InvalidArgument)"
  using serve_found [of ids] serve_missing [of ids] serve_rejected [of ids]
  by (cases "set ids \<subseteq> dom lookup") (auto split: if_splits)

text \<open>A list of accepted batches yields the entries of their concatenation.\<close>

lemma serve_batches:
  assumes "\<And>b. b \<in> set batches \<Longrightarrow> batch_ok b" and "set (concat batches) \<subseteq> dom lookup"
  shows "map serve batches = map (\<lambda>b. Inr (map (the \<circ> lookup) b)) batches"
  using assms serve_found by (induction batches) auto

end

subsection \<open>The lookups\<close>

lemma find_users_found:
  "set ids \<subseteq> dom db \<Longrightarrow> find_users db ids acc = Inr (acc @ map (the \<circ> db) ids)"
  by (induction ids arbitrary: acc) auto

lemma find_users_missing:
  "\<not> set ids \<subseteq> dom db \<Longrightarrow> \<exists>m. find_users db ids acc = Inl \<lparr>status_code = NotFound, status_message = m\<rparr>"
  by (induction ids arbitrary: acc) (auto simp: status_Error_def split: option.splits)

lemma find_videos_found:
  "set ids \<subseteq> dom db \<Longrightarrow> find_videos db ids acc = Inr (acc @ map (the \<circ> db) ids)"
  by (induction ids arbitrary: acc) auto

lemma find_videos_missing:
  "\<not> set ids \<subseteq> dom db \<Longrightarrow> \<exists>m. find_videos db ids acc = Inl \<lparr>status_code = NotFound, status_message = m\<rparr>"
  by (induction ids arbitrary: acc) (auto simp: status_Error_def split: option.splits)

text \<open>Deduplication keeps the first occurrence of each id.\<close>

lemma dedup_loop_append:
  "dedup_loop (xs @ ys) seen acc = dedup_loop ys (seen \<union> set xs) (dedup_loop xs seen acc)"
  by (induction xs arbitrary: seen acc) (simp_all add: insert_absorb)

lemma deduplicateIds_snoc:
  "deduplicateIds (xs @ [x]) = (if x \<in> set xs then deduplicateIds xs else deduplicateIds xs @ [x])"
  by (simp add: deduplicateIds_def dedup_loop_append)

lemma deduplicateIds_remdups: "deduplicateIds ids = rev (remdups (rev ids))"
  by (induction ids rule: rev_induct) (simp_all add: deduplicateIds_snoc, simp add: deduplicateIds_def)

lemma deduplicateIds_props:
  "distinct (deduplicateIds ids)" "set (deduplicateIds ids) = set ids"
  "length (deduplicateIds ids) = length ids \<longleftrightarrow> distinct ids" "length (deduplicateIds ids) \<le> length ids"
  using length_remdups_eq [of "rev ids"] length_remdups_leq [of "rev ids"]
  by (simp_all add: deduplicateIds_remdups)

definition user_batch :: "UserServiceServer \<Rightarrow> 64 word list \<Rightarrow> bool" where
  "user_batch db ids \<longleftrightarrow> ids \<noteq> [] \<and> len ids \<le> uso_MaxBatchSize (us_options db)"

definition video_batch :: "VideoServiceServer \<Rightarrow> 64 word list \<Rightarrow> bool" where
  "video_batch db ids \<longleftrightarrow> ids \<noteq> [] \<and> len ids \<le> vso_MaxBatchSize (vs_options db) \<and> distinct ids"

interpretation users: batch_service "GetUser_checked db" "us_users db" "user_batch db" for db
  using find_users_found [of _ "us_users db" "[]"] find_users_missing [of _ "us_users db" "[]"]
  by unfold_locales (auto simp: GetUser_checked_def user_batch_def status_Error_def)

interpretation videos: batch_service "GetVideo_checked db" "vs_videos db" "video_batch db" for db
  using find_videos_found [of _ "vs_videos db" "[]"] find_videos_missing [of _ "vs_videos db" "[]"]
  by unfold_locales
    (auto simp: GetVideo_checked_def video_batch_def status_Error_def deduplicateIds_props)

subsection \<open>Handlers of a server that injects nothing\<close>

definition healthy :: "FailureInjector \<Rightarrow> bool" where
  "healthy fi \<longleftrightarrow> (\<exists>c. Config fi = Some c \<and> FailureRate c = 0 \<and> ResponseOmissionRate c = 0)"

lemma MaybeInject_healthy: "healthy fi \<Longrightarrow> run_state (MaybeInject src fi) r = (Returns False, r)"
  unfolding healthy_def by (elim exE conjE) (rule MaybeInject_off)

lemma GetUser_healthy:
  "healthy (us_fi db) \<Longrightarrow> run_state (GetUser src db ids) r = (Returns (GetUser_checked db ids), r)"
  by (simp add: GetUser_def run_state_bind MaybeInject_healthy)

lemma GetVideo_healthy:
  "healthy (vs_fi db) \<Longrightarrow> run_state (GetVideo src db ids) r = (Returns (GetVideo_checked db ids), r)"
  by (simp add: GetVideo_def injected_def run_state_bind MaybeInject_healthy)

lemma GetTrendingVideos_healthy:
  "healthy (vs_fi db) \<Longrightarrow> run_state (GetTrendingVideos src db now) r =
     (Returns (Inr \<lparr>trending_Videos = vs_topVideos db,
        ExpirationTimeS = of_int (now + vso_TtlSeconds (vs_options db))\<rparr>), r)"
  by (simp add: GetTrendingVideos_def injected_def run_state_bind MaybeInject_healthy)

subsection \<open>The generated databases\<close>

definition video_ids :: "int \<Rightarrow> 64 word set" where
  "video_ids n = of_int ` {VIDEO_ID_OFFSET..<VIDEO_ID_OFFSET + n}"

definition user_ids :: "int \<Rightarrow> 64 word set" where
  "user_ids n = of_int ` {USER_ID_OFFSET..<USER_ID_OFFSET + n}"

definition user_ok :: "int \<Rightarrow> int \<Rightarrow> 64 word \<Rightarrow> UserInfo \<Rightarrow> bool" where
  "user_ok userCount videoCount i u \<longleftrightarrow> UserId u = i \<and> i \<notin> set (SubscribedTo u) \<and>
     set (SubscribedTo u) \<subseteq> user_ids userCount \<and> set (LikedVideos u) \<subseteq> video_ids videoCount \<and>
     5 \<le> length (LikedVideos u) \<and> length (LikedVideos u) < 25 \<and>
     dom (UserCoefficients u) \<subseteq> of_int ` {0..<20}"

lemma dom_put_all: "dom (put_all kvs) = fst ` set kvs"
proof -
  have "dom (foldl (\<lambda>m (k, v). m(k \<mapsto> v)) m kvs) = dom m \<union> fst ` set kvs" for m
    by (induction kvs arbitrary: m) auto
  then show ?thesis by (simp add: put_all_def)
qed

lemma yields_pair:
  assumes "sources_ok src" and "0 < n" and "0 < m"
  shows "yields (do { k \<leftarrow> rand (Intn src n); v \<leftarrow> rand (Intn src m); State_Monad.return (of_int k, of_int v) })
    (\<lambda>kv. fst kv \<in> of_int ` {0..<n})"
  by (rule yields_bind [OF yields_Intn [OF assms(1,2)]], rule yields_bind [OF yields_Intn [OF assms(1,3)]],
      rule yields_return) auto

lemma random_coefficients_yields:
  assumes "sources_ok src"
  shows "yields (random_coefficients src) (\<lambda>c. dom c \<subseteq> of_int ` {0..<20})"
  unfolding random_coefficients_def Let_def
  by (rule yields_bind [OF yields_Intn [OF assms]], simp,
      rule yields_bind [OF yields_times [OF yields_pair [OF assms, of 20 500]]], simp, simp,
      rule yields_return) (auto simp: dom_put_all)

lemma yields_offset:
  assumes "sources_ok src" and "0 < n"
  shows "yields (do { k \<leftarrow> rand (Intn src n); State_Monad.return (of_int (k + off)) })
    (\<lambda>x. x \<in> of_int ` {off..<off + n})"
  by (rule yields_bind [OF yields_Intn [OF assms]], rule yields_return, rule imageI) simp

lemma makeRandomUser_yields:
  assumes src: "sources_ok src" and n: "0 < maxUsers" "0 < maxVideos"
  shows "yields (makeRandomUser src userId maxUsers maxVideos) (user_ok maxUsers maxVideos userId)"
  unfolding makeRandomUser_def Let_def
proof (rule yields_bind [OF yields_any], rule yields_bind [OF yields_any],
    rule yields_bind [OF random_coefficients_yields [OF src]],
    rule yields_bind [OF yields_Intn [OF src]], simp,
    rule yields_bind [OF yields_times [OF yields_offset [OF src n(1)]]],
    rule yields_bind [OF yields_Intn [OF src]], simp,
    rule yields_bind [OF yields_times [OF yields_offset [OF src n(2)]]], rule yields_return)
  fix email username k m and coeffs :: coefficients and subscribed liked :: "64 word list"
  assume "dom coeffs \<subseteq> of_int ` {0..<20::int}" "0 \<le> (m::int) \<and> m < 20"
    "length subscribed = nat (k + 10) \<and> (\<forall>x \<in> set subscribed. x \<in> of_int ` {USER_ID_OFFSET..<USER_ID_OFFSET + maxUsers})"
    "length liked = nat (m + 5) \<and> (\<forall>x \<in> set liked. x \<in> of_int ` {VIDEO_ID_OFFSET..<VIDEO_ID_OFFSET + maxVideos})"
  then show "user_ok maxUsers maxVideos userId
    \<lparr>UserId = userId, u_Username = username, u_Email = email,
     ProfileUrl = ''https://user-service.localhost/profile/'' @ format_nat (unat userId),
     SubscribedTo = filter (\<lambda>s. s \<noteq> userId) subscribed, UserCoefficients = coeffs, LikedVideos = liked\<rparr>"
    by (auto simp: user_ok_def user_ids_def video_ids_def)
qed

lemma make_users_yields:
  assumes src: "sources_ok src" and n: "0 < userCount" "0 < videoCount"
  shows "yields (make_users src userCount videoCount k userId users)
    (\<lambda>db. dom db = dom users \<union> of_int ` {userId..<userId + int k} \<and>
       (\<forall>i u. db i = Some u \<longrightarrow> users i = Some u \<or> user_ok userCount videoCount i u))"
proof (induction k arbitrary: userId users)
  case 0
  then show ?case by (simp add: yields_return)
next
  case (Suc k)
  have ids: "{userId..<userId + int (Suc k)} = insert userId {userId + 1..<userId + 1 + int k}" by auto
  show ?case
    unfolding make_users.simps
    by (rule yields_bind [OF makeRandomUser_yields [OF src n]], rule yields_mono [OF Suc.IH])
      (simp only: ids image_insert, auto split: if_splits)
qed

lemma make_videos_yields:
  "yields (make_videos src k videoId videos)
    (\<lambda>db. dom db = dom videos \<union> of_int ` {videoId..<videoId + int k})"
proof (induction k arbitrary: videoId videos)
  case 0
  then show ?case by (simp add: yields_return)
next
  case (Suc k)
  have ids: "{videoId..<videoId + int (Suc k)} = insert videoId {videoId + 1..<videoId + 1 + int k}" by auto
  show ?case
    unfolding make_videos.simps
    by (rule yields_bind [OF yields_any], rule yields_mono [OF Suc.IH]) (simp only: ids image_insert, auto)
qed

text \<open>Both databases draw the number of videos first, from a freshly seeded source.\<close>

definition drawn_videos :: "('r, 'f) sources \<Rightarrow> int \<Rightarrow> int" where
  "drawn_videos src seed = fst (run_state (Intn src 500) (rand_Seed src seed)) + 100"

lemma drawn_videos_pos: "sources_ok src \<Longrightarrow> 0 < drawn_videos src seed"
  unfolding drawn_videos_def sources_ok_def by (metis add_nonneg_pos atLeastLessThan_iff zero_less_numeral)

lemma first_draw:
  "run_state (State_Monad.bind (rand (Intn src n)) f) (rand_Seed src seed, g) =
     run_state (f (fst (run_state (Intn src n) (rand_Seed src seed))))
       (snd (run_state (Intn src n) (rand_Seed src seed)), g)"
  by (simp add: run_state_bind rand_def split_beta Let_def)

lemma MakeUserServiceServer_users:
  assumes src: "sources_ok src"
    and server: "fst (MakeUserServiceServer src uo) = us"
  obtains userCount where "5000 \<le> userCount" "dom (us_users us) = user_ids userCount"
    "\<And>i u. us_users us i = Some u \<Longrightarrow> user_ok userCount (drawn_videos src (uso_Seed uo)) i u"
    "us_options us = uo" "Config (us_fi us) = Some \<lparr>SleepNs = uso_SleepNs uo, FailureRate = uso_FailureRate uo,
       ResponseOmissionRate = uso_ResponseOmissionRate uo\<rparr>"
proof -
  let ?v = "drawn_videos src (uso_Seed uo)"
  have users: "us_users us =
      fst (run_state (makeRandomUsers src) (rand_Seed src (uso_Seed uo), fake_Seed src (uso_Seed uo)))"
    unfolding server [symmetric] by (simp add: MakeUserServiceServer_def Let_def split_beta)
  have "yields (do { u \<leftarrow> rand (Intn src 5000); let userCount = u + 5000;
      make_users src userCount ?v (nat userCount) USER_ID_OFFSET Map.empty })
    (\<lambda>db. \<exists>n \<ge> 5000. dom db = user_ids n \<and> (\<forall>i u. db i = Some u \<longrightarrow> user_ok n ?v i u))"
    unfolding Let_def
  proof (rule yields_bind [OF yields_Intn [OF src]], simp)
    fix u :: int assume u: "0 \<le> u \<and> u < 5000"
    then have "0 < u + 5000" by simp
    from make_users_yields [OF src this drawn_videos_pos [OF src]]
    show "yields (make_users src (u + 5000) ?v (nat (u + 5000)) USER_ID_OFFSET Map.empty)
      (\<lambda>db. \<exists>n \<ge> 5000. dom db = user_ids n \<and> (\<forall>i u. db i = Some u \<longrightarrow> user_ok n ?v i u))"
      by (rule yields_mono) (use u in \<open>intro exI [of _ "u + 5000"], auto simp: user_ids_def\<close>)
  qed
  then have "\<exists>n \<ge> 5000. dom (us_users us) = user_ids n \<and>
      (\<forall>i u. us_users us i = Some u \<longrightarrow> user_ok n ?v i u)"
    unfolding users makeRandomUsers_def Let_def first_draw yields_def drawn_videos_def by blast
  then obtain n where "5000 \<le> n" "dom (us_users us) = user_ids n"
    "\<forall>i u. us_users us i = Some u \<longrightarrow> user_ok n ?v i u" by blast
  with that server show thesis
    by (auto simp: MakeUserServiceServer_def SetInjectionConfig_def Let_def split_beta)
qed

lemma MakeVideoServiceServer_videos:
  assumes src: "sources_ok src"
    and server: "fst (MakeVideoServiceServer src vo) = vs"
  shows "dom (vs_videos vs) = video_ids (drawn_videos src (vso_Seed vo)) \<and>
    set (vs_topVideos vs) \<subseteq> dom (vs_videos vs) \<and> distinct (vs_topVideos vs) \<and>
    vs_topVideos vs \<noteq> [] \<and> length (vs_topVideos vs) < 20"
proof -
  let ?v = "drawn_videos src (vso_Seed vo)"
  have videos: "(vs_videos vs, vs_topVideos vs) =
      fst (run_state (makeRandomVideos src) (rand_Seed src (vso_Seed vo), fake_Seed src (vso_Seed vo)))"
    unfolding server [symmetric] by (simp add: MakeVideoServiceServer_def Let_def split_beta)
  have "yields (do { videos \<leftarrow> make_videos src (nat ?v) VIDEO_ID_OFFSET Map.empty;
      n \<leftarrow> rand (Intn src 10); let topVideoCount = n + 10;
      topVideos \<leftarrow> times (nat topVideoCount) (do {
        k \<leftarrow> rand (Intn src ?v); State_Monad.return (of_int (k + VIDEO_ID_OFFSET)) });
      State_Monad.return (videos, deduplicateIds topVideos) })
    (\<lambda>(db, tops). dom db = video_ids ?v \<and> set tops \<subseteq> dom db \<and> distinct tops \<and> tops \<noteq> [] \<and> length tops < 20)"
    unfolding Let_def
  proof (rule yields_bind [OF make_videos_yields], rule yields_bind [OF yields_Intn [OF src]], simp,
      rule yields_bind [OF yields_times [OF yields_offset [OF src drawn_videos_pos [OF src]]]],
      rule yields_return)
    fix db :: "64 word \<rightharpoonup> VideoInfo" and k and tops :: "64 word list"
    assume db: "dom db = dom Map.empty \<union> of_int ` {VIDEO_ID_OFFSET..<VIDEO_ID_OFFSET + int (nat ?v)}"
      and k: "0 \<le> k \<and> k < (10::int)"
      and tops: "length tops = nat (k + 10) \<and>
        (\<forall>x \<in> set tops. x \<in> of_int ` {VIDEO_ID_OFFSET..<VIDEO_ID_OFFSET + ?v})"
    have "tops \<noteq> []" using tops k by auto
    then have "deduplicateIds tops \<noteq> []" using deduplicateIds_props(2) [of tops] by fastforce
    moreover have "length (deduplicateIds tops) < 20" using deduplicateIds_props(4) [of tops] tops k by linarith
    moreover have "dom db = video_ids ?v"
      using db drawn_videos_pos [OF src, of "vso_Seed vo"] by (simp add: video_ids_def)
    ultimately show "case (db, deduplicateIds tops) of (db, tops) \<Rightarrow> dom db = video_ids ?v \<and>
        set tops \<subseteq> dom db \<and> distinct tops \<and> tops \<noteq> [] \<and> length tops < 20"
      using tops by (auto simp: deduplicateIds_props video_ids_def)
  qed
  then have "case (vs_videos vs, vs_topVideos vs) of (db, tops) \<Rightarrow> dom db = video_ids ?v \<and>
      set tops \<subseteq> dom db \<and> distinct tops \<and> tops \<noteq> [] \<and> length tops < 20"
    unfolding videos makeRandomVideos_def Let_def first_draw yields_def drawn_videos_def by (rule spec)
  then show ?thesis unfolding prod.case .
qed

subsection \<open>Properties\<close>

lemma databases_consistent_lemma:
  assumes "sources_ok src" and "uso_Seed uo = vso_Seed vo"
    and "fst (MakeUserServiceServer src uo) = us" and "fst (MakeVideoServiceServer src vo) = vs"
  shows "set (vs_topVideos vs) \<subseteq> dom (vs_videos vs) \<and> distinct (vs_topVideos vs) \<and>
    vs_topVideos vs \<noteq> [] \<and> len (vs_topVideos vs) \<le> vso_MaxBatchSize DefaultVideoServiceOptions \<and>
    (\<forall>i u. us_users us i = Some u \<longrightarrow> UserId u = i \<and> LikedVideos u \<noteq> [] \<and>
       set (LikedVideos u) \<subseteq> dom (vs_videos vs) \<and>
       set (SubscribedTo u) \<subseteq> dom (us_users us) \<and> i \<notin> set (SubscribedTo u))"
proof -
  obtain n where n: "dom (us_users us) = user_ids n"
    "\<And>i u. us_users us i = Some u \<Longrightarrow> user_ok n (drawn_videos src (uso_Seed uo)) i u"
    using MakeUserServiceServer_users [OF assms(1,3)] by metis
  note v = MakeVideoServiceServer_videos [OF assms(1,4)]
  have "UserId u = i \<and> LikedVideos u \<noteq> [] \<and> set (LikedVideos u) \<subseteq> dom (vs_videos vs) \<and>
      set (SubscribedTo u) \<subseteq> dom (us_users us) \<and> i \<notin> set (SubscribedTo u)"
    if "us_users us i = Some u" for i u
    using n(2) [OF that] v assms(2) unfolding user_ok_def n(1) by auto
  with v show ?thesis by (auto simp: DefaultVideoServiceOptions_def)
qed

text \<open>C20. The two handlers on every branch, for servers that inject nothing: an empty or oversized
  batch, and for videos one with a repeated id, is an invalid argument; otherwise a missing id is
  not found; otherwise the answer is the table's entry for each id of the request, in its order.
  Nothing is drawn from the random source.\<close>

theorem GetUser_GetVideo_contract:
  assumes "healthy (us_fi us)" and "healthy (vs_fi vs)"
  shows "(\<exists>a. run_state (GetUser src us ids) r = (Returns a, r) \<and>
       (case a of
          Inr infos \<Rightarrow> ids \<noteq> [] \<and> len ids \<le> uso_MaxBatchSize (us_options us) \<and>
            set ids \<subseteq> dom (us_users us) \<and> infos = map (\<lambda>i. the (us_users us i)) ids
        | Inl st \<Rightarrow> status_code st =
            (if ids = [] \<or> len ids > uso_MaxBatchSize (us_options us) then InvalidArgument else NotFound) \<and>
            (status_code st = NotFound \<longrightarrow> \<not> set ids \<subseteq> dom (us_users us)))) \<and>
    (\<exists>a. run_state (GetVideo src vs ids) r = (Returns a, r) \<and>
       (case a of
          Inr infos \<Rightarrow> ids \<noteq> [] \<and> len ids \<le> vso_MaxBatchSize (vs_options vs) \<and> distinct ids \<and>
            set ids \<subseteq> dom (vs_videos vs) \<and> infos = map (\<lambda>i. the (vs_videos vs i)) ids
        | Inl st \<Rightarrow> status_code st =
            (if ids = [] \<or> len ids > vso_MaxBatchSize (vs_options vs) \<or> \<not> distinct ids
             then InvalidArgument else NotFound) \<and>
            (status_code st = NotFound \<longrightarrow> \<not> set ids \<subseteq> dom (vs_videos vs))))"
proof -
  have "case GetUser_checked us ids of
      Inr infos \<Rightarrow> ids \<noteq> [] \<and> len ids \<le> uso_MaxBatchSize (us_options us) \<and>
        set ids \<subseteq> dom (us_users us) \<and> infos = map (\<lambda>i. the (us_users us i)) ids
    | Inl st \<Rightarrow> status_code st =
        (if ids = [] \<or> len ids > uso_MaxBatchSize (us_options us) then InvalidArgument else NotFound) \<and>
        (status_code st = NotFound \<longrightarrow> \<not> set ids \<subseteq> dom (us_users us))"
  proof (cases "GetUser_checked us ids")
    case (Inl st)
    with users.serve_error_code [OF Inl] users.serve_found [of us ids] show ?thesis
      by (auto simp: user_batch_def)
  next
    case (Inr infos)
    with users.serve_Inr_iff [of us ids infos] show ?thesis by (simp add: user_batch_def comp_def)
  qed
  moreover have "case GetVideo_checked vs ids of
      Inr infos \<Rightarrow> ids \<noteq> [] \<and> len ids \<le> vso_MaxBatchSize (vs_options vs) \<and> distinct ids \<and>
        set ids \<subseteq> dom (vs_videos vs) \<and> infos = map (\<lambda>i. the (vs_videos vs i)) ids
    | Inl st \<Rightarrow> status_code st =
        (if ids = [] \<or> len ids > vso_MaxBatchSize (vs_options vs) \<or> \<not> distinct ids
         then InvalidArgument else NotFound) \<and>
        (status_code st = NotFound \<longrightarrow> \<not> set ids \<subseteq> dom (vs_videos vs))"
  proof (cases "GetVideo_checked vs ids")
    case (Inl st)
    with videos.serve_error_code [OF Inl] videos.serve_found [of vs ids] show ?thesis
      by (auto simp: video_batch_def)
  next
    case (Inr infos)
    with videos.serve_Inr_iff [of vs ids infos] show ?thesis by (simp add: video_batch_def comp_def)
  qed
  ultimately show ?thesis
    by (intro conjI exI [of _ "GetUser_checked us ids"] exI [of _ "GetVideo_checked vs ids"]
        GetUser_healthy GetVideo_healthy assms)
qed

definition sample_video :: VideoInfo where
  "sample_video = \<lparr>VideoId = 7, Title = ''t'', Author = ''a'', Url = ''u'', VideoCoefficients = Map.empty\<rparr>"

definition sample_vs :: VideoServiceServer where
  "sample_vs = \<lparr>vs_options = DefaultVideoServiceOptions, vs_fi = MakeFailureInjector,
     vs_videos = [7 \<mapsto> sample_video], vs_topVideos = [7]\<rparr>"

definition sample_us :: UserServiceServer where
  "sample_us = \<lparr>us_options = DefaultUserServiceOptions, us_fi = MakeFailureInjector, us_users = Map.empty\<rparr>"

lemma healthy_default: "healthy MakeFailureInjector"
  by (simp add: healthy_def MakeFailureInjector_def)

theorem GetUser_GetVideo_contract_witness:
  "\<exists>a. run_state (GetVideo fixed_sources sample_vs [7, 7]) 0 = (Returns a, 0) \<and>
     (\<forall>infos. a \<noteq> Inr infos)"
proof -
  have "healthy (us_fi sample_us)" "healthy (vs_fi sample_vs)"
    by (simp_all add: sample_us_def sample_vs_def healthy_default)
  from conjunct2 [OF GetUser_GetVideo_contract [OF this, of fixed_sources "[7, 7]" 0]] show ?thesis
  proof (elim exE conjE, goal_cases)
    case (1 a)
    then show ?case by (cases a) auto
  qed
qed

end
