(* ===== verification/Video_Rec.thy ===== *)
theory Video_Rec
  imports Backend_Services
begin

section \<open>The video recommendation service\<close>

text \<open>
  \<open>lab2/video_rec_service/server_lib/server_lib.go\<close>. A client of a backend is a state
  transformer over the state \<open>'w\<close> of everything outside the server (the backends, the network,
  their random sources); \<open>NewUserServiceClient\<close> and \<open>NewVideoServiceClient\<close> of the
  generated gRPC code, which turn a connection into a client, and \<open>grpc.Dial\<close> are arguments, as
  are the clock and the ranker. A handler is one function of the server and the outside state: it
  runs without other handlers or the refreshing goroutine in between, so the cache and the options of a
  request are those at its start. The interleavings of the unlocked counter of active requests are in
  \<open>Video_Rec_Stats\<close>.
\<close>

type_synonym ('w, 'a) call = "('w, 'a outcome) state"
type_synonym 'w user_client = "64 word list \<Rightarrow> ('w, UserInfo list reply) call"

record 'w video_client =
  vc_GetVideo :: "64 word list \<Rightarrow> ('w, VideoInfo list reply) call"
  vc_GetTrendingVideos :: "('w, GetTrendingVideosResponse reply) call"

text \<open>Sequencing of calls that may block or panic.\<close>

definition call_bind :: "('w, 'a) call \<Rightarrow> ('a \<Rightarrow> ('w, 'b) call) \<Rightarrow> ('w, 'b) call" where
  "call_bind m f = do {
     r \<leftarrow> m;
     (case r of
        Returns a \<Rightarrow> f a
      | Blocks \<Rightarrow> State_Monad.return Blocks
      | Panics \<Rightarrow> State_Monad.return Panics)
   }"

lemma run_call_bind:
  "run_state (call_bind m f) w =
     (case run_state m w of
        (Returns a, w') \<Rightarrow> run_state (f a) w'
      | (Blocks, w') \<Rightarrow> (Blocks, w')
      | (Panics, w') \<Rightarrow> (Panics, w'))"
  by (simp add: call_bind_def run_state_bind split: prod.split outcome.split)

subsection \<open>Options and server state\<close>

record VideoRecServiceOptions =
  UserServiceAddr :: string
  VideoServiceAddr :: string
  MaxBatchSize :: int
  DisableFallback :: bool
  DisableRetry :: bool
  ClientPoolSize :: int

record ('conn, 'w) VideoRecServiceServer =
  options :: VideoRecServiceOptions
  userConns :: "'conn list"
  videoConns :: "'conn list"
  userConnIndex :: "32 word"
  videoConnIndex :: "32 word"
  useMock :: bool
  mockUserServiceClient :: "'w user_client option"
  mockVideoServiceClient :: "'w video_client option"
  numTotalRequests :: "64 word"
  numTotalErrors :: "64 word"
  numActiveRequests :: "64 word"
  numUserErrors :: "64 word"
  numVideoErrors :: "64 word"
  totalLatency :: "64 word"
  numStaleResponses :: "64 word"
  trendingVideos :: "VideoInfo list option"
  expirationTime :: "64 word"

text \<open>The zero value of the struct, with the fields that both constructors set.\<close>

definition new_server :: "VideoRecServiceOptions \<Rightarrow> int \<Rightarrow> ('conn, 'w) VideoRecServiceServer" where
  "new_server opts now =
     \<lparr>options = opts, userConns = [], videoConns = [], userConnIndex = 0, videoConnIndex = 0,
      useMock = False, mockUserServiceClient = None, mockVideoServiceClient = None,
      numTotalRequests = 0, numTotalErrors = 0, numActiveRequests = 0, numUserErrors = 0,
      numVideoErrors = 0, totalLatency = 0, numStaleResponses = 0, trendingVideos = None,
      expirationTime = of_int now\<rparr>"

subsection \<open>Errors\<close>

definition code_number :: "code \<Rightarrow> int" where
  "code_number c = (case c of InvalidArgument \<Rightarrow> 3 | NotFound \<Rightarrow> 5 | Internal \<Rightarrow> 13 | Unavailable \<Rightarrow> 14)"

definition handleError :: "code \<Rightarrow> string \<Rightarrow> status" where
  "handleError c message =
     \<lparr>status_code = c, status_message = ''VideoRecService: '' @ message @ '', error code '' @
        format_int (code_number c) @ [CHR 0x0A]\<rparr>"

subsection \<open>Connections\<close>

text \<open>\<open>grpc.Dial\<close>, retried once unless retries are disabled.\<close>

definition CreateConnection ::
  "(string \<Rightarrow> ('w, 'e + 'conn) state) \<Rightarrow> bool \<Rightarrow> string \<Rightarrow> ('w, 'e + 'conn) state" where
  "CreateConnection Dial disableRetry addr = do {
     r \<leftarrow> Dial addr;
     (case r of
        Inr conn \<Rightarrow> State_Monad.return (Inr conn)
      | Inl err \<Rightarrow> if \<not> disableRetry then Dial addr else State_Monad.return (Inl err))
   }"

primrec dial_pool ::
  "(string \<Rightarrow> ('w, 'e + 'conn) state) \<Rightarrow> VideoRecServiceOptions \<Rightarrow> nat \<Rightarrow> 'conn list \<Rightarrow> 'conn list \<Rightarrow>
   ('w, status + 'conn list \<times> 'conn list) state" where
  "dial_pool Dial opts 0 us vs = State_Monad.return (Inr (us, vs))"
| "dial_pool Dial opts (Suc n) us vs = do {
     u \<leftarrow> CreateConnection Dial (DisableRetry opts) (UserServiceAddr opts);
     (case u of
        Inl _ \<Rightarrow> State_Monad.return (Inl (handleError Unavailable ''fail to dial to UserService''))
      | Inr userConn \<Rightarrow> do {
          v \<leftarrow> CreateConnection Dial (DisableRetry opts) (VideoServiceAddr opts);
          (case v of
             Inl _ \<Rightarrow> State_Monad.return (Inl (handleError Unavailable ''fail to dial to VideoService''))
           | Inr videoConn \<Rightarrow> dial_pool Dial opts n (us @ [userConn]) (vs @ [videoConn]))
        })
   }"

text \<open>The constructors; the flag says whether the refreshing goroutine is started.\<close>

definition MakeVideoRecServiceServer ::
  "(string \<Rightarrow> ('w, 'e + 'conn) state) \<Rightarrow> int \<Rightarrow> VideoRecServiceOptions \<Rightarrow>
   ('w, status + ('conn, 'w) VideoRecServiceServer \<times> bool) state" where
  "MakeVideoRecServiceServer Dial now opts = do {
     r \<leftarrow> dial_pool Dial opts (nat (ClientPoolSize opts)) [] [];
     State_Monad.return
       (case r of
          Inl e \<Rightarrow> Inl e
        | Inr (us, vs) \<Rightarrow>
            Inr ((new_server opts now)\<lparr>userConns := us, videoConns := vs\<rparr>, \<not> DisableFallback opts))
   }"

definition MakeVideoRecServiceServerWithMocks ::
  "int \<Rightarrow> VideoRecServiceOptions \<Rightarrow> 'w user_client \<Rightarrow> 'w video_client \<Rightarrow>
   ('conn, 'w) VideoRecServiceServer \<times> bool" where
  "MakeVideoRecServiceServerWithMocks now opts mockUser mockVideo =
     ((new_server opts now)\<lparr>useMock := True, mockUserServiceClient := Some mockUser,
        mockVideoServiceClient := Some mockVideo\<rparr>, \<not> DisableFallback opts)"

text \<open>Go's signed remainder, which has the sign of the dividend. The index is a signed 32-bit
  counter: \<open>None\<close> is a division by zero, for an empty pool, or an index below zero.\<close>

definition go_rem :: "int \<Rightarrow> int \<Rightarrow> int" where
  "go_rem a b = sgn a * (\<bar>a\<bar> mod \<bar>b\<bar>)"

definition round_robin :: "32 word \<Rightarrow> 'conn list \<Rightarrow> 'conn option" where
  "round_robin index conns =
     (let n = sint (of_int (len conns) :: 32 word) in
      if n = 0 then None else go_index conns (go_rem (sint index) n))"

definition GetUserConnRoundRobin ::
  "('conn, 'w) VideoRecServiceServer \<Rightarrow> ('conn \<times> ('conn, 'w) VideoRecServiceServer) option" where
  "GetUserConnRoundRobin server = do {
     conn \<leftarrow> round_robin (userConnIndex server) (userConns server);
     Some (conn, server\<lparr>userConnIndex := userConnIndex server + 1\<rparr>)
   }"

definition GetVideoConnRoundRobin ::
  "('conn, 'w) VideoRecServiceServer \<Rightarrow> ('conn \<times> ('conn, 'w) VideoRecServiceServer) option" where
  "GetVideoConnRoundRobin server = do {
     conn \<leftarrow> round_robin (videoConnIndex server) (videoConns server);
     Some (conn, server\<lparr>videoConnIndex := videoConnIndex server + 1\<rparr>)
   }"

subsection \<open>Fetching in batches\<close>

definition call_with_retry ::
  "bool \<Rightarrow> ('q \<Rightarrow> ('w, 'a reply) call) \<Rightarrow> 'q \<Rightarrow> ('w, 'a reply) call" where
  "call_with_retry disableRetry send req =
     call_bind (send req) (\<lambda>r. case r of
         Inr a \<Rightarrow> State_Monad.return (Returns (Inr a))
       | Inl err \<Rightarrow> if \<not> disableRetry then send req else State_Monad.return (Returns (Inl err)))"

text \<open>The batches of the second loop of \<open>FetchUserInfos\<close> and \<open>FetchVideoInfos\<close>, where the batch
  size is not 0; a negative one panics at the first slice.\<close>

function split_batches :: "int \<Rightarrow> 'k list \<Rightarrow> 'k list list option" where
  "split_batches m ids =
     (if ids = [] then Some []
      else if len ids > m then
        (if m \<le> 0 then None
         else case split_batches m (drop (nat m) ids) of
             None \<Rightarrow> None
           | Some bs \<Rightarrow> Some (take (nat m) ids # bs))
      else Some [ids])"
  by pat_completeness auto
termination
  by (relation "measure (\<lambda>(m, ids). length ids)") auto

declare split_batches.simps [simp del]

primrec fetch_loop ::
  "bool \<Rightarrow> ('k list \<Rightarrow> ('w, 'i list reply) call) \<Rightarrow> 'k list list \<Rightarrow> 'i list \<Rightarrow> ('w, 'i list reply) call" where
  "fetch_loop disableRetry send [] infos = State_Monad.return (Returns (Inr infos))"
| "fetch_loop disableRetry send (batch # bs) infos =
     call_bind (call_with_retry disableRetry send batch) (\<lambda>r. case r of
         Inl err \<Rightarrow> State_Monad.return (Returns (Inl err))
       | Inr found \<Rightarrow> fetch_loop disableRetry send bs (infos @ found))"

definition fetch_infos ::
  "VideoRecServiceOptions \<Rightarrow> ('k list \<Rightarrow> ('w, 'i list reply) call) \<Rightarrow> 'k list \<Rightarrow> ('w, 'i list reply) call" where
  "fetch_infos opts send ids =
     (if MaxBatchSize opts = 0 then fetch_loop (DisableRetry opts) send (map (\<lambda>i. [i]) ids) []
      else case split_batches (MaxBatchSize opts) ids of
          None \<Rightarrow> State_Monad.return Panics
        | Some bs \<Rightarrow> fetch_loop (DisableRetry opts) send bs [])"

definition FetchUserInfos ::
  "('conn, 'w) VideoRecServiceServer \<Rightarrow> 'w user_client \<Rightarrow> 64 word list \<Rightarrow> ('w, UserInfo list reply) call" where
  "FetchUserInfos server userClient userIds = fetch_infos (options server) userClient userIds"

definition FetchVideoInfos ::
  "('conn, 'w) VideoRecServiceServer \<Rightarrow> 'w video_client \<Rightarrow> 64 word list \<Rightarrow> ('w, VideoInfo list reply) call" where
  "FetchVideoInfos server videoClient videoIds =
     fetch_infos (options server) (vc_GetVideo videoClient) videoIds"

subsection \<open>The cache of trending videos\<close>

text \<open>\<open>int32(len(xs))\<close>, and the truncation that depends on it.\<close>

definition int32_len :: "'a list \<Rightarrow> int" where
  "int32_len xs = sint (of_int (len xs) :: 32 word)"

definition truncate_to :: "int \<Rightarrow> 'a list \<Rightarrow> 'a list" where
  "truncate_to limit xs = (if limit > 0 \<and> limit \<le> int32_len xs then take (nat limit) xs else xs)"

definition GetCachedTrendingVideos ::
  "int \<Rightarrow> ('conn, 'w) VideoRecServiceServer \<Rightarrow> int \<Rightarrow> VideoInfo list option \<times> bool" where
  "GetCachedTrendingVideos now server limit =
     (case trendingVideos server of
        None \<Rightarrow> (None, False)
      | Some videos \<Rightarrow> (Some (truncate_to limit videos), \<not> now < sint (expirationTime server)))"

text \<open>The second attempt ignores \<open>DisableRetry\<close>; the argument \<open>batchSize\<close> of the source is not
  used there.\<close>

definition UpdateTrendingVideosInternal ::
  "('conn, 'w) VideoRecServiceServer \<Rightarrow> 'w video_client \<Rightarrow>
   ('w, status option \<times> ('conn, 'w) VideoRecServiceServer) call" where
  "UpdateTrendingVideosInternal server videoClient =
     call_bind (call_with_retry False (\<lambda>_. vc_GetTrendingVideos videoClient) ()) (\<lambda>r. case r of
         Inl _ \<Rightarrow> State_Monad.return (Returns
           (Some (handleError Internal ''fail to fetch video ids for trending videos''), server))
       | Inr resp \<Rightarrow>
           call_bind (FetchVideoInfos server videoClient (trending_Videos resp)) (\<lambda>r. case r of
               Inl _ \<Rightarrow> State_Monad.return (Returns
                 (Some (handleError Internal ''fail to fetch video infos for trending videos''), server))
             | Inr videoInfos \<Rightarrow> State_Monad.return (Returns (None,
                 if ExpirationTimeS resp > expirationTime server
                 then server\<lparr>trendingVideos := Some videoInfos, expirationTime := ExpirationTimeS resp\<rparr>
                 else server))))"

text \<open>One round of the refreshing goroutine. The state is the server and the client made so far;
  \<open>connect\<close> makes one. The flag of the result says that the round sleeps for 10 seconds, which
  it only does after an error: that of the connection attempt or of the update.\<close>

definition refresh_if_due ::
  "int \<Rightarrow> ('conn, 'w) VideoRecServiceServer \<Rightarrow> 'w video_client \<Rightarrow>
   ('w, (('conn, 'w) VideoRecServiceServer \<times> 'w video_client option) \<times> bool) call" where
  "refresh_if_due now server vc =
     (if (of_int now :: 64 word) \<ge> expirationTime server - 20 then
        call_bind (UpdateTrendingVideosInternal server vc) (\<lambda>(err, server).
          State_Monad.return (Returns ((server, Some vc), err \<noteq> None)))
      else State_Monad.return (Returns ((server, Some vc), False)))"

definition UpdateTrendingVideos_round ::
  "('w, 'e + 'w video_client) state \<Rightarrow> int \<Rightarrow>
   ('conn, 'w) VideoRecServiceServer \<times> 'w video_client option \<Rightarrow>
   ('w, (('conn, 'w) VideoRecServiceServer \<times> 'w video_client option) \<times> bool) call" where
  "UpdateTrendingVideos_round connect now = (\<lambda>(server, videoClient).
     case videoClient of
       Some vc \<Rightarrow> refresh_if_due now server vc
     | None \<Rightarrow> do {
         r \<leftarrow> connect;
         (case r of
            Inl _ \<Rightarrow> State_Monad.return (Returns ((server, None), True))
          | Inr vc \<Rightarrow> refresh_if_due now server vc)
       })"

subsection \<open>Statistics\<close>

definition updateStats ::
  "64 word \<Rightarrow> bool \<Rightarrow> bool \<Rightarrow> bool \<Rightarrow> bool \<Rightarrow> ('conn, 'w) VideoRecServiceServer \<Rightarrow>
   ('conn, 'w) VideoRecServiceServer" where
  "updateStats latency hasError userError videoError useStale server =
     (let server = server\<lparr>numTotalRequests := numTotalRequests server + 1\<rparr>;
          server = (if hasError then
              let server = server\<lparr>numTotalErrors := numTotalErrors server + 1\<rparr>;
                  server = (if userError then server\<lparr>numUserErrors := numUserErrors server + 1\<rparr> else server)
              in (if videoError then server\<lparr>numVideoErrors := numVideoErrors server + 1\<rparr> else server)
            else server);
          server = server\<lparr>totalLatency := totalLatency server + latency\<rparr>;
          server = server\<lparr>numActiveRequests := numActiveRequests server - 1\<rparr>
      in (if useStale then server\<lparr>numStaleResponses := numStaleResponses server + 1\<rparr> else server))"

text \<open>The average latency is a quotient of floating-point numbers, kept here as its two operands.\<close>

record GetStatsResponse =
  TotalRequests :: "64 word"
  TotalErrors :: "64 word"
  ActiveRequests :: "64 word"
  UserServiceErrors :: "64 word"
  VideoServiceErrors :: "64 word"
  AverageLatencyMs :: "64 word \<times> 64 word"
  StaleResponses :: "64 word"

definition GetStats :: "('conn, 'w) VideoRecServiceServer \<Rightarrow> GetStatsResponse" where
  "GetStats server =
     \<lparr>TotalRequests = numTotalRequests server, TotalErrors = numTotalErrors server,
      ActiveRequests = numActiveRequests server, UserServiceErrors = numUserErrors server,
      VideoServiceErrors = numVideoErrors server,
      AverageLatencyMs = (totalLatency server, numTotalRequests server),
      StaleResponses = numStaleResponses server\<rparr>"

subsection \<open>GetTopVideos\<close>

text \<open>What the handler needs of its surroundings: the clients made from connections, the ranker,
  the clock at the fallback and the latency in milliseconds that the deferred \<open>updateStats\<close>
  measures.\<close>

record ('conn, 'w) env =
  NewUserServiceClient :: "'conn \<Rightarrow> 'w user_client"
  NewVideoServiceClient :: "'conn \<Rightarrow> 'w video_client"
  Ranker_Rank :: "coefficients \<Rightarrow> coefficients \<Rightarrow> 64 word"
  env_now :: int
  env_latency :: "64 word"

record GetTopVideosRequest =
  req_UserId :: "64 word"
  Limit :: int

record GetTopVideosResponse =
  resp_Videos :: "VideoInfo list"
  StaleResponse :: bool

text \<open>The client of a request: the mock, or the next connection's. \<open>None\<close> is a panic.\<close>

definition user_client_of ::
  "('conn, 'w) env \<Rightarrow> ('conn, 'w) VideoRecServiceServer \<Rightarrow>
   ('w user_client \<times> ('conn, 'w) VideoRecServiceServer) option" where
  "user_client_of env server =
     (if useMock server then map_option (\<lambda>c. (c, server)) (mockUserServiceClient server)
      else do {
        (userConn, server) \<leftarrow> GetUserConnRoundRobin server;
        Some (NewUserServiceClient env userConn, server)
      })"

definition video_client_of ::
  "('conn, 'w) env \<Rightarrow> ('conn, 'w) VideoRecServiceServer \<Rightarrow>
   ('w video_client \<times> ('conn, 'w) VideoRecServiceServer) option" where
  "video_client_of env server =
     (if useMock server then map_option (\<lambda>c. (c, server)) (mockVideoServiceClient server)
      else do {
        (videoConn, server) \<leftarrow> GetVideoConnRoundRobin server;
        Some (NewVideoServiceClient env videoConn, server)
      })"

text \<open>After a failed fetch: the cached trending videos when there are any and the fallback is not
  disabled, otherwise the error.\<close>

definition fall_back ::
  "('conn, 'w) env \<Rightarrow> int \<Rightarrow> bool \<Rightarrow> bool \<Rightarrow> string \<Rightarrow> ('conn, 'w) VideoRecServiceServer \<Rightarrow>
   GetTopVideosResponse reply \<times> ('conn, 'w) VideoRecServiceServer" where
  "fall_back env limit userError videoError message server =
     (let cached = (if \<not> DisableFallback (options server)
                    then fst (GetCachedTrendingVideos (env_now env) server limit) else None) in
      case cached of
        Some cachedVideos \<Rightarrow>
          (Inr \<lparr>resp_Videos = cachedVideos, StaleResponse = True\<rparr>,
           updateStats (env_latency env) False False False True server)
      | None \<Rightarrow>
          (Inl (handleError Internal message),
           updateStats (env_latency env) True userError videoError False server))"

definition liked_by :: "UserInfo list \<Rightarrow> 64 word list" where
  "liked_by users = deduplicateIds (concat (map LikedVideos users))"

text \<open>\<open>sort.SliceStable\<close> by decreasing rank.\<close>

definition rank_videos :: "(coefficients \<Rightarrow> coefficients \<Rightarrow> 64 word) \<Rightarrow> coefficients \<Rightarrow> VideoInfo list \<Rightarrow> VideoInfo list" where
  "rank_videos rank coeffs infos = sort_key (\<lambda>v. - uint (rank coeffs (VideoCoefficients v))) infos"

definition GetTopVideos ::
  "('conn, 'w) env \<Rightarrow> GetTopVideosRequest \<Rightarrow> ('conn, 'w) VideoRecServiceServer \<Rightarrow>
   ('w, GetTopVideosResponse reply \<times> ('conn, 'w) VideoRecServiceServer) call" where
  "GetTopVideos env req server =
     (let server = server\<lparr>numActiveRequests := numActiveRequests server + 1\<rparr>;
          ok = (\<lambda>r. State_Monad.return (Returns r)) in
      case user_client_of env server of
        None \<Rightarrow> State_Monad.return Panics
      | Some (userClient, server) \<Rightarrow>
          call_bind (FetchUserInfos server userClient [req_UserId req]) (\<lambda>r. case r of
              Inl _ \<Rightarrow> ok (fall_back env (Limit req) True False ''fail to fetch user info on orig user'' server)
            | Inr [] \<Rightarrow> State_Monad.return Panics
            | Inr (origUserInfo # _) \<Rightarrow>
                call_bind (FetchUserInfos server userClient (SubscribedTo origUserInfo)) (\<lambda>r. case r of
                    Inl _ \<Rightarrow> ok (fall_back env (Limit req) True False
                                 ''fail to fetch liked videos of the subscribe users'' server)
                  | Inr subscribedUserInfos \<Rightarrow>
                      let likedVideos = liked_by subscribedUserInfos in
                      case video_client_of env server of
                        None \<Rightarrow> State_Monad.return Panics
                      | Some (videoClient, server) \<Rightarrow>
                          call_bind (FetchVideoInfos server videoClient likedVideos) (\<lambda>r. case r of
                              Inl _ \<Rightarrow> ok (fall_back env (Limit req) False True
                                           ''fail to fetch video infos of liked videos'' server)
                            | Inr videoInfos \<Rightarrow>
                                let ranked = rank_videos (Ranker_Rank env) (UserCoefficients origUserInfo) videoInfos
                                in ok (Inr \<lparr>resp_Videos = truncate_to (Limit req) ranked, StaleResponse = False\<rparr>,
                                       updateStats (env_latency env) False False False False server)))))"

end
