(* ===== verification/Video_Rec_Fetch.thy ===== *)
theory Video_Rec_Fetch
  imports Video_Rec
begin

section \<open>Batched fetching and the round robin\<close>

text \<open>
  The client side of the contract \<open>batch_service\<close>: fetching a list of ids in batches from a
  backend that meets it gives the table's entries for the whole list, whatever the batch size.
  Then the retry, and the bounds of the round-robin index.
\<close>

subsection \<open>Batches\<close>

definition batches_of :: "int \<Rightarrow> 'k list \<Rightarrow> 'k list list" where
  "batches_of m ids = (if m = 0 then map (\<lambda>i. [i]) ids else the (split_batches m ids))"

lemma split_batches_Some:
  assumes "0 < m"
  shows "\<exists>bs. split_batches m ids = Some bs \<and> concat bs = ids \<and>
    (\<forall>b \<in> set bs. b \<noteq> [] \<and> len b \<le> m)"
  using assms
proof (induction m ids rule: split_batches.induct)
  case (1 m ids)
  show ?case
  proof (cases "ids \<noteq> [] \<and> len ids > m")
    case True
    with 1 obtain bs where bs: "split_batches m (drop (nat m) ids) = Some bs"
      "concat bs = drop (nat m) ids" "\<forall>b \<in> set bs. b \<noteq> [] \<and> len b \<le> m" by auto
    then have "split_batches m ids = Some (take (nat m) ids # bs)"
      using True 1(2) by (simp add: split_batches.simps [of m ids])
    with bs True 1(2) show ?thesis by auto
  next
    case False
    then show ?thesis using 1(2) by (auto simp: split_batches.simps [of m ids])
  qed
qed

lemma split_batches_negative: "m < 0 \<Longrightarrow> ids \<noteq> [] \<Longrightarrow> split_batches m ids = None"
  by (simp add: split_batches.simps [of m ids])

lemma batches_of_props:
  assumes "0 \<le> m"
  shows "concat (batches_of m ids) = ids" "\<And>b. b \<in> set (batches_of m ids) \<Longrightarrow> b \<noteq> [] \<and> len b \<le> max m 1"
proof -
  have "concat (batches_of m ids) = ids \<and> (\<forall>b \<in> set (batches_of m ids). b \<noteq> [] \<and> len b \<le> max m 1)"
  proof (cases "m = 0")
    case True
    then show ?thesis by (induction ids) (auto simp: batches_of_def)
  next
    case False
    with assms split_batches_Some [of m ids] show ?thesis by (fastforce simp: batches_of_def)
  qed
  then show "concat (batches_of m ids) = ids"
    "\<And>b. b \<in> set (batches_of m ids) \<Longrightarrow> b \<noteq> [] \<and> len b \<le> max m 1" by blast+
qed

lemma fetch_infos_batches:
  assumes "0 \<le> MaxBatchSize opts"
  shows "fetch_infos opts send ids =
    fetch_loop (DisableRetry opts) send (batches_of (MaxBatchSize opts) ids) []"
  using assms split_batches_Some [of "MaxBatchSize opts" ids]
  by (auto simp: fetch_infos_def batches_of_def)

subsection \<open>Fetching from a backend that meets its contract\<close>

context batch_service
begin

lemma fetch_loop_found:
  assumes steady: "\<And>ids w. run_state (send ids) w = (Returns (serve ids), w)"
    and "\<And>b. b \<in> set bs \<Longrightarrow> batch_ok b" and "set (concat bs) \<subseteq> dom lookup"
  shows "run_state (fetch_loop disableRetry send bs infos) w =
    (Returns (Inr (infos @ map (the \<circ> lookup) (concat bs))), w)"
  using assms(2,3)
proof (induction bs arbitrary: infos)
  case (Cons b bs)
  then have "serve b = Inr (map (the \<circ> lookup) b)" using serve_found [of b] by auto
  with Cons steady show ?case by (simp add: run_call_bind call_with_retry_def)
qed simp

text \<open>The result is the table's entries in the order of the ids, so it does not depend on the
  batch size, as long as every batch is one that the backend accepts.\<close>

lemma fetch_infos_found:
  assumes steady: "\<And>ids w. run_state (send ids) w = (Returns (serve ids), w)"
    and "0 \<le> MaxBatchSize opts" and "set ids \<subseteq> dom lookup"
    and "\<And>b. b \<in> set (batches_of (MaxBatchSize opts) ids) \<Longrightarrow> batch_ok b"
  shows "run_state (fetch_infos opts send ids) w = (Returns (Inr (map (the \<circ> lookup) ids)), w)"
  using fetch_loop_found [OF steady assms(4), where bs = "batches_of (MaxBatchSize opts) ids"
    and disableRetry = "DisableRetry opts" and infos = "[]"] assms(2,3)
  by (simp add: fetch_infos_batches batches_of_props)

end

lemma sublist_of_concat: "b \<in> set bs \<Longrightarrow> distinct (concat bs) \<Longrightarrow> distinct b"
  by (induction bs) auto

lemma user_batches:
  assumes "0 \<le> m" and "max m 1 \<le> uso_MaxBatchSize (us_options us)" and "b \<in> set (batches_of m ids)"
  shows "user_batch us b"
  using batches_of_props(2) [OF assms(1,3)] assms(2) by (auto simp: user_batch_def)

lemma video_batches:
  assumes "0 \<le> m" and "max m 1 \<le> vso_MaxBatchSize (vs_options vs)" and "b \<in> set (batches_of m ids)"
    and "distinct ids"
  shows "video_batch vs b"
proof -
  have "distinct b" using sublist_of_concat [OF assms(3)] batches_of_props(1) [OF assms(1)] assms(4) by metis
  with batches_of_props(2) [OF assms(1,3)] assms(2) show ?thesis by (auto simp: video_batch_def)
qed

subsection \<open>Properties\<close>

text \<open>C25. Batching is transparent: from services that inject nothing, \<open>FetchUserInfos\<close> returns
  the infos of all users in the order of the ids, for every batch size from 0 (one call per id) up to
  what the service accepts, and \<open>FetchVideoInfos\<close> those of all videos when the ids have no
  duplicates; an empty list of ids needs no call at all; a negative batch size panics.\<close>

theorem batching_transparent:
  assumes "healthy (us_fi us)" and "healthy (vs_fi vs)"
    and "set uids \<subseteq> dom (us_users us)" and "set vids \<subseteq> dom (vs_videos vs)" and "distinct vids"
    and "max (MaxBatchSize (options server)) 1 \<le> uso_MaxBatchSize (us_options us)"
    and "max (MaxBatchSize (options server)) 1 \<le> vso_MaxBatchSize (vs_options vs)"
  shows "if MaxBatchSize (options server) < 0
    then (uids \<noteq> [] \<longrightarrow> run_state (FetchUserInfos server (GetUser src us) uids) r = (Panics, r))
    else run_state (FetchUserInfos server (GetUser src us) uids) r =
        (Returns (Inr (map (\<lambda>i. the (us_users us i)) uids)), r) \<and>
      run_state (FetchVideoInfos server \<lparr>vc_GetVideo = GetVideo src vs, vc_GetTrendingVideos = t\<rparr> vids) r =
        (Returns (Inr (map (\<lambda>i. the (vs_videos vs i)) vids)), r)"
proof (cases "MaxBatchSize (options server) < 0")
  case True
  then show ?thesis by (simp add: FetchUserInfos_def fetch_infos_def split_batches_negative)
next
  case False
  then have m: "0 \<le> MaxBatchSize (options server)" by simp
  show ?thesis
    using False
      users.fetch_infos_found [where send = "GetUser src us", OF GetUser_healthy [OF assms(1)] m assms(3) user_batches [where ids = uids, OF m assms(6)]]
      videos.fetch_infos_found [where send = "GetVideo src vs", OF GetVideo_healthy [OF assms(2)] m assms(4) video_batches [where ids = vids, OF m assms(7) _ assms(5)]]
    by (simp add: FetchUserInfos_def FetchVideoInfos_def comp_def)
qed

definition mock_server :: "VideoRecServiceOptions \<Rightarrow> (unit, int) VideoRecServiceServer" where
  "mock_server opts = fst (MakeVideoRecServiceServerWithMocks 1000 opts (GetUser fixed_sources sample_us)
     \<lparr>vc_GetVideo = GetVideo fixed_sources sample_vs,
      vc_GetTrendingVideos = GetTrendingVideos fixed_sources sample_vs 1000\<rparr>)"

definition sample_options :: VideoRecServiceOptions where
  "sample_options = \<lparr>UserServiceAddr = ''u'', VideoServiceAddr = ''v'', MaxBatchSize = 1,
     DisableFallback = False, DisableRetry = False, ClientPoolSize = 4\<rparr>"

lemma healthy_samples: "healthy (us_fi sample_us)" "healthy (vs_fi sample_vs)"
  by (simp_all add: sample_us_def sample_vs_def healthy_default)

theorem batching_transparent_witness:
  "run_state (FetchVideoInfos (mock_server sample_options)
      \<lparr>vc_GetVideo = GetVideo fixed_sources sample_vs,
       vc_GetTrendingVideos = GetTrendingVideos fixed_sources sample_vs 1000\<rparr> [7]) 0 =
    (Returns (Inr [sample_video]), 0)"
  using batching_transparent [OF healthy_samples, of "[]" "[7]" "mock_server sample_options" fixed_sources 0
      "GetTrendingVideos fixed_sources sample_vs 1000"]
  by (simp add: mock_server_def MakeVideoRecServiceServerWithMocks_def new_server_def sample_options_def)
    (simp add: sample_vs_def sample_us_def DefaultUserServiceOptions_def DefaultVideoServiceOptions_def)

subsection \<open>The round robin\<close>

text \<open>Successive calls of \<open>GetUserConnRoundRobin\<close>, with the connections they return.\<close>

primrec rr_calls :: "nat \<Rightarrow> ('conn, 'w) VideoRecServiceServer \<Rightarrow>
    ('conn list \<times> ('conn, 'w) VideoRecServiceServer) option" where
  "rr_calls 0 server = Some ([], server)"
| "rr_calls (Suc k) server = do {
     (cs, server) \<leftarrow> rr_calls k server;
     (c, server) \<leftarrow> GetUserConnRoundRobin server;
     Some (cs @ [c], server)
   }"

lemma go_rem_nonneg: "0 \<le> a \<Longrightarrow> 0 < b \<Longrightarrow> go_rem a b = a mod b"
  by (cases "a = 0") (simp_all add: go_rem_def)

lemma go_rem_negative: "a < 0 \<Longrightarrow> 0 < b \<Longrightarrow> go_rem a b = - (- a mod b)"
  by (simp add: go_rem_def)

lemma round_robin_below:
  assumes "k < 2 ^ 31" and "conns \<noteq> []" and "length conns < 2 ^ 31"
  shows "round_robin (of_nat k) conns = Some (conns ! (k mod length conns))"
proof -
  have n: "sint (of_int (len conns) :: 32 word) = len conns"
    using sint_of_nat_small [OF assms(3)] by simp
  have "int k mod len conns = int (k mod length conns)" by (simp add: zmod_int)
  with assms n show ?thesis
    by (simp add: round_robin_def sint_of_nat_small [OF assms(1)] go_rem_nonneg go_index_def)
qed

lemma round_robin_wrapped:
  assumes "2 \<le> length conns" and "length conns < 2 ^ 31"
  shows "round_robin (of_nat (2 ^ 31)) conns = None \<or> round_robin (of_nat (2 ^ 31 + 1)) conns = None"
proof -
  have n: "sint (of_int (len conns) :: 32 word) = len conns"
    using sint_of_nat_small [OF assms(2)] by simp
  have "sint (of_nat (2 ^ 31) :: 32 word) = - (2 ^ 31)" "sint (of_nat (2 ^ 31 + 1) :: 32 word) = - (2 ^ 31 - 1)"
    by simp_all
  moreover have "(2 ^ 31 :: int) mod len conns \<noteq> 0 \<or> (2 ^ 31 - 1 :: int) mod len conns \<noteq> 0"
  proof (rule ccontr)
    assume "\<not> ?thesis"
    then have "len conns dvd 2 ^ 31" "len conns dvd 2 ^ 31 - 1" by (auto simp: dvd_eq_mod_eq_0)
    then have "len conns dvd 2 ^ 31 - (2 ^ 31 - 1)" by (rule dvd_diff)
    then have "len conns dvd 1" by simp
    with assms(1) show False by simp
  qed
  then have "0 < (2 ^ 31 :: int) mod len conns \<or> 0 < (2 ^ 31 - 1 :: int) mod len conns"
    using assms(1) pos_mod_sign [of "len conns" "2 ^ 31"] pos_mod_sign [of "len conns" "2 ^ 31 - 1"]
    by linarith
  moreover have "conns \<noteq> []" using assms(1) by auto
  ultimately show ?thesis
    using n assms(1) unfolding round_robin_def
    by (auto simp: go_rem_negative go_index_def Let_def)
qed

text \<open>The round robin hands out the connections of a non-empty pool in turn for \<open>2 ^ 31\<close>
  calls; then the signed 32-bit index has become negative, and with two or more connections one of
  the next two calls panics. With an empty pool the first call panics.\<close>

lemma round_robin_bounds:
  assumes "userConnIndex server = 0" and "length (userConns server) < 2 ^ 31"
  shows "if userConns server = [] then rr_calls 1 server = None
    else rr_calls (2 ^ 31) server =
        Some (map (\<lambda>k. userConns server ! (k mod length (userConns server))) [0..<2 ^ 31],
              server\<lparr>userConnIndex := 2 ^ 31\<rparr>) \<and>
      (2 \<le> length (userConns server) \<longrightarrow> rr_calls (2 ^ 31 + 2) server = None)"
proof (cases "userConns server = []")
  case True
  then show ?thesis by (simp add: GetUserConnRoundRobin_def round_robin_def)
next
  case False
  let ?n = "length (userConns server)"
  have calls: "k \<le> 2 ^ 31 \<Longrightarrow> rr_calls k server =
      Some (map (\<lambda>k. userConns server ! (k mod ?n)) [0..<k], server\<lparr>userConnIndex := of_nat k\<rparr>)" for k
  proof (induction k)
    case 0
    then show ?case using assms(1) by simp
  next
    case (Suc k)
    then have "k < 2 ^ 31" by simp
    from round_robin_below [OF this False assms(2)] Suc show ?case
      by (simp add: GetUserConnRoundRobin_def add.commute)
  qed
  have "rr_calls (2 ^ 31 + 2) server = None" if "2 \<le> ?n"
  proof -
    have "rr_calls (Suc (Suc (2 ^ 31))) server = None"
      using round_robin_wrapped [OF that assms(2)] calls [of "2 ^ 31"]
      unfolding rr_calls.simps(2) by (auto simp: GetUserConnRoundRobin_def split: option.splits)
    then show ?thesis by (simp add: numeral_2_eq_2)
  qed
  with False calls [of "2 ^ 31"] show ?thesis by simp
qed

lemma round_robin_bounds_witness:
  "rr_calls (2 ^ 31 + 2) ((new_server sample_options 0 :: (nat, int) VideoRecServiceServer)
     \<lparr>userConns := [7, 8]\<rparr>) = None"
  using round_robin_bounds [of "(new_server sample_options 0 :: (nat, int) VideoRecServiceServer)
     \<lparr>userConns := [7, 8]\<rparr>"]
  by (simp add: new_server_def del: rr_calls.simps)

end
