(* ===== verification/Video_Rec_Properties.thy ===== *)
theory Video_Rec_Properties
  imports Video_Rec_Fetch "HOL-Library.Multiset"
begin

section \<open>The recommendation service as a whole\<close>

text \<open>
  \<open>GetTopVideos\<close> on every path: the answer when the backends are healthy, composed with the
  handlers and the generated databases of \<open>Backend_Services\<close>; the fallback and the statistics
  for arbitrary backends; and the refreshing of the cache.
\<close>

subsection \<open>Ranking and truncation\<close>

lemma rank_videos_props:
  "mset (rank_videos rank u infos) = mset infos"
  "sorted_wrt (\<lambda>v w. rank u (VideoCoefficients v) \<ge> rank u (VideoCoefficients w)) (rank_videos rank u infos)"
  "filter (\<lambda>v. rank u (VideoCoefficients v) = r) (rank_videos rank u infos) =
     filter (\<lambda>v. rank u (VideoCoefficients v) = r) infos"
proof -
  let ?k = "\<lambda>v. - uint (rank u (VideoCoefficients v))"
  show "mset (rank_videos rank u infos) = mset infos" by (simp add: rank_videos_def)
  have "sorted_wrt (\<lambda>v w. ?k v \<le> ?k w) (sort_key ?k infos)"
    using sorted_sort_key [of ?k infos] by (simp add: sorted_map)
  then show "sorted_wrt (\<lambda>v w. rank u (VideoCoefficients v) \<ge> rank u (VideoCoefficients w)) (rank_videos rank u infos)"
    by (simp add: rank_videos_def word_le_def)
  have eq: "(\<lambda>v. rank u (VideoCoefficients v) = r) = (\<lambda>v. ?k v = - uint r)"
    by (rule ext) (simp add: word_uint_eq_iff)
  show "filter (\<lambda>v. rank u (VideoCoefficients v) = r) (rank_videos rank u infos) =
      filter (\<lambda>v. rank u (VideoCoefficients v) = r) infos"
    unfolding rank_videos_def eq by (rule sort_key_stable)
qed

lemma truncate_to_length:
  assumes "length xs < 2 ^ 31"
  shows "truncate_to limit xs = (if 0 < limit then take (nat limit) xs else xs)"
proof -
  have "int32_len xs = len xs" using sint_of_nat_small [OF assms] by (simp add: int32_len_def)
  then show ?thesis by (auto simp: truncate_to_def)
qed

subsection \<open>Healthy backends\<close>

text \<open>What a server is started with when it uses in-memory clients of the two services.\<close>

definition uses_mocks ::
  "('r, 'f) sources \<Rightarrow> UserServiceServer \<Rightarrow> VideoServiceServer \<Rightarrow> ('conn, 'r) VideoRecServiceServer \<Rightarrow> bool" where
  "uses_mocks src us vs server \<longleftrightarrow> useMock server \<and>
     mockUserServiceClient server = Some (mock_GetUser src \<lparr>inMemServer = us\<rparr>) \<and>
     (\<exists>t. mockVideoServiceClient server =
        Some \<lparr>vc_GetVideo = mock_GetVideo src \<lparr>v_inMemServer = vs\<rparr>, vc_GetTrendingVideos = t\<rparr>)"

definition good_batch_size ::
  "UserServiceServer \<Rightarrow> VideoServiceServer \<Rightarrow> ('conn, 'w) VideoRecServiceServer \<Rightarrow> bool" where
  "good_batch_size us vs server \<longleftrightarrow> 0 \<le> MaxBatchSize (options server) \<and>
     max (MaxBatchSize (options server)) 1 \<le> uso_MaxBatchSize (us_options us) \<and>
     max (MaxBatchSize (options server)) 1 \<le> vso_MaxBatchSize (vs_options vs)"

lemma mock_fetch_users:
  assumes "healthy (us_fi us)" and "good_batch_size us vs server" and "set ids \<subseteq> dom (us_users us)"
  shows "run_state (FetchUserInfos server (mock_GetUser src \<lparr>inMemServer = us\<rparr>) ids) r =
    (Returns (Inr (map (\<lambda>i. the (us_users us i)) ids)), r)"
proof -
  have eq: "mock_GetUser src \<lparr>inMemServer = us\<rparr> = GetUser src us" by (rule ext) (simp add: mock_GetUser_def)
  from assms(2) have m: "0 \<le> MaxBatchSize (options server)"
    "max (MaxBatchSize (options server)) 1 \<le> uso_MaxBatchSize (us_options us)"
    by (simp_all add: good_batch_size_def)
  from users.fetch_infos_found [where send = "GetUser src us", OF GetUser_healthy [OF assms(1)] m(1) assms(3)
      user_batches [where ids = ids, OF m]]
  show ?thesis by (simp add: eq FetchUserInfos_def comp_def)
qed

lemma mock_fetch_videos:
  assumes "healthy (vs_fi vs)" and "good_batch_size us vs server" and "set ids \<subseteq> dom (vs_videos vs)"
    and "distinct ids"
  shows "run_state (FetchVideoInfos server \<lparr>vc_GetVideo = mock_GetVideo src \<lparr>v_inMemServer = vs\<rparr>,
      vc_GetTrendingVideos = t\<rparr> ids) r = (Returns (Inr (map (\<lambda>i. the (vs_videos vs i)) ids)), r)"
proof -
  have eq: "mock_GetVideo src \<lparr>v_inMemServer = vs\<rparr> = GetVideo src vs" by (rule ext) (simp add: mock_GetVideo_def)
  from assms(2) have m: "0 \<le> MaxBatchSize (options server)"
    "max (MaxBatchSize (options server)) 1 \<le> vso_MaxBatchSize (vs_options vs)"
    by (simp_all add: good_batch_size_def)
  from videos.fetch_infos_found [where send = "GetVideo src vs", OF GetVideo_healthy [OF assms(1)] m(1) assms(3)
      video_batches [where ids = ids, OF m _ assms(4)]]
  show ?thesis by (simp add: eq FetchVideoInfos_def comp_def)
qed

lemma batch_size_active [simp]:
  "good_batch_size us vs (server\<lparr>numActiveRequests := n\<rparr>) = good_batch_size us vs server"
  by (simp add: good_batch_size_def)

text \<open>The videos that a user's subscriptions like, each once.\<close>

definition liked_videos :: "UserServiceServer \<Rightarrow> UserInfo \<Rightarrow> 64 word list" where
  "liked_videos us u = liked_by (map (\<lambda>i. the (us_users us i)) (SubscribedTo u))"

lemma liked_videos_props:
  "distinct (liked_videos us u)"
  "set (liked_videos us u) = (\<Union>i \<in> set (SubscribedTo u). set (LikedVideos (the (us_users us i))))"
  by (simp_all add: liked_videos_def liked_by_def deduplicateIds_props)

lemma GetTopVideos_healthy:
  assumes h: "healthy (us_fi us)" "healthy (vs_fi vs)" and m: "uses_mocks src us vs server"
    and b: "good_batch_size us vs server"
    and u: "us_users us (req_UserId req) = Some u" and s: "set (SubscribedTo u) \<subseteq> dom (us_users us)"
    and l: "set (liked_videos us u) \<subseteq> dom (vs_videos vs)"
  shows "run_state (GetTopVideos env req server) r =
    (Returns (Inr \<lparr>resp_Videos = truncate_to (Limit req) (rank_videos (Ranker_Rank env) (UserCoefficients u)
         (map (\<lambda>i. the (vs_videos vs i)) (liked_videos us u))), StaleResponse = False\<rparr>,
       updateStats (env_latency env) False False False False
         (server\<lparr>numActiveRequests := numActiveRequests server + 1\<rparr>)), r)"
proof -
  from m obtain t where t: "useMock server" "mockUserServiceClient server = Some (mock_GetUser src \<lparr>inMemServer = us\<rparr>)"
    "mockVideoServiceClient server = Some \<lparr>vc_GetVideo = mock_GetVideo src \<lparr>v_inMemServer = vs\<rparr>,
       vc_GetTrendingVideos = t\<rparr>" by (auto simp: uses_mocks_def)
  let ?server = "server\<lparr>numActiveRequests := numActiveRequests server + 1\<rparr>"
  have b': "good_batch_size us vs ?server" using b by simp
  have "set [req_UserId req] \<subseteq> dom (us_users us)" using u by auto
  from mock_fetch_users [OF h(1) b' this, of src] u
  have 1: "run_state (FetchUserInfos ?server (mock_GetUser src \<lparr>inMemServer = us\<rparr>) [req_UserId req]) r =
    (Returns (Inr [u]), r)" for r by simp
  note 2 = mock_fetch_users [OF h(1) b' s, of src]
  note 3 = mock_fetch_videos [OF h(2) b' l liked_videos_props(1), of src t]
  show ?thesis
    by (simp add: GetTopVideos_def user_client_of_def video_client_of_def t run_call_bind 1 2
        liked_videos_def [symmetric] 3 Let_def)
qed

subsection \<open>Arbitrary backends\<close>

text \<open>Everything but the counters, the indices of the round robin and the cache.\<close>

definition counters :: "('conn, 'w) VideoRecServiceServer \<Rightarrow> 64 word list" where
  "counters s = [numTotalRequests s, numTotalErrors s, numUserErrors s, numVideoErrors s, numStaleResponses s,
     numActiveRequests s]"

definition cache :: "('conn, 'w) VideoRecServiceServer \<Rightarrow> VideoInfo list option \<times> 64 word" where
  "cache s = (trendingVideos s, expirationTime s)"

lemma updateStats_cache [simp]: "cache (updateStats l a b c d s) = cache s" "options (updateStats l a b c d s) = options s"
  by (simp_all add: updateStats_def cache_def Let_def)

lemma client_of_frame:
  "user_client_of env s = Some (c, s') \<Longrightarrow> counters s' = counters s \<and> cache s' = cache s \<and> options s' = options s"
  "video_client_of env s = Some (d, s') \<Longrightarrow> counters s' = counters s \<and> cache s' = cache s \<and> options s' = options s"
  by (auto simp: user_client_of_def video_client_of_def GetUserConnRoundRobin_def GetVideoConnRoundRobin_def
      counters_def cache_def split: if_splits Option.bind_splits)

text \<open>What one finished request does to the counters: it is counted once, as a fresh answer, as a
  stale answer, or as an error of exactly one of the two services; the number of active requests is
  back where it was.\<close>

definition accounted ::
  "('conn, 'w) env \<Rightarrow> int \<Rightarrow> ('conn, 'w) VideoRecServiceServer \<Rightarrow> GetTopVideosResponse reply \<Rightarrow>
   ('conn, 'w) VideoRecServiceServer \<Rightarrow> bool" where
  "accounted env limit s a s' \<longleftrightarrow> cache s' = cache s \<and> options s' = options s \<and>
     numTotalRequests s' = numTotalRequests s + 1 \<and> numActiveRequests s' = numActiveRequests s \<and>
     (case a of
        Inl st \<Rightarrow> status_code st = Internal \<and>
          (DisableFallback (options s) \<or> trendingVideos s = None) \<and>
          numTotalErrors s' = numTotalErrors s + 1 \<and> numStaleResponses s' = numStaleResponses s \<and>
          (numUserErrors s' = numUserErrors s + 1 \<and> numVideoErrors s' = numVideoErrors s \<or>
           numUserErrors s' = numUserErrors s \<and> numVideoErrors s' = numVideoErrors s + 1)
      | Inr resp \<Rightarrow>
          numTotalErrors s' = numTotalErrors s \<and> numUserErrors s' = numUserErrors s \<and>
          numVideoErrors s' = numVideoErrors s \<and>
          numStaleResponses s' = numStaleResponses s + (if StaleResponse resp then 1 else 0) \<and>
          (StaleResponse resp \<longrightarrow> \<not> DisableFallback (options s) \<and>
             fst (GetCachedTrendingVideos (env_now env) s limit) = Some (resp_Videos resp)))"

lemma fall_back_accounted:
  assumes f: "fall_back env limit ue ve message s1 = (a, s')" and "ue \<noteq> ve"
    and "counters s1 = counters (s\<lparr>numActiveRequests := numActiveRequests s + 1\<rparr>)"
    and "cache s1 = cache s" "options s1 = options s"
  shows "accounted env limit s a s'"
proof -
  have "GetCachedTrendingVideos (env_now env) s1 limit = GetCachedTrendingVideos (env_now env) s limit"
    using assms(4) by (auto simp: GetCachedTrendingVideos_def cache_def split: option.split)
  moreover have "fst (GetCachedTrendingVideos (env_now env) s limit) = None \<longleftrightarrow> trendingVideos s = None"
    by (simp add: GetCachedTrendingVideos_def split: option.split)
  ultimately show ?thesis
    using f assms(2-5)
    by (auto simp: accounted_def fall_back_def updateStats_def counters_def cache_def handleError_def Let_def
        split: if_splits option.splits)
qed

lemma fresh_accounted:
  assumes "counters s1 = counters (s\<lparr>numActiveRequests := numActiveRequests s + 1\<rparr>)"
    and "cache s1 = cache s" "options s1 = options s"
  shows "accounted env limit s (Inr \<lparr>resp_Videos = vs, StaleResponse = False\<rparr>)
    (updateStats l False False False False s1)"
  using assms by (simp add: accounted_def updateStats_def counters_def cache_def Let_def)

lemma call_bind_Returns:
  "run_state (call_bind m f) w = (Returns b, w') \<longleftrightarrow>
     (\<exists>a w1. run_state m w = (Returns a, w1) \<and> run_state (f a) w1 = (Returns b, w'))"
  by (auto simp: run_call_bind split: prod.splits outcome.splits)

text \<open>The three stages of a request.\<close>

definition video_stage ::
  "('conn, 'w) env \<Rightarrow> GetTopVideosRequest \<Rightarrow> UserInfo \<Rightarrow> ('conn, 'w) VideoRecServiceServer \<Rightarrow> UserInfo list \<Rightarrow>
   ('w, GetTopVideosResponse reply \<times> ('conn, 'w) VideoRecServiceServer) call" where
  "video_stage env req u server subscribed =
     (case video_client_of env server of
        None \<Rightarrow> State_Monad.return Panics
      | Some (videoClient, server) \<Rightarrow>
          call_bind (FetchVideoInfos server videoClient (liked_by subscribed)) (\<lambda>r. case r of
              Inl _ \<Rightarrow> State_Monad.return (Returns (fall_back env (Limit req) False True
                           ''fail to fetch video infos of liked videos'' server))
            | Inr videoInfos \<Rightarrow> State_Monad.return (Returns
                (Inr \<lparr>resp_Videos = truncate_to (Limit req)
                         (rank_videos (Ranker_Rank env) (UserCoefficients u) videoInfos), StaleResponse = False\<rparr>,
                 updateStats (env_latency env) False False False False server))))"

definition user_stage ::
  "('conn, 'w) env \<Rightarrow> GetTopVideosRequest \<Rightarrow> ('conn, 'w) VideoRecServiceServer \<Rightarrow> 'w user_client \<Rightarrow> UserInfo \<Rightarrow>
   ('w, GetTopVideosResponse reply \<times> ('conn, 'w) VideoRecServiceServer) call" where
  "user_stage env req server userClient u =
     call_bind (FetchUserInfos server userClient (SubscribedTo u)) (\<lambda>r. case r of
         Inl _ \<Rightarrow> State_Monad.return (Returns (fall_back env (Limit req) True False
                      ''fail to fetch liked videos of the subscribe users'' server))
       | Inr subscribed \<Rightarrow> video_stage env req u server subscribed)"

lemma GetTopVideos_stages:
  "GetTopVideos env req s =
     (case user_client_of env (s\<lparr>numActiveRequests := numActiveRequests s + 1\<rparr>) of
        None \<Rightarrow> State_Monad.return Panics
      | Some (userClient, server) \<Rightarrow>
          call_bind (FetchUserInfos server userClient [req_UserId req]) (\<lambda>r. case r of
              Inl _ \<Rightarrow> State_Monad.return (Returns (fall_back env (Limit req) True False
                           ''fail to fetch user info on orig user'' server))
            | Inr [] \<Rightarrow> State_Monad.return Panics
            | Inr (u # _) \<Rightarrow> user_stage env req server userClient u))"
  unfolding GetTopVideos_def user_stage_def video_stage_def Let_def by (rule refl)

definition begun :: "('conn, 'w) VideoRecServiceServer \<Rightarrow> ('conn, 'w) VideoRecServiceServer \<Rightarrow> bool" where
  "begun s s1 \<longleftrightarrow> counters s1 = counters (s\<lparr>numActiveRequests := numActiveRequests s + 1\<rparr>) \<and>
     cache s1 = cache s \<and> options s1 = options s"

lemma fall_back_begun: "begun s s1 \<Longrightarrow> fall_back env limit ue ve m s1 = (a, s') \<Longrightarrow> ue \<noteq> ve \<Longrightarrow> accounted env limit s a s'"
  unfolding begun_def using fall_back_accounted by blast

lemma video_stage_accounted:
  assumes "begun s s1" and "run_state (video_stage env req u s1 us) w = (Returns (a, s'), w')"
  shows "accounted env (Limit req) s a s'"
proof (cases "video_client_of env s1")
  case None
  with assms(2) show ?thesis by (simp add: video_stage_def)
next
  case (Some c)
  then obtain vc s2 where c: "video_client_of env s1 = Some (vc, s2)" by (cases c) auto
  from client_of_frame(2) [OF this] assms(1) have b: "begun s s2" by (simp add: begun_def)
  from assms(2) c obtain r :: "VideoInfo list reply" and w1 where
    "run_state (FetchVideoInfos s2 vc (liked_by us)) w = (Returns r, w1)"
    and k: "run_state (case r of
         Inl _ \<Rightarrow> State_Monad.return (Returns (fall_back env (Limit req) False True
                      ''fail to fetch video infos of liked videos'' s2))
       | Inr videoInfos \<Rightarrow> State_Monad.return (Returns
           (Inr \<lparr>resp_Videos = truncate_to (Limit req)
                    (rank_videos (Ranker_Rank env) (UserCoefficients u) videoInfos), StaleResponse = False\<rparr>,
            updateStats (env_latency env) False False False False s2))) w1 = (Returns (a, s'), w')"
    unfolding video_stage_def c option.case prod.case call_bind_Returns by blast
  show ?thesis
  proof (cases r)
    case (Inl e)
    with k show ?thesis by (auto intro!: fall_back_begun [OF b])
  next
    case (Inr infos)
    with k b show ?thesis unfolding begun_def by (auto intro!: fresh_accounted)
  qed
qed

lemma user_stage_accounted:
  assumes "begun s s1" and "run_state (user_stage env req s1 uc u) w = (Returns (a, s'), w')"
  shows "accounted env (Limit req) s a s'"
proof -
  from assms(2) obtain r :: "UserInfo list reply" and w1 where
    k: "run_state (case r of
         Inl _ \<Rightarrow> State_Monad.return (Returns (fall_back env (Limit req) True False
                      ''fail to fetch liked videos of the subscribe users'' s1))
       | Inr subscribed \<Rightarrow> video_stage env req u s1 subscribed) w1 = (Returns (a, s'), w')"
    unfolding user_stage_def call_bind_Returns by blast
  show ?thesis
  proof (cases r)
    case (Inl e)
    with k show ?thesis by (auto intro!: fall_back_begun [OF assms(1)])
  next
    case (Inr us)
    with k show ?thesis using video_stage_accounted [OF assms(1)] by simp
  qed
qed

lemma GetTopVideos_accounted:
  assumes "run_state (GetTopVideos env req s) w = (Returns (a, s'), w')"
  shows "accounted env (Limit req) s a s'"
proof (cases "user_client_of env (s\<lparr>numActiveRequests := numActiveRequests s + 1\<rparr>)")
  case None
  with assms show ?thesis by (simp add: GetTopVideos_stages)
next
  case (Some c)
  then obtain uc s1 where c: "user_client_of env (s\<lparr>numActiveRequests := numActiveRequests s + 1\<rparr>) = Some (uc, s1)"
    by (cases c) auto
  from client_of_frame(1) [OF this] have b: "begun s s1" by (simp add: begun_def cache_def)
  from assms c obtain r :: "UserInfo list reply" and w1 where
    k: "run_state (case r of
           Inl _ \<Rightarrow> State_Monad.return (Returns (fall_back env (Limit req) True False
                        ''fail to fetch user info on orig user'' s1))
         | Inr [] \<Rightarrow> State_Monad.return Panics
         | Inr (u # _) \<Rightarrow> user_stage env req s1 uc u) w1 = (Returns (a, s'), w')"
    unfolding GetTopVideos_stages c option.case prod.case call_bind_Returns by blast
  show ?thesis
  proof (cases r)
    case (Inl e)
    with k show ?thesis by (auto intro!: fall_back_begun [OF b])
  next
    case (Inr us)
    with k show ?thesis using user_stage_accounted [OF b] by (cases us) auto
  qed
qed

subsection \<open>Properties\<close>

lemma MakeVideoServiceServer_fields:
  "fst (MakeVideoServiceServer src vo) = vs \<Longrightarrow> vs_options vs = vo \<and>
     Config (vs_fi vs) = Some \<lparr>SleepNs = vso_SleepNs vo, FailureRate = vso_FailureRate vo,
       ResponseOmissionRate = vso_ResponseOmissionRate vo\<rparr>"
  by (auto simp: MakeVideoServiceServer_def SetInjectionConfig_def Let_def split_beta)

lemma MakeUserServiceServer_fields:
  "fst (MakeUserServiceServer src uo) = us \<Longrightarrow> us_options us = uo \<and>
     Config (us_fi us) = Some \<lparr>SleepNs = uso_SleepNs uo, FailureRate = uso_FailureRate uo,
       ResponseOmissionRate = uso_ResponseOmissionRate uo\<rparr>"
  by (auto simp: MakeUserServiceServer_def SetInjectionConfig_def Let_def split_beta)

definition no_injection :: "UserServiceOptions \<Rightarrow> VideoServiceOptions \<Rightarrow> bool" where
  "no_injection uo vo \<longleftrightarrow> uso_FailureRate uo = 0 \<and> uso_ResponseOmissionRate uo = 0 \<and>
     vso_FailureRate vo = 0 \<and> vso_ResponseOmissionRate vo = 0"

text \<open>C22. End to end: with the two services started from one seed, without failure injection, and a
  batch size that both accept (0 included), every request for a user of the database returns a
  fresh answer: the videos liked by the user's subscriptions, each once, sorted by decreasing rank
  with ties in the order of the request, cut off at the limit.\<close>

theorem fresh_answers:
  assumes src: "sources_ok src" and seed: "uso_Seed uo = vso_Seed vo" and inj: "no_injection uo vo"
    and us: "fst (MakeUserServiceServer src uo) = us" and vs: "fst (MakeVideoServiceServer src vo) = vs"
    and mocks: "uses_mocks src us vs server" and batch: "good_batch_size us vs server"
    and user: "us_users us (req_UserId req) = Some u"
  shows "\<exists>videos server'. run_state (GetTopVideos env req server) r =
      (Returns (Inr \<lparr>resp_Videos = truncate_to (Limit req) videos, StaleResponse = False\<rparr>, server'), r) \<and>
    mset videos = mset (map (\<lambda>i. the (vs_videos vs i)) (liked_videos us u)) \<and>
    sorted_wrt (\<lambda>v w. Ranker_Rank env (UserCoefficients u) (VideoCoefficients v) \<ge>
      Ranker_Rank env (UserCoefficients u) (VideoCoefficients w)) videos \<and>
    (\<forall>x. filter (\<lambda>v. Ranker_Rank env (UserCoefficients u) (VideoCoefficients v) = x) videos =
      filter (\<lambda>v. Ranker_Rank env (UserCoefficients u) (VideoCoefficients v) = x)
        (map (\<lambda>i. the (vs_videos vs i)) (liked_videos us u)))"
proof -
  note fits = databases_consistent_lemma [OF src seed us vs]
  have h: "healthy (us_fi us)" "healthy (vs_fi vs)"
    using MakeUserServiceServer_fields [OF us] MakeVideoServiceServer_fields [OF vs] inj
    by (auto simp: healthy_def no_injection_def)
  have subs: "set (SubscribedTo u) \<subseteq> dom (us_users us)" using fits user by blast
  have "set (LikedVideos (the (us_users us i))) \<subseteq> dom (vs_videos vs)" if "i \<in> set (SubscribedTo u)" for i
  proof -
    from subs that obtain v where "us_users us i = Some v" by auto
    with fits show ?thesis by auto
  qed
  then have liked: "set (liked_videos us u) \<subseteq> dom (vs_videos vs)" by (auto simp: liked_videos_props)
  show ?thesis
    by (rule exI, rule exI, rule conjI [OF GetTopVideos_healthy [OF h mocks batch user subs liked]])
      (simp add: rank_videos_props)
qed

definition sample_env :: "(unit, int) env" where
  "sample_env = \<lparr>NewUserServiceClient = (\<lambda>_ _. State_Monad.return Blocks),
     NewVideoServiceClient = (\<lambda>_. \<lparr>vc_GetVideo = (\<lambda>_. State_Monad.return Blocks),
       vc_GetTrendingVideos = State_Monad.return Blocks\<rparr>),
     Ranker_Rank = (\<lambda>u v. Rank plain_cipher [] u v), env_now = 1000, env_latency = 3\<rparr>"

definition default_us :: UserServiceServer where
  "default_us = fst (MakeUserServiceServer fixed_sources DefaultUserServiceOptions)"

definition default_vs :: VideoServiceServer where
  "default_vs = fst (MakeVideoServiceServer fixed_sources DefaultVideoServiceOptions)"

definition default_server :: "(unit, int) VideoRecServiceServer" where
  "default_server = fst (MakeVideoRecServiceServerWithMocks 1000 sample_options
     (mock_GetUser fixed_sources \<lparr>inMemServer = default_us\<rparr>)
     \<lparr>vc_GetVideo = mock_GetVideo fixed_sources \<lparr>v_inMemServer = default_vs\<rparr>,
      vc_GetTrendingVideos = mock_GetTrendingVideos fixed_sources \<lparr>v_inMemServer = default_vs\<rparr> 1000\<rparr>)"

lemma default_user:
  obtains u where "us_users default_us 200000 = Some u"
proof -
  obtain n where "5000 \<le> n" "dom (us_users default_us) = user_ids n"
    using MakeUserServiceServer_users [OF fixed_sources_ok, of DefaultUserServiceOptions default_us]
    by (metis default_us_def)
  moreover have "(200000 :: 64 word) \<in> user_ids n" if "5000 \<le> n" for n
    using that by (auto simp: user_ids_def USER_ID_OFFSET_def intro!: image_eqI [of _ _ 200000])
  ultimately show thesis using that by (metis domD)
qed

lemma default_setup:
  "no_injection DefaultUserServiceOptions DefaultVideoServiceOptions"
  "uses_mocks fixed_sources default_us default_vs default_server"
  "good_batch_size default_us default_vs default_server"
  "uso_Seed DefaultUserServiceOptions = vso_Seed DefaultVideoServiceOptions"
proof -
  have o: "us_options default_us = DefaultUserServiceOptions" "vs_options default_vs = DefaultVideoServiceOptions"
    using MakeUserServiceServer_fields [OF default_us_def [symmetric]]
      MakeVideoServiceServer_fields [OF default_vs_def [symmetric]] by blast+
  show "no_injection DefaultUserServiceOptions DefaultVideoServiceOptions"
    "uso_Seed DefaultUserServiceOptions = vso_Seed DefaultVideoServiceOptions"
    by (simp_all add: no_injection_def DefaultUserServiceOptions_def DefaultVideoServiceOptions_def)
  show "uses_mocks fixed_sources default_us default_vs default_server"
    by (simp add: uses_mocks_def default_server_def MakeVideoRecServiceServerWithMocks_def)
  show "good_batch_size default_us default_vs default_server"
    using o by (simp add: good_batch_size_def default_server_def MakeVideoRecServiceServerWithMocks_def
        new_server_def sample_options_def DefaultUserServiceOptions_def DefaultVideoServiceOptions_def)
qed

theorem fresh_answers_witness:
  "\<exists>videos server'. run_state (GetTopVideos sample_env \<lparr>req_UserId = 200000, Limit = 5\<rparr> default_server) 0 =
     (Returns (Inr \<lparr>resp_Videos = truncate_to 5 videos, StaleResponse = False\<rparr>, server'), 0)"
proof -
  obtain u where u: "us_users default_us 200000 = Some u" by (rule default_user)
  have "us_users default_us (req_UserId \<lparr>req_UserId = 200000, Limit = 5\<rparr>) = Some u" using u by simp
  from fresh_answers [OF fixed_sources_ok default_setup(4,1) default_us_def [symmetric] default_vs_def [symmetric]
      default_setup(2,3) this, of sample_env 0]
  show ?thesis by auto
qed

text \<open>C23. Accounting, whatever the backends do: a request that returns has been counted once, as a
  fresh answer, as a stale answer, which is the cached list cut off at the limit and only given
  when the fallback is enabled, or as an internal error of exactly one of the two services, which
  only occurs without a usable cache; the active requests are as before and the cache is untouched.
  So the counters of service errors count requests, not attempts: a request counts at most one
  however many of its calls failed, and none when it is answered from the cache, where
  \<open>lab1.md\<close> (B1, item 4) asks for the errors of all attempts (\<open>failed_attempts_uncounted\<close> below).\<close>

theorem request_accounting:
  assumes "run_state (GetTopVideos env req s) w = (Returns (a, s'), w')"
  shows "cache s' = cache s \<and> options s' = options s \<and>
    numTotalRequests s' = numTotalRequests s + 1 \<and> numActiveRequests s' = numActiveRequests s \<and>
    (case a of
       Inl st \<Rightarrow> status_code st = Internal \<and>
         (DisableFallback (options s) \<or> trendingVideos s = None) \<and>
         numTotalErrors s' = numTotalErrors s + 1 \<and> numStaleResponses s' = numStaleResponses s \<and>
         (numUserErrors s' = numUserErrors s + 1 \<and> numVideoErrors s' = numVideoErrors s \<or>
          numUserErrors s' = numUserErrors s \<and> numVideoErrors s' = numVideoErrors s + 1)
     | Inr resp \<Rightarrow>
         numTotalErrors s' = numTotalErrors s \<and> numUserErrors s' = numUserErrors s \<and>
         numVideoErrors s' = numVideoErrors s \<and>
         numStaleResponses s' = numStaleResponses s + (if StaleResponse resp then 1 else 0) \<and>
         (StaleResponse resp \<longrightarrow> \<not> DisableFallback (options s) \<and>
            (\<exists>videos. trendingVideos s = Some videos \<and> resp_Videos resp = truncate_to (Limit req) videos)))"
  using GetTopVideos_accounted [OF assms]
  by (auto simp: accounted_def GetCachedTrendingVideos_def split: sum.splits option.splits)

definition failing_server :: "(unit, int) VideoRecServiceServer" where
  "failing_server = fst (MakeVideoRecServiceServerWithMocks 1000 sample_options
     (\<lambda>_. State_Monad.return (Returns (status_Error Internal ''down'')))
     \<lparr>vc_GetVideo = (\<lambda>_. State_Monad.return (Returns (status_Error Internal ''down''))),
      vc_GetTrendingVideos = State_Monad.return (Returns (status_Error Internal ''down''))\<rparr>)"

theorem request_accounting_witness:
  "\<exists>a s'. run_state (GetTopVideos sample_env \<lparr>req_UserId = 5, Limit = 0\<rparr> failing_server) 0 = (Returns (a, s'), 0) \<and>
     numTotalRequests s' = 1 \<and> numActiveRequests s' = 0"
proof -
  obtain a s' where run: "run_state (GetTopVideos sample_env \<lparr>req_UserId = 5, Limit = 0\<rparr> failing_server) 0 =
      (Returns (a, s'), 0)"
    by (simp add: GetTopVideos_def failing_server_def MakeVideoRecServiceServerWithMocks_def new_server_def
        user_client_of_def FetchUserInfos_def fetch_infos_def sample_options_def split_batches.simps
        call_with_retry_def run_call_bind status_Error_def fall_back_def GetCachedTrendingVideos_def Let_def)
  from request_accounting [OF run] have "numTotalRequests s' = numTotalRequests failing_server + 1"
    "numActiveRequests s' = numActiveRequests failing_server" by blast+
  with run show ?thesis
    by (simp add: failing_server_def MakeVideoRecServiceServerWithMocks_def new_server_def)
qed

text \<open>Where the counters differ from the number of failed calls: a user service that fails every call and
  counts the calls. One request makes two of them, for which it counts one error, or none.\<close>

definition failing_user :: "nat user_client" where
  "failing_user = (\<lambda>_. State (\<lambda>w. (Returns (status_Error Internal ''down''), w + 1)))"

lemma failed_attempts_uncounted:
  assumes "useMock s" and "mockUserServiceClient s = Some failing_user"
    and "\<not> DisableRetry (options s)" and "0 \<le> MaxBatchSize (options s)"
  shows "\<exists>a s'. run_state (GetTopVideos env req s) w = (Returns (a, s'), w + 2) \<and>
    numUserErrors s' = numUserErrors s + (if DisableFallback (options s) \<or> trendingVideos s = None then 1 else 0)"
  using assms
  by (auto simp: GetTopVideos_def user_client_of_def FetchUserInfos_def fetch_infos_def split_batches.simps
      call_with_retry_def run_call_bind failing_user_def status_Error_def fall_back_def
      GetCachedTrendingVideos_def updateStats_def Let_def split: option.splits)

text \<open>What a call of \<open>UpdateTrendingVideosInternal\<close> has seen when it returns: the last call to the
  video service failed, or it has the list of trending ids and their infos.\<close>

definition last_call_failed :: "'w video_client \<Rightarrow> 'w \<Rightarrow> bool" where
  "last_call_failed vc w' \<longleftrightarrow> (\<exists>w e.
     run_state (vc_GetTrendingVideos vc) w = (Returns (Inl e), w') \<or>
     (\<exists>ids. run_state (vc_GetVideo vc ids) w = (Returns (Inl e), w')))"

definition fetched ::
  "('conn, 'w) VideoRecServiceServer \<Rightarrow> 'w video_client \<Rightarrow> GetTrendingVideosResponse \<Rightarrow> VideoInfo list \<Rightarrow> 'w \<Rightarrow> bool" where
  "fetched s vc resp infos w' \<longleftrightarrow> (\<exists>w1 w2.
     run_state (vc_GetTrendingVideos vc) w1 = (Returns (Inr resp), w2) \<and>
     run_state (FetchVideoInfos s vc (trending_Videos resp)) w2 = (Returns (Inr infos), w'))"

text \<open>The cache after a successful fetch.\<close>

definition refreshed ::
  "('conn, 'w) VideoRecServiceServer \<Rightarrow> GetTrendingVideosResponse \<Rightarrow> VideoInfo list \<Rightarrow> ('conn, 'w) VideoRecServiceServer" where
  "refreshed s resp infos =
     (if expirationTime s < ExpirationTimeS resp
      then s\<lparr>trendingVideos := Some infos, expirationTime := ExpirationTimeS resp\<rparr> else s)"

lemma call_with_retry_Inl:
  "run_state (call_with_retry d send q) w = (Returns (Inl e), w') \<Longrightarrow>
   \<exists>w1 e1. run_state (send q) w1 = (Returns (Inl e1), w')"
  by (auto simp: call_with_retry_def run_call_bind split: prod.splits outcome.splits sum.splits if_splits)

lemma call_with_retry_Inr:
  "run_state (call_with_retry d send q) w = (Returns (Inr a), w') \<Longrightarrow> \<exists>w1. run_state (send q) w1 = (Returns (Inr a), w')"
  by (auto simp: call_with_retry_def run_call_bind split: prod.splits outcome.splits sum.splits if_splits)

lemma fetch_loop_Inl:
  "run_state (fetch_loop d send bs infos) w = (Returns (Inl e), w') \<Longrightarrow>
   \<exists>b w1 e1. run_state (send b) w1 = (Returns (Inl e1), w')"
proof (induction bs arbitrary: infos w)
  case (Cons b bs)
  from Cons.prems obtain r :: "'a list reply" and w1 where
    r: "run_state (call_with_retry d send b) w = (Returns r, w1)" and
    k: "run_state (case r of Inl err \<Rightarrow> State_Monad.return (Returns (Inl err))
       | Inr found \<Rightarrow> fetch_loop d send bs (infos @ found)) w1 = (Returns (Inl e), w')"
    unfolding fetch_loop.simps call_bind_Returns by blast
  show ?case
  proof (cases r)
    case (Inl e1)
    with k r have "run_state (call_with_retry d send b) w = (Returns (Inl e1), w')" by simp
    from call_with_retry_Inl [OF this] show ?thesis by blast
  next
    case (Inr found)
    with k Cons.IH show ?thesis by simp
  qed
qed simp

lemma UpdateTrendingVideosInternal_result:
  assumes "run_state (UpdateTrendingVideosInternal s vc) w = (Returns (err, s'), w')"
  shows "err \<noteq> None \<and> s' = s \<and> last_call_failed vc w' \<or>
    err = None \<and> (\<exists>resp infos. fetched s vc resp infos w' \<and>
      s' = refreshed s resp infos)"
proof -
  let ?rest = "\<lambda>resp (r :: VideoInfo list reply). case r of
      Inl _ \<Rightarrow> State_Monad.return (Returns
        (Some (handleError Internal ''fail to fetch video infos for trending videos''), s))
    | Inr videoInfos \<Rightarrow> State_Monad.return (Returns (None,
        if ExpirationTimeS resp > expirationTime s
        then s\<lparr>trendingVideos := Some videoInfos, expirationTime := ExpirationTimeS resp\<rparr> else s))"
  from assms obtain r :: "GetTrendingVideosResponse reply" and w1 where
    list: "run_state (call_with_retry False (\<lambda>_. vc_GetTrendingVideos vc) ()) w = (Returns r, w1)" and
    r: "run_state (case r of
        Inl _ \<Rightarrow> State_Monad.return (Returns
          (Some (handleError Internal ''fail to fetch video ids for trending videos''), s))
      | Inr resp \<Rightarrow> call_bind (FetchVideoInfos s vc (trending_Videos resp)) (?rest resp)) w1 = (Returns (err, s'), w')"
    unfolding UpdateTrendingVideosInternal_def call_bind_Returns by blast
  show ?thesis
  proof (cases r)
    case (Inl e)
    with list r call_with_retry_Inl [of False "\<lambda>_. vc_GetTrendingVideos vc" "()" w] show ?thesis
      by (auto simp: last_call_failed_def)
  next
    case (Inr resp)
    with list obtain w0 where got: "run_state (vc_GetTrendingVideos vc) w0 = (Returns (Inr resp), w1)"
      using call_with_retry_Inr [of False "\<lambda>_. vc_GetTrendingVideos vc" "()" w] by blast
    from r [unfolded Inr sum.case call_bind_Returns] obtain q :: "VideoInfo list reply" and w2 where
      q: "run_state (FetchVideoInfos s vc (trending_Videos resp)) w1 = (Returns q, w2)"
        "run_state (?rest resp q) w2 = (Returns (err, s'), w')" by blast
    show ?thesis
    proof (cases q)
      case (Inl e)
      with q have "run_state (FetchVideoInfos s vc (trending_Videos resp)) w1 = (Returns (Inl e), w')" by simp
      then have "last_call_failed vc w'"
        by (auto simp: FetchVideoInfos_def fetch_infos_def last_call_failed_def split: if_splits option.splits
            dest!: fetch_loop_Inl)
      with Inl q show ?thesis by auto
    next
      case (Inr infos)
      with q got have "fetched s vc resp infos w'" by (auto simp: fetched_def)
      moreover have "err = None" "s' = refreshed s resp infos" using Inr q(2) by (auto simp: refreshed_def)
      ultimately show ?thesis by blast
    qed
  qed
qed

text \<open>C24. The cache of trending videos, whatever the video service does. A round of the refreshing
  goroutine that returns pauses only if the connection attempt failed, or the last call that it made to
  the video service did, and then the server is as it was. When it does not pause, either the cache was
  still fresh and nothing at all has happened, so the loop spins without pausing until twenty
  seconds before the expiration; or it was due, the service has sent a list of ids and their
  infos, and these replace the cache together with their expiration if and only if they expire later.\<close>

theorem cache_refresh:
  assumes "run_state (UpdateTrendingVideos_round connect now (s, client)) w = (Returns ((s', client'), pause), w')"
  shows "if pause then s' = s \<and>
      (client' = None \<and> (\<exists>e. run_state connect w = (Inl e, w')) \<or>
       (\<exists>vc. client' = Some vc \<and> expirationTime s - 20 \<le> of_int now \<and> last_call_failed vc w'))
    else \<exists>vc. client' = Some vc \<and> (client = None \<or> client = Some vc) \<and>
      (if of_int now < expirationTime s - 20 then s' = s \<and> (client \<noteq> None \<longrightarrow> w' = w)
       else \<exists>resp infos. fetched s vc resp infos w' \<and>
         s' = refreshed s resp infos)"
proof -
  have due: "client' = Some vc \<and>
      (if of_int now < expirationTime s - 20 then s' = s \<and> \<not> pause \<and> w' = w1
       else pause \<and> s' = s \<and> last_call_failed vc w' \<or>
         \<not> pause \<and> (\<exists>resp infos. fetched s vc resp infos w' \<and>
           s' = refreshed s resp infos))"
    if run: "run_state (refresh_if_due now s vc) w1 = (Returns ((s', client'), pause), w')" for vc w1
  proof (cases "(of_int now :: 64 word) \<ge> expirationTime s - 20")
    case True
    with run obtain err s1 w2 where
      "run_state (UpdateTrendingVideosInternal s vc) w1 = (Returns (err, s1), w2)"
      "s' = s1" "w' = w2" "client' = Some vc" "pause \<longleftrightarrow> err \<noteq> None"
      by (auto simp: refresh_if_due_def call_bind_Returns)
    with UpdateTrendingVideosInternal_result [OF this(1)] True show ?thesis by (simp add: not_less [symmetric])
  next
    case False
    with run show ?thesis by (auto simp: refresh_if_due_def not_le)
  qed
  show ?thesis
  proof (cases client)
    case None
    obtain r w1 where r: "run_state connect w = (r, w1)" by (cases "run_state connect w")
    show ?thesis
    proof (cases r)
      case (Inl e)
      with assms None r show ?thesis by (simp add: UpdateTrendingVideos_round_def run_state_bind)
    next
      case (Inr vc)
      with assms None r have "run_state (refresh_if_due now s vc) w1 = (Returns ((s', client'), pause), w')"
        by (simp add: UpdateTrendingVideos_round_def run_state_bind)
      from due [OF this] None show ?thesis by (auto simp: not_less split: if_splits)
    qed
  next
    case (Some vc)
    with assms have "run_state (refresh_if_due now s vc) w = (Returns ((s', client'), pause), w')"
      by (simp add: UpdateTrendingVideos_round_def)
    from due [OF this] Some show ?thesis by (auto simp: not_less split: if_splits)
  qed
qed

text \<open>A round that succeeds: a service that has no trending videos until 1400.\<close>

definition steady_videos :: "int video_client" where
  "steady_videos = \<lparr>vc_GetVideo = (\<lambda>ids. State_Monad.return (Returns (Inr []))),
     vc_GetTrendingVideos = State_Monad.return (Returns (Inr \<lparr>trending_Videos = [], ExpirationTimeS = 1400\<rparr>))\<rparr>"

theorem cache_refresh_witness:
  "\<exists>resp infos. fetched default_server steady_videos resp infos 0 \<and>
     run_state (UpdateTrendingVideos_round (State_Monad.return (Inl ())) 1000 (default_server, Some steady_videos)) 0 =
       (Returns ((refreshed default_server resp infos, Some steady_videos), False), 0)"
proof -
  have expiry: "expirationTime default_server = 1000" "MaxBatchSize (options default_server) = 1"
    by (simp_all add: default_server_def MakeVideoRecServiceServerWithMocks_def new_server_def sample_options_def)
  obtain s' where run: "run_state (UpdateTrendingVideos_round (State_Monad.return (Inl ())) 1000
      (default_server, Some steady_videos)) 0 = (Returns ((s', Some steady_videos), False), 0)"
    by (simp add: UpdateTrendingVideos_round_def refresh_if_due_def UpdateTrendingVideosInternal_def expiry
        steady_videos_def run_call_bind call_with_retry_def FetchVideoInfos_def fetch_infos_def split_batches.simps)
  from cache_refresh [OF run] expiry obtain resp infos where
    "fetched default_server steady_videos resp infos 0"
    "s' = refreshed default_server resp infos"
    by auto
  with run show ?thesis by auto
qed

end
