(* ===== verification/Video_Rec_Clients.thy ===== *)
theory Video_Rec_Clients
  imports Video_Rec_Properties
begin

section \<open>The client programs\<close>

text \<open>
  \<open>lab2/cmd\<close> (the copy in \<open>lab1\<close> is identical): \<open>frontend\<close>, which tests the services with a few
  requests, \<open>loadgen\<close>, which sends requests at a given rate and counts the answers, and \<open>stats\<close>, which
  prints the statistics of the service. \<open>grpc.Dial\<close> and the generated clients are arguments; the
  counters of \<open>loadgen\<close> are updated by concurrent goroutines and read by another, one atomic
  operation at a time.
\<close>

subsection \<open>frontend\<close>

type_synonym 'w rec_client = "GetTopVideosRequest \<Rightarrow> ('w, GetTopVideosResponse reply) call"

definition getUserId :: "string \<Rightarrow> 64 word" where
  "getUserId netId = New64_Sum64 netId mod 5000 + 200000"

text \<open>A program ends early with \<open>log.Fatalf\<close>.\<close>

datatype failure = Fail_To_Dial | No_User_Information | No_Recommendations | Wrong_Recommendations nat

type_synonym ('w, 'a) program = "('w, failure + 'a) call"

definition program_bind :: "('w, 'a) program \<Rightarrow> ('a \<Rightarrow> ('w, 'b) program) \<Rightarrow> ('w, 'b) program" where
  "program_bind m f = call_bind m (\<lambda>r. case r of
       Inl e \<Rightarrow> State_Monad.return (Returns (Inl e)) | Inr a \<Rightarrow> f a)"

record ('conn, 'w) dialler =
  Dial :: "string \<Rightarrow> ('w, 'conn option) state"
  UserServiceClient :: "'conn \<Rightarrow> 'w user_client"
  VideoRecServiceClient :: "'conn \<Rightarrow> 'w rec_client"

definition serviceConn :: "('conn, 'w) dialler \<Rightarrow> string \<Rightarrow> ('w, 'conn) program" where
  "serviceConn d address = do {
     r \<leftarrow> Dial d address;
     State_Monad.return (Returns (case r of None \<Rightarrow> Inl Fail_To_Dial | Some conn \<Rightarrow> Inr conn))
   }"

text \<open>The result of \<open>fetchUser\<close> is the user whose name, email and profile are logged.\<close>

definition fetchUser :: "('conn, 'w) dialler \<Rightarrow> string \<Rightarrow> 64 word \<Rightarrow> ('w, UserInfo) program" where
  "fetchUser d userServiceAddr userId =
     program_bind (serviceConn d userServiceAddr) (\<lambda>conn.
       call_bind (UserServiceClient d conn [userId]) (\<lambda>out. State_Monad.return (Returns
         (case out of
            Inl err \<Rightarrow> Inl No_User_Information
          | Inr users \<Rightarrow> if length users \<noteq> 1 then Inl No_User_Information else Inr (users ! 0)))))"

definition sendSingleTestRequest :: "'w rec_client \<Rightarrow> 64 word \<Rightarrow> ('w, VideoInfo list) program" where
  "sendSingleTestRequest client userId =
     call_bind (client \<lparr>req_UserId = userId, Limit = 5\<rparr>) (\<lambda>out. State_Monad.return (Returns
       (case out of Inl err \<Rightarrow> Inl No_Recommendations | Inr resp \<Rightarrow> Inr (resp_Videos resp))))"

text \<open>The two comparisons of \<open>main\<close>; the first operand of the disjunction guards the indices.\<close>

definition wrong_1 :: "VideoInfo list \<Rightarrow> bool" where
  "wrong_1 videos \<longleftrightarrow> length videos \<noteq> 5 \<or> VideoId (videos ! 0) \<noteq> 1012 \<or> Author (videos ! 1) \<noteq> ''Harry Boehm'' \<or>
     VideoId (videos ! 2) \<noteq> 1209 \<or> Url (videos ! 3) \<noteq> ''https://video-data.localhost/blob/1309'' \<or>
     Title (videos ! 4) \<noteq> ''precious here''"

definition wrong_2 :: "VideoInfo list \<Rightarrow> bool" where
  "wrong_2 videos \<longleftrightarrow> length videos \<noteq> 5 \<or> VideoId (videos ! 0) \<noteq> 1196 \<or> Author (videos ! 1) \<noteq> ''Rocky Okuneva'' \<or>
     VideoId (videos ! 2) \<noteq> 1071 \<or> Url (videos ! 3) \<noteq> ''https://video-data.localhost/blob/1041'' \<or>
     Title (videos ! 4) \<noteq> ''witty downstairs''"

definition frontend_main :: "('conn, 'w) dialler \<Rightarrow> string \<Rightarrow> string \<Rightarrow> string \<Rightarrow> ('w, unit) program" where
  "frontend_main d videoRecServiceAddr userServiceAddr netId =
     program_bind (serviceConn d videoRecServiceAddr) (\<lambda>conn.
       let client = VideoRecServiceClient d conn; userId = getUserId netId in
       program_bind (fetchUser d userServiceAddr userId) (\<lambda>_.
       program_bind (sendSingleTestRequest client userId) (\<lambda>_.
       program_bind (sendSingleTestRequest client 204054) (\<lambda>videos.
       if wrong_1 videos then State_Monad.return (Returns (Inl (Wrong_Recommendations 1)))
       else program_bind (sendSingleTestRequest client 203584) (\<lambda>videos.
       if wrong_2 videos then State_Monad.return (Returns (Inl (Wrong_Recommendations 2)))
       else State_Monad.return (Returns (Inr ())))))))"

subsection \<open>loadgen\<close>

definition MIN_USER_COUNT :: "64 word" where "MIN_USER_COUNT = 5000"

definition getNextUserId :: "64 word \<Rightarrow> 64 word" where
  "getNextUserId userId = (userId + 1) mod MIN_USER_COUNT + of_int USER_ID_OFFSET"

text \<open>The request of \<open>sendRequest\<close>; \<open>r\<close> is the result of \<open>rand.Int31n(10)\<close>.\<close>

definition sendRequest_args :: "64 word \<Rightarrow> int \<Rightarrow> GetTopVideosRequest" where
  "sendRequest_args userId r = (let responseLimit = r + 1 in \<lparr>req_UserId = userId, Limit = responseLimit\<rparr>)"

text \<open>A goroutine of \<open>sendRequest\<close>: what it does next, what the service answered, the latency.\<close>

datatype send_pc = Spawned | Calling | Count_Stale | Count_Response | Count_Latency | Count_Success | Sent_Done

record sender =
  pc :: send_pc
  wasSuccess :: bool
  wasStale :: bool
  elapsed :: "64 word"

text \<open>\<open>reportStats\<close> loads the counters one after the other; a report is what it prints, but for the two
  quotients of floating-point numbers.\<close>

datatype report_pc = Waiting_Tick | Have_Reqs "64 word" | Have_Errors "64 word" "64 word"
  | Have_Latency "64 word" "64 word" "64 word" | Have_Stale "64 word" "64 word" "64 word" "64 word"

record report =
  total_sent :: "64 word"
  total_responses :: "64 word"
  total_errors :: "64 word"
  stale_responses :: "64 word"
  latency_sum :: "64 word"

record loadgen =
  totalSent :: "64 word"
  totalResponses :: "64 word"
  totalSuccesses :: "64 word"
  totalLatencyMs :: "64 word"
  totalStale :: "64 word"
  sending :: "sender list"
  reporter :: report_pc
  reports :: "report list"

definition loadgen_init :: loadgen where
  "loadgen_init = \<lparr>totalSent = 0, totalResponses = 0, totalSuccesses = 0, totalLatencyMs = 0, totalStale = 0,
     sending = [], reporter = Waiting_Tick, reports = []\<rparr>"

text \<open>The next atomic operation of a goroutine of \<open>sendRequest\<close>; \<open>answer\<close> is the outcome of the call and
  \<open>ms\<close> the time measured, each used where it is read.\<close>

definition sendRequest_step :: "GetTopVideosResponse reply \<Rightarrow> 64 word \<Rightarrow> sender \<Rightarrow> loadgen \<Rightarrow> sender \<times> loadgen" where
  "sendRequest_step answer ms t g =
     (case pc t of
        Spawned \<Rightarrow> (t\<lparr>pc := Calling\<rparr>, g\<lparr>totalSent := totalSent g + 1\<rparr>)
      | Calling \<Rightarrow>
          (case answer of
             Inl err \<Rightarrow> (t\<lparr>pc := Count_Response\<rparr>, g)
           | Inr response \<Rightarrow>
               (t\<lparr>wasSuccess := True, wasStale := StaleResponse response,
                  pc := (if StaleResponse response then Count_Stale else Count_Response)\<rparr>, g))
      | Count_Stale \<Rightarrow> (t\<lparr>pc := Count_Response\<rparr>, g\<lparr>totalStale := totalStale g + 1\<rparr>)
      | Count_Response \<Rightarrow> (t\<lparr>pc := Count_Latency, elapsed := ms\<rparr>, g\<lparr>totalResponses := totalResponses g + 1\<rparr>)
      | Count_Latency \<Rightarrow>
          (t\<lparr>pc := (if wasSuccess t then Count_Success else Sent_Done)\<rparr>,
           g\<lparr>totalLatencyMs := totalLatencyMs g + elapsed t\<rparr>)
      | Count_Success \<Rightarrow> (t\<lparr>pc := Sent_Done\<rparr>, g\<lparr>totalSuccesses := totalSuccesses g + 1\<rparr>)
      | Sent_Done \<Rightarrow> (t, g))"

definition reportStats_step :: "loadgen \<Rightarrow> loadgen" where
  "reportStats_step g =
     (case reporter g of
        Waiting_Tick \<Rightarrow> g\<lparr>reporter := Have_Reqs (totalResponses g)\<rparr>
      | Have_Reqs numReqs \<Rightarrow> g\<lparr>reporter := Have_Errors numReqs (numReqs - totalSuccesses g)\<rparr>
      | Have_Errors numReqs numErrors \<Rightarrow> g\<lparr>reporter := Have_Latency numReqs numErrors (totalLatencyMs g)\<rparr>
      | Have_Latency numReqs numErrors latencyMs \<Rightarrow>
          g\<lparr>reporter := Have_Stale numReqs numErrors latencyMs (totalStale g)\<rparr>
      | Have_Stale numReqs numErrors latencyMs staleResponses \<Rightarrow>
          g\<lparr>reporter := Waiting_Tick, reports := reports g @ [\<lparr>total_sent = totalSent g,
             total_responses = numReqs, total_errors = numErrors, stale_responses = staleResponses,
             latency_sum = latencyMs\<rparr>]\<rparr>)"

text \<open>The limiter lets a loop of \<open>main\<close> start another goroutine; any goroutine may be next.\<close>

datatype load_event = Spawn | Send_Step nat "GetTopVideosResponse reply" "64 word" | Report_Step

definition load_step :: "load_event \<Rightarrow> loadgen \<Rightarrow> loadgen" where
  "load_step e g =
     (case e of
        Spawn \<Rightarrow> g\<lparr>sending := sending g @ [\<lparr>pc = Spawned, wasSuccess = False, wasStale = False, elapsed = 0\<rparr>]\<rparr>
      | Send_Step k answer ms \<Rightarrow>
          if k < length (sending g)
          then let (t, g) = sendRequest_step answer ms (sending g ! k) g in g\<lparr>sending := (sending g)[k := t]\<rparr>
          else g
      | Report_Step \<Rightarrow> reportStats_step g)"

subsection \<open>stats\<close>

text \<open>A line of output; the service never sets \<open>P99LatencyMs\<close>, so the column holds the zero of the
  protocol buffer.\<close>

definition gatherStats :: "('w, GetStatsResponse reply) call \<Rightarrow> ('w, GetStatsResponse option) call" where
  "gatherStats GetStats_call = call_bind GetStats_call (\<lambda>out. State_Monad.return (Returns
     (case out of Inl err \<Rightarrow> None | Inr r \<Rightarrow> Some r)))"

subsection \<open>The counters of loadgen\<close>

text \<open>Each counter is the number of goroutines that have passed its atomic operation.\<close>

definition sent_share :: "sender \<Rightarrow> 64 word" where
  "sent_share t = (if pc t \<noteq> Spawned then 1 else 0)"

definition stale_share :: "sender \<Rightarrow> 64 word" where
  "stale_share t = (if wasStale t \<and> pc t \<noteq> Count_Stale then 1 else 0)"

definition response_share :: "sender \<Rightarrow> 64 word" where
  "response_share t = (if pc t \<in> {Count_Latency, Count_Success, Sent_Done} then 1 else 0)"

definition latency_share :: "sender \<Rightarrow> 64 word" where
  "latency_share t = (if pc t \<in> {Count_Success, Sent_Done} then elapsed t else 0)"

definition success_share :: "sender \<Rightarrow> 64 word" where
  "success_share t = (if pc t = Sent_Done \<and> wasSuccess t then 1 else 0)"

lemmas share_defs = sent_share_def stale_share_def response_share_def latency_share_def success_share_def

definition sender_ok :: "sender \<Rightarrow> bool" where
  "sender_ok t \<longleftrightarrow> (wasStale t \<longrightarrow> wasSuccess t) \<and> (pc t \<in> {Spawned, Calling} \<longrightarrow> \<not> wasSuccess t) \<and>
     (pc t = Count_Stale \<longrightarrow> wasStale t) \<and> (pc t = Count_Success \<longrightarrow> wasSuccess t)"

definition loadgen_inv :: "loadgen \<Rightarrow> bool" where
  "loadgen_inv g \<longleftrightarrow> (\<forall>t \<in> set (sending g). sender_ok t) \<and>
     totalSent g = (\<Sum>t \<leftarrow> sending g. sent_share t) \<and>
     totalStale g = (\<Sum>t \<leftarrow> sending g. stale_share t) \<and>
     totalResponses g = (\<Sum>t \<leftarrow> sending g. response_share t) \<and>
     totalLatencyMs g = (\<Sum>t \<leftarrow> sending g. latency_share t) \<and>
     totalSuccesses g = (\<Sum>t \<leftarrow> sending g. success_share t)"

lemma sum_list_map_update:
  fixes f :: "'a \<Rightarrow> 'b :: ab_group_add"
  assumes "k < length xs"
  shows "sum_list (map f (xs[k := x])) = sum_list (map f xs) + f x - f (xs ! k)"
  using assms by (induction xs arbitrary: k) (auto simp: nth_Cons split: nat.split)

lemma sendRequest_step_frame:
  "sending (snd (sendRequest_step answer ms t g)) = sending g"
  by (simp add: sendRequest_step_def split: send_pc.split sum.split)

lemma sendRequest_step_shares:
  assumes "sendRequest_step answer ms t g = (t', g')" and "sender_ok t"
  shows "sender_ok t'"
    and "totalSent g' = totalSent g + sent_share t' - sent_share t"
    and "totalStale g' = totalStale g + stale_share t' - stale_share t"
    and "totalResponses g' = totalResponses g + response_share t' - response_share t"
    and "totalLatencyMs g' = totalLatencyMs g + latency_share t' - latency_share t"
    and "totalSuccesses g' = totalSuccesses g + success_share t' - success_share t"
  using assms
  by (cases "pc t"; auto simp: sendRequest_step_def sender_ok_def share_defs split: sum.splits if_splits)+

lemma load_step_inv:
  assumes "loadgen_inv g"
  shows "loadgen_inv (load_step e g)"
proof (cases e)
  case Spawn
  with assms show ?thesis by (auto simp: loadgen_inv_def load_step_def sender_ok_def share_defs)
next
  case Report_Step
  with assms show ?thesis by (simp add: loadgen_inv_def load_step_def reportStats_step_def split: report_pc.split)
next
  case (Send_Step k answer ms)
  show ?thesis
  proof (cases "k < length (sending g)")
    case False
    with Send_Step assms show ?thesis by (simp add: load_step_def)
  next
    case k: True
    obtain t' g' where step: "sendRequest_step answer ms (sending g ! k) g = (t', g')" by fastforce
    with sendRequest_step_frame [of answer ms "sending g ! k" g] have sending: "sending g' = sending g" by simp
    have t: "sender_ok (sending g ! k)" using assms k by (simp add: loadgen_inv_def)
    note sum = sum_list_map_update [OF k]
    have "set ((sending g)[k := t']) \<subseteq> insert t' (set (sending g))" by (rule set_update_subset_insert)
    moreover have "sender_ok t'" by (rule sendRequest_step_shares(1) [OF step t])
    ultimately have "\<forall>t \<in> set ((sending g)[k := t']). sender_ok t" using assms by (auto simp: loadgen_inv_def)
    moreover have "load_step e g = g'\<lparr>sending := (sending g)[k := t']\<rparr>"
      using k step sending by (simp add: Send_Step load_step_def)
    ultimately show ?thesis
      using assms sendRequest_step_shares(2-6) [OF step t] by (simp add: loadgen_inv_def sum)
  qed
qed

lemma fold_load_step_inv: "loadgen_inv g \<Longrightarrow> loadgen_inv (fold load_step es g)"
  by (induction es arbitrary: g) (simp_all add: load_step_inv)

lemma counted_filter: "(\<Sum>t \<leftarrow> ts. (if P t then 1 else 0)) = (of_nat (length (filter P ts)) :: 64 word)"
  by (induction ts) simp_all

text \<open>The counters of \<open>loadgen\<close>, at any time of any run: sent are the requests that have begun,
  responses those that are over, successes those that are over without an error, stale those
  answered from the cache, each counted once however the goroutines interleave.\<close>

lemma loadgen_accounting:
  assumes "g = fold load_step es loadgen_init"
  shows "totalSent g = of_nat (length (filter (\<lambda>t. pc t \<noteq> Spawned) (sending g)))"
    and "totalResponses g = of_nat (length (filter (\<lambda>t. pc t \<in> {Count_Latency, Count_Success, Sent_Done}) (sending g)))"
    and "totalSuccesses g = of_nat (length (filter (\<lambda>t. pc t = Sent_Done \<and> wasSuccess t) (sending g)))"
    and "totalStale g = of_nat (length (filter (\<lambda>t. wasStale t \<and> pc t \<noteq> Count_Stale) (sending g)))"
    and "totalLatencyMs g = (\<Sum>t \<leftarrow> filter (\<lambda>t. pc t \<in> {Count_Success, Sent_Done}) (sending g). elapsed t)"
proof -
  have "loadgen_inv loadgen_init" by (simp add: loadgen_inv_def loadgen_init_def)
  then have inv: "loadgen_inv g" unfolding assms by (rule fold_load_step_inv)
  have "(\<Sum>t \<leftarrow> ts. latency_share t) = (\<Sum>t \<leftarrow> filter (\<lambda>t. pc t \<in> {Count_Success, Sent_Done}) ts. elapsed t)" for ts
    by (induction ts) (simp_all add: latency_share_def)
  with inv show "totalSent g = of_nat (length (filter (\<lambda>t. pc t \<noteq> Spawned) (sending g)))"
    "totalResponses g = of_nat (length (filter (\<lambda>t. pc t \<in> {Count_Latency, Count_Success, Sent_Done}) (sending g)))"
    "totalSuccesses g = of_nat (length (filter (\<lambda>t. pc t = Sent_Done \<and> wasSuccess t) (sending g)))"
    "totalStale g = of_nat (length (filter (\<lambda>t. wasStale t \<and> pc t \<noteq> Count_Stale) (sending g)))"
    "totalLatencyMs g = (\<Sum>t \<leftarrow> filter (\<lambda>t. pc t \<in> {Count_Success, Sent_Done}) (sending g). elapsed t)"
    by (simp_all add: loadgen_inv_def sent_share_def stale_share_def response_share_def success_share_def
        counted_filter [symmetric])
qed

text \<open>The reported errors are a difference of two loads: a request that succeeds between them is
  missing from the first and counted in the second. Here the only request of the run succeeds and
  the report shows \<open>- 1\<close> errors, which is \<open>2 ^ 64 - 1\<close> as an unsigned number.\<close>

definition overtaking_run :: "load_event list" where
  "overtaking_run = Report_Step # Spawn #
     replicate 5 (Send_Step 0 (Inr \<lparr>resp_Videos = [], StaleResponse = False\<rparr>) 3) @ replicate 4 Report_Step"

lemma reported_errors_underflow:
  "reports (fold load_step overtaking_run loadgen_init) =
     [\<lparr>total_sent = 1, total_responses = 0, total_errors = - 1, stale_responses = 0, latency_sum = 3\<rparr>]"
  by (simp add: overtaking_run_def load_step_def reportStats_step_def sendRequest_step_def loadgen_init_def
      eval_nat_numeral)

subsection \<open>The users that the programs ask for\<close>

lemma unat_small: "n < 2 ^ 64 \<Longrightarrow> unat (of_nat n :: 64 word) = n"
  by (simp add: unsigned_of_nat take_bit_nat_eq_self)

lemma of_nat_mod_small: "n < 2 ^ 64 \<Longrightarrow> (of_nat n :: 64 word) mod 5000 = of_nat (n mod 5000)"
proof (rule word_unat_eq_iff [THEN iffD2])
  assume n: "n < 2 ^ 64"
  have "n mod 5000 < 2 ^ 64" by (rule le_less_trans [OF mod_less_eq_dividend n])
  then show "unat ((of_nat n :: 64 word) mod 5000) = unat (of_nat (n mod 5000) :: 64 word)"
    by (simp only: unat_mod unat_small [OF n] unat_small) simp
qed

lemma id_mod:
  assumes "m < 5000"
  shows "(of_nat (200000 + m) + 1 :: 64 word) mod 5000 = of_nat ((m + 1) mod 5000)"
proof -
  have "(of_nat (200000 + m) + 1 :: 64 word) = of_nat (200001 + m)" by simp
  moreover have "200001 + m < 2 ^ 64" using assms by simp
  moreover have "(200001 + m) mod 5000 = (m + 1) mod 5000"
    using mod_mult_self1 [of "m + 1" 40 5000] by (simp add: algebra_simps)
  ultimately show ?thesis by (simp only: of_nat_mod_small)
qed

lemma getNextUserId_iterate: "(getNextUserId ^^ k) (of_int USER_ID_OFFSET) = of_nat (200000 + k mod 5000)"
proof (induction k)
  case 0
  show ?case by (simp add: USER_ID_OFFSET_def)
next
  case (Suc k)
  have "getNextUserId (of_nat (200000 + k mod 5000)) = of_nat ((k mod 5000 + 1) mod 5000) + 200000"
    using id_mod [of "k mod 5000"] by (simp add: getNextUserId_def MIN_USER_COUNT_def USER_ID_OFFSET_def)
  also have "\<dots> = of_nat (200000 + Suc k mod 5000)" by (simp add: mod_Suc)
  finally show ?case using Suc by simp
qed

lemma getUserId_range: "\<exists>m < 5000. getUserId netId = of_nat (200000 + m)"
proof (intro exI conjI)
  let ?m = "unat (New64_Sum64 netId) mod 5000"
  show "?m < 5000" by simp
  have "New64_Sum64 netId mod 5000 = of_nat ?m"
    using of_nat_mod_small [of "unat (New64_Sum64 netId)"] unsigned_less [of "New64_Sum64 netId"] by simp
  then show "getUserId netId = of_nat (200000 + ?m)" by (simp add: getUserId_def)
qed

lemma ids_exist:
  assumes "dom (us_users us) = user_ids n" and "5000 \<le> n" and "m < 5000"
  shows "(of_nat (200000 + m) :: 64 word) \<in> dom (us_users us)"
  using assms by (auto simp: user_ids_def USER_ID_OFFSET_def intro!: image_eqI [of _ _ "int (200000 + m)"])

subsection \<open>The programs against the services\<close>

text \<open>The services as the programs reach them when dialling succeeds: the state is the recommendation
  server and what lies behind it.\<close>

definition rec_service :: "('conn, 'w) env \<Rightarrow> (('conn, 'w) VideoRecServiceServer \<times> 'w) rec_client" where
  "rec_service env req = State (\<lambda>(server, w).
     case run_state (GetTopVideos env req server) w of
       (Returns (a, server'), w') \<Rightarrow> (Returns a, (server', w'))
     | (Blocks, w') \<Rightarrow> (Blocks, (server, w'))
     | (Panics, w') \<Rightarrow> (Panics, (server, w')))"

definition user_service :: "('r, 'f) sources \<Rightarrow> UserServiceServer \<Rightarrow> (('conn, 'r) VideoRecServiceServer \<times> 'r) user_client" where
  "user_service src us ids = State (\<lambda>(server, r). let (a, r') = run_state (GetUser src us ids) r in (a, (server, r')))"

definition local_dialler ::
  "('conn, 'r) env \<Rightarrow> ('r, 'f) sources \<Rightarrow> UserServiceServer \<Rightarrow> (unit, ('conn, 'r) VideoRecServiceServer \<times> 'r) dialler" where
  "local_dialler env src us = \<lparr>Dial = (\<lambda>_. State_Monad.return (Some ())),
     UserServiceClient = (\<lambda>_. user_service src us), VideoRecServiceClient = (\<lambda>_. rec_service env)\<rparr>"

text \<open>Both services run on one seed and inject nothing, and the server's batches fit.\<close>

definition well_started ::
  "('r, 'f) sources \<Rightarrow> UserServiceServer \<Rightarrow> VideoServiceServer \<Rightarrow> ('conn, 'r) VideoRecServiceServer \<Rightarrow> bool" where
  "well_started src us vs server \<longleftrightarrow> sources_ok src \<and>
     (\<exists>uo vo. uso_Seed uo = vso_Seed vo \<and> no_injection uo vo \<and> fst (MakeUserServiceServer src uo) = us \<and>
        fst (MakeVideoServiceServer src vo) = vs) \<and>
     uses_mocks src us vs server \<and> good_batch_size us vs server"

lemma well_started_update:
  "well_started src us vs server \<Longrightarrow>
   well_started src us vs (updateStats l False False False False (server\<lparr>numActiveRequests := n\<rparr>))"
  by (simp add: well_started_def uses_mocks_def good_batch_size_def updateStats_def Let_def)

lemma well_startedE:
  assumes "well_started src us vs server"
  obtains uo vo where "sources_ok src" "uso_Seed uo = vso_Seed vo" "no_injection uo vo"
    "fst (MakeUserServiceServer src uo) = us" "fst (MakeVideoServiceServer src vo) = vs"
    "uses_mocks src us vs server" "good_batch_size us vs server"
  using assms unfolding well_started_def by (elim conjE exE) (rule that)

lemma well_started_healthy:
  assumes "well_started src us vs server"
  shows "healthy (us_fi us)" "healthy (vs_fi vs)"
proof -
  from assms obtain uo vo where o: "no_injection uo vo" "fst (MakeUserServiceServer src uo) = us"
    "fst (MakeVideoServiceServer src vo) = vs" by (rule well_startedE)
  from MakeUserServiceServer_fields [OF o(2)] o(1)
  show "healthy (us_fi us)" by (simp only: healthy_def no_injection_def) simp
  from MakeVideoServiceServer_fields [OF o(3)] o(1)
  show "healthy (vs_fi vs)" by (simp only: healthy_def no_injection_def) simp
qed

lemma well_started_user:
  assumes "well_started src us vs server" and "m < 5000"
  shows "(of_nat (200000 + m) :: 64 word) \<in> dom (us_users us)"
proof -
  from assms(1) obtain uo where "sources_ok src" "fst (MakeUserServiceServer src uo) = us"
    by (rule well_startedE)
  then obtain n where "5000 \<le> n" "dom (us_users us) = user_ids n" by (rule MakeUserServiceServer_users)
  with assms(2) ids_exist show ?thesis by blast
qed

lemma served_fresh:
  assumes "well_started src us vs server" and "req_UserId req \<in> dom (us_users us)"
  shows "\<exists>resp server'. run_state (rec_service env req) (server, r) = (Returns (Inr resp), (server', r)) \<and>
     \<not> StaleResponse resp \<and> well_started src us vs server'"
proof -
  from assms(2) obtain u where u: "us_users us (req_UserId req) = Some u" by auto
  from assms(1) obtain uo vo where o: "sources_ok src" "uso_Seed uo = vso_Seed vo"
    "fst (MakeUserServiceServer src uo) = us" "fst (MakeVideoServiceServer src vo) = vs"
    by (rule well_startedE)
  note fits = databases_consistent_lemma [OF o]
  have subs: "set (SubscribedTo u) \<subseteq> dom (us_users us)" using fits u by blast
  have "set (LikedVideos (the (us_users us i))) \<subseteq> dom (vs_videos vs)" if "i \<in> set (SubscribedTo u)" for i
  proof -
    from subs that obtain v where "us_users us i = Some v" by auto
    with fits show ?thesis by auto
  qed
  then have liked: "set (liked_videos us u) \<subseteq> dom (vs_videos vs)" by (auto simp: liked_videos_props)
  have m: "uses_mocks src us vs server" "good_batch_size us vs server" using assms(1) by (simp_all add: well_started_def)
  from GetTopVideos_healthy [OF well_started_healthy [OF assms(1)] m u subs liked]
    well_started_update [OF assms(1)]
  show ?thesis by (simp add: rec_service_def)
qed

lemma fetchUser_found:
  assumes "well_started src us vs server" and "userId \<in> dom (us_users us)"
  shows "\<exists>u. run_state (fetchUser (local_dialler env src us) addr userId) (server, r) = (Returns (Inr u), (server, r))"
proof -
  from assms(1) obtain uo vo where us: "fst (MakeUserServiceServer src uo) = us"
    and b: "good_batch_size us vs server" by (rule well_startedE)
  from assms(2) obtain u where u: "us_users us userId = Some u" by auto
  have "run_state (GetUser src us [userId]) r = (Returns (Inr [u]), r)"
    using u b by (simp add: GetUser_healthy [OF well_started_healthy(1) [OF assms(1)]] GetUser_checked_def good_batch_size_def)
  then show ?thesis
    by (simp add: fetchUser_def local_dialler_def serviceConn_def program_bind_def run_call_bind run_state_bind
        user_service_def)
qed

lemma test_request_fresh:
  assumes "well_started src us vs server" and "userId \<in> dom (us_users us)"
  shows "\<exists>videos server'. run_state (sendSingleTestRequest (rec_service env) userId) (server, r) =
     (Returns (Inr videos), (server', r)) \<and> well_started src us vs server'"
  using served_fresh [OF assms(1), of "\<lparr>req_UserId = userId, Limit = 5\<rparr>" env r] assms(2)
  by (auto simp: sendSingleTestRequest_def run_call_bind)

text \<open>The frontend, run against well-started services, gets an answer to every request; what it can still
  complain about is the contents of the two expected lists, which depend on the seed.\<close>

lemma frontend_answered:
  assumes "well_started src us vs server"
  shows "\<exists>outcome server'. run_state (frontend_main (local_dialler env src us) recAddr userAddr netId) (server, r) =
     (Returns outcome, (server', r)) \<and>
     outcome \<in> {Inr (), Inl (Wrong_Recommendations 1), Inl (Wrong_Recommendations 2)}"
proof -
  let ?d = "local_dialler env src us"
  have user: "getUserId netId \<in> dom (us_users us)"
    using getUserId_range [of netId] well_started_user [OF assms] by metis
  have fixed: "204054 \<in> dom (us_users us)" "203584 \<in> dom (us_users us)"
    using well_started_user [OF assms, of 4054] well_started_user [OF assms, of 3584] by simp_all
  from fetchUser_found [OF assms user] obtain u where
    u: "run_state (fetchUser ?d userAddr (getUserId netId)) (server, r) = (Returns (Inr u), (server, r))" by blast
  from test_request_fresh [OF assms user] obtain v1 s1 where
    v1: "run_state (sendSingleTestRequest (rec_service env) (getUserId netId)) (server, r) = (Returns (Inr v1), (s1, r))"
    and s1: "well_started src us vs s1" by blast
  from test_request_fresh [OF s1 fixed(1)] obtain v2 s2 where
    v2: "run_state (sendSingleTestRequest (rec_service env) 204054) (s1, r) = (Returns (Inr v2), (s2, r))"
    and s2: "well_started src us vs s2" by blast
  from test_request_fresh [OF s2 fixed(2)] obtain v3 s3 where
    v3: "run_state (sendSingleTestRequest (rec_service env) 203584) (s2, r) = (Returns (Inr v3), (s3, r))" by blast
  have conn: "run_state (serviceConn ?d recAddr) w = (Returns (Inr ()), w)" for w
    by (simp add: serviceConn_def local_dialler_def run_state_bind)
  have client: "VideoRecServiceClient ?d () = rec_service env" by (simp add: local_dialler_def)
  show ?thesis
    by (simp add: frontend_main_def program_bind_def run_call_bind Let_def conn client u v1 v2 v3)
qed

text \<open>The client programs only ask for users that exist, for every seed of the services and every
  name: against well-started services each request of the load generator, the k-th of a connection
  for any k, gets a fresh answer, and the frontend gets an answer to each of its requests, so that
  it passes or complains about the contents of one of its two expected lists.\<close>

lemma programs_are_served:
  assumes "well_started src us vs server"
  shows "(\<exists>resp server'. run_state (rec_service env (sendRequest_args ((getNextUserId ^^ k) (of_int USER_ID_OFFSET)) i))
       (server, r) = (Returns (Inr resp), (server', r)) \<and> \<not> StaleResponse resp) \<and>
    (\<exists>outcome server'. run_state (frontend_main (local_dialler env src us) recAddr userAddr netId) (server, r) =
       (Returns outcome, (server', r)) \<and>
       outcome \<in> {Inr (), Inl (Wrong_Recommendations 1), Inl (Wrong_Recommendations 2)})"
proof -
  have "(getNextUserId ^^ k) (of_int USER_ID_OFFSET) \<in> dom (us_users us)"
    unfolding getNextUserId_iterate by (rule well_started_user [OF assms]) simp
  then have "req_UserId (sendRequest_args ((getNextUserId ^^ k) (of_int USER_ID_OFFSET)) i) \<in> dom (us_users us)"
    by (simp add: sendRequest_args_def)
  from served_fresh [OF assms this] frontend_answered [OF assms] show ?thesis by blast
qed

lemma programs_are_served_witness:
  "\<exists>resp server'. run_state (rec_service sample_env (sendRequest_args ((getNextUserId ^^ 7000) (of_int USER_ID_OFFSET)) 4))
     (default_server, 0) = (Returns (Inr resp), (server', 0)) \<and> \<not> StaleResponse resp"
proof -
  have "well_started fixed_sources default_us default_vs default_server"
    unfolding well_started_def using default_setup fixed_sources_ok
    by (intro conjI exI [of _ DefaultUserServiceOptions] exI [of _ DefaultVideoServiceOptions])
      (simp_all add: default_us_def default_vs_def)
  from programs_are_served [OF this, of sample_env 7000 4 0] show ?thesis by blast
qed

subsection \<open>logging\<close>

text \<open>\<open>lab2/logging/logging.go\<close> (the copy in \<open>lab1\<close> is identical): the interceptor that every server runs
  its handlers in. Reverse lookup of addresses and the latency measured are arguments; what is
  written to stderr and to InfluxDB are lists.\<close>

datatype addr = TCPAddr string | UDPAddr string | Other_Addr

definition getIpFromAddr :: "addr \<Rightarrow> string" where
  "getIpFromAddr addr = (case addr of TCPAddr ip \<Rightarrow> ip | UDPAddr ip \<Rightarrow> ip | Other_Addr \<Rightarrow> ''unknown'')"

definition getPeerHost :: "(string \<Rightarrow> string list option) \<Rightarrow> addr option \<Rightarrow> string" where
  "getPeerHost LookupAddr peer =
     (case peer of
        None \<Rightarrow> ''unknown''
      | Some addr \<Rightarrow>
          (let ip = getIpFromAddr addr in
           case LookupAddr ip of
             Some hostname \<Rightarrow> if length hostname \<ge> 1 then hostname ! 0 else ip
           | None \<Rightarrow> ip))"

datatype logger = StderrLogger | InfluxLogger string string string string string

text \<open>\<open>None\<close> is \<open>log.Fatalf\<close>.\<close>

definition MakeLogger :: "string \<Rightarrow> string \<Rightarrow> string \<Rightarrow> string \<Rightarrow> string \<Rightarrow> logger option" where
  "MakeLogger url authToken org bucket measurement =
     (if length url = 0 then Some StderrLogger
      else if length authToken = 0 \<or> length measurement = 0 then None
      else Some (InfluxLogger url authToken org bucket measurement))"

record logs =
  stderr_log :: "(string \<times> bool \<times> int) list"
  influx_points :: "(string \<times> string \<times> bool \<times> int) list"

definition LogRequest :: "logger \<Rightarrow> string \<Rightarrow> bool \<Rightarrow> int \<Rightarrow> logs \<Rightarrow> logs" where
  "LogRequest logger peerAddr isError latency l =
     (let l = l\<lparr>stderr_log := stderr_log l @ [(peerAddr, isError, latency)]\<rparr> in
      case logger of
        StderrLogger \<Rightarrow> l
      | InfluxLogger url authToken org bucket measurement \<Rightarrow>
          l\<lparr>influx_points := influx_points l @ [(measurement, peerAddr, isError, latency)]\<rparr>)"

text \<open>The handler runs first; a handler that blocks or panics is not logged.\<close>

definition MakeMiddleware ::
  "logger \<Rightarrow> string \<Rightarrow> int \<Rightarrow> ('q \<Rightarrow> ('w, 'a reply) call) \<Rightarrow> 'q \<Rightarrow> ('w \<times> logs, 'a reply) call" where
  "MakeMiddleware logger peerAddr latency handler req = State (\<lambda>(w, l).
     case run_state (handler req) w of
       (Returns resp, w') \<Rightarrow>
         (Returns resp, (w', LogRequest logger peerAddr (case resp of Inl err \<Rightarrow> True | Inr a \<Rightarrow> False) latency l))
     | (out, w') \<Rightarrow> (out, (w', l)))"

text \<open>The interceptor changes nothing of the answer, and logs each answered request once, as an error
  if it was one.\<close>

lemma MakeMiddleware_transparent:
  assumes "run_state (MakeMiddleware logger peerAddr latency handler req) (w, l) = (out, (w', l'))"
  shows "run_state (handler req) w = (out, w')"
    and "length (stderr_log l') = length (stderr_log l) + (case out of Returns a \<Rightarrow> 1 | _ \<Rightarrow> 0)"
    and "out = Returns (Inl e) \<Longrightarrow> last (stderr_log l') = (peerAddr, True, latency)"
    and "out = Returns (Inr a) \<Longrightarrow> last (stderr_log l') = (peerAddr, False, latency)"
  using assms
  by (auto simp: MakeMiddleware_def LogRequest_def Let_def split: prod.splits outcome.splits sum.splits logger.splits)

end
