(* ===== verification/Video_Rec_Lab1.thy ===== *)
theory Video_Rec_Lab1
  imports Video_Rec_Fetch
begin

section \<open>The video recommendation service without connection pools\<close>

text \<open>
  \<open>lab1/video_rec_service/server_lib/server_lib.go\<close>, the version before the connection pools: it
  dials the backends for every request, with the cached videos as the answer when that fails. The
  types and functions of this version carry the suffix \<open>1\<close>; what the two versions have in common
  word for word (the batched loop, the truncation, the ranking, the error messages, the clients)
  is shared with \<open>Video_Rec\<close>. The last section compares the two versions.
\<close>

subsection \<open>Options and server state\<close>

record VideoRecServiceOptions1 =
  UserServiceAddr1 :: string
  VideoServiceAddr1 :: string
  MaxBatchSize1 :: int
  DisableFallback1 :: bool
  DisableRetry1 :: bool

record 'w VideoRecServiceServer1 =
  options1 :: VideoRecServiceOptions1
  useMock1 :: bool
  mockUserServiceClient1 :: "'w user_client option"
  mockVideoServiceClient1 :: "'w video_client option"
  numTotalRequests1 :: "64 word"
  numTotalErrors1 :: "64 word"
  numActiveRequests1 :: "64 word"
  numUserErrors1 :: "64 word"
  numVideoErrors1 :: "64 word"
  totalLatency1 :: "64 word"
  numStaleResponses1 :: "64 word"
  trendingVideos1 :: "VideoInfo list option"
  expirationTime1 :: "64 word"

text \<open>The constructors; the flag says whether the refreshing goroutine is started.\<close>

definition MakeVideoRecServiceServer1 ::
  "int \<Rightarrow> VideoRecServiceOptions1 \<Rightarrow> 'w VideoRecServiceServer1 \<times> bool" where
  "MakeVideoRecServiceServer1 now opts =
     (\<lparr>options1 = opts, useMock1 = False, mockUserServiceClient1 = None, mockVideoServiceClient1 = None,
       numTotalRequests1 = 0, numTotalErrors1 = 0, numActiveRequests1 = 0, numUserErrors1 = 0,
       numVideoErrors1 = 0, totalLatency1 = 0, numStaleResponses1 = 0, trendingVideos1 = None,
       expirationTime1 = of_int now\<rparr>, \<not> DisableFallback1 opts)"

definition MakeVideoRecServiceServerWithMocks1 ::
  "int \<Rightarrow> VideoRecServiceOptions1 \<Rightarrow> 'w user_client \<Rightarrow> 'w video_client \<Rightarrow>
   'w VideoRecServiceServer1 \<times> bool" where
  "MakeVideoRecServiceServerWithMocks1 now opts mockUser mockVideo =
     (\<lparr>options1 = opts, useMock1 = True, mockUserServiceClient1 = Some mockUser,
       mockVideoServiceClient1 = Some mockVideo,
       numTotalRequests1 = 0, numTotalErrors1 = 0, numActiveRequests1 = 0, numUserErrors1 = 0,
       numVideoErrors1 = 0, totalLatency1 = 0, numStaleResponses1 = 0, trendingVideos1 = None,
       expirationTime1 = of_int now\<rparr>, \<not> DisableFallback1 opts)"

subsection \<open>Connections, statistics and fetching\<close>

definition CreateConnection1 ::
  "(string \<Rightarrow> ('w, 'e + 'conn) state) \<Rightarrow> 'w VideoRecServiceServer1 \<Rightarrow> string \<Rightarrow> ('w, 'e + 'conn) state" where
  "CreateConnection1 Dial server addr = do {
     r \<leftarrow> Dial addr;
     (case r of
        Inr conn \<Rightarrow> State_Monad.return (Inr conn)
      | Inl err \<Rightarrow>
          if \<not> DisableRetry1 (options1 server) then Dial addr else State_Monad.return (Inl err))
   }"

definition updateStats1 ::
  "64 word \<Rightarrow> bool \<Rightarrow> bool \<Rightarrow> bool \<Rightarrow> bool \<Rightarrow> 'w VideoRecServiceServer1 \<Rightarrow> 'w VideoRecServiceServer1" where
  "updateStats1 latency hasError userError videoError useStale server =
     (let server = server\<lparr>numTotalRequests1 := numTotalRequests1 server + 1\<rparr>;
          server = (if hasError then
              let server = server\<lparr>numTotalErrors1 := numTotalErrors1 server + 1\<rparr>;
                  server = (if userError then server\<lparr>numUserErrors1 := numUserErrors1 server + 1\<rparr> else server)
              in (if videoError then server\<lparr>numVideoErrors1 := numVideoErrors1 server + 1\<rparr> else server)
            else server);
          server = server\<lparr>totalLatency1 := totalLatency1 server + latency\<rparr>;
          server = server\<lparr>numActiveRequests1 := numActiveRequests1 server - 1\<rparr>
      in (if useStale then server\<lparr>numStaleResponses1 := numStaleResponses1 server + 1\<rparr> else server))"

definition FetchUserInfos1 ::
  "'w VideoRecServiceServer1 \<Rightarrow> 'w user_client \<Rightarrow> 64 word list \<Rightarrow> ('w, UserInfo list reply) call" where
  "FetchUserInfos1 server userClient userIds =
     (let maxBatchSize = MaxBatchSize1 (options1 server);
          disableRetry = DisableRetry1 (options1 server) in
      if maxBatchSize = 0 then fetch_loop disableRetry userClient (map (\<lambda>i. [i]) userIds) []
      else case split_batches maxBatchSize userIds of
          None \<Rightarrow> State_Monad.return Panics
        | Some batches \<Rightarrow> fetch_loop disableRetry userClient batches [])"

definition FetchVideoInfos1 ::
  "'w VideoRecServiceServer1 \<Rightarrow> 'w video_client \<Rightarrow> 64 word list \<Rightarrow> ('w, VideoInfo list reply) call" where
  "FetchVideoInfos1 server videoClient videoIds =
     (let maxBatchSize = MaxBatchSize1 (options1 server);
          disableRetry = DisableRetry1 (options1 server) in
      if maxBatchSize = 0 then
        fetch_loop disableRetry (vc_GetVideo videoClient) (map (\<lambda>i. [i]) videoIds) []
      else case split_batches maxBatchSize videoIds of
          None \<Rightarrow> State_Monad.return Panics
        | Some batches \<Rightarrow> fetch_loop disableRetry (vc_GetVideo videoClient) batches [])"

subsection \<open>The cache of trending videos\<close>

definition GetCachedTrendingVideos1 ::
  "int \<Rightarrow> 'w VideoRecServiceServer1 \<Rightarrow> int \<Rightarrow> VideoInfo list option \<times> bool" where
  "GetCachedTrendingVideos1 now server limit =
     (case trendingVideos1 server of
        None \<Rightarrow> (None, False)
      | Some videos \<Rightarrow> (Some (truncate_to limit videos), \<not> now < sint (expirationTime1 server)))"

definition UpdateTrendingVideosInternal1 ::
  "'w VideoRecServiceServer1 \<Rightarrow> 'w video_client \<Rightarrow>
   ('w, status option \<times> 'w VideoRecServiceServer1) call" where
  "UpdateTrendingVideosInternal1 server videoClient =
     call_bind (call_with_retry False (\<lambda>_. vc_GetTrendingVideos videoClient) ()) (\<lambda>r. case r of
         Inl _ \<Rightarrow> State_Monad.return (Returns
           (Some (handleError Internal ''fail to fetch video ids for trending videos''), server))
       | Inr resp \<Rightarrow>
           call_bind (FetchVideoInfos1 server videoClient (trending_Videos resp)) (\<lambda>r. case r of
               Inl _ \<Rightarrow> State_Monad.return (Returns
                 (Some (handleError Internal ''fail to fetch video infos for trending videos''), server))
             | Inr videoInfos \<Rightarrow> State_Monad.return (Returns (None,
                 if ExpirationTimeS resp > expirationTime1 server
                 then server\<lparr>trendingVideos1 := Some videoInfos, expirationTime1 := ExpirationTimeS resp\<rparr>
                 else server))))"

text \<open>One round of the refreshing goroutine, with the connection that it makes when it has no
  client yet: \<open>makeMock\<close> is \<open>MakeMockVideoServiceClient\<close> on the default options. Its deferred
  \<open>Close\<close> would run when the goroutine returns, which it never does.\<close>

definition refresh_if_due1 ::
  "int \<Rightarrow> 'w VideoRecServiceServer1 \<Rightarrow> 'w video_client \<Rightarrow>
   ('w, ('w VideoRecServiceServer1 \<times> 'w video_client option) \<times> bool) call" where
  "refresh_if_due1 now server vc =
     (if (of_int now :: 64 word) \<ge> expirationTime1 server - 20 then
        call_bind (UpdateTrendingVideosInternal1 server vc) (\<lambda>(err, server).
          State_Monad.return (Returns ((server, Some vc), err \<noteq> None)))
      else State_Monad.return (Returns ((server, Some vc), False)))"

definition connect_trending1 ::
  "(string \<Rightarrow> ('w, 'e + 'conn) state) \<Rightarrow> ('conn, 'w) env \<Rightarrow> ('w, 'w video_client) state \<Rightarrow>
   'w VideoRecServiceServer1 \<Rightarrow> ('w, 'e + 'w video_client) state" where
  "connect_trending1 Dial env makeMock server =
     (if useMock1 server then do { vc \<leftarrow> makeMock; State_Monad.return (Inr vc) }
      else do {
        r \<leftarrow> CreateConnection1 Dial server (VideoServiceAddr1 (options1 server));
        State_Monad.return (case r of Inl err \<Rightarrow> Inl err | Inr connVideo \<Rightarrow> Inr (NewVideoServiceClient env connVideo))
      })"

definition UpdateTrendingVideos_round1 ::
  "(string \<Rightarrow> ('w, 'e + 'conn) state) \<Rightarrow> ('conn, 'w) env \<Rightarrow> ('w, 'w video_client) state \<Rightarrow> int \<Rightarrow>
   'w VideoRecServiceServer1 \<times> 'w video_client option \<Rightarrow>
   ('w, ('w VideoRecServiceServer1 \<times> 'w video_client option) \<times> bool) call" where
  "UpdateTrendingVideos_round1 Dial env makeMock now = (\<lambda>(server, videoClient).
     case videoClient of
       Some vc \<Rightarrow> refresh_if_due1 now server vc
     | None \<Rightarrow> do {
         r \<leftarrow> connect_trending1 Dial env makeMock server;
         (case r of
            Inl _ \<Rightarrow> State_Monad.return (Returns ((server, None), True))
          | Inr vc \<Rightarrow> refresh_if_due1 now server vc)
       })"

subsection \<open>Requests\<close>

text \<open>After a failed dial or a failed fetch.\<close>

definition fall_back1 ::
  "('conn, 'w) env \<Rightarrow> int \<Rightarrow> bool \<Rightarrow> bool \<Rightarrow> code \<Rightarrow> string \<Rightarrow> 'w VideoRecServiceServer1 \<Rightarrow>
   GetTopVideosResponse reply \<times> 'w VideoRecServiceServer1" where
  "fall_back1 env limit userError videoError c message server =
     (let cached = (if \<not> DisableFallback1 (options1 server)
                    then fst (GetCachedTrendingVideos1 (env_now env) server limit) else None) in
      case cached of
        Some cachedVideos \<Rightarrow>
          (Inr \<lparr>resp_Videos = cachedVideos, StaleResponse = True\<rparr>,
           updateStats1 (env_latency env) False False False True server)
      | None \<Rightarrow>
          (Inl (handleError c message),
           updateStats1 (env_latency env) True userError videoError False server))"

text \<open>The client of a request: the mock, which the constructor with mocks always sets, or one on a new
  connection, which is returned too, to be closed.\<close>

definition user_client_of1 ::
  "(string \<Rightarrow> ('w, 'e + 'conn) state) \<Rightarrow> ('conn, 'w) env \<Rightarrow> 'w VideoRecServiceServer1 \<Rightarrow>
   ('w, 'e + 'conn option \<times> 'w user_client) call" where
  "user_client_of1 Dial env server =
     (if useMock1 server then
        State_Monad.return (case mockUserServiceClient1 server of None \<Rightarrow> Panics | Some c \<Rightarrow> Returns (Inr (None, c)))
      else do {
        r \<leftarrow> CreateConnection1 Dial server (UserServiceAddr1 (options1 server));
        State_Monad.return (Returns
          (case r of Inl err \<Rightarrow> Inl err | Inr connUser \<Rightarrow> Inr (Some connUser, NewUserServiceClient env connUser)))
      })"

definition video_client_of1 ::
  "(string \<Rightarrow> ('w, 'e + 'conn) state) \<Rightarrow> ('conn, 'w) env \<Rightarrow> 'w VideoRecServiceServer1 \<Rightarrow>
   ('w, 'e + 'conn option \<times> 'w video_client) call" where
  "video_client_of1 Dial env server =
     (if useMock1 server then
        State_Monad.return (case mockVideoServiceClient1 server of None \<Rightarrow> Panics | Some c \<Rightarrow> Returns (Inr (None, c)))
      else do {
        r \<leftarrow> CreateConnection1 Dial server (VideoServiceAddr1 (options1 server));
        State_Monad.return (Returns
          (case r of Inl err \<Rightarrow> Inl err | Inr connVideo \<Rightarrow> Inr (Some connVideo, NewVideoServiceClient env connVideo)))
      })"

text \<open>\<open>defer conn.Close()\<close>: the connection is closed when the rest of the function returns or panics, after
  the deferred \<open>updateStats\<close>, which was deferred later; a rest that never returns never closes it. The
  error that \<open>Close\<close> returns is dropped.\<close>

definition closing :: "('conn \<Rightarrow> ('w, unit) state) \<Rightarrow> 'conn option \<Rightarrow> ('w, 'a) call \<Rightarrow> ('w, 'a) call" where
  "closing Close conn rest =
     (case conn of
        None \<Rightarrow> rest
      | Some c \<Rightarrow> do {
          r \<leftarrow> rest;
          (case r of
             Blocks \<Rightarrow> State_Monad.return r
           | _ \<Rightarrow> do { _ \<leftarrow> Close c; State_Monad.return r })
        })"

definition GetTopVideos1 ::
  "(string \<Rightarrow> ('w, 'e + 'conn) state) \<Rightarrow> ('conn \<Rightarrow> ('w, unit) state) \<Rightarrow> ('conn, 'w) env \<Rightarrow> GetTopVideosRequest \<Rightarrow>
   'w VideoRecServiceServer1 \<Rightarrow>
   ('w, GetTopVideosResponse reply \<times> 'w VideoRecServiceServer1) call" where
  "GetTopVideos1 Dial Close env req server =
     (let server = server\<lparr>numActiveRequests1 := numActiveRequests1 server + 1\<rparr>;
          ok = (\<lambda>r. State_Monad.return (Returns r)) in
      call_bind (user_client_of1 Dial env server) (\<lambda>r. case r of
          Inl _ \<Rightarrow> ok (fall_back1 env (Limit req) True False Unavailable ''fail to dial to UserService'' server)
        | Inr (connUser, userClient) \<Rightarrow>
      closing Close connUser (call_bind (FetchUserInfos1 server userClient [req_UserId req]) (\<lambda>r. case r of
          Inl _ \<Rightarrow> ok (fall_back1 env (Limit req) True False Internal
                        ''fail to fetch user info on orig user'' server)
        | Inr [] \<Rightarrow> State_Monad.return Panics
        | Inr (origUserInfo # _) \<Rightarrow>
      call_bind (FetchUserInfos1 server userClient (SubscribedTo origUserInfo)) (\<lambda>r. case r of
          Inl _ \<Rightarrow> ok (fall_back1 env (Limit req) True False Internal
                        ''fail to fetch liked videos of the subscribe users'' server)
        | Inr subscribedUserInfos \<Rightarrow>
      let likedVideos = liked_by subscribedUserInfos in
      call_bind (video_client_of1 Dial env server) (\<lambda>r. case r of
          Inl _ \<Rightarrow> ok (fall_back1 env (Limit req) False True Unavailable ''fail to dial to VideoService'' server)
        | Inr (connVideo, videoClient) \<Rightarrow>
      closing Close connVideo (call_bind (FetchVideoInfos1 server videoClient likedVideos) (\<lambda>r. case r of
          Inl _ \<Rightarrow> ok (fall_back1 env (Limit req) False True Internal
                        ''fail to fetch video infos of liked videos'' server)
        | Inr videoInfos \<Rightarrow>
      let ranked = rank_videos (Ranker_Rank env) (UserCoefficients origUserInfo) videoInfos
      in ok (Inr \<lparr>resp_Videos = truncate_to (Limit req) ranked, StaleResponse = False\<rparr>,
             updateStats1 (env_latency env) False False False False server)))))))))"

definition GetStats1 :: "'w VideoRecServiceServer1 \<Rightarrow> GetStatsResponse" where
  "GetStats1 server =
     \<lparr>TotalRequests = numTotalRequests1 server, TotalErrors = numTotalErrors1 server,
      ActiveRequests = numActiveRequests1 server, UserServiceErrors = numUserErrors1 server,
      VideoServiceErrors = numVideoErrors1 server,
      AverageLatencyMs = (totalLatency1 server, numTotalRequests1 server),
      StaleResponses = numStaleResponses1 server\<rparr>"

subsection \<open>The two versions agree\<close>

text \<open>The same server with connection pools.\<close>

definition lift_options :: "VideoRecServiceOptions1 \<Rightarrow> int \<Rightarrow> VideoRecServiceOptions" where
  "lift_options o1 n =
     \<lparr>UserServiceAddr = UserServiceAddr1 o1, VideoServiceAddr = VideoServiceAddr1 o1,
      MaxBatchSize = MaxBatchSize1 o1, DisableFallback = DisableFallback1 o1,
      DisableRetry = DisableRetry1 o1, ClientPoolSize = n\<rparr>"

definition with_pools ::
  "'conn list \<Rightarrow> 'conn list \<Rightarrow> 32 word \<Rightarrow> 32 word \<Rightarrow> 'w VideoRecServiceServer1 \<Rightarrow>
   ('conn, 'w) VideoRecServiceServer" where
  "with_pools us vs ui vi s =
     \<lparr>options = lift_options (options1 s) (len us), userConns = us, videoConns = vs,
      userConnIndex = ui, videoConnIndex = vi, useMock = useMock1 s,
      mockUserServiceClient = mockUserServiceClient1 s, mockVideoServiceClient = mockVideoServiceClient1 s,
      numTotalRequests = numTotalRequests1 s, numTotalErrors = numTotalErrors1 s,
      numActiveRequests = numActiveRequests1 s, numUserErrors = numUserErrors1 s,
      numVideoErrors = numVideoErrors1 s, totalLatency = totalLatency1 s,
      numStaleResponses = numStaleResponses1 s, trendingVideos = trendingVideos1 s,
      expirationTime = expirationTime1 s\<rparr>"

lemma with_pools_simps [simp]:
  "options (with_pools us vs ui vi s) = lift_options (options1 s) (len us)"
  "useMock (with_pools us vs ui vi s) = useMock1 s"
  "mockUserServiceClient (with_pools us vs ui vi s) = mockUserServiceClient1 s"
  "mockVideoServiceClient (with_pools us vs ui vi s) = mockVideoServiceClient1 s"
  "trendingVideos (with_pools us vs ui vi s) = trendingVideos1 s"
  "expirationTime (with_pools us vs ui vi s) = expirationTime1 s"
  "userConns (with_pools us vs ui vi s) = us" "videoConns (with_pools us vs ui vi s) = vs"
  "userConnIndex (with_pools us vs ui vi s) = ui" "videoConnIndex (with_pools us vs ui vi s) = vi"
  "(with_pools us vs ui vi s)\<lparr>userConnIndex := ui'\<rparr> = with_pools us vs ui' vi s"
  "(with_pools us vs ui vi s)\<lparr>videoConnIndex := vi'\<rparr> = with_pools us vs ui vi' s"
  by (simp_all add: with_pools_def)

lemma with_pools_active:
  "(with_pools us vs ui vi s)\<lparr>numActiveRequests := numActiveRequests (with_pools us vs ui vi s) + 1\<rparr> =
   with_pools us vs ui vi (s\<lparr>numActiveRequests1 := numActiveRequests1 s + 1\<rparr>)"
  by (simp add: with_pools_def)

lemma with_pools_updateStats:
  "updateStats l a b c d (with_pools us vs ui vi s) = with_pools us vs ui vi (updateStats1 l a b c d s)"
  by (simp add: updateStats_def updateStats1_def with_pools_def Let_def)

lemma lift_options_simps [simp]:
  "UserServiceAddr (lift_options o1 n) = UserServiceAddr1 o1"
  "VideoServiceAddr (lift_options o1 n) = VideoServiceAddr1 o1"
  "MaxBatchSize (lift_options o1 n) = MaxBatchSize1 o1"
  "DisableFallback (lift_options o1 n) = DisableFallback1 o1"
  "DisableRetry (lift_options o1 n) = DisableRetry1 o1"
  by (simp_all add: lift_options_def)

lemma with_pools_cached:
  "GetCachedTrendingVideos now (with_pools us vs ui vi s) limit = GetCachedTrendingVideos1 now s limit"
  by (simp add: GetCachedTrendingVideos_def GetCachedTrendingVideos1_def split: option.split)

lemma with_pools_fall_back:
  "fall_back env limit a b m (with_pools us vs ui vi s) =
     map_prod id (with_pools us vs ui vi) (fall_back1 env limit a b Internal m s)"
  by (simp add: fall_back_def fall_back1_def with_pools_updateStats with_pools_cached Let_def split: option.split)

lemma with_pools_fetch:
  "FetchUserInfos (with_pools us vs ui vi s) c ids = FetchUserInfos1 s c ids"
  "FetchVideoInfos (with_pools us vs ui vi s) vc ids = FetchVideoInfos1 s vc ids"
  by (auto simp: FetchUserInfos_def FetchUserInfos1_def FetchVideoInfos_def FetchVideoInfos1_def
      fetch_infos_def Let_def split: option.split)

lemma GetStats_with_pools: "GetStats (with_pools us vs ui vi s) = GetStats1 s"
  by (simp add: GetStats_def GetStats1_def with_pools_def)

text \<open>How the answer of a handler of the first version looks in the second, whose indices depend on
  the path that the request took.\<close>

definition agrees ::
  "'conn list \<Rightarrow> 'conn list \<Rightarrow> ('a \<times> 'w VideoRecServiceServer1) outcome \<times> 'w \<Rightarrow>
   ('a \<times> ('conn, 'w) VideoRecServiceServer) outcome \<times> 'w \<Rightarrow> bool" where
  "agrees us vs r1 r2 \<longleftrightarrow> snd r1 = snd r2 \<and>
     (case fst r1 of
        Returns (a, s) \<Rightarrow> \<exists>ui vi. fst r2 = Returns (a, with_pools us vs ui vi s)
      | Blocks \<Rightarrow> fst r2 = Blocks
      | Panics \<Rightarrow> fst r2 = Panics)"

lemma agrees_bind:
  "agrees us vs (Returns (a, s), w) (Returns (a, with_pools us vs ui vi s), w)"
  "agrees us vs (Blocks, w) (Blocks, w)" "agrees us vs (Panics, w) (Panics, w)"
  by (auto simp: agrees_def)

lemma agrees_fall_back:
  "agrees us vs (Returns (fall_back1 env l a b Internal m s), w)
     (Returns (fall_back env l a b m (with_pools us vs ui vi s)), w)"
  by (cases "fall_back1 env l a b Internal m s") (auto simp: with_pools_fall_back agrees_def)

text \<open>A dial that always succeeds, that like the closing of a connection leaves the outside unchanged, and
  pools whose connections make the same clients.\<close>

definition pools_match ::
  "(string \<Rightarrow> ('w, 'e + 'conn) state) \<Rightarrow> ('conn \<Rightarrow> ('w, unit) state) \<Rightarrow> ('conn, 'w) env \<Rightarrow>
   'w VideoRecServiceServer1 \<Rightarrow> (string \<Rightarrow> 'conn) \<Rightarrow> 'conn list \<Rightarrow> 'conn list \<Rightarrow> bool" where
  "pools_match Dial Close env s conn us vs \<longleftrightarrow>
     (\<forall>addr w. run_state (Dial addr) w = (Inr (conn addr), w)) \<and>
     (\<forall>c w. run_state (Close c) w = ((), w)) \<and>
     us \<noteq> [] \<and> vs \<noteq> [] \<and> length us < 2 ^ 31 \<and> length vs < 2 ^ 31 \<and>
     (\<forall>c \<in> set us. NewUserServiceClient env c = NewUserServiceClient env (conn (UserServiceAddr1 (options1 s)))) \<and>
     (\<forall>c \<in> set vs. NewVideoServiceClient env c = NewVideoServiceClient env (conn (VideoServiceAddr1 (options1 s))))"

lemma user_client_agrees:
  assumes "pools_match Dial Close env s conn us vs" and "k < 2 ^ 31"
  shows "case run_state (user_client_of1 Dial env s) w of
     (Returns (Inr (_, c)), w') \<Rightarrow> w' = w \<and>
       (\<exists>ui. user_client_of env (with_pools us vs (of_nat k) vi s) = Some (c, with_pools us vs ui vi s))
   | (Panics, w') \<Rightarrow> w' = w \<and> user_client_of env (with_pools us vs (of_nat k) vi s) = None
   | _ \<Rightarrow> False"
proof -
  from assms(1) have ne: "us \<noteq> []" and len: "length us < 2 ^ 31"
    and dial: "\<And>addr w. run_state (Dial addr) w = (Inr (conn addr), w)"
    and client: "\<And>c. c \<in> set us \<Longrightarrow>
      NewUserServiceClient env c = NewUserServiceClient env (conn (UserServiceAddr1 (options1 s)))"
    unfolding pools_match_def by blast+
  from ne have "us ! (k mod length us) \<in> set us" by simp
  from client [OF this] round_robin_below [OF assms(2) ne len] show ?thesis
    by (auto simp: user_client_of1_def user_client_of_def CreateConnection1_def run_state_bind dial
        GetUserConnRoundRobin_def split: option.split)
qed

lemma video_client_agrees:
  assumes "pools_match Dial Close env s conn us vs" and "k < 2 ^ 31"
  shows "case run_state (video_client_of1 Dial env s) w of
     (Returns (Inr (_, c)), w') \<Rightarrow> w' = w \<and>
       (\<exists>vi. video_client_of env (with_pools us vs ui (of_nat k) s) = Some (c, with_pools us vs ui vi s))
   | (Panics, w') \<Rightarrow> w' = w \<and> video_client_of env (with_pools us vs ui (of_nat k) s) = None
   | _ \<Rightarrow> False"
proof -
  from assms(1) have ne: "vs \<noteq> []" and len: "length vs < 2 ^ 31"
    and dial: "\<And>addr w. run_state (Dial addr) w = (Inr (conn addr), w)"
    and client: "\<And>c. c \<in> set vs \<Longrightarrow>
      NewVideoServiceClient env c = NewVideoServiceClient env (conn (VideoServiceAddr1 (options1 s)))"
    unfolding pools_match_def by blast+
  from ne have "vs ! (k mod length vs) \<in> set vs" by simp
  from client [OF this] round_robin_below [OF assms(2) ne len] show ?thesis
    by (auto simp: video_client_of1_def video_client_of_def CreateConnection1_def run_state_bind dial
        GetVideoConnRoundRobin_def split: option.split)
qed

lemma closing_quiet:
  "pools_match Dial Close env s conn us vs \<Longrightarrow> run_state (closing Close oc m) w = run_state m w"
  by (auto simp: pools_match_def closing_def run_state_bind split: option.split prod.split outcome.split)

text \<open>Two sequences of calls agree when their first calls are the same and their rests agree.\<close>

lemma agrees_call_bind:
  assumes "\<And>a w'. run_state m w = (Returns a, w') \<Longrightarrow> agrees us vs (run_state (f a) w') (run_state (g a) w')"
  shows "agrees us vs (run_state (call_bind m f) w) (run_state (call_bind m g) w)"
  using assms by (auto simp: run_call_bind agrees_def split: outcome.split prod.split)

lemma agrees_video_client:
  assumes "pools_match Dial Close env s conn us vs" and "l < 2 ^ 31"
    and "\<And>c vi. agrees us vs (run_state (g1 c) w) (run_state (g2 c (with_pools us vs ui vi s)) w)"
  shows "agrees us vs (run_state (call_bind (video_client_of1 Dial env s) (\<lambda>r. case r of Inl e \<Rightarrow> h e | Inr (oc, c) \<Rightarrow> closing Close oc (g1 c))) w)
    (run_state (case video_client_of env (with_pools us vs ui (of_nat l) s) of
        None \<Rightarrow> State_Monad.return Panics
      | Some (c, server) \<Rightarrow> g2 c server) w)"
  using video_client_agrees [OF assms(1,2), of w ui] assms(3)
  by (auto simp: run_call_bind agrees_bind closing_quiet [OF assms(1)] split: prod.splits outcome.splits sum.splits)

lemma pools_match_active:
  "pools_match Dial Close env (s\<lparr>numActiveRequests1 := k\<rparr>) conn us vs = pools_match Dial Close env s conn us vs"
  by (simp add: pools_match_def)

text \<open>C30. The two versions of the service agree. When dialling succeeds, and a pool holds connections
  that make the same clients as a new connection, every request to the service that dials for
  every request has the outcome of the same request to the service with pools, for every state of
  the backends: the same videos or error, the same effects outside, the same statistics and cache.
  The pools' indices must not have wrapped.\<close>

theorem lab1_agrees_with_pools:
  assumes "pools_match Dial Close env s conn us vs" and "k < 2 ^ 31" and "l < 2 ^ 31"
  shows "agrees us vs (run_state (GetTopVideos1 Dial Close env req s) w)
    (run_state (GetTopVideos env req (with_pools us vs (of_nat k) (of_nat l) s)) w)"
proof -
  let ?s = "s\<lparr>numActiveRequests1 := numActiveRequests1 s + 1\<rparr>"
  have match: "pools_match Dial Close env ?s conn us vs" using assms(1) by (simp add: pools_match_active)
  note user = user_client_agrees [OF match assms(2), of w "of_nat l"]
  show ?thesis
  proof (cases "run_state (user_client_of1 Dial env ?s) w")
    case (Pair r w')
    with user consider (panic) "r = Panics" "w' = w"
        "user_client_of env (with_pools us vs (of_nat k) (of_nat l) ?s) = None"
      | (client) oc c ui where "r = Returns (Inr (oc, c))" "w' = w"
        "user_client_of env (with_pools us vs (of_nat k) (of_nat l) ?s) = Some (c, with_pools us vs ui (of_nat l) ?s)"
      by (auto split: outcome.splits sum.splits)
    then show ?thesis
    proof cases
      case panic
      with Pair show ?thesis
        by (simp add: GetTopVideos1_def GetTopVideos_def with_pools_active Let_def run_call_bind agrees_bind)
    next
      case client
      from client Pair show ?thesis
        unfolding GetTopVideos1_def GetTopVideos_def Let_def with_pools_active
        by (simp add: run_call_bind [of "user_client_of1 Dial env ?s"] with_pools_fetch closing_quiet [OF match])
          (auto intro!: agrees_call_bind agrees_video_client [OF match assms(3)]
            simp: agrees_fall_back agrees_bind with_pools_fetch with_pools_updateStats split: sum.split list.split)
    qed
  qed
qed

definition sample_server1 :: "int VideoRecServiceServer1" where
  "sample_server1 = fst (MakeVideoRecServiceServer1 1000
     \<lparr>UserServiceAddr1 = ''u'', VideoServiceAddr1 = ''v'', MaxBatchSize1 = 2, DisableFallback1 = False,
      DisableRetry1 = False\<rparr>)"

definition sample_backends :: "(nat, int) env" where
  "sample_backends = \<lparr>NewUserServiceClient = (\<lambda>_. GetUser fixed_sources sample_us),
     NewVideoServiceClient = (\<lambda>_. \<lparr>vc_GetVideo = GetVideo fixed_sources sample_vs,
       vc_GetTrendingVideos = GetTrendingVideos fixed_sources sample_vs 1000\<rparr>),
     Ranker_Rank = (\<lambda>_ _. 0), env_now = 1000, env_latency = 3\<rparr>"

definition sample_dial :: "string \<Rightarrow> (int, unit + nat) state" where
  "sample_dial addr = State_Monad.return (Inr (length addr))"

definition sample_close :: "nat \<Rightarrow> (int, unit) state" where
  "sample_close c = State_Monad.return ()"

theorem lab1_agrees_with_pools_witness:
  "agrees [7, 8] [9]
     (run_state (GetTopVideos1 sample_dial sample_close sample_backends \<lparr>req_UserId = 7, Limit = 1\<rparr> sample_server1) 0)
     (run_state (GetTopVideos sample_backends \<lparr>req_UserId = 7, Limit = 1\<rparr>
        (with_pools [7, 8] [9] (of_nat 5) (of_nat 0) sample_server1)) 0)"
  by (rule lab1_agrees_with_pools [where conn = length])
    (simp_all add: pools_match_def sample_dial_def sample_close_def sample_backends_def)

end
