(* ===== verification/Video_Rec_Programs.thy ===== *)
theory Video_Rec_Programs
  imports Video_Rec_Clients Video_Rec_Lab1
begin

section \<open>The server programs and their deployment\<close>

text \<open>
  The \<open>main\<close> functions of the three servers, \<open>server/server.go\<close> under \<open>lab2/user_service\<close>,
  \<open>lab2/video_service\<close> and \<open>lab2/video_rec_service\<close> (and the latter of \<open>lab1\<close>): their flags with the
  defaults, the order in which they listen, make a logger and construct the service, and the ways
  they end early. Then the three programs together, started with their default flags: every call goes
  through the connections of the pools and the interceptors of both ends, and the answers are those of a
  reference function, until the signed counters of the pools wrap.
\<close>

subsection \<open>Flags\<close>

text \<open>The flags of \<open>logging.go\<close>, which every program has.\<close>

record log_flags =
  influxDbUrl :: string
  influxDbAuthToken :: string
  influxOrg :: string
  influxBucket :: string
  influxMeasurement :: string

definition default_log_flags :: log_flags where
  "default_log_flags = \<lparr>influxDbUrl = [], influxDbAuthToken = [], influxOrg = ''influxdata'',
     influxBucket = ''default'', influxMeasurement = []\<rparr>"

record user_flags =
  uf_port :: int
  uf_seed :: int
  uf_sleepNs :: int
  uf_failureRate :: int
  uf_responseOmissionRate :: int
  uf_maxBatchSize :: int

definition default_user_flags :: user_flags where
  "default_user_flags = \<lparr>uf_port = 8081, uf_seed = 42, uf_sleepNs = 0, uf_failureRate = 0,
     uf_responseOmissionRate = 0, uf_maxBatchSize = 50\<rparr>"

record video_flags =
  vf_port :: int
  vf_seed :: int
  vf_ttlSeconds :: int
  vf_sleepNs :: int
  vf_failureRate :: int
  vf_responseOmissionRate :: int
  vf_maxBatchSize :: int

definition default_video_flags :: video_flags where
  "default_video_flags = \<lparr>vf_port = 8082, vf_seed = 42, vf_ttlSeconds = 60, vf_sleepNs = 0,
     vf_failureRate = 0, vf_responseOmissionRate = 0, vf_maxBatchSize = 50\<rparr>"

record rec_flags =
  rf_port :: int
  rf_clientPoolSize :: int
  rf_userServiceAddr :: string
  rf_videoServiceAddr :: string
  rf_maxBatchSize :: int
  rf_disableFallback :: bool
  rf_disableRetry :: bool

definition default_rec_flags :: rec_flags where
  "default_rec_flags = \<lparr>rf_port = 8080, rf_clientPoolSize = 4, rf_userServiceAddr = ''[::1]:8081'',
     rf_videoServiceAddr = ''[::1]:8082'', rf_maxBatchSize = 50, rf_disableFallback = False,
     rf_disableRetry = False\<rparr>"

subsection \<open>The programs\<close>

text \<open>A program ends early with \<open>log.Fatalf\<close>. \<open>Listen\<close> says whether the address can be bound; the
  result is what \<open>Serve\<close> is called with: the logger of the interceptor and the registered service.\<close>

datatype server_exit = Failed_To_Listen | Failed_To_Make_Logger | Failed_To_Start status

definition port_address :: "int \<Rightarrow> string" where
  "port_address port = CHR '':'' # format_int port"

definition MakeLogger_flags :: "log_flags \<Rightarrow> logger option" where
  "MakeLogger_flags lf = MakeLogger (influxDbUrl lf) (influxDbAuthToken lf) (influxOrg lf) (influxBucket lf)
     (influxMeasurement lf)"

definition user_server_main ::
  "(string \<Rightarrow> bool) \<Rightarrow> log_flags \<Rightarrow> ('r, 'f) sources \<Rightarrow> user_flags \<Rightarrow>
   server_exit + logger \<times> UserServiceServer \<times> ('r \<times> 'f)" where
  "user_server_main Listen lf src f =
     (if \<not> Listen (port_address (uf_port f)) then Inl Failed_To_Listen
      else case MakeLogger_flags lf of
          None \<Rightarrow> Inl Failed_To_Make_Logger
        | Some logger \<Rightarrow> Inr (logger, MakeUserServiceServer src
            \<lparr>uso_Seed = uf_seed f, uso_SleepNs = uf_sleepNs f, uso_FailureRate = uf_failureRate f,
             uso_ResponseOmissionRate = uf_responseOmissionRate f, uso_MaxBatchSize = uf_maxBatchSize f\<rparr>))"

definition video_server_main ::
  "(string \<Rightarrow> bool) \<Rightarrow> log_flags \<Rightarrow> ('r, 'f) sources \<Rightarrow> video_flags \<Rightarrow>
   server_exit + logger \<times> VideoServiceServer \<times> ('r \<times> 'f)" where
  "video_server_main Listen lf src f =
     (if \<not> Listen (port_address (vf_port f)) then Inl Failed_To_Listen
      else case MakeLogger_flags lf of
          None \<Rightarrow> Inl Failed_To_Make_Logger
        | Some logger \<Rightarrow> Inr (logger, MakeVideoServiceServer src
            \<lparr>vso_Seed = vf_seed f, vso_TtlSeconds = vf_ttlSeconds f, vso_SleepNs = vf_sleepNs f,
             vso_FailureRate = vf_failureRate f, vso_ResponseOmissionRate = vf_responseOmissionRate f,
             vso_MaxBatchSize = vf_maxBatchSize f\<rparr>))"

definition rec_options :: "rec_flags \<Rightarrow> VideoRecServiceOptions" where
  "rec_options f = \<lparr>UserServiceAddr = rf_userServiceAddr f, VideoServiceAddr = rf_videoServiceAddr f,
     MaxBatchSize = rf_maxBatchSize f, DisableFallback = rf_disableFallback f,
     DisableRetry = rf_disableRetry f, ClientPoolSize = rf_clientPoolSize f\<rparr>"

definition rec_server_main ::
  "(string \<Rightarrow> bool) \<Rightarrow> log_flags \<Rightarrow> (string \<Rightarrow> ('w, 'e + 'conn) state) \<Rightarrow> int \<Rightarrow> rec_flags \<Rightarrow>
   ('w, server_exit + logger \<times> ('conn, 'w) VideoRecServiceServer \<times> bool) state" where
  "rec_server_main Listen lf dial now f =
     (if \<not> Listen (port_address (rf_port f)) then State_Monad.return (Inl Failed_To_Listen)
      else case MakeLogger_flags lf of
          None \<Rightarrow> State_Monad.return (Inl Failed_To_Make_Logger)
        | Some logger \<Rightarrow> do {
            r \<leftarrow> MakeVideoRecServiceServer dial now (rec_options f);
            State_Monad.return (case r of Inl err \<Rightarrow> Inl (Failed_To_Start err) | Inr server \<Rightarrow> Inr (logger, server))
          })"

text \<open>The program of \<open>lab1\<close> has the same flags but for the size of the pools.\<close>

definition rec_server_main1 ::
  "(string \<Rightarrow> bool) \<Rightarrow> log_flags \<Rightarrow> int \<Rightarrow> rec_flags \<Rightarrow>
   server_exit + logger \<times> 'w VideoRecServiceServer1 \<times> bool" where
  "rec_server_main1 Listen lf now f =
     (if \<not> Listen (port_address (rf_port f)) then Inl Failed_To_Listen
      else case MakeLogger_flags lf of
          None \<Rightarrow> Inl Failed_To_Make_Logger
        | Some logger \<Rightarrow> Inr (logger, MakeVideoRecServiceServer1 now
            \<lparr>UserServiceAddr1 = rf_userServiceAddr f, VideoServiceAddr1 = rf_videoServiceAddr f,
             MaxBatchSize1 = rf_maxBatchSize f, DisableFallback1 = rf_disableFallback f,
             DisableRetry1 = rf_disableRetry f\<rparr>))"

subsection \<open>Backends behind an interceptor\<close>

text \<open>The interceptor changes the logs, so a call to a backend changes the state outside; what it
  answers is still what the service answers.\<close>

context batch_service
begin

definition steady :: "('k list \<Rightarrow> ('w, 'i list reply) call) \<Rightarrow> bool" where
  "steady send \<longleftrightarrow> (\<forall>ids w. \<exists>w'. run_state (send ids) w = (Returns (serve ids), w'))"

lemma fetch_loop_steady:
  assumes "steady send" and "\<And>b. b \<in> set bs \<Longrightarrow> batch_ok b" and "set (concat bs) \<subseteq> dom lookup"
  shows "\<exists>w'. run_state (fetch_loop disableRetry send bs infos) w =
    (Returns (Inr (infos @ map (the \<circ> lookup) (concat bs))), w')"
  using assms(2,3)
proof (induction bs arbitrary: infos w)
  case (Cons b bs)
  then have b: "serve b = Inr (map (the \<circ> lookup) b)" using serve_found [of b] by auto
  obtain w1 where "run_state (send b) w = (Returns (serve b), w1)"
    using assms(1) unfolding steady_def by blast
  moreover obtain w' where "run_state (fetch_loop disableRetry send bs (infos @ map (the \<circ> lookup) b)) w1 =
      (Returns (Inr ((infos @ map (the \<circ> lookup) b) @ map (the \<circ> lookup) (concat bs))), w')"
    using Cons.IH [of "infos @ map (the \<circ> lookup) b" w1] Cons.prems by (auto simp del: append_assoc)
  ultimately have "run_state (fetch_loop disableRetry send (b # bs) infos) w =
      (Returns (Inr (infos @ map (the \<circ> lookup) (concat (b # bs)))), w')"
    by (simp add: run_call_bind call_with_retry_def b)
  then show ?case by (rule exI)
qed simp

lemma fetch_infos_steady:
  assumes "steady send" and "0 \<le> MaxBatchSize opts" and "set ids \<subseteq> dom lookup"
    and "\<And>b. b \<in> set (batches_of (MaxBatchSize opts) ids) \<Longrightarrow> batch_ok b"
  shows "\<exists>w'. run_state (fetch_infos opts send ids) w = (Returns (Inr (map (the \<circ> lookup) ids)), w')"
proof -
  have "concat (batches_of (MaxBatchSize opts) ids) = ids" by (rule batches_of_props(1) [OF assms(2)])
  with fetch_loop_steady [OF assms(1), of "batches_of (MaxBatchSize opts) ids" "DisableRetry opts" "[]" w] assms(3,4)
  show ?thesis by (simp add: fetch_infos_batches [OF assms(2)])
qed

end

text \<open>A healthy handler behind the interceptor is steady.\<close>

lemma MakeMiddleware_Returns:
  assumes "\<And>q w. run_state (handler q) w = (Returns (serve q), w)"
  shows "\<exists>l'. run_state (MakeMiddleware logger peerAddr latency handler q) (w, l) = (Returns (serve q), (w, l'))"
  by (simp add: MakeMiddleware_def assms)

text \<open>What a client sends to runs the handler behind the interceptor, which sees an address and
  measures a latency that may differ from call to call.\<close>

definition behind_interceptor ::
  "logger \<Rightarrow> ('q \<Rightarrow> ('r, 'a reply) call) \<Rightarrow> ('q \<Rightarrow> ('r \<times> logs, 'a reply) call) \<Rightarrow> bool" where
  "behind_interceptor logger handler send \<longleftrightarrow>
     (\<forall>q w. \<exists>peerAddr latency. run_state (send q) w = run_state (MakeMiddleware logger peerAddr latency handler q) w)"

lemma steady_users:
  assumes "healthy (us_fi us)"
    and "behind_interceptor logger (GetUser src us) send"
  shows "users.steady us send"
  using assms(2) unfolding users.steady_def behind_interceptor_def
  using MakeMiddleware_Returns [where handler = "GetUser src us", OF GetUser_healthy [OF assms(1)]]
  by (metis surj_pair)

lemma steady_videos:
  assumes "healthy (vs_fi vs)"
    and "behind_interceptor logger (GetVideo src vs) send"
  shows "videos.steady vs send"
  using assms(2) unfolding videos.steady_def behind_interceptor_def
  using MakeMiddleware_Returns [where handler = "GetVideo src vs", OF GetVideo_healthy [OF assms(1)]]
  by (metis surj_pair)

subsection \<open>One request through the pools\<close>

text \<open>The reference: what the answer to a request is, as a function of the two databases.\<close>

definition recommendation ::
  "(coefficients \<Rightarrow> coefficients \<Rightarrow> 64 word) \<Rightarrow> UserServiceServer \<Rightarrow> VideoServiceServer \<Rightarrow>
   GetTopVideosRequest \<Rightarrow> GetTopVideosResponse" where
  "recommendation rank us vs req =
     (let u = the (us_users us (req_UserId req));
          infos = map (\<lambda>i. the (vs_videos vs i)) (liked_videos us u)
      in \<lparr>resp_Videos = truncate_to (Limit req) (rank_videos rank (UserCoefficients u) infos),
          StaleResponse = False\<rparr>)"

text \<open>The two databases fit together: what a user refers to exists.\<close>

definition databases_fit :: "UserServiceServer \<Rightarrow> VideoServiceServer \<Rightarrow> bool" where
  "databases_fit us vs \<longleftrightarrow> (\<forall>i u. us_users us i = Some u \<longrightarrow>
     set (SubscribedTo u) \<subseteq> dom (us_users us) \<and> set (liked_videos us u) \<subseteq> dom (vs_videos vs))"

lemma databases_fit:
  assumes "sources_ok src" and "uso_Seed uo = vso_Seed vo"
    and "fst (MakeUserServiceServer src uo) = us" and "fst (MakeVideoServiceServer src vo) = vs"
  shows "databases_fit us vs"
  unfolding databases_fit_def
proof (intro allI impI)
  fix i u assume u: "us_users us i = Some u"
  note fits = databases_consistent_lemma [OF assms]
  have subs: "set (SubscribedTo u) \<subseteq> dom (us_users us)" using fits u by blast
  have "set (LikedVideos (the (us_users us j))) \<subseteq> dom (vs_videos vs)" if "j \<in> set (SubscribedTo u)" for j
  proof -
    from subs that obtain v where "us_users us j = Some v" by auto
    with fits show ?thesis by auto
  qed
  with subs show "set (SubscribedTo u) \<subseteq> dom (us_users us) \<and> set (liked_videos us u) \<subseteq> dom (vs_videos vs)"
    by (auto simp: liked_videos_props)
qed

lemma GetTopVideos_steady:
  assumes fit: "databases_fit us vs" and batch: "good_batch_size us vs server"
    and user: "req_UserId req \<in> dom (us_users us)"
    and uc: "user_client_of env (server\<lparr>numActiveRequests := numActiveRequests server + 1\<rparr>) = Some (uc, s1)"
    and vc: "video_client_of env s1 = Some (vc, s2)"
    and opts: "options s1 = options server" "options s2 = options server"
    and su: "users.steady us uc" and sv: "videos.steady vs (vc_GetVideo vc)"
  shows "\<exists>w'. run_state (GetTopVideos env req server) w =
    (Returns (Inr (recommendation (Ranker_Rank env) us vs req),
       updateStats (env_latency env) False False False False s2), w')"
proof -
  from user obtain u where u: "us_users us (req_UserId req) = Some u" by auto
  from batch have m: "0 \<le> MaxBatchSize (options server)"
    "max (MaxBatchSize (options server)) 1 \<le> uso_MaxBatchSize (us_options us)"
    "max (MaxBatchSize (options server)) 1 \<le> vso_MaxBatchSize (vs_options vs)"
    by (simp_all add: good_batch_size_def)
  have fu: "\<exists>w'. run_state (FetchUserInfos s1 uc ids) w = (Returns (Inr (map (\<lambda>i. the (us_users us i)) ids)), w')"
    if "set ids \<subseteq> dom (us_users us)" for ids w
    using users.fetch_infos_steady [OF su m(1) that user_batches [OF m(1,2)], where w = w]
    by (simp add: FetchUserInfos_def opts comp_def)
  have fv: "\<exists>w'. run_state (FetchVideoInfos s2 vc ids) w = (Returns (Inr (map (\<lambda>i. the (vs_videos vs i)) ids)), w')"
    if "set ids \<subseteq> dom (vs_videos vs)" "distinct ids" for ids w
    using videos.fetch_infos_steady [OF sv m(1) that(1) video_batches [OF m(1,3) _ that(2)], where w = w]
    by (simp add: FetchVideoInfos_def opts comp_def)
  have refs: "set (SubscribedTo u) \<subseteq> dom (us_users us)" "set (liked_videos us u) \<subseteq> dom (vs_videos vs)"
    using fit u by (auto simp: databases_fit_def)
  obtain w1 where 1: "run_state (FetchUserInfos s1 uc [req_UserId req]) w = (Returns (Inr [u]), w1)"
    using fu [of "[req_UserId req]" w] user u by auto
  obtain w2 where 2: "run_state (FetchUserInfos s1 uc (SubscribedTo u)) w1 =
      (Returns (Inr (map (\<lambda>i. the (us_users us i)) (SubscribedTo u))), w2)"
    using fu [OF refs(1)] by blast
  obtain w3 where 3: "run_state (FetchVideoInfos s2 vc (liked_videos us u)) w2 =
      (Returns (Inr (map (\<lambda>i. the (vs_videos vs i)) (liked_videos us u))), w3)"
    using fv [OF refs(2) liked_videos_props(1)] by blast
  show ?thesis
    by (simp add: GetTopVideos_def uc vc run_call_bind 1 2 liked_videos_def [symmetric] 3 Let_def
        recommendation_def u)
qed

subsection \<open>The deployment\<close>

text \<open>What the recommendation server reaches by dialling: the handlers of the two programs, each behind
  its interceptor. The clients of gRPC are documented to run the registered handler on the request
  and to return its answer; \<open>grpc.Dial\<close> does not wait for a connection, so it succeeds.\<close>

definition reaches ::
  "(string \<Rightarrow> ('r \<times> logs, 'e + 'conn) state) \<Rightarrow> ('conn, 'r \<times> logs) env \<Rightarrow> ('r, 'f) sources \<Rightarrow>
   logger \<times> UserServiceServer \<Rightarrow> logger \<times> VideoServiceServer \<Rightarrow> rec_flags \<Rightarrow> bool" where
  "reaches dial env src user video f \<longleftrightarrow>
     (\<forall>w. \<exists>c. run_state (dial (rf_userServiceAddr f)) w = (Inr c, w) \<and>
        behind_interceptor (fst user) (GetUser src (snd user)) (NewUserServiceClient env c)) \<and>
     (\<forall>w. \<exists>c. run_state (dial (rf_videoServiceAddr f)) w = (Inr c, w) \<and>
        behind_interceptor (fst video) (GetVideo src (snd video)) (vc_GetVideo (NewVideoServiceClient env c)))"

text \<open>The pools of a running server: all connections reach the two services, and the counters have
  counted the requests so far.\<close>

definition pooled ::
  "('conn, 'w) env \<Rightarrow> UserServiceServer \<Rightarrow> VideoServiceServer \<Rightarrow> nat \<Rightarrow> nat \<Rightarrow> ('conn, 'w) VideoRecServiceServer \<Rightarrow> bool" where
  "pooled env us vs n k server \<longleftrightarrow> \<not> useMock server \<and> good_batch_size us vs server \<and>
     length (userConns server) = n \<and> length (videoConns server) = n \<and>
     (\<forall>c \<in> set (userConns server). users.steady us (NewUserServiceClient env c)) \<and>
     (\<forall>c \<in> set (videoConns server). videos.steady vs (vc_GetVideo (NewVideoServiceClient env c))) \<and>
     userConnIndex server = of_nat k \<and> videoConnIndex server = of_nat k"

text \<open>For a pool of four, the index that is the least of all signed numbers is still a valid one; the
  next is not.\<close>

lemma round_robin_four:
  assumes "length conns = 4"
  shows "k \<le> 2 ^ 31 \<Longrightarrow> \<exists>c \<in> set conns. round_robin (of_nat k) conns = Some c"
    and "round_robin (of_nat (2 ^ 31 + 1)) conns = None"
proof -
  have n: "sint (of_int (len conns) :: 32 word) = 4" using assms by simp
  have ne: "conns \<noteq> []" using assms by auto
  show "round_robin (of_nat (2 ^ 31 + 1)) conns = None"
    using n by (simp add: round_robin_def go_rem_negative go_index_def)
  assume k: "k \<le> 2 ^ 31"
  show "\<exists>c \<in> set conns. round_robin (of_nat k) conns = Some c"
  proof (cases "k = 2 ^ 31")
    case True
    have "round_robin (of_nat (2 ^ 31)) conns = Some (conns ! 0)"
      using n assms by (simp add: round_robin_def go_rem_negative go_index_def)
    with True ne show ?thesis by (metis length_greater_0_conv nth_mem)
  next
    case False
    with k have "k < 2 ^ 31" by simp
    from round_robin_below [OF this ne] assms have "round_robin (of_nat k) conns = Some (conns ! (k mod 4))" by simp
    moreover have "conns ! (k mod 4) \<in> set conns" using assms by (intro nth_mem) simp
    ultimately show ?thesis by blast
  qed
qed

lemma updateStats_pool [simp]:
  "useMock (updateStats l a b c d s) = useMock s" "userConns (updateStats l a b c d s) = userConns s"
  "videoConns (updateStats l a b c d s) = videoConns s"
  "userConnIndex (updateStats l a b c d s) = userConnIndex s"
  "videoConnIndex (updateStats l a b c d s) = videoConnIndex s"
  by (simp_all add: updateStats_def Let_def)

lemma pooled_request:
  assumes pool: "pooled env us vs 4 k server" and fit: "databases_fit us vs"
    and user: "req_UserId req \<in> dom (us_users us)" and k: "k \<le> 2 ^ 31"
  shows "\<exists>server' w'. run_state (GetTopVideos env req server) w =
    (Returns (Inr (recommendation (Ranker_Rank env) us vs req), server'), w') \<and> pooled env us vs 4 (Suc k) server'"
proof -
  from pool have p: "\<not> useMock server" "good_batch_size us vs server"
    "length (userConns server) = 4" "length (videoConns server) = 4"
    "\<forall>c \<in> set (userConns server). users.steady us (NewUserServiceClient env c)"
    "\<forall>c \<in> set (videoConns server). videos.steady vs (vc_GetVideo (NewVideoServiceClient env c))"
    "userConnIndex server = of_nat k" "videoConnIndex server = of_nat k" by (simp_all add: pooled_def)
  obtain uc where uc: "uc \<in> set (userConns server)" "round_robin (of_nat k) (userConns server) = Some uc"
    using round_robin_four(1) [OF p(3) k] by blast
  obtain vc where vc: "vc \<in> set (videoConns server)" "round_robin (of_nat k) (videoConns server) = Some vc"
    using round_robin_four(1) [OF p(4) k] by blast
  define s1 where "s1 = server\<lparr>numActiveRequests := numActiveRequests server + 1, userConnIndex := of_nat k + 1\<rparr>"
  define s2 where "s2 = s1\<lparr>videoConnIndex := of_nat k + 1\<rparr>"
  have 1: "user_client_of env (server\<lparr>numActiveRequests := numActiveRequests server + 1\<rparr>) =
      Some (NewUserServiceClient env uc, s1)"
    using p uc by (simp add: user_client_of_def GetUserConnRoundRobin_def s1_def)
  have 2: "video_client_of env s1 = Some (NewVideoServiceClient env vc, s2)"
    using p vc by (simp add: video_client_of_def GetVideoConnRoundRobin_def s1_def s2_def)
  have opts: "options s1 = options server" "options s2 = options server" by (simp_all add: s1_def s2_def)
  have steady: "users.steady us (NewUserServiceClient env uc)"
    "videos.steady vs (vc_GetVideo (NewVideoServiceClient env vc))"
    using p(5,6) uc(1) vc(1) by simp_all
  have "pooled env us vs 4 (Suc k) (updateStats (env_latency env) False False False False s2)"
    using p by (simp add: pooled_def good_batch_size_def s1_def s2_def add.commute)
  with GetTopVideos_steady [OF fit p(2) user 1 2 opts steady, of w] show ?thesis by blast
qed

lemma pooled_exhausted:
  assumes "pooled env us vs 4 (2 ^ 31 + 1) server"
  shows "run_state (GetTopVideos env req server) w = (Panics, w)"
  using assms round_robin_four(2) [of "userConns server"]
  by (simp add: pooled_def GetTopVideos_def user_client_of_def GetUserConnRoundRobin_def Let_def)

subsection \<open>Running the deployment\<close>

text \<open>What happens to a running recommendation server, one event after the other: a request, handled at
  some time with some latency, through the interceptor of its own; or its refreshing goroutine
  replaces the cache (by the rounds of \<open>UpdateTrendingVideos\<close>, which do nothing else to the server). A
  handler that panics takes the program down with it.\<close>

datatype rec_event = Ask GetTopVideosRequest int "64 word" | Refreshed "VideoInfo list" "64 word"

fun serve_events ::
  "logger \<Rightarrow> string \<Rightarrow> ('conn, 'w) env \<Rightarrow> rec_event list \<Rightarrow>
   (('conn, 'w) VideoRecServiceServer \<times> 'w) \<times> logs \<Rightarrow> GetTopVideosResponse reply list outcome" where
  "serve_events logger peerAddr env [] st = Returns []"
| "serve_events logger peerAddr env (Refreshed videos expiry # es) ((server, w), l) =
     serve_events logger peerAddr env es
       ((server\<lparr>trendingVideos := Some videos, expirationTime := expiry\<rparr>, w), l)"
| "serve_events logger peerAddr env (Ask req now ms # es) st =
     (case run_state (MakeMiddleware logger peerAddr (uint ms)
             (rec_service (env\<lparr>env_now := now, env_latency := ms\<rparr>)) req) st of
        (Returns a, st') \<Rightarrow>
          (case serve_events logger peerAddr env es st' of Returns as \<Rightarrow> Returns (a # as) | Blocks \<Rightarrow> Blocks | Panics \<Rightarrow> Panics)
      | (Blocks, _) \<Rightarrow> Blocks
      | (Panics, _) \<Rightarrow> Panics)"

fun asked :: "rec_event list \<Rightarrow> GetTopVideosRequest list" where
  "asked [] = []"
| "asked (Ask req now ms # es) = req # asked es"
| "asked (Refreshed videos expiry # es) = asked es"

lemma pooled_env [simp]: "pooled (env\<lparr>env_now := now, env_latency := ms\<rparr>) us vs n k server = pooled env us vs n k server"
  by (simp add: pooled_def)

lemma pooled_refreshed [simp]:
  "pooled env us vs n k (server\<lparr>trendingVideos := t, expirationTime := e\<rparr>) = pooled env us vs n k server"
  by (simp add: pooled_def good_batch_size_def)

lemma serve_events_pooled:
  assumes "databases_fit us vs" and "pooled env us vs 4 k server" and "k \<le> 2 ^ 31 + 1"
    and "\<forall>req \<in> set (asked es). req_UserId req \<in> dom (us_users us)"
  shows "serve_events logger peerAddr env es ((server, w), l) =
    (if k + length (asked es) \<le> 2 ^ 31 + 1
     then Returns (map (Inr \<circ> recommendation (Ranker_Rank env) us vs) (asked es)) else Panics)"
  using assms(2-4)
proof (induction es arbitrary: k server w l)
  case (Cons e es)
  show ?case
  proof (cases e)
    case (Refreshed videos expiry)
    with Cons show ?thesis by simp
  next
    case (Ask req now ms)
    let ?env = "env\<lparr>env_now := now, env_latency := ms\<rparr>"
    show ?thesis
    proof (cases "k = 2 ^ 31 + 1")
      case True
      then have "run_state (GetTopVideos ?env req server) w = (Panics, w)"
        using Cons.prems(1) by (intro pooled_exhausted [of _ us vs]) simp
      with Ask True show ?thesis by (simp add: MakeMiddleware_def rec_service_def)
    next
      case False
      with Cons.prems(2) have k: "k \<le> 2 ^ 31" by linarith
      have user: "req_UserId req \<in> dom (us_users us)" using Cons.prems(3) Ask by simp
      have "pooled ?env us vs 4 k server" using Cons.prems(1) by simp
      from pooled_request [OF this assms(1) user k, of w] obtain server' w' where
        req: "run_state (GetTopVideos ?env req server) w =
          (Returns (Inr (recommendation (Ranker_Rank env) us vs req), server'), w')"
        and pool: "pooled env us vs 4 (Suc k) server'" by auto
      have users: "\<forall>req \<in> set (asked es). req_UserId req \<in> dom (us_users us)" using Cons.prems(3) Ask by simp
      have "Suc k \<le> 2 ^ 31 + 1" using k by linarith
      from Cons.IH [OF pool this users] Ask show ?thesis by (simp add: MakeMiddleware_def rec_service_def req)
    qed
  qed
qed simp

text \<open>What the programs are started with by default.\<close>

lemma default_options:
  "user_server_main Listen lf src default_user_flags = Inr (ulog, us, gu) \<Longrightarrow>
     fst (MakeUserServiceServer src DefaultUserServiceOptions) = us"
  "video_server_main Listen lf src default_video_flags = Inr (vlog, vs, gv) \<Longrightarrow>
     fst (MakeVideoServiceServer src DefaultVideoServiceOptions) = vs"
proof -
  assume "user_server_main Listen lf src default_user_flags = Inr (ulog, us, gu)"
  then have "MakeUserServiceServer src DefaultUserServiceOptions = (us, gu)"
    by (simp add: user_server_main_def default_user_flags_def DefaultUserServiceOptions_def
        split: if_splits option.splits)
  then show "fst (MakeUserServiceServer src DefaultUserServiceOptions) = us" by simp
next
  assume "video_server_main Listen lf src default_video_flags = Inr (vlog, vs, gv)"
  then have "MakeVideoServiceServer src DefaultVideoServiceOptions = (vs, gv)"
    by (simp add: video_server_main_def default_video_flags_def DefaultVideoServiceOptions_def
        split: if_splits option.splits)
  then show "fst (MakeVideoServiceServer src DefaultVideoServiceOptions) = vs" by simp
qed

text \<open>The pools that \<open>MakeVideoRecServiceServer\<close> dials.\<close>

lemma dial_pool_reaches:
  assumes u: "\<And>w. \<exists>c. run_state (dial (UserServiceAddr opts)) w = (Inr c, w) \<and> P c"
    and v: "\<And>w. \<exists>c. run_state (dial (VideoServiceAddr opts)) w = (Inr c, w) \<and> Q c"
    and "\<forall>c \<in> set us. P c" and "\<forall>c \<in> set vs. Q c"
  shows "\<exists>us' vs'. run_state (dial_pool dial opts n us vs) w = (Inr (us', vs'), w) \<and>
    length us' = length us + n \<and> length vs' = length vs + n \<and> (\<forall>c \<in> set us'. P c) \<and> (\<forall>c \<in> set vs'. Q c)"
  using assms(3,4)
proof (induction n arbitrary: us vs)
  case (Suc n)
  obtain c where c: "run_state (dial (UserServiceAddr opts)) w = (Inr c, w)" "P c" using u by blast
  obtain d where d: "run_state (dial (VideoServiceAddr opts)) w = (Inr d, w)" "Q d" using v by blast
  obtain us' vs' where "run_state (dial_pool dial opts n (us @ [c]) (vs @ [d])) w = (Inr (us', vs'), w)"
    "length us' = length (us @ [c]) + n" "length vs' = length (vs @ [d]) + n" "\<forall>c \<in> set us'. P c" "\<forall>c \<in> set vs'. Q c"
    using Suc.IH [of "us @ [c]" "vs @ [d]"] Suc.prems c(2) d(2) by auto
  then show ?case by (simp add: CreateConnection_def run_state_bind c(1) d(1))
qed simp

lemma default_services:
  assumes "user_server_main Listen lf src default_user_flags = Inr (ulog, us, gu)"
    and "video_server_main Listen lf src default_video_flags = Inr (vlog, vs, gv)" and "sources_ok src"
  shows "healthy (us_fi us)" "healthy (vs_fi vs)" "databases_fit us vs"
    "uso_MaxBatchSize (us_options us) = 50" "vso_MaxBatchSize (vs_options vs) = 50"
proof -
  note us = default_options(1) [OF assms(1)] and vs = default_options(2) [OF assms(2)]
  show "healthy (us_fi us)" using MakeUserServiceServer_fields [OF us]
    by (simp add: healthy_def DefaultUserServiceOptions_def)
  show "healthy (vs_fi vs)" using MakeVideoServiceServer_fields [OF vs]
    by (simp add: healthy_def DefaultVideoServiceOptions_def)
  have "uso_Seed DefaultUserServiceOptions = vso_Seed DefaultVideoServiceOptions"
    by (simp add: DefaultUserServiceOptions_def DefaultVideoServiceOptions_def)
  then show "databases_fit us vs" using us vs by (rule databases_fit [OF assms(3)])
  show "uso_MaxBatchSize (us_options us) = 50" "vso_MaxBatchSize (vs_options vs) = 50"
    using MakeUserServiceServer_fields [OF us] MakeVideoServiceServer_fields [OF vs]
    by (simp_all add: DefaultUserServiceOptions_def DefaultVideoServiceOptions_def)
qed

lemma default_pools:
  assumes "user_server_main Listen lf src default_user_flags = Inr (ulog, us, gu)"
    and "video_server_main Listen lf src default_video_flags = Inr (vlog, vs, gv)" and "sources_ok src"
    and reach: "reaches dial env src (ulog, us) (vlog, vs) default_rec_flags"
    and main: "run_state (rec_server_main Listen lf dial now default_rec_flags) w = (Inr (rlog, server, refreshing), w')"
  shows "pooled env us vs 4 0 server" "refreshing" "w' = w"
proof -
  note d = default_services [OF assms(1-3)]
  let ?opts = "rec_options default_rec_flags"
  let ?P = "\<lambda>c. users.steady us (NewUserServiceClient env c)"
  let ?Q = "\<lambda>c. videos.steady vs (vc_GetVideo (NewVideoServiceClient env c))"
  have u: "\<exists>c. run_state (dial (UserServiceAddr ?opts)) w = (Inr c, w) \<and> ?P c" for w
  proof -
    from reach obtain c where
      "run_state (dial (rf_userServiceAddr default_rec_flags)) w = (Inr c, w)"
      "behind_interceptor ulog (GetUser src us) (NewUserServiceClient env c)"
      unfolding reaches_def fst_conv snd_conv by blast
    with steady_users [OF d(1)] show ?thesis by (auto simp: rec_options_def)
  qed
  have v: "\<exists>c. run_state (dial (VideoServiceAddr ?opts)) w = (Inr c, w) \<and> ?Q c" for w
  proof -
    from reach obtain c where
      "run_state (dial (rf_videoServiceAddr default_rec_flags)) w = (Inr c, w)"
      "behind_interceptor vlog (GetVideo src vs) (vc_GetVideo (NewVideoServiceClient env c))"
      unfolding reaches_def fst_conv snd_conv by blast
    with steady_videos [OF d(2)] show ?thesis by (auto simp: rec_options_def)
  qed
  have "ClientPoolSize ?opts = 4" by (simp add: rec_options_def default_rec_flags_def)
  then obtain ucs vcs where pool: "run_state (dial_pool dial ?opts 4 [] []) w = (Inr (ucs, vcs), w)"
    and len: "length ucs = 4" "length vcs = 4" and ok: "\<forall>c \<in> set ucs. ?P c" "\<forall>c \<in> set vcs. ?Q c"
    using dial_pool_reaches [of dial ?opts ?P ?Q "[]" "[]" 4 w, OF u v] by auto
  have "run_state (MakeVideoRecServiceServer dial now ?opts) w =
      (Inr ((new_server ?opts now)\<lparr>userConns := ucs, videoConns := vcs\<rparr>, True), w)"
    using pool by (simp add: MakeVideoRecServiceServer_def run_state_bind rec_options_def default_rec_flags_def)
  with main have s: "server = (new_server ?opts now)\<lparr>userConns := ucs, videoConns := vcs\<rparr>" "refreshing" "w' = w"
    by (auto simp: rec_server_main_def run_state_bind split: if_splits option.splits)
  from s(2,3) show "refreshing" "w' = w" .
  show "pooled env us vs 4 0 server"
    using len ok d(4,5)
    by (simp add: s(1) pooled_def new_server_def good_batch_size_def rec_options_def default_rec_flags_def)
qed

text \<open>C39. The deployment: when the three server programs start with their default flags and the
  recommendation server's connections reach the other two, then, for every seed-dependent database,
  every list of events, and every content that the cache gets in between, the requests for existing
  users are answered by the reference function of the two databases, batch by batch over the connections
  of the pools and through all interceptors; after \<open>2 ^ 31 + 1\<close> requests the signed counters of
  the pools have wrapped and the next request crashes the program.\<close>

theorem default_programs_serve:
  assumes "sources_ok src"
    and "user_server_main Listen lf src default_user_flags = Inr (ulog, us, gu)"
    and "video_server_main Listen lf src default_video_flags = Inr (vlog, vs, gv)"
    and "reaches dial env src (ulog, us) (vlog, vs) default_rec_flags"
    and "run_state (rec_server_main Listen lf dial now default_rec_flags) w = (Inr (rlog, server, refreshing), w')"
    and "\<forall>req \<in> set (asked es). req_UserId req \<in> dom (us_users us)"
  shows "serve_events rlog peerAddr env es ((server, w'), l) =
    (if length (asked es) \<le> 2 ^ 31 + 1
     then Returns (map (Inr \<circ> recommendation (Ranker_Rank env) us vs) (asked es)) else Panics)"
  using serve_events_pooled [OF default_services(3) [OF assms(2,3,1)] default_pools(1) [OF assms(2,3,1,4,5)] _ assms(6)]
  by simp

text \<open>The requests of the load generator are for existing users, so it is served until the counters wrap.\<close>

lemma loadgen_users_exist:
  assumes "sources_ok src" and "user_server_main Listen lf src default_user_flags = Inr (ulog, us, gu)"
  shows "(getNextUserId ^^ k) (of_int USER_ID_OFFSET) \<in> dom (us_users us)"
    and "getUserId netId \<in> dom (us_users us)"
proof -
  obtain n where n: "5000 \<le> n" "dom (us_users us) = user_ids n"
    using MakeUserServiceServer_users [OF assms(1) default_options(1) [OF assms(2)]] .
  show "(getNextUserId ^^ k) (of_int USER_ID_OFFSET) \<in> dom (us_users us)"
    unfolding getNextUserId_iterate using n by (intro ids_exist) simp_all
  obtain m where "m < 5000" "getUserId netId = of_nat (200000 + m)" using getUserId_range [of netId] by blast
  with ids_exist [OF n(2,1)] show "getUserId netId \<in> dom (us_users us)" by metis
qed

text \<open>A deployment on one machine: a connection is the address it was dialled with.\<close>

definition local_env :: "(string, int \<times> logs) env" where
  "local_env = \<lparr>NewUserServiceClient = (\<lambda>_. MakeMiddleware StderrLogger ''::1'' 2 (GetUser fixed_sources default_us)),
     NewVideoServiceClient = (\<lambda>_. \<lparr>vc_GetVideo = MakeMiddleware StderrLogger ''::1'' 2 (GetVideo fixed_sources default_vs),
       vc_GetTrendingVideos = MakeMiddleware StderrLogger ''::1'' 2 (\<lambda>_. GetTrendingVideos fixed_sources default_vs 1000) ()\<rparr>),
     Ranker_Rank = (\<lambda>u v. Rank plain_cipher [] u v), env_now = 1000, env_latency = 3\<rparr>"

definition local_dial :: "string \<Rightarrow> (int \<times> logs, unit + string) state" where
  "local_dial address = State_Monad.return (Inr address)"

definition no_logs :: logs where
  "no_logs = \<lparr>stderr_log = [], influx_points = []\<rparr>"

theorem default_programs_serve_witness:
  "\<exists>server. run_state (rec_server_main (\<lambda>_. True) default_log_flags local_dial 1000 default_rec_flags) (0, no_logs) =
      (Inr (StderrLogger, server, True), (0, no_logs)) \<and>
    serve_events StderrLogger ''::1'' local_env
      [Ask \<lparr>req_UserId = 200000, Limit = 5\<rparr> 1000 3, Refreshed [] 2000, Ask \<lparr>req_UserId = 200000, Limit = 7\<rparr> 1001 4]
      ((server, (0, no_logs)), no_logs) =
    Returns [Inr (recommendation (\<lambda>u v. Rank plain_cipher [] u v) default_us default_vs \<lparr>req_UserId = 200000, Limit = 5\<rparr>),
      Inr (recommendation (\<lambda>u v. Rank plain_cipher [] u v) default_us default_vs \<lparr>req_UserId = 200000, Limit = 7\<rparr>)]"
proof -
  have log: "MakeLogger_flags default_log_flags = Some StderrLogger"
    by (simp add: MakeLogger_flags_def MakeLogger_def default_log_flags_def)
  obtain gu where u: "user_server_main (\<lambda>_. True) default_log_flags fixed_sources default_user_flags =
      Inr (StderrLogger, default_us, gu)"
    by (simp add: user_server_main_def log default_us_def default_user_flags_def DefaultUserServiceOptions_def)
      (metis surj_pair fst_conv)
  obtain gv where v: "video_server_main (\<lambda>_. True) default_log_flags fixed_sources default_video_flags =
      Inr (StderrLogger, default_vs, gv)"
    by (simp add: video_server_main_def log default_vs_def default_video_flags_def DefaultVideoServiceOptions_def)
      (metis surj_pair fst_conv)
  have reach: "reaches local_dial local_env fixed_sources (StderrLogger, default_us) (StderrLogger, default_vs)
      default_rec_flags"
    by (auto simp: reaches_def behind_interceptor_def local_dial_def local_env_def)
  obtain server where main: "run_state (rec_server_main (\<lambda>_. True) default_log_flags local_dial 1000 default_rec_flags)
      (0, no_logs) = (Inr (StderrLogger, server, True), (0, no_logs))"
    by (simp add: rec_server_main_def log MakeVideoRecServiceServer_def rec_options_def default_rec_flags_def
        eval_nat_numeral CreateConnection_def local_dial_def run_state_bind)
  obtain x where x: "us_users default_us 200000 = Some x" by (rule default_user)
  have rank: "Ranker_Rank local_env = (\<lambda>u v. Rank plain_cipher [] u v)" by (simp add: local_env_def)
  let ?es = "[Ask \<lparr>req_UserId = 200000, Limit = 5\<rparr> 1000 3, Refreshed [] 2000, Ask \<lparr>req_UserId = 200000, Limit = 7\<rparr> 1001 4]"
  have asked: "\<forall>req \<in> set (asked ?es). req_UserId req \<in> dom (us_users default_us)" using x by auto
  note served = default_programs_serve [OF fixed_sources_ok u v reach main asked, of "''::1''" no_logs]
  have "length (asked ?es) \<le> 2 ^ 31 + 1" by simp
  with served have "serve_events StderrLogger ''::1'' local_env ?es ((server, (0, no_logs)), no_logs) =
      Returns (map (Inr \<circ> recommendation (Ranker_Rank local_env) default_us default_vs) (asked ?es))"
    by (simp only: if_True)
  then show ?thesis unfolding rank by (intro exI [of _ server] conjI main) (simp only: asked.simps list.map comp_def)
qed

end
