(* ===== verification/Spec2Isabelle.thy ===== *)
theory Spec2Isabelle
  imports Raft_Contracts Raft_Types Raft_Replica Raft_Timing Raft_Over_Labrpc Raft_Links Raft_Tester Labgob
    String_Set_Concurrent Video_Rec_Stats Video_Rec_Programs
begin

text \<open>
  A verification library for the Go code of four lab projects: the string sets of \<open>lab0\<close>, the
  video recommendation services of \<open>lab1\<close> and \<open>lab2\<close>, and the Raft consensus module of \<open>lab3\<close> with
  the simulated network and the test configuration that it runs in.

  \<^bold>\<open>The programs.\<close> \<open>lab0\<close> has two implementations of a concurrent set of strings behind one
  interface. \<open>lab1\<close> and \<open>lab2\<close> have a user service and a video service with generated databases,
  deterministic password hashes and failure injection, and a recommendation service that calls both,
  ranks, batches, retries and falls back to a cache of trending videos; \<open>lab2\<close> adds pools of
  connections, and all other files of the two labs are equal, so the model names those of \<open>lab2\<close>.
  \<open>lab3\<close> has Raft peers that call each other over \<open>labrpc\<close>, whose messages go through \<open>labgob\<close>;
  \<open>config.go\<close> starts, crashes, connects and checks them.

  \<^bold>\<open>Conventions.\<close> An operation that can panic returns an \<open>option\<close>, \<open>None\<close> being the panic; an operation
  with Go errors returns a sum, \<open>Inl\<close> the error. Go's \<open>int\<close> is \<open>int\<close> where the code only counts and
  compares, and a word where it wraps: ids, scores, hashes, counters and the round robin. A critical
  section is one step, except in \<open>String_Set_Concurrent\<close>, where the lock itself is what is verified
  and every access to memory is a step; goroutines are interleavings of steps. Time, random numbers, the decisions of
  the network and the scheduler are arguments of the steps, so a theorem holds for all of them.

  \<^bold>\<open>Prelude.\<close> \<open>Go_Prelude\<close>: indexing, slicing and updating of Go slices with their panics, the
  collection \<open>frame_simps\<close>, majorities (locale \<open>quorum_system\<close>). \<open>Go_Strings\<close>: formatting and parsing
  of numbers, base64, FNV and the other pieces of the standard library that are shared.

  \<^bold>\<open>Raft (\<open>lab3/raft/raft.go\<close>, \<open>persister.go\<close>).\<close>
  \<^item> \<open>Raft_State\<close>: the peer, its store (locale \<open>stable_store\<close>), \<open>persist\<close>, \<open>readPersist\<close>, the role
    conversions, \<open>Start\<close>, \<open>Make\<close>. \<open>Raft_Rpc\<close>: \<open>AppendEntries\<close>, \<open>RequestVote\<close>; \<open>Raft_Leader\<close>: the senders,
    cut at their calls, the commit rule, the back-off, \<open>startVoting\<close>. \<open>Raft_Peer_Inv\<close>: the invariant of
    one peer under all operations.
  \<^item> \<open>Raft_Cluster\<close>: peers, calls in flight, loss, reordering, timers, crashes and restarts as a step
    relation and as an executable function; \<open>Raft_Runs\<close> has runs of it, used by the witnesses.
  \<^item> \<open>Election_Spec\<close> is the abstract election; \<open>Raft_Election\<close> proves that the cluster refines it.
    \<open>Raft_Log\<close>, \<open>Raft_Commit\<close> and \<open>Raft_Safety\<close> carry the invariants of log matching and commitment, and
    \<open>Raft_Properties\<close> reads off election safety, leader completeness, state machine safety, and that no
    handler panics. \<open>Raft_Types\<close>: the types that votes, terms, tables and messages have in every
    reachable state. \<open>Raft_Replica\<close>: the cluster refines one append-only log of proposed commands, which
    the services apply (locale \<open>ordered_delivery\<close>).
  \<^item> \<open>Raft_Replication\<close>: the whole retry loop against an answering peer, with fuel: it ends within as
    many rounds as \<open>nextIndex\<close> has positions below it, except in the case where it provably never ends.
    \<open>Raft_Contracts\<close>: what each operation does on every branch, and the order by which votes compare
    logs (an instance of \<open>linorder\<close>): some peer is always electable.
  \<^item> \<open>Raft_Roles\<close> and \<open>Raft_Timing\<close>: the control loops \<open>startRoles\<close>, \<open>startFollower\<close>, \<open>startCandidate\<close> and
    \<open>startLeader\<close> with timers, channels, the lock and a clock. A loop calls an election only after it
    has looked at \<open>killed\<close> and twice at the role, with the lock free, and has waited out a timeout; the
    loops keep elections apart and end when the peer is killed; they can also lose the lock. All that
    they do the cluster can do, so its invariants hold of them, and they provide \<open>ordered_delivery\<close> too.

  \<^bold>\<open>The environment of Raft.\<close> \<open>Labrpc\<close>: the network, servers, services and requests of
  \<open>labrpc/labrpc.go\<close> over a codec that is an argument; \<open>Labrpc_Properties\<close>: a positive answer is what one
  execution of the method replied, dead servers are silent, every request returns. \<open>Raft_Over_Labrpc\<close>: the
  senders of \<open>raft.go\<close> and the service of a \<open>Raft\<close> object, and that a call over the network is a
  delivery step of the cluster, which is what \<open>Raft_Cluster\<close> assumes of the network. \<open>Labgob\<close>: the
  checks of \<open>labgob/labgob.go\<close>. \<open>Raft_Config\<close>, \<open>Raft_Links\<close>, \<open>Raft_Checks\<close>: the record of a test, its
  operations on the network, which hand a request to a server exactly over a current link between
  connected peers of which the called one has been started, and the checkers, which never report an error of
  the cluster. \<open>Raft_Tester\<close>:
  the functions \<open>wait\<close>, \<open>one\<close>, \<open>begin\<close>, \<open>end\<close> and \<open>checkTimeout\<close>, against a cluster that moves while they
  poll it.

  \<^bold>\<open>String sets (\<open>lab0\<close>).\<close> \<open>String_Set\<close>: both implementations as instances of the locale
  \<open>string_set\<close>, and their equivalence; \<open>String_Set_Concurrent\<close>: concurrent \<open>Add\<close>s, which interleave
  between any two accesses to the locks, the maps and the counter; they are linearizable, in an order
  that respects which calls had returned before others began, and free of deadlock.

  \<^bold>\<open>Services (\<open>lab1\<close>, \<open>lab2\<close>).\<close> \<open>Det_Bcrypt\<close>, \<open>Ranker\<close>, \<open>Failure_Injection\<close>: the packages of these names.
  \<open>User_Service\<close>, \<open>Video_Service\<close>: the generated databases and the handlers; \<open>Backend_Services\<close>: their common
  contract (locale \<open>batch_service\<close>) and how the two databases fit together. \<open>Video_Rec\<close>: the
  recommendation service; \<open>Video_Rec_Fetch\<close>: batching and the round robin; \<open>Video_Rec_Properties\<close>: the
  answers end to end, the accounting of requests and the cache; \<open>Video_Rec_Stats\<close>: the interleaving in
  which the number of active requests goes wrong; \<open>Video_Rec_Lab1\<close>: the version of \<open>lab1\<close>, which agrees
  with the pools when dialling succeeds. \<open>Video_Rec_Clients\<close>: the programs under \<open>cmd\<close> (\<open>frontend\<close>,
  \<open>loadgen\<close> with its concurrent counters, \<open>stats\<close>) and the interceptor of \<open>logging.go\<close>.
  \<open>Video_Rec_Programs\<close>: the \<open>main\<close> functions of the three servers with their flags, and the
  deployment of all three with the default flags, compared with a reference function of the two databases.

  \<^bold>\<open>Bounds and fuel.\<close> All loops are structural or come with a measure, except the retry loop of
  \<open>Raft_Replication\<close>, where the theorem gives the fuel that is enough, and the waiting loops of \<open>labrpc\<close>,
  which are states of a request. The polling loops of \<open>Raft_Tester\<close> have measures on the clock, the
  traversal of types in \<open>Labgob\<close> one on the types not yet visited. The round robin of the pools is kept
  at 32 bits, so the deployment theorem counts requests up to \<open>2 ^ 31 + 1\<close>. Messages are lost by not being delivered. Runs are of any length and
  clusters of any size; only the runs of the witnesses have three peers.

  \<^bold>\<open>Parameters.\<close> The blowfish cipher and the random data generators of the services, gob's encoding in
  \<open>Labrpc\<close>, regular expressions in \<open>String_Set\<close>, the tables of Unicode in \<open>Labgob\<close>, gRPC between the
  services (dialling, closing and the generated clients), listening sockets, the reverse lookup of addresses. Their
  hypotheses are named definitions, and the witnesses instantiate them.

  \<^bold>\<open>Not modelled.\<close> Code generated by protoc; printing, the parsing of flags, and the debug output of
  \<open>raft/util.go\<close>, which have no state of their own; the rate limiter and the quotients of floating-point
  numbers in reports; the client of InfluxDB beyond the points written to it; the Go memory model below
  critical sections, except where the code leaves the lock (\<open>Video_Rec_Stats\<close>) or counts with atomic
  operations (\<open>String_Set_Concurrent\<close>, \<open>Video_Rec_Clients\<close>); the interleaving of a handler of the
  recommendation service with other handlers and with the refreshing goroutine, other than in
  \<open>Video_Rec_Stats\<close>; what the network does to the calls of the deployment in \<open>Video_Rec_Programs\<close>, which
  are assumed to arrive; a message read in the middle of \<open>nCommitted\<close>; overflow of times and of Raft's terms and
  indices, which would take longer than any run; tests and benchmarks. The files of \<open>lab1\<close> that are
  equal to those of \<open>lab2\<close> are not modelled a second time.
\<close>

end
